(* ===== verification/Jam_Prelude.thy ===== *)
theory Jam_Prelude
  imports Main "HOL-Library.Word"
begin

text \<open>
  What every component shares: the machine integers of the Rust code, the outcome of a
  fallible function (a panic, an error or a value), slices and indexing with their panics, the
  big-endian byte order of \<open>to_be_bytes\<close> / \<open>from_be_bytes\<close>, saturating subtraction, and
  the interface of a component that is a deterministic event machine with an invariant.

  Integers keep their width (\<open>u16\<close>, \<open>u32\<close>, \<open>u64\<close>) wherever the code computes with them;
  \<open>usize\<close> lengths and positions are \<open>nat\<close>, their subtraction guarded by \<open>usize_sub\<close>.
\<close>

unbundle bit_operations_syntax

type_synonym u8 = "8 word"
type_synonym u16 = "16 word"
type_synonym u32 = "32 word"
type_synonym u64 = "64 word"

named_theorems outcome_simps "how a value comes out of a chain of fallible steps"
named_theorems codec_simps "what a field reader accepts and a field writer writes"

section \<open>Outcomes\<close>

text \<open>
  A Rust function that returns \<open>Result\<close> ends in one of three ways: it panics (an index out
  of range, an arithmetic underflow), it returns \<open>Err\<close>, or it returns \<open>Ok\<close>. The \<open>?\<close>
  operator and sequencing are \<open>obind\<close>.
\<close>

datatype ('e, 'a) outcome = Panic | Err 'e | Ok 'a

fun obind :: "('e, 'a) outcome \<Rightarrow> ('a \<Rightarrow> ('e, 'b) outcome) \<Rightarrow> ('e, 'b) outcome" where
  "obind Panic f = Panic"
| "obind (Err e) f = Err e"
| "obind (Ok a) f = f a"

lemma obind_eq_Ok [outcome_simps]:
  "obind m f = Ok b \<longleftrightarrow> (\<exists>a. m = Ok a \<and> f a = Ok b)"
  by (cases m) auto

lemma obind_eq_Panic [outcome_simps]:
  "obind m f = Panic \<longleftrightarrow> m = Panic \<or> (\<exists>a. m = Ok a \<and> f a = Panic)"
  by (cases m) auto

lemma obind_cong [fundef_cong]:
  "\<lbrakk>m = m'; \<And>a. m' = Ok a \<Longrightarrow> f a = f' a\<rbrakk> \<Longrightarrow> obind m f = obind m' f'"
  by (cases m') auto

text \<open>Indexing, slicing and \<open>usize\<close> subtraction, with the panics of the language.\<close>

definition idx :: "'a list \<Rightarrow> nat \<Rightarrow> ('e, 'a) outcome" where
  "idx xs i = (if i < length xs then Ok (xs ! i) else Panic)"

definition subslice :: "'a list \<Rightarrow> nat \<Rightarrow> nat \<Rightarrow> ('e, 'a list) outcome" where
  "subslice xs i j = (if i \<le> j \<and> j \<le> length xs then Ok (take (j - i) (drop i xs)) else Panic)"

definition usize_sub :: "nat \<Rightarrow> nat \<Rightarrow> ('e, nat) outcome" where
  "usize_sub a b = (if b \<le> a then Ok (a - b) else Panic)"

lemma idx_in [simp]: "i < length xs \<Longrightarrow> idx xs i = Ok (xs ! i)"
  by (simp add: idx_def)

lemma subslice_in [simp]:
  "\<lbrakk>i \<le> j; j \<le> length xs\<rbrakk> \<Longrightarrow> subslice xs i j = Ok (take (j - i) (drop i xs))"
  by (simp add: subslice_def)

lemma usize_sub_in [simp]: "b \<le> a \<Longrightarrow> usize_sub a b = Ok (a - b)"
  by (simp add: usize_sub_def)

text \<open>
  \<open>out[i..i + v.len()].copy_from_slice(v)\<close>: the slice panics when it runs past the end of
  the buffer, which is \<open>None\<close>.
\<close>

definition copy_at :: "nat \<Rightarrow> 'a list \<Rightarrow> 'a list \<Rightarrow> 'a list option" where
  "copy_at i v out =
     (if i + length v \<le> length out then Some (take i out @ v @ drop (i + length v) out)
      else None)"

lemma copy_at_length: "copy_at i v out = Some out' \<Longrightarrow> length out' = length out"
  by (auto simp: copy_at_def split: if_splits)

text \<open>Two adjacent copies are one copy of the concatenation.\<close>

lemma copy_at_append:
  "Option.bind (copy_at i u out) (copy_at (i + length u) v) = copy_at i (u @ v) out"
  by (cases "i + length u \<le> length out"; cases u)
    (auto simp: copy_at_def min_def add.commute add.left_commute)

text \<open>\<open>out[i] = v\<close>, with the bounds check of the language.\<close>

definition set_at :: "nat \<Rightarrow> 'a \<Rightarrow> 'a list \<Rightarrow> 'a list option" where
  "set_at i v out = (if i < length out then Some (out[i := v]) else None)"

lemma set_at_copy_at: "set_at i v out = copy_at i [v] out"
  by (simp add: set_at_def copy_at_def upd_conv_take_nth_drop)

text \<open>A chain of adjacent copies from the start of the buffer is one copy.\<close>

lemma copy_at_chain [codec_simps]:
  "length u = n \<Longrightarrow>
   Option.bind (copy_at 0 u out) (\<lambda>o1. Option.bind (copy_at n v o1) k)
     = Option.bind (copy_at 0 (u @ v) out) k"
  using copy_at_append [of 0 u out v] by (cases "copy_at 0 u out") (auto simp flip: bind_assoc)

lemma copy_at_fits: "length v \<le> length out \<Longrightarrow> copy_at 0 v out = Some (v @ drop (length v) out)"
  by (simp add: copy_at_def)

lemma copy_at_overflow: "length out < length v \<Longrightarrow> copy_at 0 v out = None"
  by (simp add: copy_at_def)

text \<open>
  Reading and writing an array \<open>[T; n]\<close> at an index: \<open>None\<close> is the panic of an index that is not
  below \<open>n\<close>. A \<open>for\<close> loop whose body may panic is \<open>for_each\<close>.
\<close>

definition array_get :: "nat \<Rightarrow> 'a list \<Rightarrow> nat \<Rightarrow> 'a option" where
  "array_get n xs i = (if i < n then Some (xs ! i) else None)"

definition array_set :: "nat \<Rightarrow> nat \<Rightarrow> 'a \<Rightarrow> 'a list \<Rightarrow> 'a list option" where
  "array_set n i v xs = (if i < n then Some (xs[i := v]) else None)"

lemma array_in [simp]: "i < n \<Longrightarrow> array_get n xs i = Some (xs ! i)" "i < n \<Longrightarrow> array_set n i v xs = Some (xs[i := v])"
  by (simp_all add: array_get_def array_set_def)

lemma array_eq_Some:
  "array_get n xs i = Some x \<longleftrightarrow> i < n \<and> x = xs ! i" "array_set n i v xs = Some ys \<longleftrightarrow> i < n \<and> ys = xs[i := v]"
  by (auto simp: array_get_def array_set_def)

fun for_each :: "('x \<Rightarrow> 's \<Rightarrow> 's option) \<Rightarrow> 'x list \<Rightarrow> 's \<Rightarrow> 's option" where
  "for_each f [] s = Some s"
| "for_each f (x # xs) s = Option.bind (f x s) (for_each f xs)"

lemma for_each_append: "for_each f (xs @ ys) s = Option.bind (for_each f xs s) (for_each f ys)"
proof (induction xs arbitrary: s)
  case (Cons x xs)
  then show ?case by (cases "f x s") simp_all
qed simp

lemma for_each_snoc: "for_each f [0..<Suc k] s = Option.bind (for_each f [0..<k] s) (f k)"
  by (cases "for_each f [0..<k] s"; cases "f k (the (for_each f [0..<k] s))") (simp_all add: for_each_append)

text \<open>A loop whose body never panics is a fold.\<close>

lemma for_each_fold: "(\<And>x s. x \<in> set xs \<Longrightarrow> f x s = Some (g x s)) \<Longrightarrow> for_each f xs s = Some (fold g xs s)"
  by (induction xs arbitrary: s) simp_all

section \<open>Saturating subtraction\<close>

definition saturating_sub :: "'a::len word \<Rightarrow> 'a word \<Rightarrow> 'a word" where
  "saturating_sub a b = (if a < b then 0 else a - b)"

lemma unat_saturating_sub [simp]: "unat (saturating_sub a b) = unat a - unat b"
  by (simp add: saturating_sub_def unat_sub word_less_nat_alt word_le_nat_alt)

lemma saturating_sub_self [simp]: "saturating_sub a a = 0"
  by (simp add: saturating_sub_def)

section \<open>Big-endian bytes\<close>

text \<open>
  \<open>be_bytes n w\<close> are the \<open>n\<close> low bytes of \<open>w\<close>, most significant first: with
  \<open>n\<close> the width of the type in bytes, \<open>w.to_be_bytes()\<close>.
\<close>

fun be_bytes :: "nat \<Rightarrow> 'a::len word \<Rightarrow> u8 list" where
  "be_bytes 0 w = []"
| "be_bytes (Suc n) w = be_bytes n (drop_bit 8 w) @ [ucast w]"

definition from_be_bytes :: "u8 list \<Rightarrow> 'a::len word" where
  "from_be_bytes bs = foldl (\<lambda>acc b. push_bit 8 acc OR ucast b) 0 bs"

lemma length_be_bytes [simp]: "length (be_bytes n w) = n"
  by (induction n arbitrary: w) auto

lemma from_be_bytes_snoc:
  "from_be_bytes (bs @ [b]) = push_bit 8 (from_be_bytes bs) OR ucast b"
  by (simp add: from_be_bytes_def)

lemma from_be_bytes_be_bytes_take:
  "from_be_bytes (be_bytes n w) = take_bit (8 * n) (w :: 'a::len word)"
proof (induction n arbitrary: w)
  case 0
  then show ?case by (simp add: from_be_bytes_def)
next
  case (Suc n)
  have "push_bit 8 (take_bit (8 * n) (drop_bit 8 w)) OR ucast (ucast w :: u8)
      = take_bit (8 * Suc n) w"
    by (rule bit_word_eqI) (auto simp: bit_simps)
  with Suc show ?case by (simp add: from_be_bytes_snoc)
qed

lemma from_be_bytes_be_bytes:
  "LENGTH('a) \<le> 8 * n \<Longrightarrow> from_be_bytes (be_bytes n w) = (w :: 'a::len word)"
  by (simp add: from_be_bytes_be_bytes_take take_bit_word_eq_self)

lemma be_bytes_from_be_bytes:
  "8 * length bs \<le> LENGTH('a) \<Longrightarrow>
   be_bytes (length bs) (from_be_bytes bs :: 'a::len word) = bs"
proof (induction bs rule: rev_induct)
  case Nil
  then show ?case by simp
next
  case (snoc b bs)
  let ?w = "from_be_bytes bs :: 'a word"
  from snoc.prems have len: "8 + 8 * length bs \<le> LENGTH('a)" by simp
  have small: "\<not> bit ?w k" if "8 * length bs \<le> k" for k
  proof -
    have "?w = take_bit (8 * length bs) ?w"
      using from_be_bytes_be_bytes_take [of "length bs" ?w] snoc.IH len by simp
    then have "bit ?w k = bit (take_bit (8 * length bs) ?w) k" by simp
    then show ?thesis using that by (simp add: bit_take_bit_iff)
  qed
  have lt: "k < 8 * length bs" if "bit ?w k" for k
    using small [of k] that by (cases "k < 8 * length bs") auto
  have hi: "drop_bit 8 (push_bit 8 ?w OR ucast b) = ?w"
    by (rule bit_word_eqI)
      (use len in \<open>auto simp: bit_simps not_le dest: lt bit_imp_le_length\<close>)
  have lo: "ucast (push_bit 8 ?w OR (ucast b :: 'a word)) = b"
    by (rule bit_word_eqI) (use len in \<open>auto simp: bit_simps\<close>)
  show ?case using snoc.IH len by (simp add: from_be_bytes_snoc hi lo del: drop_bit_or)
qed

section \<open>Positions\<close>

text \<open>\<open>iter().position(p)\<close>: the index of the first element that satisfies \<open>p\<close>.\<close>

fun position :: "('a \<Rightarrow> bool) \<Rightarrow> 'a list \<Rightarrow> nat option" where
  "position p [] = None"
| "position p (x # xs) = (if p x then Some 0 else map_option Suc (position p xs))"

lemma position_None_iff: "position p xs = None \<longleftrightarrow> (\<forall>x \<in> set xs. \<not> p x)"
  by (induction xs) auto

lemma position_Some_iff:
  "position p xs = Some i \<longleftrightarrow> i < length xs \<and> p (xs ! i) \<and> (\<forall>j < i. \<not> p (xs ! j))"
proof (induction xs arbitrary: i)
  case (Cons x xs)
  then show ?case by (cases i) (auto simp: less_Suc_eq_0_disj)
qed simp

lemma position_SomeD: "position p xs = Some i \<Longrightarrow> i < length xs \<and> p (xs ! i)"
  by (simp add: position_Some_iff)

section \<open>Event machines\<close>

text \<open>
  The protocol code is written as deterministic machines: a handler takes an event and the
  state and returns the new state and the actions to execute. \<open>run\<close> feeds a sequence of events
  and collects the actions. The locale \<open>event_machine\<close> is the contract of such a machine: on
  events that satisfy \<open>ok\<close> every handler keeps the invariant \<open>inv\<close> and emits actions that
  satisfy \<open>out\<close>; \<open>metered_machine\<close> adds a budget that every costly action draws on.
\<close>

fun run :: "('e \<Rightarrow> 's \<Rightarrow> 's \<times> 'a list) \<Rightarrow> 'e list \<Rightarrow> 's \<Rightarrow> 's \<times> 'a list" where
  "run step [] s = (s, [])"
| "run step (e # es) s =
     (case step e s of (s1, as) \<Rightarrow> case run step es s1 of (s2, bs) \<Rightarrow> (s2, as @ bs))"

lemma run_append:
  "run step (es @ fs) s =
     (case run step es s of (s1, as) \<Rightarrow> case run step fs s1 of (s2, bs) \<Rightarrow> (s2, as @ bs))"
  by (induction es arbitrary: s) (auto split: prod.splits)

locale event_machine =
  fixes step :: "'e \<Rightarrow> 's \<Rightarrow> 's \<times> 'a list"
    and ok :: "'e \<Rightarrow> bool"
    and inv :: "'s \<Rightarrow> bool"
    and out :: "'a \<Rightarrow> bool"
  assumes step_inv: "\<lbrakk>ok e; inv s\<rbrakk> \<Longrightarrow> inv (fst (step e s))"
    and step_out: "\<lbrakk>ok e; inv s; a \<in> set (snd (step e s))\<rbrakk> \<Longrightarrow> out a"
begin

lemma run_inv: "\<lbrakk>\<forall>e \<in> set es. ok e; inv s\<rbrakk> \<Longrightarrow> inv (fst (run step es s))"
  by (induction es arbitrary: s) (auto simp: case_prod_unfold step_inv)

lemma run_out: "\<lbrakk>\<forall>e \<in> set es. ok e; inv s; a \<in> set (snd (run step es s))\<rbrakk> \<Longrightarrow> out a"
proof (induction es arbitrary: s)
  case (Cons e es)
  from Cons.prems consider "a \<in> set (snd (step e s))"
    | "a \<in> set (snd (run step es (fst (step e s))))"
    by (auto simp: case_prod_unfold)
  then show ?case
  proof cases
    case 1 with Cons.prems show ?thesis by (auto intro: step_out)
  next
    case 2 with Cons.prems show ?thesis by (intro Cons.IH [of "fst (step e s)"]) (auto intro: step_inv)
  qed
qed simp

end

locale metered_machine = event_machine +
  fixes cost :: "'c \<Rightarrow> nat" and fuel :: "'b \<Rightarrow> nat"
  assumes step_cost: "\<lbrakk>ok e; inv s\<rbrakk> \<Longrightarrow>
    sum_list (map cost (snd (step e s))) + fuel (fst (step e s)) \<le> fuel s"
begin

lemma run_cost: "\<lbrakk>\<forall>e \<in> set es. ok e; inv s\<rbrakk> \<Longrightarrow>
   sum_list (map cost (snd (run step es s))) + fuel (fst (run step es s)) \<le> fuel s"
proof (induction es arbitrary: s)
  case (Cons e es)
  then have "inv (fst (step e s))" by (simp add: step_inv)
  with Cons.IH [of "fst (step e s)"] Cons.prems step_cost [of e s] show ?case
    by (auto simp: case_prod_unfold)
qed simp

end

text \<open>
  An embedder that only sees the actions keeps its own table of the machine's state:
  \<open>replay see\<close> folds the actions into that table and fails (\<open>None\<close>) on an action that does not
  fit it. In an \<open>observed_machine\<close> the table never goes wrong.
\<close>

fun replay :: "('a \<Rightarrow> 'v \<Rightarrow> 'v option) \<Rightarrow> 'a list \<Rightarrow> 'v \<Rightarrow> 'v option" where
  "replay see [] v = Some v"
| "replay see (a # as) v = Option.bind (see a v) (replay see as)"

lemma replay_append:
  "replay see (as @ bs) v = Option.bind (replay see as v) (replay see bs)"
proof (induction as arbitrary: v)
  case (Cons a as)
  then show ?case by (cases "see a v") auto
qed simp

locale observed_machine = event_machine +
  fixes see :: "'c \<Rightarrow> 'v \<Rightarrow> 'v option" and view :: "'b \<Rightarrow> 'v"
  assumes step_view: "\<lbrakk>ok e; inv s\<rbrakk> \<Longrightarrow>
    replay see (snd (step e s)) (view s) = Some (view (fst (step e s)))"
begin

lemma run_view: "\<lbrakk>\<forall>e \<in> set es. ok e; inv s\<rbrakk> \<Longrightarrow>
   replay see (snd (run step es s)) (view s) = Some (view (fst (run step es s)))"
proof (induction es arbitrary: s)
  case (Cons e es)
  then have "inv (fst (step e s))" by (simp add: step_inv)
  with Cons.IH [of "fst (step e s)"] Cons.prems step_view [of e s] show ?case
    by (simp add: case_prod_unfold replay_append)
qed simp

end

section \<open>Simulation\<close>

text \<open>
  A detailed machine simulates an abstract one when related states answer related events with
  the same outputs and stay related. \<open>conv\<close> is the concrete form of an abstract event (a
  16-bit sequence number for an unbounded packet number); \<open>pre\<close> is what the abstract machine
  needs of an event to be faithful. \<open>allowed\<close> says that \<open>pre\<close> holds all along a run.
\<close>

fun allowed :: "('f \<Rightarrow> 'x \<Rightarrow> bool) \<Rightarrow> ('f \<Rightarrow> 'x \<Rightarrow> 'x \<times> 'o list) \<Rightarrow> 'f list \<Rightarrow> 'x \<Rightarrow> bool" where
  "allowed pre astep [] a = True"
| "allowed pre astep (e # es) a \<longleftrightarrow> pre e a \<and> allowed pre astep es (fst (astep e a))"

locale simulation =
  fixes cstep :: "'e \<Rightarrow> 'c \<Rightarrow> 'c \<times> 'o list"
    and astep :: "'f \<Rightarrow> 'x \<Rightarrow> 'x \<times> 'o list"
    and conv :: "'f \<Rightarrow> 'e"
    and rel :: "'c \<Rightarrow> 'x \<Rightarrow> bool"
    and pre :: "'f \<Rightarrow> 'x \<Rightarrow> bool"
  assumes sim_step: "\<lbrakk>rel c a; pre e a\<rbrakk> \<Longrightarrow> rel (fst (cstep (conv e) c)) (fst (astep e a))"
    and sim_out: "\<lbrakk>rel c a; pre e a\<rbrakk> \<Longrightarrow> snd (cstep (conv e) c) = snd (astep e a)"
begin

lemma run_sim:
  "\<lbrakk>rel c a; allowed pre astep es a\<rbrakk> \<Longrightarrow>
   rel (fst (run cstep (map conv es) c)) (fst (run astep es a))
   \<and> snd (run cstep (map conv es) c) = snd (run astep es a)"
proof (induction es arbitrary: c a)
  case (Cons e es)
  then have "rel (fst (cstep (conv e) c)) (fst (astep e a))" by (simp add: sim_step)
  with Cons.IH [of "fst (cstep (conv e) c)" "fst (astep e a)"] Cons.prems sim_out [of c a e]
  show ?case by (simp add: case_prod_unfold)
qed simp

end

end
