(* ===== verification/Seq_Arith.thy ===== *)
theory Seq_Arith
  imports Jam_Prelude
begin

text \<open>
  \<open>crates/jam-protocol/src/seq.rs\<close>: the 16-bit sequence numbers and their comparison on the
  ring. \<open>a.wrapping_sub(b) as i16\<close> is the signed reading of the 16-bit difference, so a value
  of type \<open>i16\<close> is an \<open>int\<close> between -32768 and 32767.
\<close>

definition newer_than :: "u16 \<Rightarrow> u16 \<Rightarrow> bool" where
  "newer_than a b \<longleftrightarrow> 0 < sint (a - b)"

definition diff :: "u16 \<Rightarrow> u16 \<Rightarrow> int" where
  "diff a b = sint (a - b)"

datatype seq_gen = SeqGen u16

definition seq_new :: seq_gen where
  "seq_new = SeqGen 0"

fun seq_next :: "seq_gen \<Rightarrow> u16 \<times> seq_gen" where
  "seq_next (SeqGen s) = (s, SeqGen (s + 1))"

fun seq_peek :: "seq_gen \<Rightarrow> u16" where
  "seq_peek (SeqGen s) = s"

text \<open>The numbers the next \<open>n\<close> calls of \<open>next()\<close> return.\<close>

fun seq_take :: "nat \<Rightarrow> seq_gen \<Rightarrow> u16 list" where
  "seq_take 0 g = []"
| "seq_take (Suc n) g = (case seq_next g of (s, g') \<Rightarrow> s # seq_take n g')"

section \<open>The ring against unbounded sequence numbers\<close>

lemma sint_of_small: "\<lbrakk>- 32768 \<le> d; d \<le> 32767\<rbrakk> \<Longrightarrow> sint (word_of_int d :: u16) = d"
  by (simp add: sint_sbintrunc' signed_take_bit_int_eq_self)

lemma diff_of_int:
  "\<lbrakk>- 32768 \<le> x - y; x - y \<le> 32767\<rbrakk> \<Longrightarrow> diff (word_of_int x) (word_of_int y) = x - y"
  using sint_of_small [of "x - y"] by (simp only: diff_def wi_hom_sub)

lemma newer_than_diff: "newer_than a b \<longleftrightarrow> 0 < diff a b"
  by (simp add: newer_than_def diff_def)

lemma diff_self [simp]: "diff a a = 0"
  by (simp add: diff_def)

lemma newer_than_irrefl [simp]: "\<not> newer_than a a"
  by (simp add: newer_than_diff)

lemma diff_bounds: "- 32768 \<le> diff a b" "diff a b \<le> 32767"
  using sint_ge [of "a - b"] sint_lt [of "a - b"] by (simp_all add: diff_def)

lemma add_diff: "b + word_of_int (diff a b) = a"
  by (simp add: diff_def)

lemma diff_eq_iff: "diff a b = d \<longleftrightarrow> - 32768 \<le> d \<and> d \<le> 32767 \<and> a = b + word_of_int d"
  using diff_bounds [of a b] add_diff [of b a] sint_of_small [of d] by (auto simp: diff_def)

lemma diff_eq_0 [simp]: "diff a b = 0 \<longleftrightarrow> a = b"
  by (auto simp: diff_eq_iff)

lemma diff_shift:
  assumes "- 32768 \<le> diff a b + d" and "diff a b + d \<le> 32767"
  shows "diff (a + word_of_int d) b = diff a b + d"
proof -
  have "a + word_of_int d = b + word_of_int (diff a b) + word_of_int d" by (simp only: add_diff)
  then have "a + word_of_int d = b + word_of_int (diff a b + d)"
    by (simp only: add.assoc wi_hom_add)
  with assms show ?thesis by (simp only: diff_eq_iff simp_thms)
qed

lemma diff_trans:
  assumes "- 32768 \<le> diff a b + diff b c" and "diff a b + diff b c \<le> 32767"
  shows "diff a c = diff a b + diff b c"
proof -
  have "a = c + word_of_int (diff b c) + word_of_int (diff a b)" by (simp only: add_diff)
  then have "a = c + word_of_int (diff a b + diff b c)"
    by (simp only: add.assoc wi_hom_add add.commute [of "diff b c"])
  with assms show ?thesis by (simp only: diff_eq_iff simp_thms)
qed

lemma diff_swap:
  assumes "diff a b \<noteq> - 32768"
  shows "diff b a = - diff a b"
proof -
  have b: "- 32768 \<le> - diff a b" "- diff a b \<le> 32767"
    using assms diff_bounds [of a b] by linarith+
  have "b = a + word_of_int (- diff a b)"
    using add_diff [of b a] by (simp add: algebra_simps)
  with b show ?thesis by (simp only: diff_eq_iff simp_thms)
qed

lemma newer_than_asym: "newer_than a b \<Longrightarrow> \<not> newer_than b a"
  using diff_swap [of a b] by (auto simp: newer_than_diff)

lemma newer_than_trans:
  "\<lbrakk>newer_than a b; newer_than b c; diff a b + diff b c \<le> 32767\<rbrakk> \<Longrightarrow> newer_than a c"
  using diff_trans [of a b c] by (simp add: newer_than_diff)

lemma diff_half: "diff a (a + 32768) = - 32768" "diff (a + 32768) a = - 32768"
  by (simp_all add: diff_eq_iff)

lemma seq_take_nth:
  "i < n \<Longrightarrow> seq_take n (SeqGen s) ! i = s + of_nat i"
  by (induction n arbitrary: s i) (auto simp: nth_Cons algebra_simps split: nat.splits)

lemma length_seq_take [simp]: "length (seq_take n g) = n"
  by (induction n arbitrary: g) (auto split: prod.splits)

text \<open>Within 32767 steps of each other two sequence numbers of the unbounded stream compare
  on the ring as they do in the stream, and their ring distance is their distance in the
  stream, across every wraparound; one step farther and neither is newer than the other.\<close>

theorem ring_order_is_stream_order:
  fixes x y :: int
  assumes "\<bar>x - y\<bar> \<le> 32767"
  shows "(newer_than (word_of_int x) (word_of_int y) \<longleftrightarrow> y < x)
    \<and> diff (word_of_int x) (word_of_int y) = x - y
    \<and> \<not> newer_than (word_of_int x) (word_of_int x + 32768)
    \<and> \<not> newer_than (word_of_int x + 32768) (word_of_int x)"
proof -
  have "diff (word_of_int x) (word_of_int y) = x - y"
    using assms by (intro diff_of_int) linarith+
  then show ?thesis by (simp add: newer_than_diff diff_half)
qed

theorem ring_order_is_stream_order_witness:
  "newer_than (word_of_int 65540) (word_of_int 65530)
    \<and> diff (word_of_int 65540) (word_of_int 65530) = 10"
  using ring_order_is_stream_order [of 65540 65530] by simp

text \<open>A sender's generator stamps consecutive ring numbers, and of two stamps of one run of
  at most 32768 packets the later one is the newer one.\<close>

theorem seq_gen_orders_packets:
  assumes "i < j" and "j < n" and "n \<le> 32768"
  shows "newer_than (seq_take n (SeqGen s) ! j) (seq_take n (SeqGen s) ! i)
    \<and> diff (seq_take n (SeqGen s) ! j) (seq_take n (SeqGen s) ! i) = int (j - i)"
proof -
  have "diff (s + of_nat j) (s + of_nat i) = int (j - i)"
    using assms by (simp add: diff_eq_iff)
  with assms show ?thesis by (simp add: seq_take_nth newer_than_diff)
qed

theorem seq_gen_orders_packets_witness:
  "newer_than (seq_take 3 (SeqGen 65535) ! 2) (seq_take 3 (SeqGen 65535) ! 0)"
  using seq_gen_orders_packets [of 0 2 3 65535] by simp

end
