(* ===== verification/Wire_Types.thy ===== *)
theory Wire_Types
  imports Seq_Arith
begin

text \<open>
  The constants of \<open>crates/jam-protocol/src/lib.rs\<close> and the types of
  \<open>crates/jam-protocol/src/packet.rs\<close>: packet types, codecs, deny reasons, parse errors, the
  header, the audio packet, the control packets; and what the code uses of Rust's UTF-8 strings.
\<close>

section \<open>Constants\<close>

definition MAGIC :: u8 where "MAGIC = 0xA5"
definition PROTOCOL_VERSION :: u8 where "PROTOCOL_VERSION = 1"
definition MAX_CLIENTS :: nat where "MAX_CLIENTS = 4"
definition HOST_SENDER_ID :: u16 where "HOST_SENDER_ID = 0"
definition UNJOINED_SENDER_ID :: u16 where "UNJOINED_SENDER_ID = 0xFFFF"
definition ROOM_CODE_LEN :: nat where "ROOM_CODE_LEN = 6"
definition MAX_NAME_LEN :: nat where "MAX_NAME_LEN = 32"
definition MAX_DATAGRAM :: nat where "MAX_DATAGRAM = 2048"
definition CONTROL_RETRY_MS :: u64 where "CONTROL_RETRY_MS = 100"
definition CONTROL_MAX_TRIES :: u32 where "CONTROL_MAX_TRIES = 10"
definition KEEPALIVE_MS :: u64 where "KEEPALIVE_MS = 500"
definition PEER_TIMEOUT_MS :: u64 where "PEER_TIMEOUT_MS = 5000"
definition REJOIN_WINDOW_MS :: u64 where "REJOIN_WINDOW_MS = 30000"

definition HEADER_LEN :: nat where "HEADER_LEN = 8"
definition AUDIO_HEADER_LEN :: nat where "AUDIO_HEADER_LEN = 8"
definition AUDIO_FLAG_REDUNDANCY :: u8 where "AUDIO_FLAG_REDUNDANCY = 1"

section \<open>Enumerations and their byte codes\<close>

datatype parse_error =
    Truncated
  | BadMagic
  | BadVersion u8
  | BadType u8
  | BadCodec u8
  | BadDenyReason u8
  | BadString
  | BadLength
  | TrailingBytes
  | OutOfRange

datatype packet_type =
    PT_Audio
  | PT_Hello
  | PT_Welcome
  | PT_Deny
  | PT_Ping
  | PT_Pong
  | PT_Keepalive
  | PT_Roster
  | PT_Bye
  | PT_Ack

fun ptype_code :: "packet_type \<Rightarrow> u8" where
  "ptype_code PT_Audio = 0"
| "ptype_code PT_Hello = 1"
| "ptype_code PT_Welcome = 2"
| "ptype_code PT_Deny = 3"
| "ptype_code PT_Ping = 4"
| "ptype_code PT_Pong = 5"
| "ptype_code PT_Keepalive = 6"
| "ptype_code PT_Roster = 7"
| "ptype_code PT_Bye = 8"
| "ptype_code PT_Ack = 9"

definition ptype_try_from :: "u8 \<Rightarrow> (parse_error, packet_type) outcome" where
  "ptype_try_from v =
     (if v = 0 then Ok PT_Audio
      else if v = 1 then Ok PT_Hello
      else if v = 2 then Ok PT_Welcome
      else if v = 3 then Ok PT_Deny
      else if v = 4 then Ok PT_Ping
      else if v = 5 then Ok PT_Pong
      else if v = 6 then Ok PT_Keepalive
      else if v = 7 then Ok PT_Roster
      else if v = 8 then Ok PT_Bye
      else if v = 9 then Ok PT_Ack
      else Err (BadType v))"

datatype codec = Opus | PcmS16 | PcmF32

fun codec_code :: "codec \<Rightarrow> u8" where
  "codec_code Opus = 0"
| "codec_code PcmS16 = 1"
| "codec_code PcmF32 = 2"

definition codec_try_from :: "u8 \<Rightarrow> (parse_error, codec) outcome" where
  "codec_try_from v =
     (if v = 0 then Ok Opus
      else if v = 1 then Ok PcmS16
      else if v = 2 then Ok PcmF32
      else Err (BadCodec v))"

datatype deny_reason = BadRoomCode | RoomFull | VersionMismatch

fun deny_code :: "deny_reason \<Rightarrow> u8" where
  "deny_code BadRoomCode = 0"
| "deny_code RoomFull = 1"
| "deny_code VersionMismatch = 2"

definition deny_try_from :: "u8 \<Rightarrow> (parse_error, deny_reason) outcome" where
  "deny_try_from v =
     (if v = 0 then Ok BadRoomCode
      else if v = 1 then Ok RoomFull
      else if v = 2 then Ok VersionMismatch
      else Err (BadDenyReason v))"

lemma ptype_try_from_iff [codec_simps]: "ptype_try_from v = Ok p \<longleftrightarrow> v = ptype_code p"
  by (cases p) (simp_all add: ptype_try_from_def)

lemma codec_try_from_iff [codec_simps]: "codec_try_from v = Ok c \<longleftrightarrow> v = codec_code c"
  by (cases c) (simp_all add: codec_try_from_def)

lemma deny_try_from_iff [codec_simps]: "deny_try_from v = Ok d \<longleftrightarrow> v = deny_code d"
  by (cases d) (simp_all add: deny_try_from_def)

lemma try_from_no_panic [simp]:
  "ptype_try_from v \<noteq> Panic" "codec_try_from v \<noteq> Panic" "deny_try_from v \<noteq> Panic"
  by (simp_all add: ptype_try_from_def codec_try_from_def deny_try_from_def)

lemma ptype_code_inj [simp]: "ptype_code p = ptype_code q \<longleftrightarrow> p = q"
  by (cases p; cases q) simp_all

section \<open>Packets\<close>

record header =
  ptype :: packet_type
  session_id :: u16
  sender_id :: u16
  hseq :: u16

record audio_packet =
  timestamp :: u32
  acodec :: codec
  payload :: "u8 list"
  redundant :: "u8 list option"

type_synonym rust_string = "u8 list"

record player_info =
  pid :: u16
  pname :: rust_string

datatype control =
    Hello (proto_version: u8) (room_code: "u8 list") (name: rust_string)
      (codec_mask: u8) (frame_mask: u8)
  | Welcome (assigned_id: u16) (w_session_id: u16) (sample_rate: u32) (frame_samples: u16)
      (w_codec: codec) (roster: "player_info list")
  | Deny (reason: deny_reason)
  | Ping (t1_us: u64)
  | Pong (p1_us: u64) (p2_us: u64) (p3_us: u64)
  | Keepalive
  | Roster (players: "player_info list")
  | Bye
  | Ack (acked_seq: u16) (acked_type: u8)

fun packet_type_of :: "control \<Rightarrow> packet_type" where
  "packet_type_of (Hello _ _ _ _ _) = PT_Hello"
| "packet_type_of (Welcome _ _ _ _ _ _) = PT_Welcome"
| "packet_type_of (Deny _) = PT_Deny"
| "packet_type_of (Ping _) = PT_Ping"
| "packet_type_of (Pong _ _ _) = PT_Pong"
| "packet_type_of Keepalive = PT_Keepalive"
| "packet_type_of (Roster _) = PT_Roster"
| "packet_type_of Bye = PT_Bye"
| "packet_type_of (Ack _ _) = PT_Ack"

lemma packet_type_not_audio [simp]: "packet_type_of c \<noteq> PT_Audio" "PT_Audio \<noteq> packet_type_of c"
  by (cases c; simp)+

section \<open>UTF-8\<close>

text \<open>
  A Rust \<open>String\<close> is a vector of bytes that is valid UTF-8; here it is its bytes, and
  \<open>utf8_valid\<close> is what \<open>std::str::from_utf8\<close> accepts: the well-formed byte sequences of
  the Unicode standard (table 3-7), with overlong forms, surrogates and code points past
  U+10FFFF excluded by the range of the second byte.
\<close>

definition is_cont :: "u8 \<Rightarrow> bool" where
  "is_cont b \<longleftrightarrow> 0x80 \<le> b \<and> b \<le> 0xBF"

definition utf8_width :: "u8 \<Rightarrow> nat" where
  "utf8_width b =
     (if b \<le> 0x7F then 1
      else if 0xC2 \<le> b \<and> b \<le> 0xDF then 2
      else if 0xE0 \<le> b \<and> b \<le> 0xEF then 3
      else if 0xF0 \<le> b \<and> b \<le> 0xF4 then 4
      else 0)"

definition second_ok :: "u8 \<Rightarrow> u8 \<Rightarrow> bool" where
  "second_ok b c \<longleftrightarrow>
     is_cont c \<and> (b = 0xE0 \<longrightarrow> 0xA0 \<le> c) \<and> (b = 0xED \<longrightarrow> c \<le> 0x9F)
     \<and> (b = 0xF0 \<longrightarrow> 0x90 \<le> c) \<and> (b = 0xF4 \<longrightarrow> c \<le> 0x8F)"

fun utf8_valid :: "u8 list \<Rightarrow> bool" where
  "utf8_valid [] = True"
| "utf8_valid (b # bs) =
     (if utf8_width b = 1 then utf8_valid bs
      else if utf8_width b = 2 then
        (case bs of c # rest \<Rightarrow> second_ok b c \<and> utf8_valid rest | _ \<Rightarrow> False)
      else if utf8_width b = 3 then
        (case bs of c # d # rest \<Rightarrow> second_ok b c \<and> is_cont d \<and> utf8_valid rest | _ \<Rightarrow> False)
      else if utf8_width b = 4 then
        (case bs of c # d # e # rest \<Rightarrow>
           second_ok b c \<and> is_cont d \<and> is_cont e \<and> utf8_valid rest | _ \<Rightarrow> False)
      else False)"

text \<open>\<open>str::is_char_boundary\<close>: the start, the end, or a byte that is not a continuation
  byte (\<open>b as i8 >= -0x40\<close>).\<close>

definition is_char_boundary :: "rust_string \<Rightarrow> nat \<Rightarrow> bool" where
  "is_char_boundary s n \<longleftrightarrow>
     (if n = 0 then True
      else if length s \<le> n then n = length s
      else - 0x40 \<le> sint (s ! n))"

lemma mod_256_shift:
  "\<lbrakk>0 \<le> u; u < 256\<rbrakk> \<Longrightarrow> (u + 128) mod 256 - 128 = (if u < 128 then u else u - 256)"
  for u :: int
proof (cases "u < 128")
  case False
  assume "0 \<le> u" "u < 256"
  have "(u + 128) mod 256 = ((u - 128) + 256) mod 256" by (simp add: add.commute)
  also have "\<dots> = u - 128" using False \<open>u < 256\<close> by (simp only: mod_add_self2) simp
  finally show ?thesis using False by simp
qed simp

lemma sint_u8: "sint (b :: u8) = (if b < 0x80 then uint b else uint b - 256)"
proof -
  have "sint b = (uint b + 128) mod 256 - 128"
    by (simp add: sint_uint signed_take_bit_eq_take_bit_shift take_bit_eq_mod)
  moreover have "0 \<le> uint b" "uint b < 256" using uint_lt2p [of b] by simp_all
  moreover have "b < 0x80 \<longleftrightarrow> uint b < 128" by (simp add: word_less_def)
  ultimately show ?thesis by (simp only: mod_256_shift)
qed

lemma boundary_byte: "- 0x40 \<le> sint (b :: u8) \<longleftrightarrow> \<not> is_cont b"
proof -
  have "0 \<le> uint b" "uint b < 256" using uint_lt2p [of b] by simp_all
  moreover have "b < 0x80 \<longleftrightarrow> uint b < 128" by (simp add: word_less_def)
  moreover have "- 64 \<le> uint b" using uint_ge_0 [of b] by linarith
  moreover have "is_cont b \<longleftrightarrow> 128 \<le> uint b \<and> uint b \<le> 191"
    by (simp add: is_cont_def word_le_def)
  ultimately show ?thesis by (auto simp: sint_u8 not_le not_less)
qed

lemma second_ok_cont: "second_ok b c \<Longrightarrow> is_cont c"
  by (simp add: second_ok_def)

lemma char_boundary_Cons:
  "is_char_boundary (b # s) (Suc n) \<longleftrightarrow>
     (if length s \<le> n then n = length s else \<not> is_cont (s ! n))"
  by (simp add: is_char_boundary_def boundary_byte)

lemma char_boundary_tl: "is_char_boundary (b # s) (Suc n) \<Longrightarrow> is_char_boundary s n"
  by (auto simp: char_boundary_Cons is_char_boundary_def boundary_byte split: if_splits)

lemma char_boundary_cont: "is_cont c \<Longrightarrow> \<not> is_char_boundary (b # c # s) (Suc 0)"
  by (simp add: char_boundary_Cons)

lemma utf8_valid_cases:
  assumes "utf8_valid (b # bs)"
  obtains "utf8_width b = 1" "utf8_valid bs"
    | c r where "utf8_width b = 2" "bs = c # r" "is_cont c" "utf8_valid r"
    | c d r where "utf8_width b = 3" "bs = c # d # r" "is_cont c" "is_cont d" "utf8_valid r"
    | c d e r where "utf8_width b = 4" "bs = c # d # e # r" "is_cont c" "is_cont d"
        "is_cont e" "utf8_valid r"
proof -
  consider "utf8_width b = 1" | "utf8_width b = 2" | "utf8_width b = 3" | "utf8_width b = 4"
    using assms by fastforce
  then show thesis
  proof cases
    case 1
    with assms show ?thesis by (intro that(1)) simp_all
  next
    case 2
    with assms obtain c r where "bs = c # r" "second_ok b c" "utf8_valid r"
      by (auto split: list.splits)
    then show ?thesis by (intro that(2) [OF 2, of c r]) (auto dest: second_ok_cont)
  next
    case 3
    with assms obtain c d r where "bs = c # d # r" "second_ok b c" "is_cont d" "utf8_valid r"
      by (auto split: list.splits)
    then show ?thesis by (intro that(3) [OF 3, of c d r]) (auto dest: second_ok_cont)
  next
    case 4
    with assms obtain c d e r where "bs = c # d # e # r" "second_ok b c" "is_cont d" "is_cont e"
      "utf8_valid r"
      by (auto split: list.splits)
    then show ?thesis by (intro that(4) [OF 4, of c d e r]) (auto dest: second_ok_cont)
  qed
qed

lemma char_boundary_skip:
  "\<lbrakk>is_char_boundary (b # c # r) n; is_cont c\<rbrakk> \<Longrightarrow>
   n = 0 \<or> (\<exists>k. n = Suc (Suc k) \<and> is_char_boundary r k)"
  using char_boundary_tl [of b "c # r"] char_boundary_tl [of c r] char_boundary_cont [of c b r]
  by (cases n; cases "n - 1") auto

lemma char_boundary_skip2:
  "\<lbrakk>is_char_boundary (b # c # d # r) n; is_cont c; is_cont d\<rbrakk> \<Longrightarrow>
   n = 0 \<or> (\<exists>k. n = Suc (Suc (Suc k)) \<and> is_char_boundary r k)"
  using char_boundary_skip [of b c "d # r" n] char_boundary_skip [of c d r "n - 1"]
    char_boundary_tl [of b "c # d # r" "n - 1"]
  by (cases n) auto

lemma char_boundary_skip3:
  "\<lbrakk>is_char_boundary (b # c # d # e # r) n; is_cont c; is_cont d; is_cont e\<rbrakk> \<Longrightarrow>
   n = 0 \<or> (\<exists>k. n = Suc (Suc (Suc (Suc k))) \<and> is_char_boundary r k)"
  using char_boundary_skip [of b c "d # e # r" n] char_boundary_skip2 [of c d e r "n - 1"]
    char_boundary_tl [of b "c # d # e # r" "n - 1"]
  by (cases n) auto

text \<open>Cutting a valid string at a character boundary leaves a valid string.\<close>

lemma utf8_valid_take:
  "\<lbrakk>utf8_valid s; is_char_boundary s n\<rbrakk> \<Longrightarrow> utf8_valid (take n s)"
proof (induction "length s" arbitrary: s n rule: less_induct)
  case less
  note IH = less.hyps and n = less.prems(2)
  show ?case
  proof (cases s)
    case (Cons b bs)
    from less.prems(1) have "utf8_valid (b # bs)" by (simp add: Cons)
    then show ?thesis
    proof (cases rule: utf8_valid_cases)
      case 1
      with IH n show ?thesis by (cases n) (auto simp: Cons dest: char_boundary_tl)
    next
      case (2 c r)
      with n have "n = 0 \<or> (\<exists>k. n = Suc (Suc k) \<and> is_char_boundary r k)"
        using char_boundary_skip [of b c r n] by (simp add: Cons)
      with IH [of r] 2 less.prems(1) show ?thesis by (auto simp: Cons)
    next
      case (3 c d r)
      with n have "n = 0 \<or> (\<exists>k. n = Suc (Suc (Suc k)) \<and> is_char_boundary r k)"
        using char_boundary_skip2 [of b c d r n] by (simp add: Cons)
      with IH [of r] 3 less.prems(1) show ?thesis by (auto simp: Cons)
    next
      case (4 c d e r)
      with n have "n = 0 \<or> (\<exists>k. n = Suc (Suc (Suc (Suc k))) \<and> is_char_boundary r k)"
        using char_boundary_skip3 [of b c d e r n] by (simp add: Cons)
      with IH [of r] 4 less.prems(1) show ?thesis by (auto simp: Cons)
    qed
  qed simp
qed

end
