(* ===== verification/Wire_Cursor.thy ===== *)
theory Wire_Cursor
  imports Wire_Types "HOL-Library.Sublist"
begin

text \<open>
  The cursors of \<open>crates/jam-protocol/src/packet.rs\<close>: \<open>Writer\<close> over a fixed output slice,
  where writing past the end panics (\<open>None\<close>), and \<open>Reader\<close> over the received bytes. The
  locale \<open>field_codec\<close> is the contract between the writer and the reader of one field: the
  writer appends the field's encoding, the reader accepts exactly the encodings of valid values
  and never panics. Every field kind interprets it; its lemma on repeated fields gives the
  player list.
\<close>

section \<open>Writer\<close>

record writer =
  wbuf :: "u8 list"
  wpos :: nat

definition w_bytes :: "u8 list \<Rightarrow> writer \<Rightarrow> writer option" where
  "w_bytes v w =
     (case copy_at (wpos w) v (wbuf w) of
        None \<Rightarrow> None
      | Some b \<Rightarrow> Some (w\<lparr>wbuf := b, wpos := wpos w + length v\<rparr>))"

definition w_u8 :: "u8 \<Rightarrow> writer \<Rightarrow> writer option" where
  "w_u8 v w =
     (if wpos w < length (wbuf w)
      then Some (w\<lparr>wbuf := (wbuf w)[wpos w := v], wpos := wpos w + 1\<rparr>)
      else None)"

definition w_u16 :: "u16 \<Rightarrow> writer \<Rightarrow> writer option" where
  "w_u16 v w = w_bytes (be_bytes 2 v) w"

definition w_u32 :: "u32 \<Rightarrow> writer \<Rightarrow> writer option" where
  "w_u32 v w = w_bytes (be_bytes 4 v) w"

definition w_u64 :: "u64 \<Rightarrow> writer \<Rightarrow> writer option" where
  "w_u64 v w = w_bytes (be_bytes 8 v) w"

text \<open>The loop of \<open>Writer::string\<close>: step back to a character boundary.\<close>

fun char_floor :: "rust_string \<Rightarrow> nat \<Rightarrow> nat" where
  "char_floor s 0 = 0"
| "char_floor s (Suc n) = (if is_char_boundary s (Suc n) then Suc n else char_floor s n)"

definition name_cut :: "rust_string \<Rightarrow> nat" where
  "name_cut s = char_floor s (min (length s) MAX_NAME_LEN)"

definition w_string :: "rust_string \<Rightarrow> writer \<Rightarrow> writer option" where
  "w_string s w = Option.bind (w_u8 (of_nat (name_cut s)) w) (w_bytes (take (name_cut s) s))"

fun put_all :: "('a \<Rightarrow> writer \<Rightarrow> writer option) \<Rightarrow> 'a list \<Rightarrow> writer \<Rightarrow> writer option" where
  "put_all put [] w = Some w"
| "put_all put (x # xs) w = Option.bind (put x w) (put_all put xs)"

definition w_player :: "player_info \<Rightarrow> writer \<Rightarrow> writer option" where
  "w_player p w = Option.bind (w_u16 (pid p) w) (w_string (pname p))"

definition w_players :: "player_info list \<Rightarrow> writer \<Rightarrow> writer option" where
  "w_players ps w = Option.bind (w_u8 (of_nat (length ps)) w) (put_all w_player ps)"

section \<open>Reader\<close>

record reader =
  rbuf :: "u8 list"
  rpos :: nat

definition r_bytes :: "nat \<Rightarrow> reader \<Rightarrow> (parse_error, u8 list \<times> reader) outcome" where
  "r_bytes n r =
     obind (usize_sub (length (rbuf r)) (rpos r)) (\<lambda>left.
       if left < n then Err Truncated
       else obind (subslice (rbuf r) (rpos r) (rpos r + n)) (\<lambda>s.
              Ok (s, r\<lparr>rpos := rpos r + n\<rparr>)))"

definition r_u8 :: "reader \<Rightarrow> (parse_error, u8 \<times> reader) outcome" where
  "r_u8 r = obind (r_bytes 1 r) (\<lambda>(b, r'). obind (idx b 0) (\<lambda>v. Ok (v, r')))"

definition r_u16 :: "reader \<Rightarrow> (parse_error, u16 \<times> reader) outcome" where
  "r_u16 r = obind (r_bytes 2 r) (\<lambda>(b, r').
     obind (idx b 0) (\<lambda>b0. obind (idx b 1) (\<lambda>b1. Ok (from_be_bytes [b0, b1], r'))))"

definition r_u32 :: "reader \<Rightarrow> (parse_error, u32 \<times> reader) outcome" where
  "r_u32 r = obind (r_bytes 4 r) (\<lambda>(b, r').
     obind (idx b 0) (\<lambda>b0. obind (idx b 1) (\<lambda>b1. obind (idx b 2) (\<lambda>b2.
     obind (idx b 3) (\<lambda>b3. Ok (from_be_bytes [b0, b1, b2, b3], r'))))))"

text \<open>\<open>b.try_into().unwrap()\<close> panics unless the slice has the array's length.\<close>

definition r_u64 :: "reader \<Rightarrow> (parse_error, u64 \<times> reader) outcome" where
  "r_u64 r = obind (r_bytes 8 r) (\<lambda>(b, r').
     if length b = 8 then Ok (from_be_bytes b, r') else Panic)"

definition r_string :: "reader \<Rightarrow> (parse_error, rust_string \<times> reader) outcome" where
  "r_string r = obind (r_u8 r) (\<lambda>(n, r1).
     if MAX_NAME_LEN < unat n then Err OutOfRange
     else obind (r_bytes (unat n) r1) (\<lambda>(bs, r2).
            if utf8_valid bs then Ok (bs, r2) else Err BadString))"

fun get_n :: "(reader \<Rightarrow> ('e, 'a \<times> reader) outcome) \<Rightarrow> nat \<Rightarrow> reader
    \<Rightarrow> ('e, 'a list \<times> reader) outcome" where
  "get_n get 0 r = Ok ([], r)"
| "get_n get (Suc n) r = obind (get r) (\<lambda>(x, r1). obind (get_n get n r1) (\<lambda>(xs, r2).
     Ok (x # xs, r2)))"

definition r_player :: "reader \<Rightarrow> (parse_error, player_info \<times> reader) outcome" where
  "r_player r = obind (r_u16 r) (\<lambda>(i, r1). obind (r_string r1) (\<lambda>(nm, r2).
     Ok (\<lparr>pid = i, pname = nm\<rparr>, r2)))"

definition r_players :: "reader \<Rightarrow> (parse_error, player_info list \<times> reader) outcome" where
  "r_players r = obind (r_u8 r) (\<lambda>(n, r1).
     if MAX_CLIENTS + 1 < unat n then Err OutOfRange else get_n r_player (unat n) r1)"

definition r_finish :: "reader \<Rightarrow> (parse_error, unit) outcome" where
  "r_finish r = (if rpos r = length (rbuf r) then Ok () else Err TrailingBytes)"

section \<open>The bytes left, and the space left\<close>

definition rd_wf :: "reader \<Rightarrow> bool" where
  "rd_wf r \<longleftrightarrow> rpos r \<le> length (rbuf r)"

definition rest :: "reader \<Rightarrow> u8 list" where
  "rest r = drop (rpos r) (rbuf r)"

definition wr_wf :: "writer \<Rightarrow> bool" where
  "wr_wf w \<longleftrightarrow> wpos w \<le> length (wbuf w)"

text \<open>The reader \<open>r'\<close> stands behind the bytes \<open>e\<close> that came next for \<open>r\<close>.\<close>

definition reads :: "reader \<Rightarrow> u8 list \<Rightarrow> reader \<Rightarrow> bool" where
  "reads r e r' \<longleftrightarrow> rd_wf r \<and> prefix e (rest r) \<and> r' = r\<lparr>rpos := rpos r + length e\<rparr>"

lemma reads_rest: "reads r e r' \<longleftrightarrow>
    rd_wf r \<and> rd_wf r' \<and> rest r = e @ rest r' \<and> r' = r\<lparr>rpos := rpos r + length e\<rparr>"
proof -
  have "rd_wf r' \<and> rest r = e @ rest r'"
    if r: "rd_wf r" "prefix e (rest r)" "r' = r\<lparr>rpos := rpos r + length e\<rparr>"
  proof -
    from r obtain zs where zs: "rest r = e @ zs" by (auto simp: prefix_def)
    then have "length (rbuf r) - rpos r = length e + length zs"
      by (metis length_append length_drop rest_def)
    moreover have "rest r' = drop (length e) (rest r)"
      using r by (simp add: rest_def add.commute)
    ultimately show ?thesis using r zs by (auto simp: rd_wf_def)
  qed
  then show ?thesis by (auto simp: reads_def)
qed

lemma reads_wf: "reads r e r' \<Longrightarrow> rd_wf r'"
  using reads_rest by blast

lemma reads_Nil [simp]: "reads r [] r' \<longleftrightarrow> rd_wf r \<and> r' = r"
  by (auto simp: reads_def)

text \<open>Reading one encoding after another is reading their concatenation.\<close>

lemma reads_append: "reads r (e @ f) r' \<longleftrightarrow> (\<exists>r1. reads r e r1 \<and> reads r1 f r')"
proof
  assume a: "reads r (e @ f) r'"
  let ?r1 = "r\<lparr>rpos := rpos r + length e\<rparr>"
  from a have "reads r e ?r1" by (auto simp: reads_def prefix_def)
  moreover from this a have "reads ?r1 f r'"
    by (auto simp: reads_rest add.assoc)
  ultimately show "\<exists>r1. reads r e r1 \<and> reads r1 f r'" by blast
qed (auto simp: reads_rest add.assoc)

lemma reads_Cons: "reads r (b # f) r' \<longleftrightarrow> (\<exists>r1. reads r [b] r1 \<and> reads r1 f r')"
  using reads_append [of r "[b]" f r'] by simp

lemma r_bytes_eq:
  "r_bytes n r =
     (if \<not> rd_wf r then Panic
      else if length (rest r) < n then Err Truncated
      else Ok (take n (rest r), r\<lparr>rpos := rpos r + n\<rparr>))"
  by (auto simp: r_bytes_def rd_wf_def rest_def usize_sub_def)

text \<open>A read that does not panic and leaves the reader inside its buffer.\<close>

definition safe :: "('e, 'a \<times> reader) outcome \<Rightarrow> bool" where
  "safe m \<longleftrightarrow> m \<noteq> Panic \<and> (\<forall>x r. m = Ok (x, r) \<longrightarrow> rd_wf r)"

lemma safe_Ok: "rd_wf r \<Longrightarrow> safe (Ok (x, r))"
  by (simp add: safe_def)

lemma safe_Err: "safe (Err e)"
  by (simp add: safe_def)

lemma safe_bind:
  "\<lbrakk>safe m; \<And>x r. rd_wf r \<Longrightarrow> safe (f x r)\<rbrakk> \<Longrightarrow> safe (obind m (\<lambda>(x, r). f x r))"
  by (cases m) (auto simp: safe_def)

lemma safe_bind_pure:
  "\<lbrakk>m \<noteq> Panic; \<And>a. safe (f a)\<rbrakk> \<Longrightarrow> safe (obind m f)"
  by (cases m) (auto simp: safe_def)

lemmas safe_intros = safe_bind safe_Ok safe_Err safe_bind_pure [OF try_from_no_panic(2)]
  safe_bind_pure [OF try_from_no_panic(3)]

lemma safe_bytes: "rd_wf r \<Longrightarrow> safe (r_bytes n r)"
  by (auto simp: safe_def r_bytes_eq rest_def rd_wf_def)

lemma take_prefix_iff: "n \<le> length xs \<and> take n xs = s \<longleftrightarrow> length s = n \<and> prefix s xs"
  by (auto simp: prefix_def intro: append_take_drop_id [symmetric])

lemma r_bytes_iff [codec_simps]: "r_bytes n r = Ok (s, r') \<longleftrightarrow> length s = n \<and> reads r s r'"
  using take_prefix_iff [of n "rest r" s] by (auto simp: r_bytes_eq not_less reads_def)

lemma r_bytes_panic_iff [codec_simps]: "r_bytes n r = Panic \<longleftrightarrow> \<not> rd_wf r"
  by (simp add: r_bytes_eq)

lemma w_bytes_append:
  "Option.bind (w_bytes u w) (w_bytes v) = w_bytes (u @ v) w"
  using copy_at_append [of "wpos w" u "wbuf w" v]
  by (cases "copy_at (wpos w) u (wbuf w)")
    (auto simp: w_bytes_def add.assoc split: option.split dest: sym)

lemma w_bytes_Nil: "wr_wf w \<Longrightarrow> w_bytes [] w = Some w"
  by (simp add: w_bytes_def copy_at_def wr_wf_def)

lemma w_bytes_wf: "w_bytes v w = Some w' \<Longrightarrow> wr_wf w'"
  by (auto simp: w_bytes_def wr_wf_def copy_at_def split: option.splits if_splits)

lemma w_u8_bytes [codec_simps]: "w_u8 v w = w_bytes [v] w"
  by (simp add: w_u8_def w_bytes_def copy_at_def upd_conv_take_nth_drop)

section \<open>The contract of a field\<close>

text \<open>
  \<open>put\<close> writes a value, \<open>get\<close> reads one; \<open>enc\<close> is the encoding of a value, \<open>valid\<close> says
  which values the reader may return, and \<open>canon\<close> is the value the reader sees after a write
  (a name longer than the limit is cut). The writer appends the encoding of the canonical
  value; the reader returns \<open>x\<close> exactly when \<open>x\<close> is valid and the bytes left start with its
  encoding, and then stands right behind it; it never panics.
\<close>

locale field_codec =
  fixes put :: "'a \<Rightarrow> writer \<Rightarrow> writer option"
    and get :: "reader \<Rightarrow> (parse_error, 'a \<times> reader) outcome"
    and enc :: "'a \<Rightarrow> u8 list"
    and valid :: "'a \<Rightarrow> bool"
    and canon :: "'a \<Rightarrow> 'a"
  assumes put_enc: "put x w = w_bytes (enc (canon x)) w"
    and get_iff: "get r = Ok (x, r') \<longleftrightarrow> valid x \<and> reads r (enc x) r'"
    and get_panic_iff: "get r = Panic \<longleftrightarrow> \<not> rd_wf r"
    and canon_valid: "valid x \<Longrightarrow> canon x = x"
begin

lemma get_safe: "rd_wf r \<Longrightarrow> safe (get r)"
  by (auto simp: safe_def get_panic_iff get_iff dest: reads_wf)

text \<open>Repeated fields: a loop of writes appends all encodings, a loop of \<open>n\<close> reads returns
  \<open>n\<close> valid values exactly when their encodings are what comes next.\<close>

lemma put_all_enc:
  "wr_wf w \<Longrightarrow> put_all put xs w = w_bytes (concat (map (\<lambda>x. enc (canon x)) xs)) w"
proof (induction xs arbitrary: w)
  case Nil
  then show ?case by (simp add: w_bytes_Nil)
next
  case (Cons x xs)
  show ?case
  proof (cases "w_bytes (enc (canon x)) w")
    case None
    then show ?thesis by (simp add: put_enc flip: w_bytes_append)
  next
    case (Some w')
    with Cons.IH [OF w_bytes_wf] show ?thesis by (simp add: put_enc flip: w_bytes_append)
  qed
qed

lemma get_n_iff:
  "rd_wf r \<Longrightarrow> get_n get n r = Ok (xs, r') \<longleftrightarrow>
     length xs = n \<and> (\<forall>x \<in> set xs. valid x) \<and> reads r (concat (map enc xs)) r'"
proof (induction n arbitrary: r xs)
  case (Suc n)
  have IH: "reads r (enc y) r1 \<Longrightarrow> get_n get n r1 = Ok (ys, r') \<longleftrightarrow>
     length ys = n \<and> (\<forall>x \<in> set ys. valid x) \<and> reads r1 (concat (map enc ys)) r'" for y ys r1
    using Suc.IH reads_wf by blast
  have step: "get_n get (Suc n) r = Ok (y # ys, r') \<longleftrightarrow>
     valid y \<and> (\<exists>r1. reads r (enc y) r1 \<and> get_n get n r1 = Ok (ys, r'))" for y ys
    by (force simp: outcome_simps get_iff)
  show ?case
  proof (cases xs)
    case (Cons y ys)
    show ?thesis using IH [of y _ ys] by (auto simp: Cons step reads_append simp del: get_n.simps)
  qed (auto simp: outcome_simps)
qed auto

lemma get_n_no_panic: "rd_wf r \<Longrightarrow> get_n get n r \<noteq> Panic"
  by (induction n arbitrary: r)
    (auto simp: outcome_simps get_panic_iff get_iff dest: reads_wf)

end

section \<open>Every field kind keeps the contract\<close>

lemma be_bytes_take_iff:
  fixes v :: "'a::len word"
  assumes "LENGTH('a) = 8 * n"
  shows "n \<le> length bs \<and> from_be_bytes (take n bs) = v \<longleftrightarrow> prefix (be_bytes n v) bs"
proof
  assume "n \<le> length bs \<and> from_be_bytes (take n bs) = v"
  moreover have "be_bytes (length (take n bs)) (from_be_bytes (take n bs) :: 'a word) = take n bs"
    using assms by (intro be_bytes_from_be_bytes) simp
  ultimately have "be_bytes n v = take n bs" by (simp add: min_def split: if_splits)
  then show "prefix (be_bytes n v) bs" by (simp add: take_is_prefix)
next
  assume "prefix (be_bytes n v) bs"
  then obtain zs where "bs = be_bytes n v @ zs" by (auto simp: prefix_def)
  then show "n \<le> length bs \<and> from_be_bytes (take n bs) = v"
    using assms by (simp add: from_be_bytes_be_bytes)
qed

lemma nth_take_numerals:
  "2 \<le> length b \<Longrightarrow> [b ! 0, b ! 1] = take 2 b"
  "4 \<le> length b \<Longrightarrow> [b ! 0, b ! 1, b ! 2, b ! 3] = take 4 b"
  by (cases b; cases "tl b"; cases "tl (tl b)"; cases "tl (tl (tl b))"; auto)+

text \<open>A fixed-width reader that decodes the bytes it takes.\<close>

definition r_word :: "nat \<Rightarrow> reader \<Rightarrow> (parse_error, 'a::len word \<times> reader) outcome" where
  "r_word n r = obind (r_bytes n r) (\<lambda>(b, r'). Ok (from_be_bytes b, r'))"

lemma r_word_iff:
  "LENGTH('a) = 8 * n \<Longrightarrow>
   r_word n r = Ok (v :: 'a::len word, r') \<longleftrightarrow> reads r (be_bytes n v) r'"
  using be_bytes_take_iff [of n "rest r" v]
  by (auto simp: r_word_def r_bytes_eq not_less reads_def)

lemma r_word_panic_iff: "r_word n r = Panic \<longleftrightarrow> \<not> rd_wf r"
  by (auto simp: r_word_def r_bytes_eq)

lemma r_u16_eq: "r_u16 r = r_word 2 r"
  by (auto simp: r_u16_def r_word_def r_bytes_eq nth_take_numerals not_less simp del: One_nat_def)

lemma r_u32_eq: "r_u32 r = r_word 4 r"
  by (auto simp: r_u32_def r_word_def r_bytes_eq nth_take_numerals not_less simp del: One_nat_def)

lemma r_u64_eq: "r_u64 r = r_word 8 r"
  by (auto simp: r_u64_def r_word_def r_bytes_eq not_less)

interpretation u8f: field_codec w_u8 r_u8 "\<lambda>v. [v]" "\<lambda>_. True" "\<lambda>v. v"
proof unfold_locales
  fix r r' :: reader and x :: u8
  show "r_u8 r = Ok (x, r') \<longleftrightarrow> True \<and> reads r [x] r'"
    by (cases "rest r") (auto simp: r_u8_def r_bytes_eq reads_def)
  show "r_u8 r = Panic \<longleftrightarrow> \<not> rd_wf r"
    by (auto simp: r_u8_def r_bytes_eq not_less)
qed (simp_all add: w_u8_bytes)

interpretation u16f: field_codec w_u16 r_u16 "be_bytes 2" "\<lambda>_. True" "\<lambda>v. v"
  by unfold_locales (simp_all add: w_u16_def r_u16_eq r_word_iff r_word_panic_iff)

interpretation u32f: field_codec w_u32 r_u32 "be_bytes 4" "\<lambda>_. True" "\<lambda>v. v"
  by unfold_locales (simp_all add: w_u32_def r_u32_eq r_word_iff r_word_panic_iff)

interpretation u64f: field_codec w_u64 r_u64 "be_bytes 8" "\<lambda>_. True" "\<lambda>v. v"
  by unfold_locales (simp_all add: w_u64_def r_u64_eq r_word_iff r_word_panic_iff)

text \<open>Names: one length byte and the bytes, cut at a character boundary when they are too long.\<close>

definition enc_string :: "rust_string \<Rightarrow> u8 list" where
  "enc_string s = of_nat (length s) # s"

definition string_valid :: "rust_string \<Rightarrow> bool" where
  "string_valid s \<longleftrightarrow> utf8_valid s \<and> length s \<le> MAX_NAME_LEN"

definition string_canon :: "rust_string \<Rightarrow> rust_string" where
  "string_canon s = take (name_cut s) s"

lemma char_floor_le: "char_floor s n \<le> n"
  by (induction n) auto

lemma char_floor_boundary: "is_char_boundary s (char_floor s n)"
  by (induction n) (auto simp: is_char_boundary_def)

lemma name_cut_le: "name_cut s \<le> length s" "name_cut s \<le> MAX_NAME_LEN"
  using char_floor_le [of s "min (length s) MAX_NAME_LEN"] by (auto simp: name_cut_def)

lemma name_cut_short: "length s \<le> MAX_NAME_LEN \<Longrightarrow> name_cut s = length s"
  by (cases "length s") (auto simp: name_cut_def is_char_boundary_def)

lemma length_string_canon: "length (string_canon s) = name_cut s"
  using name_cut_le by (simp add: string_canon_def)

lemma string_canon_short [simp]: "length s \<le> MAX_NAME_LEN \<Longrightarrow> string_canon s = s"
  by (simp add: string_canon_def name_cut_short)

lemma string_canon_valid: "utf8_valid s \<Longrightarrow> string_valid (string_canon s)"
  using name_cut_le [of s]
  by (simp add: string_valid_def length_string_canon)
    (simp add: string_canon_def utf8_valid_take name_cut_def char_floor_boundary)

lemma unat_name_len:
  "n \<le> MAX_NAME_LEN \<Longrightarrow> unat (of_nat n :: u8) = n"
  by (simp add: MAX_NAME_LEN_def unat_of_nat)

interpretation strf: field_codec w_string r_string enc_string string_valid string_canon
proof unfold_locales
  fix x and w :: writer and r r' :: reader
  show "w_string x w = w_bytes (enc_string (string_canon x)) w"
    using name_cut_le [of x] w_bytes_append [of "[of_nat (name_cut x)]" w "take (name_cut x) x"]
    by (simp add: w_string_def w_u8_bytes enc_string_def length_string_canon)
      (simp add: string_canon_def)
  show "r_string r = Panic \<longleftrightarrow> \<not> rd_wf r"
    by (auto simp: r_string_def outcome_simps u8f.get_panic_iff u8f.get_iff r_bytes_panic_iff
        dest: reads_wf split: if_splits)
  show "r_string r = Ok (x, r') \<longleftrightarrow> string_valid x \<and> reads r (enc_string x) r'"
  proof
    assume "string_valid x \<and> reads r (enc_string x) r'"
    then obtain r1 where "r_u8 r = Ok (of_nat (length x), r1)" "r_bytes (length x) r1 = Ok (x, r')"
      "string_valid x"
      by (auto simp: enc_string_def reads_Cons [of r _ x] u8f.get_iff r_bytes_iff)
    then show "r_string r = Ok (x, r')"
      by (auto simp: r_string_def string_valid_def unat_name_len)
  qed (auto simp: r_string_def outcome_simps u8f.get_iff r_bytes_iff enc_string_def
      string_valid_def reads_Cons [of r _ x] split: if_splits)
next
  fix x :: rust_string
  show "string_valid x \<Longrightarrow> string_canon x = x" by (simp add: string_valid_def)
qed

text \<open>One player of the roster, and the roster.\<close>

definition enc_player :: "player_info \<Rightarrow> u8 list" where
  "enc_player p = be_bytes 2 (pid p) @ enc_string (pname p)"

definition player_valid :: "player_info \<Rightarrow> bool" where
  "player_valid p \<longleftrightarrow> string_valid (pname p)"

definition player_canon :: "player_info \<Rightarrow> player_info" where
  "player_canon p = p\<lparr>pname := string_canon (pname p)\<rparr>"

definition enc_players :: "player_info list \<Rightarrow> u8 list" where
  "enc_players ps = of_nat (length ps) # concat (map enc_player ps)"

definition players_valid :: "player_info list \<Rightarrow> bool" where
  "players_valid ps \<longleftrightarrow> length ps \<le> MAX_CLIENTS + 1 \<and> (\<forall>p \<in> set ps. player_valid p)"

interpretation playerf: field_codec w_player r_player enc_player player_valid player_canon
proof unfold_locales
  fix x and w :: writer and r r' :: reader
  show "w_player x w = w_bytes (enc_player (player_canon x)) w"
    using w_bytes_append [of "be_bytes 2 (pid x)" w "enc_string (string_canon (pname x))"]
    by (simp add: w_player_def u16f.put_enc strf.put_enc [abs_def] enc_player_def player_canon_def)
  show "r_player r = Panic \<longleftrightarrow> \<not> rd_wf r"
    by (auto simp: r_player_def outcome_simps u16f.get_panic_iff u16f.get_iff strf.get_panic_iff
        dest: reads_wf)
  show "r_player r = Ok (x, r') \<longleftrightarrow> player_valid x \<and> reads r (enc_player x) r'"
    by (cases x) (auto simp: r_player_def outcome_simps u16f.get_iff strf.get_iff
        enc_player_def player_valid_def reads_append)
next
  fix x :: player_info
  show "player_valid x \<Longrightarrow> player_canon x = x"
    by (simp add: player_valid_def player_canon_def strf.canon_valid)
qed

lemma unat_player_count: "n \<le> MAX_CLIENTS + 1 \<Longrightarrow> unat (of_nat n :: u8) = n"
  by (simp add: MAX_CLIENTS_def unat_of_nat)

interpretation playersf:
  field_codec w_players r_players enc_players players_valid "map player_canon"
proof unfold_locales
  fix x and w :: writer and r r' :: reader
  let ?ps = "concat (map (\<lambda>p. enc_player (player_canon p)) x)"
  have "w_players x w = Option.bind (w_bytes [of_nat (length x)] w) (w_bytes ?ps)"
    by (cases "w_bytes [of_nat (length x)] w")
      (auto simp: w_players_def w_u8_bytes playerf.put_all_enc dest: w_bytes_wf)
  also have "\<dots> = w_bytes ([of_nat (length x)] @ ?ps) w" by (rule w_bytes_append)
  finally show "w_players x w = w_bytes (enc_players (map player_canon x)) w"
    by (simp add: enc_players_def comp_def)
  show "r_players r = Panic \<longleftrightarrow> \<not> rd_wf r"
    by (auto simp: r_players_def outcome_simps u8f.get_panic_iff u8f.get_iff
        dest!: reads_wf playerf.get_n_no_panic split: if_splits)
  have n: "reads r [b] r1 \<Longrightarrow> get_n r_player n r1 = Ok (x, r') \<longleftrightarrow> length x = n
      \<and> (\<forall>p \<in> set x. player_valid p) \<and> reads r1 (concat (map enc_player x)) r'" for b n r1
    by (intro playerf.get_n_iff) (rule reads_wf)
  show "r_players r = Ok (x, r') \<longleftrightarrow> players_valid x \<and> reads r (enc_players x) r'"
  proof
    assume "players_valid x \<and> reads r (enc_players x) r'"
    then obtain r1 where r1: "r_u8 r = Ok (of_nat (length x), r1)" and x: "players_valid x"
      and "reads r1 (concat (map enc_player x)) r'"
      by (auto simp: enc_players_def reads_Cons [of r _ "concat _"] u8f.get_iff)
    then have "get_n r_player (length x) r1 = Ok (x, r')"
      using n [of "of_nat (length x)" r1 "length x"]
      by (simp add: players_valid_def u8f.get_iff)
    with r1 x show "r_players r = Ok (x, r')"
      by (simp add: r_players_def players_valid_def unat_player_count)
  qed (use n in \<open>auto simp: r_players_def outcome_simps u8f.get_iff enc_players_def
      players_valid_def reads_Cons [of r _ "concat _"] split: if_splits\<close>)
next
  fix x :: "player_info list"
  show "players_valid x \<Longrightarrow> map player_canon x = x"
    by (auto simp: players_valid_def playerf.canon_valid intro: map_idI)
qed

end
