(* ===== verification/Wire_Packet.thy ===== *)
theory Wire_Packet
  imports Wire_Cursor "HOL-Library.Monad_Syntax"
begin

text \<open>
  The datagrams of \<open>crates/jam-protocol/src/packet.rs\<close>: \<open>Header\<close>, \<open>AudioPacket\<close> and
  \<open>Control\<close>, each with its writer and its parser, and \<open>parse_datagram\<close>, the entry point of the
  receive thread. The encodings \<open>enc_header\<close>, \<open>enc_audio\<close> and \<open>enc_body\<close> are the abstract
  wire format; the writers are shown to store exactly these bytes, the parsers to accept
  exactly these bytes.
\<close>

section \<open>Header\<close>

definition header_write :: "header \<Rightarrow> u8 list \<Rightarrow> (u8 list \<times> nat) option" where
  "header_write h out = do {
     o0 \<leftarrow> set_at 0 MAGIC out;
     o1 \<leftarrow> set_at 1 (push_bit 4 PROTOCOL_VERSION OR ptype_code (ptype h)) o0;
     o2 \<leftarrow> copy_at 2 (be_bytes 2 (session_id h)) o1;
     o3 \<leftarrow> copy_at 4 (be_bytes 2 (sender_id h)) o2;
     o4 \<leftarrow> copy_at 6 (be_bytes 2 (hseq h)) o3;
     Some (o4, HEADER_LEN) }"

definition header_parse :: "u8 list \<Rightarrow> (parse_error, header \<times> u8 list) outcome" where
  "header_parse buf =
     (if length buf < HEADER_LEN then Err Truncated
      else obind (idx buf 0) (\<lambda>b0.
      if b0 \<noteq> MAGIC then Err BadMagic
      else obind (idx buf 1) (\<lambda>b1.
      let version = drop_bit 4 b1 in
      if version \<noteq> PROTOCOL_VERSION then Err (BadVersion version)
      else obind (ptype_try_from (b1 AND 0x0F)) (\<lambda>pt.
      obind (idx buf 2) (\<lambda>b2. obind (idx buf 3) (\<lambda>b3. obind (idx buf 4) (\<lambda>b4.
      obind (idx buf 5) (\<lambda>b5. obind (idx buf 6) (\<lambda>b6. obind (idx buf 7) (\<lambda>b7.
      obind (subslice buf HEADER_LEN (length buf)) (\<lambda>body.
      Ok (\<lparr>ptype = pt, session_id = from_be_bytes [b2, b3], sender_id = from_be_bytes [b4, b5],
           hseq = from_be_bytes [b6, b7]\<rparr>, body))))))))))))"

definition enc_header :: "header \<Rightarrow> u8 list" where
  "enc_header h = [MAGIC, push_bit 4 PROTOCOL_VERSION OR ptype_code (ptype h)]
     @ be_bytes 2 (session_id h) @ be_bytes 2 (sender_id h) @ be_bytes 2 (hseq h)"

lemma length_enc_header [simp]: "length (enc_header h) = 8"
  by (simp add: enc_header_def)

text \<open>Header fields are laid out one after another.\<close>

lemma header_write_eq:
  "header_write h out = map_option (\<lambda>b. (b, 8)) (copy_at 0 (enc_header h) out)"
  by (simp add: header_write_def set_at_copy_at copy_at_chain enc_header_def HEADER_LEN_def
      map_conv_bind_option comp_def)

lemma version_byte_iff:
  "drop_bit 4 b = PROTOCOL_VERSION \<and> b AND 0x0F = ptype_code p \<longleftrightarrow>
   b = push_bit 4 PROTOCOL_VERSION OR ptype_code p" for b :: u8
proof
  assume b: "drop_bit 4 b = PROTOCOL_VERSION \<and> b AND 0x0F = ptype_code p"
  have "b = push_bit 4 (drop_bit 4 b) OR (b AND mask 4)"
    by (rule bit_word_eqI) (auto simp: bit_simps)
  with b show "b = push_bit 4 PROTOCOL_VERSION OR ptype_code p"
    by (simp add: mask_eq_exp_minus_1)
qed (cases p; simp add: PROTOCOL_VERSION_def)

lemma list_of_length_8:
  assumes "8 \<le> length buf"
  obtains b0 b1 b2 b3 b4 b5 b6 b7 rest where "buf = b0 # b1 # b2 # b3 # b4 # b5 # b6 # b7 # rest"
  using assms by (auto simp: numeral_eq_Suc Suc_le_length_iff)

lemma be_bytes_2_iff: "from_be_bytes [a, b] = v \<longleftrightarrow> [a, b] = be_bytes 2 (v :: u16)"
  using be_bytes_from_be_bytes [of "[a, b]", where 'a = 16] from_be_bytes_be_bytes [of 2 v]
  by (auto simp: numeral_eq_Suc simp del: be_bytes.simps)

lemma be_bytes_4_iff: "from_be_bytes [a, b, c, d] = v \<longleftrightarrow> [a, b, c, d] = be_bytes 4 (v :: u32)"
  using be_bytes_from_be_bytes [of "[a, b, c, d]", where 'a = 32] from_be_bytes_be_bytes [of 4 v]
  by (auto simp: numeral_eq_Suc simp del: be_bytes.simps)

lemma header_parse_iff:
  "header_parse buf = Ok (h, body) \<longleftrightarrow> buf = enc_header h @ body"
proof (cases "8 \<le> length buf")
  case True
  then obtain b0 b1 b2 b3 b4 b5 b6 b7 r where
    b: "buf = b0 # b1 # b2 # b3 # b4 # b5 # b6 # b7 # r" by (rule list_of_length_8)
  have app: "be_bytes 2 v @ zs = x # y # ys \<longleftrightarrow> be_bytes 2 v = [x, y] \<and> zs = ys"
    for v :: u16 and x y ys zs by (cases "be_bytes 2 v") (auto simp: numeral_eq_Suc)
  show ?thesis using version_byte_iff [of b1 "ptype h"]
    by (cases h) (auto simp: b header_parse_def HEADER_LEN_def Let_def outcome_simps codec_simps
        enc_header_def be_bytes_2_iff app app [THEN eq_iff_swap])
qed (auto simp: header_parse_def HEADER_LEN_def)

lemma header_parse_no_panic: "header_parse buf \<noteq> Panic"
  by (auto simp: header_parse_def HEADER_LEN_def Let_def outcome_simps idx_def subslice_def
      split: if_splits)

section \<open>Audio packets\<close>

definition audio_write :: "audio_packet \<Rightarrow> header \<Rightarrow> u8 list \<Rightarrow> (u8 list \<times> nat) option" where
  "audio_write a h out = do {
     (o0, n) \<leftarrow> header_write h out;
     o1 \<leftarrow> copy_at n (be_bytes 4 (timestamp a)) o0;
     o2 \<leftarrow> set_at (n + 4) (codec_code (acodec a)) o1;
     o3 \<leftarrow> set_at (n + 5) (if redundant a \<noteq> None then AUDIO_FLAG_REDUNDANCY else 0) o2;
     let plen = (of_nat (length (payload a)) :: u16);
     o4 \<leftarrow> copy_at (n + 6) (be_bytes 2 plen) o3;
     let n = n + AUDIO_HEADER_LEN;
     o5 \<leftarrow> copy_at n (payload a) o4;
     let n = n + length (payload a);
     (case redundant a of
        None \<Rightarrow> Some (o5, n)
      | Some red \<Rightarrow> do {
          let rlen = (of_nat (length red) :: u16);
          o6 \<leftarrow> copy_at n (be_bytes 2 rlen) o5;
          let n = n + 2;
          o7 \<leftarrow> copy_at n red o6;
          Some (o7, n + length red) }) }"

definition parse_redundant ::
  "u8 \<Rightarrow> u8 list \<Rightarrow> (parse_error, u8 list option \<times> u8 list) outcome" where
  "parse_redundant flags tail =
     (if flags AND AUDIO_FLAG_REDUNDANCY \<noteq> 0 then
        if length tail < 2 then Err Truncated
        else obind (idx tail 0) (\<lambda>t0. obind (idx tail 1) (\<lambda>t1.
          let rlen = unat (from_be_bytes [t0, t1] :: u16) in
          obind (subslice tail 2 (length tail)) (\<lambda>tail.
          if length tail < rlen then Err BadLength
          else obind (subslice tail 0 rlen) (\<lambda>red.
               obind (subslice tail rlen (length tail)) (\<lambda>tail. Ok (Some red, tail))))))
      else Ok (None, tail))"

definition audio_parse :: "u8 list \<Rightarrow> (parse_error, audio_packet) outcome" where
  "audio_parse body =
     (if length body < AUDIO_HEADER_LEN then Err Truncated
      else obind (idx body 0) (\<lambda>b0. obind (idx body 1) (\<lambda>b1. obind (idx body 2) (\<lambda>b2.
      obind (idx body 3) (\<lambda>b3. obind (idx body 4) (\<lambda>b4.
      obind (codec_try_from b4) (\<lambda>c. obind (idx body 5) (\<lambda>flags.
      obind (idx body 6) (\<lambda>b6. obind (idx body 7) (\<lambda>b7.
      let plen = unat (from_be_bytes [b6, b7] :: u16) in
      obind (subslice body AUDIO_HEADER_LEN (length body)) (\<lambda>rest.
      if length rest < plen then Err BadLength
      else obind (subslice rest 0 plen) (\<lambda>pl. obind (subslice rest plen (length rest)) (\<lambda>tail.
      obind (parse_redundant flags tail) (\<lambda>(red, tail).
      if tail \<noteq> [] then Err TrailingBytes
      else Ok \<lparr>timestamp = from_be_bytes [b0, b1, b2, b3], acodec = c, payload = pl,
               redundant = red\<rparr>))))))))))))))"

text \<open>
  The wire format: the flags byte \<open>f\<close> announces the redundant copy in its lowest bit (the
  parser ignores the seven others, the writer clears them), lengths are two bytes.
\<close>

definition enc_redundant :: "u8 list option \<Rightarrow> u8 list" where
  "enc_redundant r = (case r of None \<Rightarrow> [] | Some red \<Rightarrow> be_bytes 2 (of_nat (length red) :: u16) @ red)"

definition enc_audio_flags :: "u8 \<Rightarrow> audio_packet \<Rightarrow> u8 list" where
  "enc_audio_flags f a =
     be_bytes 4 (timestamp a) @ [codec_code (acodec a), f]
     @ be_bytes 2 (of_nat (length (payload a)) :: u16) @ payload a @ enc_redundant (redundant a)"

definition enc_audio :: "audio_packet \<Rightarrow> u8 list" where
  "enc_audio a = enc_audio_flags (if redundant a \<noteq> None then AUDIO_FLAG_REDUNDANCY else 0) a"

definition audio_fits :: "audio_packet \<Rightarrow> bool" where
  "audio_fits a \<longleftrightarrow> length (payload a) < 2 ^ 16
     \<and> (case redundant a of None \<Rightarrow> True | Some red \<Rightarrow> length red < 2 ^ 16)"

lemma length_enc_audio:
  "length (enc_audio a) = 8 + length (payload a)
     + (case redundant a of None \<Rightarrow> 0 | Some red \<Rightarrow> 2 + length red)"
  by (simp add: enc_audio_def enc_audio_flags_def enc_redundant_def split: option.split)

lemma audio_write_eq:
  "audio_write a h out =
     map_option (\<lambda>b. (b, 8 + length (enc_audio a))) (copy_at 0 (enc_header h @ enc_audio a) out)"
  by (cases "redundant a")
    (simp_all add: audio_write_def header_write_eq set_at_copy_at copy_at_chain
      enc_audio_def enc_audio_flags_def enc_redundant_def AUDIO_HEADER_LEN_def Let_def
      map_conv_bind_option comp_def bind_assoc case_prod_unfold)

definition red_fits :: "u8 list option \<Rightarrow> bool" where
  "red_fits r \<longleftrightarrow> (\<forall>red. r = Some red \<longrightarrow> length red < 2 ^ 16)"

lemma unat_len_u16: "n < 2 ^ 16 \<Longrightarrow> unat (of_nat n :: u16) = n"
  by (simp add: unat_of_nat)

lemma of_nat_unat_u16: "of_nat (unat v) = (v :: u16)" "unat (v :: u16) < 65536"
  using unsigned_less [of v, where 'a = nat] by simp_all

lemma be_bytes_2_append_iff:
  "xs = be_bytes 2 v @ ys \<longleftrightarrow> (\<exists>p q. be_bytes 2 v = [p, q] \<and> xs = p # q # ys)"
  using length_be_bytes [of 2 v] by (auto simp: length_Suc_conv numeral_eq_Suc simp del: be_bytes.simps length_be_bytes)

lemma Cons2_be_bytes:
  "x # y # zs = be_bytes 2 v @ ys \<longleftrightarrow> [x, y] = be_bytes 2 v \<and> zs = ys"
  by (auto simp: be_bytes_2_append_iff)

lemma Cons4_be_bytes:
  "w # x # y # z # zs = be_bytes 4 v @ ys \<longleftrightarrow> [w, x, y, z] = be_bytes 4 v \<and> zs = ys"
  using append_eq_append_conv [of "[w, x, y, z]" "be_bytes 4 v" zs ys] by simp

text \<open>A field of two length bytes and that many bytes.\<close>

lemma length_prefixed_iff:
  "(\<exists>r. unat (from_be_bytes [x, y] :: u16) \<le> length r \<and> zs = x # y # r
       \<and> take (unat (from_be_bytes [x, y] :: u16)) r = v
       \<and> drop (unat (from_be_bytes [x, y] :: u16)) r = t) \<longleftrightarrow>
   length v < 2 ^ 16 \<and> [x, y] = be_bytes 2 (of_nat (length v) :: u16) \<and> zs = x # y # v @ t"
proof -
  let ?n = "from_be_bytes [x, y] :: u16"
  have "(\<exists>r. unat ?n \<le> length r \<and> zs = x # y # r \<and> take (unat ?n) r = v \<and> drop (unat ?n) r = t)
     \<longleftrightarrow> unat ?n = length v \<and> zs = x # y # v @ t"
    by auto
  also have "unat ?n = length v \<longleftrightarrow> length v < 2 ^ 16 \<and> ?n = of_nat (length v)"
    using of_nat_unat_u16 [of ?n] by (auto simp: unat_len_u16 dest: sym)
  finally show ?thesis by (auto simp: be_bytes_2_iff)
qed

lemma parse_redundant_iff:
  "parse_redundant f tail = Ok (r, t) \<longleftrightarrow>
     (f AND AUDIO_FLAG_REDUNDANCY \<noteq> 0 \<longleftrightarrow> r \<noteq> None) \<and> red_fits r \<and> tail = enc_redundant r @ t"
proof (cases "f AND AUDIO_FLAG_REDUNDANCY = 0")
  case True
  then show ?thesis by (auto simp: parse_redundant_def red_fits_def enc_redundant_def)
next
  case False
  show ?thesis
  proof (cases "\<exists>x y zs. tail = x # y # zs")
    case True
    then obtain x y zs where tail: "tail = x # y # zs" by blast
    have pre: "parse_redundant f tail = Ok (r, t) \<longleftrightarrow> (\<exists>v. r = Some v \<and>
       (\<exists>q. unat (from_be_bytes [x, y] :: u16) \<le> length q \<and> tail = x # y # q
       \<and> take (unat (from_be_bytes [x, y] :: u16)) q = v
       \<and> drop (unat (from_be_bytes [x, y] :: u16)) q = t))"
      using False by (auto simp: tail parse_redundant_def outcome_simps not_less Let_def split: if_splits)
    show ?thesis unfolding pre length_prefixed_iff using False
      by (cases r) (auto simp: tail red_fits_def enc_redundant_def be_bytes_2_append_iff)
  next
    case short: False
    then have "length tail < 2" by (cases tail; cases "tl tail") auto
    moreover have "\<not> tail = enc_redundant (Some v) @ t" for v
      using short by (auto simp: enc_redundant_def be_bytes_2_append_iff)
    ultimately show ?thesis using False
      by (cases r) (auto simp: parse_redundant_def)
  qed
qed

lemma audio_fits_alt: "audio_fits a \<longleftrightarrow> length (payload a) < 2 ^ 16 \<and> red_fits (redundant a)"
  by (simp add: audio_fits_def red_fits_def split: option.split)

lemma audio_parse_iff:
  "audio_parse body = Ok a \<longleftrightarrow>
     audio_fits a \<and> (\<exists>f. (f AND AUDIO_FLAG_REDUNDANCY \<noteq> 0 \<longleftrightarrow> redundant a \<noteq> None)
       \<and> body = enc_audio_flags f a)"
proof (cases "8 \<le> length body")
  case True
  then obtain b0 b1 b2 b3 b4 f b6 b7 r where
    b: "body = b0 # b1 # b2 # b3 # b4 # f # b6 # b7 # r" by (rule list_of_length_8)
  let ?n = "unat (from_be_bytes [b6, b7] :: u16)"
  have pre: "audio_parse body = Ok a \<longleftrightarrow>
     from_be_bytes [b0, b1, b2, b3] = timestamp a \<and> b4 = codec_code (acodec a)
     \<and> (\<exists>t. (\<exists>q. ?n \<le> length q \<and> b6 # b7 # r = b6 # b7 # q \<and> take ?n q = payload a
            \<and> drop ?n q = t)
          \<and> parse_redundant f t = Ok (redundant a, []))"
    by (cases a) (auto simp: b audio_parse_def AUDIO_HEADER_LEN_def outcome_simps codec_simps
        not_less Let_def split: if_splits)
  show ?thesis unfolding pre length_prefixed_iff parse_redundant_iff
    by (auto simp: b audio_fits_alt enc_audio_flags_def Cons2_be_bytes Cons4_be_bytes
        be_bytes_4_iff)
qed (auto simp: audio_parse_def AUDIO_HEADER_LEN_def enc_audio_flags_def)

lemma audio_parse_no_panic: "audio_parse body \<noteq> Panic"
  by (auto simp: audio_parse_def parse_redundant_def AUDIO_HEADER_LEN_def Let_def outcome_simps
      idx_def subslice_def split: if_splits)

section \<open>Control packets\<close>

text \<open>
  \<open>Control::write\<close> checks that the header's type is the packet's with \<open>debug_assert_eq!\<close>,
  which release builds leave out, as does this definition.
\<close>

definition w_body :: "control \<Rightarrow> writer \<Rightarrow> writer option" where
  "w_body c w =
     (case c of
        Hello pv code nm cm fm \<Rightarrow> do {
          w \<leftarrow> w_u8 pv w; w \<leftarrow> w_bytes code w; w \<leftarrow> w_string nm w; w \<leftarrow> w_u8 cm w; w_u8 fm w }
      | Welcome ai sid sr fs cd ros \<Rightarrow> do {
          w \<leftarrow> w_u16 ai w; w \<leftarrow> w_u16 sid w; w \<leftarrow> w_u32 sr w; w \<leftarrow> w_u16 fs w;
          w \<leftarrow> w_u8 (codec_code cd) w; w_players ros w }
      | Deny rs \<Rightarrow> w_u8 (deny_code rs) w
      | Ping t1 \<Rightarrow> w_u64 t1 w
      | Pong t1 t2 t3 \<Rightarrow> do { w \<leftarrow> w_u64 t1 w; w \<leftarrow> w_u64 t2 w; w_u64 t3 w }
      | Keepalive \<Rightarrow> Some w
      | Bye \<Rightarrow> Some w
      | Roster ps \<Rightarrow> w_players ps w
      | Ack sq ty \<Rightarrow> do { w \<leftarrow> w_u16 sq w; w_u8 ty w })"

definition control_write :: "control \<Rightarrow> header \<Rightarrow> u8 list \<Rightarrow> (u8 list \<times> nat) option" where
  "control_write c h out = do {
     (o0, n) \<leftarrow> header_write h out;
     w \<leftarrow> w_body c \<lparr>wbuf = o0, wpos = n\<rparr>;
     Some (wbuf w, wpos w) }"

definition r_body :: "packet_type \<Rightarrow> reader \<Rightarrow> (parse_error, control \<times> reader) outcome" where
  "r_body pt r =
     (case pt of
        PT_Audio \<Rightarrow> Err (BadType (ptype_code PT_Audio))
      | PT_Hello \<Rightarrow>
          obind (r_u8 r) (\<lambda>(pv, r). obind (r_bytes ROOM_CODE_LEN r) (\<lambda>(code, r).
          obind (r_string r) (\<lambda>(nm, r). obind (r_u8 r) (\<lambda>(cm, r). obind (r_u8 r) (\<lambda>(fm, r).
          Ok (Hello pv code nm cm fm, r))))))
      | PT_Welcome \<Rightarrow>
          obind (r_u16 r) (\<lambda>(ai, r). obind (r_u16 r) (\<lambda>(sid, r). obind (r_u32 r) (\<lambda>(sr, r).
          obind (r_u16 r) (\<lambda>(fs, r). obind (r_u8 r) (\<lambda>(b, r). obind (codec_try_from b) (\<lambda>cd.
          obind (r_players r) (\<lambda>(ros, r). Ok (Welcome ai sid sr fs cd ros, r))))))))
      | PT_Deny \<Rightarrow>
          obind (r_u8 r) (\<lambda>(b, r). obind (deny_try_from b) (\<lambda>rs. Ok (Deny rs, r)))
      | PT_Ping \<Rightarrow> obind (r_u64 r) (\<lambda>(t1, r). Ok (Ping t1, r))
      | PT_Pong \<Rightarrow>
          obind (r_u64 r) (\<lambda>(t1, r). obind (r_u64 r) (\<lambda>(t2, r). obind (r_u64 r) (\<lambda>(t3, r).
          Ok (Pong t1 t2 t3, r))))
      | PT_Keepalive \<Rightarrow> Ok (Keepalive, r)
      | PT_Roster \<Rightarrow> obind (r_players r) (\<lambda>(ps, r). Ok (Roster ps, r))
      | PT_Bye \<Rightarrow> Ok (Bye, r)
      | PT_Ack \<Rightarrow> obind (r_u16 r) (\<lambda>(sq, r). obind (r_u8 r) (\<lambda>(ty, r). Ok (Ack sq ty, r))))"

definition control_parse :: "packet_type \<Rightarrow> u8 list \<Rightarrow> (parse_error, control) outcome" where
  "control_parse pt body =
     obind (r_body pt \<lparr>rbuf = body, rpos = 0\<rparr>) (\<lambda>(c, r). obind (r_finish r) (\<lambda>_. Ok c))"

text \<open>The wire format of the bodies, and which packets the parser can return.\<close>

fun enc_body :: "control \<Rightarrow> u8 list" where
  "enc_body (Hello pv code nm cm fm) = [pv] @ code @ enc_string nm @ [cm] @ [fm]"
| "enc_body (Welcome ai sid sr fs cd ros) =
     be_bytes 2 ai @ be_bytes 2 sid @ be_bytes 4 sr @ be_bytes 2 fs @ [codec_code cd]
     @ enc_players ros"
| "enc_body (Deny rs) = [deny_code rs]"
| "enc_body (Ping t1) = be_bytes 8 t1"
| "enc_body (Pong t1 t2 t3) = be_bytes 8 t1 @ be_bytes 8 t2 @ be_bytes 8 t3"
| "enc_body Keepalive = []"
| "enc_body (Roster ps) = enc_players ps"
| "enc_body Bye = []"
| "enc_body (Ack sq ty) = be_bytes 2 sq @ [ty]"

fun control_valid :: "control \<Rightarrow> bool" where
  "control_valid (Hello pv code nm cm fm) \<longleftrightarrow> length code = ROOM_CODE_LEN \<and> string_valid nm"
| "control_valid (Welcome ai sid sr fs cd ros) \<longleftrightarrow> players_valid ros"
| "control_valid (Roster ps) \<longleftrightarrow> players_valid ps"
| "control_valid _ \<longleftrightarrow> True"

fun control_canon :: "control \<Rightarrow> control" where
  "control_canon (Hello pv code nm cm fm) = Hello pv code (string_canon nm) cm fm"
| "control_canon (Welcome ai sid sr fs cd ros) = Welcome ai sid sr fs cd (map player_canon ros)"
| "control_canon (Roster ps) = Roster (map player_canon ps)"
| "control_canon c = c"

lemma w_bytes_chain:
  "Option.bind (w_bytes u w) (\<lambda>w1. Option.bind (w_bytes v w1) k) = Option.bind (w_bytes (u @ v) w) k"
  by (simp flip: w_bytes_append)

lemmas put_encs = w_u8_bytes [abs_def] u16f.put_enc [abs_def] u32f.put_enc [abs_def]
  u64f.put_enc [abs_def] strf.put_enc [abs_def] playersf.put_enc [abs_def]

lemma w_body_enc: "wr_wf w \<Longrightarrow> w_body c w = w_bytes (enc_body (control_canon c)) w"
  by (cases c) (simp_all add: w_body_def put_encs w_bytes_chain w_bytes_append w_bytes_Nil
      del: append.simps cong: option.case_cong)

lemma control_write_eq:
  "control_write c h out =
     map_option (\<lambda>b. (b, 8 + length (enc_body (control_canon c))))
       (copy_at 0 (enc_header h @ enc_body (control_canon c)) out)"
proof (cases "copy_at 0 (enc_header h) out")
  case None
  then show ?thesis using copy_at_append [of 0 "enc_header h" out]
    by (simp add: control_write_def header_write_eq flip: copy_at_append)
next
  case (Some o0)
  have "wr_wf \<lparr>wbuf = o0, wpos = 8\<rparr>"
    using Some copy_at_length [OF Some]
    by (auto simp: wr_wf_def copy_at_def split: if_splits)
  then show ?thesis
    using copy_at_append [of 0 "enc_header h" out "enc_body (control_canon c)"]
    by (auto simp: Some control_write_def header_write_eq w_body_enc w_bytes_def
        split: option.split)
qed

lemmas field_iffs = u8f.get_iff u16f.get_iff u32f.get_iff u64f.get_iff strf.get_iff
  playersf.get_iff r_bytes_iff codec_try_from_iff deny_try_from_iff

lemmas field_safe = u8f.get_safe u16f.get_safe u32f.get_safe u64f.get_safe strf.get_safe
  playersf.get_safe

lemma r_body_sound:
  "\<lbrakk>r_body pt r = Ok (c, r'); rd_wf r\<rbrakk> \<Longrightarrow>
   control_valid c \<and> pt = packet_type_of c \<and> reads r (enc_body c) r'"
  by (cases pt; auto simp: r_body_def outcome_simps field_iffs reads_append simp del: append.simps;
      blast)

lemma r_body_complete:
  "\<lbrakk>control_valid c; reads r (enc_body c) r'\<rbrakk> \<Longrightarrow> r_body (packet_type_of c) r = Ok (c, r')"
  by (cases c; auto simp: r_body_def outcome_simps field_iffs reads_append simp del: append.simps;
      blast)

lemma obind_PanicE:
  "\<lbrakk>obind m f = Panic; m = Panic \<Longrightarrow> P; \<And>a. \<lbrakk>m = Ok a; f a = Panic\<rbrakk> \<Longrightarrow> P\<rbrakk> \<Longrightarrow> P"
  by (cases m) auto

lemma r_body_safe: "rd_wf r \<Longrightarrow> safe (r_body pt r)"
  unfolding r_body_def
  apply (cases pt)
           apply (simp_all only: packet_type.case)
           apply ((intro safe_intros safe_bytes field_safe; assumption)+)
  done

lemma reads_all:
  assumes "reads \<lparr>rbuf = bs, rpos = 0\<rparr> e r'"
  shows "r_finish r' = Ok () \<longleftrightarrow> bs = e"
proof -
  from assms obtain zs where zs: "bs = e @ zs" and r': "rbuf r' = bs" "rpos r' = length e"
    by (cases r') (simp add: reads_def rest_def prefix_def, blast)
  show ?thesis by (cases zs) (simp_all add: r_finish_def r' zs)
qed

lemma control_parse_iff:
  "control_parse pt body = Ok c \<longleftrightarrow>
     control_valid c \<and> pt = packet_type_of c \<and> body = enc_body c"
proof -
  let ?r = "\<lparr>rbuf = body, rpos = 0\<rparr>"
  have wf: "rd_wf ?r" by (simp add: rd_wf_def)
  have full: "reads ?r body (?r\<lparr>rpos := length body\<rparr>)"
    by (simp add: reads_def rd_wf_def rest_def)
  show ?thesis
  proof
    assume "control_parse pt body = Ok c"
    then obtain r' where "r_body pt ?r = Ok (c, r')" "r_finish r' = Ok ()"
      by (auto simp: control_parse_def outcome_simps)
    with r_body_sound [OF _ wf] reads_all
    show "control_valid c \<and> pt = packet_type_of c \<and> body = enc_body c" by blast
  next
    assume "control_valid c \<and> pt = packet_type_of c \<and> body = enc_body c"
    then have "r_body pt ?r = Ok (c, ?r\<lparr>rpos := length body\<rparr>)"
      using r_body_complete [of c ?r "?r\<lparr>rpos := length body\<rparr>"] full by simp
    then show "control_parse pt body = Ok c" by (simp add: control_parse_def r_finish_def)
  qed
qed

lemma control_parse_no_panic: "control_parse pt body \<noteq> Panic"
proof (rule notI)
  assume "control_parse pt body = Panic"
  then show False
    using r_body_safe [of "\<lparr>rbuf = body, rpos = 0\<rparr>" pt]
    by (cases "r_body pt \<lparr>rbuf = body, rpos = 0\<rparr>")
      (auto simp: safe_def control_parse_def rd_wf_def r_finish_def split: if_splits)
qed

section \<open>Whole datagrams\<close>

datatype payload = PAudio audio_packet | PControl control

definition parse_datagram :: "u8 list \<Rightarrow> (parse_error, header \<times> payload) outcome" where
  "parse_datagram datagram =
     obind (header_parse datagram) (\<lambda>(h, body).
     obind (case ptype h of
              PT_Audio \<Rightarrow> obind (audio_parse body) (\<lambda>a. Ok (PAudio a))
            | pt \<Rightarrow> obind (control_parse pt body) (\<lambda>c. Ok (PControl c)))
       (\<lambda>p. Ok (h, p)))"

lemma datagram_no_panic: "parse_datagram d \<noteq> Panic"
proof (rule notI)
  assume "parse_datagram d = Panic"
  then show False
    using header_parse_no_panic audio_parse_no_panic control_parse_no_panic
    unfolding parse_datagram_def
    by (auto elim!: obind_PanicE split: packet_type.splits)
qed

text \<open>C2: \<open>parse_datagram\<close>, the entry point of the receive thread, never panics: on every byte
  string whatever it returns a packet or a parse error, and no index, slice, length subtraction
  or \<open>unwrap\<close> on the way goes out of bounds.\<close>

theorem parse_datagram_total:
  "parse_datagram d \<noteq> Panic"
  by (rule datagram_no_panic)

lemma parse_datagram_control:
  "parse_datagram d = Ok (h, PControl c) \<longleftrightarrow>
     control_valid c \<and> ptype h = packet_type_of c \<and> d = enc_header h @ enc_body c"
  by (cases "ptype h")
    (auto simp: parse_datagram_def outcome_simps header_parse_iff control_parse_iff
      split: packet_type.splits)

lemma parse_datagram_audio:
  "parse_datagram d = Ok (h, PAudio a) \<longleftrightarrow>
     audio_fits a \<and> ptype h = PT_Audio
     \<and> (\<exists>f. (f AND AUDIO_FLAG_REDUNDANCY \<noteq> 0 \<longleftrightarrow> redundant a \<noteq> None)
          \<and> d = enc_header h @ enc_audio_flags f a)"
  by (cases "ptype h")
    (auto simp: parse_datagram_def outcome_simps header_parse_iff audio_parse_iff
      split: packet_type.splits)

text \<open>C7: the parser accepts exactly the wire format. A datagram yields the control packet \<open>c\<close>
  under the header \<open>h\<close> if and only if it is the encoding of \<open>h\<close> followed by the encoding of
  \<open>c\<close>'s body, the type in the header is the type of \<open>c\<close>, and \<open>c\<close> is well formed (a room
  code of six bytes, valid UTF-8 names of at most 32 bytes, at most five players): every control
  packet has one encoding only. It yields the audio packet \<open>a\<close> if and only if the header says
  audio, the lengths fit their two bytes and the body is the encoding of \<open>a\<close> with a flags byte
  whose lowest bit says whether a redundant copy follows; the other seven bits are ignored.\<close>

theorem parse_accepts_wire_format:
  "(parse_datagram d = Ok (h, PControl c) \<longleftrightarrow>
     control_valid c \<and> ptype h = packet_type_of c \<and> d = enc_header h @ enc_body c)
   \<and> (parse_datagram d = Ok (h, PAudio a) \<longleftrightarrow>
     audio_fits a \<and> ptype h = PT_Audio
     \<and> (\<exists>f. (f AND AUDIO_FLAG_REDUNDANCY \<noteq> 0 \<longleftrightarrow> redundant a \<noteq> None)
          \<and> d = enc_header h @ enc_audio_flags f a))"
  by (simp only: parse_datagram_control parse_datagram_audio simp_thms)

section \<open>What is written is what is read\<close>

text \<open>What the types of the Rust struct already say of a packet to send (names are UTF-8, a room
  code has six bytes), and that its roster has at most five players.\<close>

fun control_sendable :: "control \<Rightarrow> bool" where
  "control_sendable (Hello pv code nm cm fm) \<longleftrightarrow> length code = ROOM_CODE_LEN \<and> utf8_valid nm"
| "control_sendable (Welcome ai sid sr fs cd ros) \<longleftrightarrow>
     length ros \<le> MAX_CLIENTS + 1 \<and> (\<forall>p \<in> set ros. utf8_valid (pname p))"
| "control_sendable (Roster ps) \<longleftrightarrow>
     length ps \<le> MAX_CLIENTS + 1 \<and> (\<forall>p \<in> set ps. utf8_valid (pname p))"
| "control_sendable _ \<longleftrightarrow> True"

lemma players_canon_valid:
  "\<lbrakk>length ps \<le> MAX_CLIENTS + 1; \<forall>p \<in> set ps. utf8_valid (pname p)\<rbrakk> \<Longrightarrow>
   players_valid (map player_canon ps)"
  by (auto simp: players_valid_def player_valid_def player_canon_def string_canon_valid)

lemma control_canon_valid: "control_sendable c \<Longrightarrow> control_valid (control_canon c)"
  by (cases c) (simp_all add: string_canon_valid players_canon_valid)

lemma packet_type_canon [simp]: "packet_type_of (control_canon c) = packet_type_of c"
  by (cases c) simp_all

lemma control_canon_id: "control_valid c \<Longrightarrow> control_canon c = c"
  by (cases c) (simp_all add: strf.canon_valid playersf.canon_valid)

lemma length_enc_string: "string_valid s \<Longrightarrow> length (enc_string s) \<le> 33"
  by (simp add: enc_string_def string_valid_def MAX_NAME_LEN_def)

lemma length_enc_players: "players_valid ps \<Longrightarrow> length (enc_players ps) \<le> 176"
proof -
  assume ps: "players_valid ps"
  then have "length (concat (map enc_player ps)) \<le> 35 * length ps"
    by (induction ps) (auto simp: players_valid_def player_valid_def enc_player_def
        dest: length_enc_string)
  with ps show ?thesis by (simp add: players_valid_def enc_players_def MAX_CLIENTS_def)
qed

lemma length_enc_body: "control_valid c \<Longrightarrow> length (enc_body c) \<le> 187"
  using length_enc_string length_enc_players
  by (cases c) (fastforce simp: ROOM_CODE_LEN_def)+

lemma control_write_parse:
  assumes "control_sendable c" and "ptype h = packet_type_of c" and "195 \<le> length out"
  shows "\<exists>out' n. control_write c h out = Some (out', n) \<and> n \<le> 195
    \<and> length out' = length out \<and> drop n out' = drop n out
    \<and> parse_datagram (take n out') = Ok (h, PControl (control_canon c))"
proof -
  let ?d = "enc_header h @ enc_body (control_canon c)"
  have "length ?d \<le> 195" using assms(1) by (simp add: control_canon_valid length_enc_body)
  moreover have "parse_datagram ?d = Ok (h, PControl (control_canon c))"
    using assms by (simp add: parse_datagram_control control_canon_valid)
  moreover have "control_write c h out = Some (?d @ drop (length ?d) out, length ?d)"
    using assms(3) \<open>length ?d \<le> 195\<close> by (simp add: control_write_eq copy_at_fits)
  ultimately show ?thesis using assms(3) by auto
qed

text \<open>C17: every control packet the program can build is written without a panic into a buffer of
  at least 195 bytes (\<open>MAX_DATAGRAM\<close> is 2048), occupies the first \<open>n\<close> bytes and leaves the
  others alone, and the receiver's parser reads those bytes back as the same header and the same
  packet, up to names longer than 32 bytes, which come back cut.\<close>

theorem control_roundtrip:
  assumes "control_sendable c" and "ptype h = packet_type_of c" and "195 \<le> length out"
  shows "\<exists>out' n. control_write c h out = Some (out', n) \<and> n \<le> 195
    \<and> length out' = length out \<and> drop n out' = drop n out
    \<and> parse_datagram (take n out') = Ok (h, PControl (control_canon c))"
  by (rule control_write_parse [OF assms])

definition hello_example :: control where
  "hello_example = Hello 1 (map of_nat [74, 65, 77, 49, 50, 51]) (replicate 33 65) 7 3"

theorem control_roundtrip_witness:
  "\<exists>out' n. control_write hello_example \<lparr>ptype = PT_Hello, session_id = 0, sender_id = 0xFFFF, hseq = 0\<rparr>
        (replicate 2048 0) = Some (out', n)
    \<and> parse_datagram (take n out') = Ok (\<lparr>ptype = PT_Hello, session_id = 0, sender_id = 0xFFFF, hseq = 0\<rparr>,
        PControl (Hello 1 (map of_nat [74, 65, 77, 49, 50, 51]) (replicate 32 65) 7 3))"
proof -
  have ascii: "utf8_valid (replicate n 65)" for n
    by (induction n) (simp_all add: utf8_width_def)
  have "name_cut (replicate 33 65) = 32"
    by (simp add: name_cut_def MAX_NAME_LEN_def numeral_eq_Suc is_char_boundary_def boundary_byte
        is_cont_def)
  then have "control_canon hello_example
      = Hello 1 (map of_nat [74, 65, 77, 49, 50, 51]) (replicate 32 65) 7 3"
    by (simp add: hello_example_def string_canon_def)
  then show ?thesis
    using control_roundtrip [of hello_example "\<lparr>ptype = PT_Hello, session_id = 0, sender_id = 0xFFFF, hseq = 0\<rparr>"
        "replicate 2048 0"] ascii [of 33]
    by (auto simp: hello_example_def ROOM_CODE_LEN_def)
qed

text \<open>An audio packet whose two frames fit the buffer is written without a panic and read
  back unchanged, with or without the redundant copy; the writer panics exactly when header,
  body and copy do not fit. A frame of 5 ms PCM at 48 kHz has 960 bytes, so that with its
  redundant copy it makes 1938 bytes, below \<open>MAX_DATAGRAM\<close>.\<close>

theorem audio_roundtrip:
  assumes "audio_fits a" and "ptype h = PT_Audio"
  shows "(audio_write a h out = None \<longleftrightarrow> length out < 8 + length (enc_audio a))
    \<and> (\<forall>out' n. audio_write a h out = Some (out', n) \<longrightarrow>
         n = 16 + length (payload a) + (case redundant a of None \<Rightarrow> 0 | Some r \<Rightarrow> 2 + length r)
         \<and> parse_datagram (take n out') = Ok (h, PAudio a))
    \<and> (length (payload a) \<le> 960 \<and> (\<forall>r. redundant a = Some r \<longrightarrow> length r \<le> 960)
         \<and> length out = MAX_DATAGRAM \<longrightarrow> audio_write a h out \<noteq> None)"
proof -
  let ?d = "enc_header h @ enc_audio a"
  have len: "length ?d = 16 + length (payload a)
      + (case redundant a of None \<Rightarrow> 0 | Some r \<Rightarrow> 2 + length r)"
    by (simp add: length_enc_audio)
  have flag: "\<exists>f. (f AND AUDIO_FLAG_REDUNDANCY \<noteq> 0 \<longleftrightarrow> redundant a \<noteq> None)
      \<and> ?d = enc_header h @ enc_audio_flags f a"
    by (rule exI [of _ "if redundant a \<noteq> None then AUDIO_FLAG_REDUNDANCY else 0"])
      (simp add: enc_audio_def AUDIO_FLAG_REDUNDANCY_def)
  with assms have parse: "parse_datagram ?d = Ok (h, PAudio a)"
    by (simp add: parse_datagram_audio)
  have wr: "audio_write a h out =
     (if length ?d \<le> length out then Some (?d @ drop (length ?d) out, length ?d) else None)"
    by (simp add: audio_write_eq copy_at_fits copy_at_overflow)
  show ?thesis unfolding wr using len parse
    by (auto simp: MAX_DATAGRAM_def split: option.splits)
qed

theorem audio_roundtrip_witness:
  "\<exists>out' n. audio_write \<lparr>timestamp = 480, acodec = PcmS16, payload = [1, 2], redundant = Some [3]\<rparr>
        \<lparr>ptype = PT_Audio, session_id = 7, sender_id = 1, hseq = 9\<rparr> (replicate 21 0) = Some (out', n)
    \<and> parse_datagram (take n out') = Ok (\<lparr>ptype = PT_Audio, session_id = 7, sender_id = 1, hseq = 9\<rparr>,
        PAudio \<lparr>timestamp = 480, acodec = PcmS16, payload = [1, 2], redundant = Some [3]\<rparr>)"
  using audio_roundtrip [of "\<lparr>timestamp = 480, acodec = PcmS16, payload = [1, 2], redundant = Some [3]\<rparr>"
      "\<lparr>ptype = PT_Audio, session_id = 7, sender_id = 1, hseq = 9\<rparr>" "replicate 21 0"]
  by (auto simp: audio_fits_def length_enc_audio)

section \<open>Names\<close>

lemma char_floor_greatest:
  "\<lbrakk>char_floor s n < m; m \<le> n\<rbrakk> \<Longrightarrow> \<not> is_char_boundary s m"
  by (induction n) (auto simp: le_Suc_eq split: if_splits)

lemma utf8_head_not_cont: "\<lbrakk>utf8_valid s; s \<noteq> []\<rbrakk> \<Longrightarrow> \<not> is_cont (s ! 0)"
proof (cases s)
  case (Cons c cs)
  assume "utf8_valid s"
  then have "utf8_width c \<noteq> 0" by (cases "utf8_width c = 0") (simp_all add: Cons)
  then show ?thesis
    by (auto simp: Cons utf8_width_def is_cont_def word_le_nat_alt split: if_splits)
qed simp

lemma utf8_boundary_near:
  "\<lbrakk>utf8_valid s; n \<le> length s\<rbrakk> \<Longrightarrow> \<exists>m \<le> n. n \<le> m + 3 \<and> is_char_boundary s m"
proof (induction "length s" arbitrary: s n rule: less_induct)
  case less
  show ?case
  proof (cases "n \<le> 3")
    case True
    then show ?thesis by (intro exI [of _ 0]) (simp add: is_char_boundary_def)
  next
    case n: False
    then obtain b bs where s: "s = b # bs" using less.prems by (cases s) auto
    with less.prems have "utf8_valid (b # bs)" by simp
    then obtain k r where k: "s = take k s @ r" "length s = k + length r" "0 < k" "k \<le> 4" "utf8_valid r"
    proof (cases rule: utf8_valid_cases)
      case 1 then show ?thesis by (intro that [of 1 bs]) (simp_all add: s)
    next
      case (2 c r) then show ?thesis by (intro that [of 2 r]) (simp_all add: s)
    next
      case (3 c d r) then show ?thesis by (intro that [of 3 r]) (simp_all add: s)
    next
      case (4 c d e r) then show ?thesis by (intro that [of 4 r]) (simp_all add: s)
    qed
    from k(2) less.prems(2) have "n - k \<le> length r" by arith
    then obtain m where m: "m \<le> n - k" "n - k \<le> m + 3" "is_char_boundary r m"
      using less.hyps [of r "n - k"] k by auto
    have nth: "s ! (k + i) = r ! i" for i
      using k(1,2) by (metis append_take_drop_id nth_append_length_plus length_take min.absorb2
          le_add1)
    then have "is_char_boundary s (k + m)"
      using nth [of 0] m(3) k(2,3) utf8_head_not_cont [OF k(5)] m(1) \<open>n - k \<le> length r\<close>
      by (cases "m = 0") (auto simp: is_char_boundary_def boundary_byte split: if_splits)
    with m k n show ?thesis by (intro exI [of _ "k + m"]) auto
  qed
qed

text \<open>The name that goes out is the longest prefix of the given name that is at most 32 bytes
  long and ends at a character boundary: it is valid UTF-8, it is the name itself when that
  fits, and otherwise it loses at most three bytes of the 32 available ones.\<close>

theorem name_cut_spec:
  assumes "utf8_valid s"
  shows "utf8_valid (take (name_cut s) s) \<and> name_cut s \<le> MAX_NAME_LEN
    \<and> (\<forall>m. is_char_boundary s m \<and> m \<le> length s \<and> m \<le> MAX_NAME_LEN \<longrightarrow> m \<le> name_cut s)
    \<and> (if length s \<le> MAX_NAME_LEN then take (name_cut s) s = s
       else MAX_NAME_LEN \<le> name_cut s + 3)"
proof (intro conjI allI impI)
  let ?n = "min (length s) MAX_NAME_LEN"
  show "utf8_valid (take (name_cut s) s)"
    using string_canon_valid [OF assms] by (simp add: string_valid_def string_canon_def)
  show "name_cut s \<le> MAX_NAME_LEN" by (rule name_cut_le)
  have greatest: "m \<le> name_cut s" if "is_char_boundary s m" "m \<le> ?n" for m
    using that char_floor_greatest [of s ?n m] by (fastforce simp: name_cut_def)
  then show "m \<le> name_cut s"
    if "is_char_boundary s m \<and> m \<le> length s \<and> m \<le> MAX_NAME_LEN" for m using that by simp
  obtain m where "m \<le> ?n" "?n \<le> m + 3" "is_char_boundary s m"
    using utf8_boundary_near [OF assms, of ?n] by auto
  then show "if length s \<le> MAX_NAME_LEN then take (name_cut s) s = s
      else MAX_NAME_LEN \<le> name_cut s + 3"
    using greatest [of m] by (auto simp: name_cut_short)
qed

theorem name_cut_spec_witness:
  "utf8_valid (take (name_cut [0x4A, 0xC3, 0xA9]) [0x4A, 0xC3, 0xA9])"
  using name_cut_spec [of "[0x4A, 0xC3, 0xA9]"]
  by (simp add: utf8_width_def second_ok_def is_cont_def)

section \<open>Control sequence numbers\<close>

record ack_key =
  ack_seq :: u16
  ack_ptype :: u8

definition is_reliable :: "packet_type \<Rightarrow> bool" where
  "is_reliable pt = (case pt of PT_Hello \<Rightarrow> True | PT_Welcome \<Rightarrow> True | _ \<Rightarrow> False)"

definition accept_control_seq :: "u16 option \<Rightarrow> u16 \<Rightarrow> u16 option \<times> bool" where
  "accept_control_seq l incoming =
     (case l of
        None \<Rightarrow> (Some incoming, True)
      | Some prev \<Rightarrow> if newer_than incoming prev then (Some incoming, True) else (l, False))"

text \<open>The decisions of a receiver over a sequence of arrivals, and what they should be when the
  sender's unbounded packet numbers are known: accept exactly the new maxima.\<close>

fun accept_run :: "u16 option \<Rightarrow> u16 list \<Rightarrow> bool list" where
  "accept_run l [] = []"
| "accept_run l (s # ss) =
     (case accept_control_seq l s of (l', ok) \<Rightarrow> ok # accept_run l' ss)"

fun new_maxima :: "int option \<Rightarrow> int list \<Rightarrow> bool list" where
  "new_maxima m [] = []"
| "new_maxima m (x # xs) =
     (let ok = (case m of None \<Rightarrow> True | Some k \<Rightarrow> k < x)
      in ok # new_maxima (if ok then Some x else m) xs)"

text \<open>No arrival is more than 32767 packets away from the newest one before it.\<close>

fun window_ok :: "int option \<Rightarrow> int list \<Rightarrow> bool" where
  "window_ok m [] = True"
| "window_ok m (x # xs) =
     ((case m of None \<Rightarrow> True | Some k \<Rightarrow> \<bar>x - k\<bar> \<le> 32767)
      \<and> window_ok (case m of None \<Rightarrow> Some x | Some k \<Rightarrow> Some (max k x)) xs)"

text \<open>A receiver that filters control packets with \<open>accept_control_seq\<close> accepts exactly the
  packets that are newer than everything accepted before (duplicates and late packets are
  dropped), for a stream of any length, across every wraparound of the 16-bit numbers.\<close>

theorem accept_control_seq_filters_stale:
  assumes "window_ok m xs"
  shows "accept_run (map_option word_of_int m) (map word_of_int xs) = new_maxima m xs"
  using assms
proof (induction xs arbitrary: m)
  case (Cons x xs)
  show ?case
  proof (cases m)
    case None
    with Cons.IH [of "Some x"] Cons.prems show ?thesis
      by (simp add: accept_control_seq_def)
  next
    case (Some k)
    with Cons.prems have "diff (word_of_int x) (word_of_int k) = x - k"
      by (intro diff_of_int) (simp_all add: abs_le_iff)
    then have "newer_than (word_of_int x) (word_of_int k) \<longleftrightarrow> k < x"
      by (simp add: newer_than_diff)
    with Some Cons.IH [of "Some (max k x)"] Cons.prems show ?thesis
      by (cases "k < x") (simp_all add: accept_control_seq_def max_def)
  qed
qed simp

theorem accept_control_seq_filters_stale_witness:
  "accept_run None (map word_of_int [65534, 65536, 65535, 65536, 65540])
     = [True, True, False, False, True]"
  using accept_control_seq_filters_stale [of None "[65534, 65536, 65535, 65536, 65540]"]
  by (simp del: of_int_numeral)

end
