(* ===== verification/Client_Handshake.thy ===== *)
theory Client_Handshake
  imports Wire_Packet
begin

text \<open>
  The client side of \<open>crates/jam-protocol/src/handshake.rs\<close>: \<open>ClientHandshake\<close> with its
  operations \<open>new\<close>, \<open>start\<close>, \<open>tick\<close> and \<open>on_control\<close>. After \<open>start\<close> the embedding code
  only ticks it and feeds it packets, which is the event machine \<open>client_step\<close>.
\<close>

section \<open>The state machine\<close>

record session_params =
  p_sample_rate :: u32
  p_frame_samples :: u16
  p_codec :: codec

definition default_params :: session_params where
  "default_params = \<lparr>p_sample_rate = 48000, p_frame_samples = 120, p_codec = Opus\<rparr>"

datatype join_failure = Denied deny_reason | Timeout

datatype client_phase =
    Idle
  | Joining u64 u32
  | Joined u16 u16 session_params
  | Failed join_failure

datatype client_action =
    CSend control
  | StartAudio u16 u16 session_params
  | RosterUpdate "player_info list"
  | CFailed join_failure

record client_handshake =
  phase :: client_phase
  hello :: control

definition client_new :: "u8 list \<Rightarrow> rust_string \<Rightarrow> client_handshake" where
  "client_new code nm = \<lparr>phase = Idle, hello = Hello PROTOCOL_VERSION code nm 0b111 0b11\<rparr>"

definition client_start :: "u64 \<Rightarrow> client_handshake \<Rightarrow> client_handshake \<times> client_action list" where
  "client_start now c = (c\<lparr>phase := Joining now 1\<rparr>, [CSend (hello c)])"

definition client_tick :: "u64 \<Rightarrow> client_handshake \<Rightarrow> client_handshake \<times> client_action list" where
  "client_tick now c =
     (case phase c of
        Joining last_tx tries \<Rightarrow>
          if saturating_sub now last_tx < CONTROL_RETRY_MS then (c, [])
          else if CONTROL_MAX_TRIES \<le> tries then (c\<lparr>phase := Failed Timeout\<rparr>, [CFailed Timeout])
          else (c\<lparr>phase := Joining now (tries + 1)\<rparr>, [CSend (hello c)])
      | _ \<Rightarrow> (c, []))"

definition client_on_control ::
  "control \<Rightarrow> client_handshake \<Rightarrow> client_handshake \<times> client_action list" where
  "client_on_control ctl c =
     (case (phase c, ctl) of
        (Joining _ _, Welcome ai sid sr fs cd ros) \<Rightarrow>
          let params = \<lparr>p_sample_rate = sr, p_frame_samples = fs, p_codec = cd\<rparr>
          in (c\<lparr>phase := Joined ai sid params\<rparr>, [StartAudio ai sid params, RosterUpdate ros])
      | (Joining _ _, Deny r) \<Rightarrow> (c\<lparr>phase := Failed (Denied r)\<rparr>, [CFailed (Denied r)])
      | (Joined _ _ _, Roster ps) \<Rightarrow> (c, [RosterUpdate ps])
      | _ \<Rightarrow> (c, []))"

datatype client_event = CTick u64 | CRecv control

fun client_step :: "client_event \<Rightarrow> client_handshake \<Rightarrow> client_handshake \<times> client_action list" where
  "client_step (CTick now) c = client_tick now c"
| "client_step (CRecv ctl) c = client_on_control ctl c"

section \<open>The invariant and the budgets\<close>

text \<open>The counter stays between one and the limit; the packet sent is the HELLO built by \<open>new\<close>.\<close>

definition tries_ok :: "client_phase \<Rightarrow> bool" where
  "tries_ok ph = (case ph of Joining _ n \<Rightarrow> 1 \<le> n \<and> n \<le> CONTROL_MAX_TRIES | _ \<Rightarrow> True)"

definition client_inv :: "control \<Rightarrow> client_handshake \<Rightarrow> bool" where
  "client_inv h c \<longleftrightarrow> hello c = h \<and> tries_ok (phase c)"

definition sends_only :: "control \<Rightarrow> client_action \<Rightarrow> bool" where
  "sends_only h a = (\<forall>x. a = CSend x \<longrightarrow> x = h)"

fun hello_cost :: "client_action \<Rightarrow> nat" where
  "hello_cost (CSend _) = 1"
| "hello_cost _ = 0"

definition hellos_left :: "client_handshake \<Rightarrow> nat" where
  "hellos_left c = (case phase c of Joining _ n \<Rightarrow> 10 - unat n | _ \<Rightarrow> 0)"

fun outcome_cost :: "client_action \<Rightarrow> nat" where
  "outcome_cost (StartAudio _ _ _) = 1"
| "outcome_cost (CFailed _) = 1"
| "outcome_cost _ = 0"

definition outcomes_left :: "client_handshake \<Rightarrow> nat" where
  "outcomes_left c = (case phase c of Joining _ _ \<Rightarrow> 1 | _ \<Rightarrow> 0)"

lemma tries_nat:
  "1 \<le> n \<longleftrightarrow> 0 < unat n" "n \<le> CONTROL_MAX_TRIES \<longleftrightarrow> unat n \<le> 10"
  "CONTROL_MAX_TRIES \<le> n \<longleftrightarrow> 10 \<le> unat n"
  "unat n < 10 \<Longrightarrow> unat (n + 1) = unat n + 1"
  for n :: u32
  by (simp_all add: CONTROL_MAX_TRIES_def word_le_nat_alt unat_word_ariths Suc_le_eq)

lemmas client_defs = client_tick_def client_on_control_def Let_def

lemma client_step_phase:
  "client_step e c = (c', as) \<Longrightarrow> hello c' = hello c"
  by (cases e) (auto simp: client_defs split: client_phase.splits control.splits if_splits)

interpretation client: event_machine client_step "\<lambda>_. True" "client_inv h" "sends_only h"
proof unfold_locales
  fix e c a
  assume inv: "client_inv h c"
  then show "client_inv h (fst (client_step e c))"
    by (cases e) (auto simp: client_defs client_inv_def tries_ok_def tries_nat
        split: client_phase.splits control.splits)
  assume "a \<in> set (snd (client_step e c))"
  with inv show "sends_only h a"
    by (cases e) (auto simp: client_defs client_inv_def sends_only_def
        split: client_phase.splits control.splits if_splits)
qed

interpretation hellos: metered_machine client_step "\<lambda>_. True" "client_inv h" "sends_only h"
  hello_cost hellos_left
proof unfold_locales
  fix e c
  assume "client_inv h c"
  then show "sum_list (map hello_cost (snd (client_step e c))) + hellos_left (fst (client_step e c))
      \<le> hellos_left c"
    by (cases e) (auto simp: client_defs client_inv_def tries_ok_def hellos_left_def tries_nat
        split: client_phase.splits control.splits)
qed

interpretation outcomes: metered_machine client_step "\<lambda>_. True" "client_inv h" "sends_only h"
  outcome_cost outcomes_left
proof unfold_locales
  fix e c
  show "sum_list (map outcome_cost (snd (client_step e c))) + outcomes_left (fst (client_step e c))
      \<le> outcomes_left c"
    by (cases e) (auto simp: client_defs outcomes_left_def
        split: client_phase.splits control.splits)
qed

section \<open>What a joining client does\<close>

lemma client_start_inv:
  "client_start t c = (c', as) \<Longrightarrow> client_inv (hello c) c' \<and> hellos_left c' = 9
     \<and> outcomes_left c' = 1 \<and> as = [CSend (hello c)]"
  by (auto simp: client_start_def client_inv_def tries_ok_def CONTROL_MAX_TRIES_def
      hellos_left_def outcomes_left_def)

text \<open>Whatever ticks and packets follow a start, the client sends nothing but its HELLO, at
  most ten times in all, and reports at most one outcome (audio started or join failed).\<close>

theorem client_bounded:
  assumes "client_start t c = (c0, as0)" and "run client_step es c0 = (c', as)"
  shows "(\<forall>x. CSend x \<in> set (as0 @ as) \<longrightarrow> x = hello c)
    \<and> sum_list (map hello_cost (as0 @ as)) \<le> 10
    \<and> sum_list (map outcome_cost (as0 @ as)) \<le> 1"
proof -
  note start = client_start_inv [OF assms(1)]
  then have inv: "client_inv (hello c) c0" by blast
  from client.run_out [of es "hello c" c0] inv
  have "CSend x \<in> set as \<Longrightarrow> x = hello c" for x
    by (force simp: assms(2) sends_only_def)
  with hellos.run_cost [of es "hello c" c0] outcomes.run_cost [of es "hello c" c0] start inv
  show ?thesis by (auto simp: assms(2))
qed

theorem client_bounded_witness:
  "sum_list (map hello_cost (snd (run client_step [CTick 100, CRecv (Deny RoomFull), CTick 300]
     (fst (client_start 0 (client_new [1, 2, 3, 4, 5, 6] [65])))))) \<le> 10"
  using client_bounded [OF surjective_pairing surjective_pairing, of 0
      "client_new [1, 2, 3, 4, 5, 6] [65]" "[CTick 100, CRecv (Deny RoomFull), CTick 300]"]
  by (simp only: map_append sum_list_append) linarith

text \<open>Phases that no event leaves.\<close>

lemma run_absorbed:
  "\<lbrakk>\<And>e. fst (client_step e c) = c\<rbrakk> \<Longrightarrow> fst (run client_step es c) = c"
  by (induction es) (auto simp: case_prod_unfold)

lemma joined_absorbing: "phase c = Joined i s p \<Longrightarrow> fst (client_step e c) = c"
  by (cases e) (auto simp: client_defs split: control.splits)

lemma failed_silent: "phase c = Failed f \<Longrightarrow> client_step e c = (c, [])"
  by (cases e) (auto simp: client_defs)

lemma run_failed: "phase c = Failed f \<Longrightarrow> run client_step es c = (c, [])"
  by (induction es) (auto simp: failed_silent)

text \<open>The ticks that sent a HELLO, and clock readings at least one retry interval apart.\<close>

fun hello_times :: "client_handshake \<Rightarrow> u64 list \<Rightarrow> u64 list" where
  "hello_times c [] = []"
| "hello_times c (t # ts) =
     (case client_tick t c of (c', as) \<Rightarrow>
        (if CSend (hello c) \<in> set as then [t] else []) @ hello_times c' ts)"

fun spaced :: "u64 \<Rightarrow> u64 list \<Rightarrow> bool" where
  "spaced t [] = True"
| "spaced t (u # us) \<longleftrightarrow> unat t + 100 \<le> unat u \<and> spaced u us"

lemma retry_due:
  "saturating_sub now last_tx < CONTROL_RETRY_MS \<longleftrightarrow> unat now < unat last_tx + 100"
  by (simp add: CONTROL_RETRY_MS_def word_less_nat_alt) arith

lemma hello_times_final:
  "(\<forall>l n. phase c \<noteq> Joining l n) \<Longrightarrow> hello_times c ts = []"
  by (induction ts) (auto simp: client_tick_def split: client_phase.splits)

lemma hello_times_spaced:
  "phase c = Joining t n \<Longrightarrow> spaced t (hello_times c ts)"
proof (induction ts arbitrary: c t n)
  case (Cons u us)
  then show ?case
    by (auto simp: client_tick_def retry_due not_less hello_times_final)
qed simp

lemma run_retries:
  "\<lbrakk>phase c = Joining t n; unat n + length ts = 10; spaced t ts\<rbrakk> \<Longrightarrow>
   run client_step (map CTick ts) c =
     (c\<lparr>phase := Joining (last (t # ts)) 10\<rparr>, replicate (length ts) (CSend (hello c)))"
proof (induction ts arbitrary: c t n)
  case Nil
  then have "n = 10" by (intro word_unat_eq_iff [THEN iffD2]) simp
  with Nil show ?case by (cases c) simp
next
  case (Cons u us)
  let ?c = "c\<lparr>phase := Joining u (n + 1)\<rparr>"
  have "client_tick u c = (?c, [CSend (hello c)])"
    using Cons.prems by (simp add: client_tick_def retry_due tries_nat)
  moreover have "run client_step (map CTick us) ?c =
     (?c\<lparr>phase := Joining (last (u # us)) 10\<rparr>, replicate (length us) (CSend (hello ?c)))"
    using Cons.prems by (intro Cons.IH [of _ u "n + 1"]) (simp_all add: tries_nat)
  ultimately show ?case by simp
qed

lemma run_gives_up:
  assumes "phase c = Joining t 1" and "length ts = 9" and "spaced t (ts @ [u])"
  shows "run client_step (map CTick (ts @ [u])) c =
    (c\<lparr>phase := Failed Timeout\<rparr>, replicate 9 (CSend (hello c)) @ [CFailed Timeout])"
proof -
  have "spaced a (xs @ [b]) \<longleftrightarrow> spaced a xs \<and> unat (last (a # xs)) + 100 \<le> unat b" for a b xs
    by (induction xs arbitrary: a) auto
  with assms run_retries [of c t 1 ts] show ?thesis
    by (simp add: run_append client_tick_def retry_due CONTROL_MAX_TRIES_def)
qed

text \<open>HELLOs leave at least 100 ms apart, whatever readings the clock gives, also when it
  steps back or repeats.\<close>

theorem hello_spacing:
  assumes "client_start t c = (c0, as)"
  shows "spaced t (hello_times c0 ts)"
  using assms by (intro hello_times_spaced) (auto simp: client_start_def)

theorem hello_spacing_witness:
  "spaced 0 (hello_times (fst (client_start 0 (client_new [1, 2, 3, 4, 5, 6] [65])))
     [50, 120, 130, 20, 250])"
  by (rule hello_spacing [OF surjective_pairing])

text \<open>An unanswered join ends: ten ticks at least 100 ms apart make nine more HELLOs and then
  the report of the timeout, and after that nothing the client sees changes its state or
  makes it send.\<close>

theorem client_gives_up:
  assumes "client_start t c = (c0, as0)" and "length ts = 9" and "spaced t (ts @ [u])"
  shows "run client_step (map CTick (ts @ [u]) @ es) c0 =
    (c\<lparr>phase := Failed Timeout\<rparr>, replicate 9 (CSend (hello c)) @ [CFailed Timeout])"
proof -
  have "phase c0 = Joining t 1" and c: "hello c0 = hello c" "c0\<lparr>phase := x\<rparr> = c\<lparr>phase := x\<rparr>" for x
    using assms(1) by (auto simp: client_start_def)
  with run_gives_up assms(2,3)
  have "run client_step (map CTick (ts @ [u])) c0 =
    (c\<lparr>phase := Failed Timeout\<rparr>, replicate 9 (CSend (hello c)) @ [CFailed Timeout])"
    by (simp only: c)
  then show ?thesis by (simp only: run_append) (simp add: run_failed)
qed

theorem client_gives_up_witness:
  "fst (run client_step (map CTick ([100, 200, 300, 400, 500, 600, 700, 800, 900] @ [1000]) @ [CRecv Bye])
      (fst (client_start 0 (client_new [1, 2, 3, 4, 5, 6] [65]))))
    = (client_new [1, 2, 3, 4, 5, 6] [65])\<lparr>phase := Failed Timeout\<rparr>"
  by (subst client_gives_up [OF surjective_pairing]) simp_all

text \<open>The rosters a joined client is told, in order.\<close>

fun rosters_of :: "client_event list \<Rightarrow> client_action list" where
  "rosters_of [] = []"
| "rosters_of (CRecv (Roster ps) # es) = RosterUpdate ps # rosters_of es"
| "rosters_of (_ # es) = rosters_of es"

lemma run_joined:
  "phase c = Joined i s p \<Longrightarrow> run client_step es c = (c, rosters_of es)"
  by (induction es rule: rosters_of.induct) (simp_all add: client_defs)

text \<open>The first reply decides. A WELCOME that reaches a joining client starts its audio once,
  with the id, the session and the parameters of that packet, and from then on rosters pass
  through in order and every other event, a second WELCOME or a late DENY included, changes
  nothing; a DENY that arrives first ends the join with its reason for good.\<close>

theorem first_reply_decides:
  assumes "phase c = Joining t n"
  shows "run client_step (CRecv (Welcome i s sr fs cd ros) # es) c =
      (let p = \<lparr>p_sample_rate = sr, p_frame_samples = fs, p_codec = cd\<rparr>
       in (c\<lparr>phase := Joined i s p\<rparr>, StartAudio i s p # RosterUpdate ros # rosters_of es))
    \<and> run client_step (CRecv (Deny r) # es) c =
      (c\<lparr>phase := Failed (Denied r)\<rparr>, [CFailed (Denied r)])"
  using assms by (simp add: client_defs run_joined run_failed)

theorem first_reply_decides_witness:
  "snd (run client_step (CRecv (Welcome 1 7 48000 120 Opus []) # [CRecv (Deny RoomFull), CRecv (Roster [])])
     \<lparr>phase = Joining 0 1, hello = Bye\<rparr>)
   = [StartAudio 1 7 default_params, RosterUpdate [], RosterUpdate []]"
  by (subst first_reply_decides [THEN conjunct1]) (simp_all add: default_params_def Let_def)

end
