(* ===== verification/Host_Handshake.thy ===== *)
theory Host_Handshake
  imports Client_Handshake
begin

text \<open>
  The host side of \<open>crates/jam-protocol/src/handshake.rs\<close>: \<open>HostHandshake\<close> with its four
  client slots. Each handler is one definition; \<open>host_step\<close> is the event machine the control
  loop drives.
\<close>

section \<open>State and queries\<close>

datatype socket_addr =
    V4 u32 u16
  | V6 "128 word" u16 u32 u32

datatype leave_reason = LeaveBye | LeaveTimeout | WelcomeUnacked

datatype slot_state = Pending "u16 option" u64 u32 | Active

record slot =
  sl_addr :: socket_addr
  sl_name :: rust_string
  sl_state :: slot_state
  sl_last_heard :: u64

datatype host_action =
    HSend socket_addr control
  | ClientJoined u16 rust_string
  | ClientLeft u16 leave_reason

record host_handshake =
  h_room_code :: "u8 list"
  h_session_id :: u16
  h_params :: session_params
  h_name :: rust_string
  slots :: "slot option list"

definition host_new :: "u8 list \<Rightarrow> u16 \<Rightarrow> session_params \<Rightarrow> rust_string \<Rightarrow> host_handshake" where
  "host_new code sid params nm =
     \<lparr>h_room_code = code, h_session_id = sid, h_params = params, h_name = nm,
      slots = replicate MAX_CLIENTS None\<rparr>"

definition sender_id_of :: "nat \<Rightarrow> u16" where
  "sender_id_of slot = of_nat (slot + 1)"

definition slot_of_sender :: "u16 \<Rightarrow> nat option" where
  "slot_of_sender sid =
     (if 1 \<le> sid \<and> sid \<le> of_nat MAX_CLIENTS then Some (unat (sid - 1)) else None)"

definition host_roster :: "host_handshake \<Rightarrow> player_info list" where
  "host_roster h =
     \<lparr>pid = HOST_SENDER_ID, pname = h_name h\<rparr>
     # List.map_filter (\<lambda>(i, s). map_option (\<lambda>s. \<lparr>pid = sender_id_of i, pname = sl_name s\<rparr>) s)
         (enumerate 0 (slots h))"

definition client_addr :: "host_handshake \<Rightarrow> u16 \<Rightarrow> socket_addr option" where
  "client_addr h sid = Option.bind (slot_of_sender sid) (\<lambda>slot. map_option sl_addr (slots h ! slot))"

definition client_addrs :: "host_handshake \<Rightarrow> (u16 \<times> socket_addr) list" where
  "client_addrs h =
     List.map_filter (\<lambda>(i, s). map_option (\<lambda>s. (sender_id_of i, sl_addr s)) s)
       (enumerate 0 (slots h))"

definition occupied_by :: "socket_addr \<Rightarrow> slot option \<Rightarrow> bool" where
  "occupied_by addr entry = (case entry of None \<Rightarrow> False | Some s \<Rightarrow> sl_addr s = addr)"

definition sender_for_addr :: "host_handshake \<Rightarrow> socket_addr \<Rightarrow> u16 option" where
  "sender_for_addr h addr = map_option sender_id_of (position (occupied_by addr) (slots h))"

definition welcome_for :: "host_handshake \<Rightarrow> nat \<Rightarrow> control" where
  "welcome_for h slot =
     Welcome (sender_id_of slot) (h_session_id h) (p_sample_rate (h_params h))
       (p_frame_samples (h_params h)) (p_codec (h_params h)) (host_roster h)"

definition broadcast_roster :: "host_handshake \<Rightarrow> socket_addr option \<Rightarrow> host_action list" where
  "broadcast_roster h except =
     List.map_filter (\<lambda>entry. case entry of
         None \<Rightarrow> None
       | Some s \<Rightarrow> if Some (sl_addr s) \<noteq> except
                  then Some (HSend (sl_addr s) (Roster (host_roster h))) else None)
       (slots h)"

section \<open>Handlers\<close>

definition on_hello ::
  "socket_addr \<Rightarrow> control \<Rightarrow> u64 \<Rightarrow> host_handshake \<Rightarrow> host_handshake \<times> host_action list" where
  "on_hello addr pkt now h =
     (case pkt of
        Hello pv code nm _ _ \<Rightarrow>
          if pv \<noteq> PROTOCOL_VERSION then (h, [HSend addr (Deny VersionMismatch)])
          else if code \<noteq> h_room_code h then (h, [HSend addr (Deny BadRoomCode)])
          else (case position (occupied_by addr) (slots h) of
            Some slot \<Rightarrow>
              let s = (the (slots h ! slot))\<lparr>sl_name := nm, sl_last_heard := now,
                         sl_state := Pending None now 1\<rparr>;
                  h' = h\<lparr>slots := (slots h)[slot := Some s]\<rparr>
              in (h', [HSend addr (welcome_for h' slot)])
          | None \<Rightarrow>
              (case position (\<lambda>e. e = None) (slots h) of
                 None \<Rightarrow> (h, [HSend addr (Deny RoomFull)])
               | Some slot \<Rightarrow>
                   let h' = h\<lparr>slots := (slots h)[slot := Some \<lparr>sl_addr = addr, sl_name = nm,
                                sl_state = Pending None now 1, sl_last_heard = now\<rparr>]\<rparr>
                   in (h', [HSend addr (welcome_for h' slot), ClientJoined (sender_id_of slot) nm]
                           @ broadcast_roster h' (Some addr))))
      | _ \<Rightarrow> (h, []))"

definition welcome_sent :: "socket_addr \<Rightarrow> u16 \<Rightarrow> host_handshake \<Rightarrow> host_handshake" where
  "welcome_sent to sq h =
     h\<lparr>slots := map (map_option (\<lambda>s.
         if sl_addr s = to then
           (case sl_state s of
              Pending _ t n \<Rightarrow> s\<lparr>sl_state := Pending (Some sq) t n\<rparr>
            | Active \<Rightarrow> s)
         else s)) (slots h)\<rparr>"

definition on_ack ::
  "socket_addr \<Rightarrow> u16 \<Rightarrow> u64 \<Rightarrow> host_handshake \<Rightarrow> host_handshake \<times> host_action list" where
  "on_ack addr acked now h =
     (h\<lparr>slots := map (map_option (\<lambda>s.
         if sl_addr s = addr then
           (let s = s\<lparr>sl_last_heard := now\<rparr> in
            case sl_state s of
              Pending (Some ws) t n \<Rightarrow> if ws = acked then s\<lparr>sl_state := Active\<rparr> else s
            | _ \<Rightarrow> s)
         else s)) (slots h)\<rparr>, [])"

definition mark_heard :: "u16 \<Rightarrow> u64 \<Rightarrow> host_handshake \<Rightarrow> host_handshake" where
  "mark_heard sid now h =
     (case slot_of_sender sid of
        None \<Rightarrow> h
      | Some slot \<Rightarrow>
          (case slots h ! slot of
             None \<Rightarrow> h
           | Some s \<Rightarrow>
               let s = s\<lparr>sl_last_heard := now\<rparr>;
                   s = (case sl_state s of Pending _ _ _ \<Rightarrow> s\<lparr>sl_state := Active\<rparr> | Active \<Rightarrow> s)
               in h\<lparr>slots := (slots h)[slot := Some s]\<rparr>))"

text \<open>One round of \<open>remove_where\<close>'s loop, the loop, and the broadcast when something was removed.\<close>

fun remove_loop :: "(slot \<Rightarrow> bool) \<Rightarrow> leave_reason \<Rightarrow> nat \<Rightarrow> slot option list
    \<Rightarrow> slot option list \<times> host_action list \<times> bool" where
  "remove_loop p rs i [] = ([], [], False)"
| "remove_loop p rs i (e # es) =
     (case remove_loop p rs (i + 1) es of (es', as, rm) \<Rightarrow>
        if (case e of None \<Rightarrow> False | Some s \<Rightarrow> p s)
        then (None # es', ClientLeft (sender_id_of i) rs # as, True)
        else (e # es', as, rm))"

definition remove_where ::
  "(slot \<Rightarrow> bool) \<Rightarrow> leave_reason \<Rightarrow> host_handshake \<Rightarrow> host_handshake \<times> host_action list" where
  "remove_where p rs h =
     (case remove_loop p rs 0 (slots h) of (es, as, rm) \<Rightarrow>
        let h' = h\<lparr>slots := es\<rparr>
        in (h', as @ (if rm then broadcast_roster h' None else [])))"

definition on_bye :: "socket_addr \<Rightarrow> host_handshake \<Rightarrow> host_handshake \<times> host_action list" where
  "on_bye addr h = remove_where (\<lambda>s. sl_addr s = addr) LeaveBye h"

text \<open>The loop of \<open>tick\<close> over one entry: the entry after it, the leave it reports, whether the
  slot's WELCOME is to be sent again, and whether the slot was dropped.\<close>

definition tick_entry :: "u64 \<Rightarrow> nat \<Rightarrow> slot option
    \<Rightarrow> slot option \<times> host_action list \<times> nat list \<times> bool" where
  "tick_entry now i entry =
     (case entry of
        None \<Rightarrow> (None, [], [], False)
      | Some s \<Rightarrow>
          if PEER_TIMEOUT_MS < saturating_sub now (sl_last_heard s)
          then (None, [ClientLeft (sender_id_of i) LeaveTimeout], [], True)
          else (case sl_state s of
              Pending ws last_tx tries \<Rightarrow>
                if CONTROL_RETRY_MS \<le> saturating_sub now last_tx then
                  if CONTROL_MAX_TRIES \<le> tries
                  then (None, [ClientLeft (sender_id_of i) WelcomeUnacked], [], True)
                  else (Some (s\<lparr>sl_state := Pending ws now (tries + 1)\<rparr>), [], [i], False)
                else (Some s, [], [], False)
            | Active \<Rightarrow> (Some s, [], [], False)))"

fun tick_loop :: "u64 \<Rightarrow> nat \<Rightarrow> slot option list
    \<Rightarrow> slot option list \<times> host_action list \<times> nat list \<times> bool" where
  "tick_loop now i [] = ([], [], [], False)"
| "tick_loop now i (e # es) =
     (case tick_entry now i e of (e', as, rs, d) \<Rightarrow>
      case tick_loop now (i + 1) es of (es', as', rs', d') \<Rightarrow>
        (e' # es', as @ as', rs @ rs', d \<or> d'))"

definition host_tick :: "u64 \<Rightarrow> host_handshake \<Rightarrow> host_handshake \<times> host_action list" where
  "host_tick now h =
     (case tick_loop now 0 (slots h) of (es, as, resend, dropped) \<Rightarrow>
        let h' = h\<lparr>slots := es\<rparr>
        in (h', as
              @ List.map_filter (\<lambda>slot. map_option (\<lambda>s. HSend (sl_addr s) (welcome_for h' slot))
                   (slots h' ! slot)) resend
              @ (if dropped then broadcast_roster h' None else [])))"

datatype host_event =
    EHello socket_addr control u64
  | EWelcomeSent socket_addr u16
  | EAck socket_addr u16 u64
  | EHeard u16 u64
  | EBye socket_addr
  | ETick u64

fun host_step :: "host_event \<Rightarrow> host_handshake \<Rightarrow> host_handshake \<times> host_action list" where
  "host_step (EHello addr c now) h = on_hello addr c now h"
| "host_step (EWelcomeSent to sq) h = (welcome_sent to sq h, [])"
| "host_step (EAck addr sq now) h = on_ack addr sq now h"
| "host_step (EHeard sid now) h = (mark_heard sid now h, [])"
| "host_step (EBye addr) h = on_bye addr h"
| "host_step (ETick now) h = host_tick now h"

section \<open>The invariant\<close>

definition slot_ok :: "slot \<Rightarrow> bool" where
  "slot_ok s \<longleftrightarrow> string_valid (sl_name s)
     \<and> (case sl_state s of Pending _ _ n \<Rightarrow> 1 \<le> n \<and> n \<le> CONTROL_MAX_TRIES | Active \<Rightarrow> True)"

text \<open>Four slots, no address in two of them, every slot well formed.\<close>

definition slots_inv :: "slot option list \<Rightarrow> bool" where
  "slots_inv es \<longleftrightarrow> length es = MAX_CLIENTS
     \<and> (\<forall>i j s t. i < length es \<and> j < length es \<and> es ! i = Some s \<and> es ! j = Some t
          \<and> sl_addr s = sl_addr t \<longrightarrow> i = j)
     \<and> (\<forall>s. Some s \<in> set es \<longrightarrow> slot_ok s)"

definition host_inv :: "host_handshake \<Rightarrow> bool" where
  "host_inv h \<longleftrightarrow> utf8_valid (h_name h) \<and> slots_inv (slots h)"

text \<open>What most handlers do to a slot: free it, or change its state and its clock.\<close>

definition entry_le :: "slot option \<Rightarrow> slot option \<Rightarrow> bool" where
  "entry_le e' e \<longleftrightarrow> e' = None \<or> (\<exists>s s'. e = Some s \<and> e' = Some s' \<and> sl_addr s' = sl_addr s
     \<and> (slot_ok s \<longrightarrow> slot_ok s'))"

lemma slots_inv_le:
  assumes "slots_inv es" and "list_all2 entry_le es' es"
  shows "slots_inv es'"
proof -
  have len: "length es' = length es" using assms(2) by (rule list_all2_lengthD)
  have le: "i < length es \<Longrightarrow> entry_le (es' ! i) (es ! i)" for i
    using assms(2) by (simp add: list_all2_conv_all_nth)
  have ent: "\<exists>t. es ! i = Some t \<and> sl_addr t = sl_addr s \<and> (slot_ok t \<longrightarrow> slot_ok s)"
    if "i < length es" "es' ! i = Some s" for i s
    using le [OF that(1)] that(2) by (auto simp: entry_le_def)
  show ?thesis unfolding slots_inv_def
  proof (intro conjI allI impI)
    show "length es' = MAX_CLIENTS" using assms(1) len by (simp add: slots_inv_def)
  next
    fix i j s t
    assume a: "i < length es' \<and> j < length es' \<and> es' ! i = Some s \<and> es' ! j = Some t
      \<and> sl_addr s = sl_addr t"
    with ent [of i s] ent [of j t] assms(1) show "i = j"
      unfolding len slots_inv_def by metis
  next
    fix s
    assume "Some s \<in> set es'"
    then obtain i where i: "i < length es" "es' ! i = Some s" by (auto simp: in_set_conv_nth len)
    with ent obtain t where "es ! i = Some t" "slot_ok t \<longrightarrow> slot_ok s" by blast
    with assms(1) i(1) show "slot_ok s"
      by (metis nth_mem slots_inv_def)
  qed
qed

lemma slots_inv_update:
  assumes "slots_inv es" and "slot_ok s"
    and "\<And>j t. \<lbrakk>j < length es; j \<noteq> i; es ! j = Some t\<rbrakk> \<Longrightarrow> sl_addr t \<noteq> sl_addr s"
  shows "slots_inv (es[i := Some s])"
  unfolding slots_inv_def
proof (intro conjI allI impI)
  show "length (es[i := Some s]) = MAX_CLIENTS" using assms(1) by (simp add: slots_inv_def)
next
  fix j k t u
  assume a: "j < length (es[i := Some s]) \<and> k < length (es[i := Some s])
    \<and> es[i := Some s] ! j = Some t \<and> es[i := Some s] ! k = Some u \<and> sl_addr t = sl_addr u"
  show "j = k"
  proof (rule ccontr)
    assume ne: "j \<noteq> k"
    consider "j = i" "k \<noteq> i" | "k = i" "j \<noteq> i" | "j \<noteq> i" "k \<noteq> i" using ne by blast
    then show False
    proof cases
      case 1 with a assms(3) [of k u] show ?thesis by auto
    next
      case 2 with a assms(3) [of j t] show ?thesis by auto
    next
      case 3 with a assms(1) ne show ?thesis by (simp add: slots_inv_def)
    qed
  qed
next
  fix t
  assume "Some t \<in> set (es[i := Some s])"
  with set_update_subset_insert [of es i "Some s"] assms(1,2) show "slot_ok t"
    by (auto simp: slots_inv_def)
qed

lemma entry_le_refl [simp]: "entry_le e e"
  by (cases e) (auto simp: entry_le_def)

lemma entry_le_None [simp]: "entry_le None e"
  by (simp add: entry_le_def)

lemma entry_le_map:
  "(\<And>s. sl_addr (f s) = sl_addr s \<and> (slot_ok s \<longrightarrow> slot_ok (f s))) \<Longrightarrow> entry_le (map_option f e) e"
  by (cases e) (simp_all add: entry_le_def)

lemma entries_le_map:
  "(\<And>s. sl_addr (f s) = sl_addr s \<and> (slot_ok s \<longrightarrow> slot_ok (f s))) \<Longrightarrow>
   list_all2 entry_le (map (map_option f) es) es"
  by (simp add: list_all2_conv_all_nth entry_le_map)

lemma entries_le_update: "entry_le e (es ! i) \<Longrightarrow> list_all2 entry_le (es[i := e]) es"
  unfolding list_all2_conv_all_nth
proof (intro conjI allI impI)
  fix k
  assume "entry_le e (es ! i)" "k < length (es[i := e])"
  then show "entry_le (es[i := e] ! k) (es ! k)" by (cases "k = i") simp_all
qed simp

lemma entries_le_refl [simp]: "list_all2 entry_le es es"
  by (simp add: list_all2_conv_all_nth)

lemma remove_loop_le: "list_all2 entry_le (fst (remove_loop p rs i es)) es"
  by (induction es arbitrary: i) (auto split: prod.split simp: case_prod_unfold)

lemma slot_ok_simps [simp]:
  "slot_ok (s\<lparr>sl_last_heard := t\<rparr>) = slot_ok s"
  "slot_ok (s\<lparr>sl_state := Active\<rparr>) \<longleftrightarrow> string_valid (sl_name s)"
  "slot_ok (s\<lparr>sl_state := Pending w t n\<rparr>) \<longleftrightarrow>
     string_valid (sl_name s) \<and> 1 \<le> n \<and> n \<le> CONTROL_MAX_TRIES"
  by (simp_all add: slot_ok_def)

lemma slot_ok_name [simp]: "slot_ok s \<Longrightarrow> string_valid (sl_name s)"
  by (simp add: slot_ok_def)

lemma slot_ok_pending:
  "\<lbrakk>slot_ok s; sl_state s = Pending w t n\<rbrakk> \<Longrightarrow> 1 \<le> n \<and> n \<le> CONTROL_MAX_TRIES"
  by (simp add: slot_ok_def)

lemma tick_entry_le: "entry_le (fst (tick_entry now i e)) e"
proof (cases e)
  case (Some s)
  have "slot_ok s \<longrightarrow> slot_ok (s\<lparr>sl_state := Pending w now (n + 1)\<rparr>)"
    if "sl_state s = Pending w t n" "\<not> CONTROL_MAX_TRIES \<le> n" for w t n
    using that slot_ok_pending [of s w t n] by (auto simp: tries_nat)
  with Some show ?thesis
    by (auto simp: tick_entry_def entry_le_def split: slot_state.split)
qed (simp add: tick_entry_def)

lemma tick_loop_le: "list_all2 entry_le (fst (tick_loop now i es)) es"
  by (induction es arbitrary: i) (auto simp: case_prod_unfold tick_entry_le)

lemma find_addr:
  "position (occupied_by a) es = Some i \<Longrightarrow> \<exists>s. i < length es \<and> es ! i = Some s \<and> sl_addr s = a"
  by (drule position_SomeD) (auto simp: occupied_by_def split: option.splits)

lemma find_addr_None:
  "position (occupied_by a) es = None \<longleftrightarrow> (\<forall>s. Some s \<in> set es \<longrightarrow> sl_addr s \<noteq> a)"
  by (force simp: position_None_iff occupied_by_def split: option.splits)

lemma find_free: "position (\<lambda>e. e = None) es = Some i \<Longrightarrow> i < length es \<and> es ! i = None"
  by (drule position_SomeD) auto

text \<open>The slots after each handler.\<close>

lemma welcome_sent_le: "list_all2 entry_le (slots (welcome_sent a sq h)) (slots h)"
  unfolding welcome_sent_def
  by (simp, rule entries_le_map) (auto dest: slot_ok_pending split: slot_state.split)

lemma on_ack_le: "list_all2 entry_le (slots (fst (on_ack a sq t h))) (slots h)"
  unfolding on_ack_def
  by (simp, rule entries_le_map) (auto simp: Let_def split: slot_state.split option.split)

lemma mark_heard_le: "list_all2 entry_le (slots (mark_heard sid t h)) (slots h)"
  by (auto simp: mark_heard_def Let_def entry_le_def intro!: entries_le_update
      split: option.split slot_state.split)

lemma remove_where_le: "list_all2 entry_le (slots (fst (remove_where p rs h))) (slots h)"
  using remove_loop_le [of p rs 0 "slots h"] by (simp add: remove_where_def case_prod_unfold Let_def)

lemma host_tick_le: "list_all2 entry_le (slots (fst (host_tick now h))) (slots h)"
  using tick_loop_le [of now 0 "slots h"] by (simp add: host_tick_def case_prod_unfold Let_def)

lemma on_hello_slots_inv:
  assumes "slots_inv (slots h)" and "control_valid c"
  shows "slots_inv (slots (fst (on_hello a c now h)))"
proof (cases c)
  case (Hello pv code nm cm fm)
  show ?thesis
  proof (cases "position (occupied_by a) (slots h)")
    case None
    then have "\<lbrakk>j < length (slots h); slots h ! j = Some t\<rbrakk> \<Longrightarrow> sl_addr t \<noteq> a" for j t
      using nth_mem [of j "slots h"] by (simp add: find_addr_None)
    with None assms show ?thesis
      by (auto simp: on_hello_def Hello Let_def slot_ok_def CONTROL_MAX_TRIES_def
          intro!: slots_inv_update split: option.split)
  next
    case (Some i)
    then obtain s where s: "i < length (slots h)" "slots h ! i = Some s" "sl_addr s = a"
      using find_addr by blast
    with assms(1) have "\<lbrakk>j < length (slots h); j \<noteq> i; slots h ! j = Some t\<rbrakk> \<Longrightarrow> sl_addr t \<noteq> a" for j t
      by (auto simp: slots_inv_def)
    with assms Some s show ?thesis
      by (auto simp: on_hello_def Hello Let_def slot_ok_def CONTROL_MAX_TRIES_def
          intro!: slots_inv_update)
  qed
qed (use assms in \<open>simp_all add: on_hello_def\<close>)

lemma h_name_step [simp]: "h_name (fst (host_step e h)) = h_name h"
  by (cases e)
    (auto simp: on_hello_def welcome_sent_def on_ack_def mark_heard_def on_bye_def
      remove_where_def host_tick_def Let_def case_prod_unfold
      split: control.split option.split slot_state.split)

lemma host_step_inv:
  assumes "\<And>a c t. e = EHello a c t \<Longrightarrow> control_valid c" and "host_inv h"
  shows "host_inv (fst (host_step e h))"
proof -
  have "slots_inv (slots (fst (host_step e h)))"
  proof (cases e)
    case (EHello a c t)
    with assms show ?thesis by (simp add: host_inv_def on_hello_slots_inv)
  qed (use assms(2) in \<open>simp_all add: host_inv_def on_bye_def slots_inv_le [OF _ welcome_sent_le]
      slots_inv_le [OF _ on_ack_le] slots_inv_le [OF _ mark_heard_le]
      slots_inv_le [OF _ remove_where_le] slots_inv_le [OF _ host_tick_le]\<close>)
  with assms(2) show ?thesis by (simp add: host_inv_def)
qed

section \<open>What the host sends\<close>

lemma in_map_filter: "x \<in> set (List.map_filter f xs) \<longleftrightarrow> (\<exists>y \<in> set xs. f y = Some x)"
  by (force simp: List.map_filter_def)

lemma length_map_filter: "length (List.map_filter f xs) \<le> length xs"
  by (simp add: List.map_filter_def)

lemma broadcast_sends:
  "a \<in> set (broadcast_roster h ex) \<Longrightarrow> \<exists>to. a = HSend to (Roster (host_roster h))"
  by (auto simp: broadcast_roster_def in_map_filter split: option.splits if_splits)

lemma remove_loop_sends: "HSend to c \<notin> set (fst (snd (remove_loop p rs i es)))"
  by (induction es arbitrary: i) (auto simp: case_prod_unfold)

lemma tick_loop_sends: "HSend to c \<notin> set (fst (snd (tick_loop now i es)))"
proof (induction es arbitrary: i)
  case (Cons e es)
  have "HSend to c \<notin> set (fst (snd (tick_entry now i e)))"
    by (auto simp: tick_entry_def split: option.split slot_state.split)
  with Cons show ?case by (auto simp: case_prod_unfold)
qed simp

text \<open>Every packet the host sends is a DENY, or a WELCOME or a ROSTER built from the state after
  the event.\<close>

lemma host_sends:
  "HSend to c \<in> set (snd (host_step e h)) \<Longrightarrow>
     (\<exists>r. c = Deny r) \<or> (\<exists>i. c = welcome_for (fst (host_step e h)) i)
     \<or> c = Roster (host_roster (fst (host_step e h)))"
proof (cases e)
  case (EHello a p t)
  moreover assume "HSend to c \<in> set (snd (host_step e h))"
  ultimately show ?thesis
    by (auto simp: on_hello_def Let_def dest!: broadcast_sends
        split: control.splits option.splits if_splits)
next
  case (EBye a)
  moreover assume "HSend to c \<in> set (snd (host_step e h))"
  ultimately show ?thesis
    by (auto simp: on_bye_def remove_where_def Let_def case_prod_unfold remove_loop_sends
        dest!: broadcast_sends split: if_splits)
next
  case (ETick t)
  moreover assume "HSend to c \<in> set (snd (host_step e h))"
  ultimately show ?thesis
    by (auto simp: host_tick_def Let_def case_prod_unfold tick_loop_sends in_map_filter
        dest!: broadcast_sends split: if_splits)
qed (simp_all add: on_ack_def)

lemma host_roster_sendable:
  assumes "host_inv h"
  shows "length (host_roster h) \<le> MAX_CLIENTS + 1"
    and "p \<in> set (host_roster h) \<Longrightarrow> utf8_valid (pname p)"
proof -
  have len: "length (slots h) = MAX_CLIENTS" using assms by (simp add: host_inv_def slots_inv_def)
  show "length (host_roster h) \<le> MAX_CLIENTS + 1"
    using length_map_filter [of _ "enumerate 0 (slots h)"]
    by (simp add: host_roster_def len length_enumerate flip: len)
  have "utf8_valid (sl_name s)" if "(i, Some s) \<in> set (enumerate 0 (slots h))" for i s
  proof -
    from that have "Some s \<in> set (slots h)" by (simp add: in_set_enumerate_eq) (metis nth_mem)
    with assms show ?thesis by (auto simp: host_inv_def slots_inv_def slot_ok_def string_valid_def)
  qed
  then show "p \<in> set (host_roster h) \<Longrightarrow> utf8_valid (pname p)"
    using assms by (auto simp: host_roster_def in_map_filter host_inv_def)
qed

definition ok_event :: "host_event \<Rightarrow> bool" where
  "ok_event e = (case e of EHello _ c _ \<Rightarrow> control_valid c | _ \<Rightarrow> True)"

definition sendable :: "host_action \<Rightarrow> bool" where
  "sendable a = (case a of HSend _ c \<Rightarrow> control_sendable c | _ \<Rightarrow> True)"

interpretation host: event_machine host_step ok_event host_inv sendable
proof unfold_locales
  fix e h a
  assume ok: "ok_event e" and inv: "host_inv h"
  then show inv': "host_inv (fst (host_step e h))"
    by (intro host_step_inv) (auto simp: ok_event_def)
  assume a: "a \<in> set (snd (host_step e h))"
  show "sendable a"
  proof (cases a)
    case (HSend to c)
    with a host_sends [of to c e h] host_roster_sendable [OF inv'] show ?thesis
      by (auto simp: sendable_def welcome_for_def)
  qed (simp_all add: sendable_def)
qed

section \<open>The embedder's view\<close>

text \<open>The occupied sender ids, and how the embedding code keeps them from the actions: a join
  must be of a free id, a leave of an occupied one.\<close>

fun ids_from :: "nat \<Rightarrow> slot option list \<Rightarrow> u16 set" where
  "ids_from i [] = {}"
| "ids_from i (e # es) = (if e = None then {} else {sender_id_of i}) \<union> ids_from (i + 1) es"

definition occupied :: "host_handshake \<Rightarrow> u16 set" where
  "occupied h = ids_from 0 (slots h)"

fun see_action :: "host_action \<Rightarrow> u16 set \<Rightarrow> u16 set option" where
  "see_action (ClientJoined i _) S = (if i \<in> S then None else Some (insert i S))"
| "see_action (ClientLeft i _) S = (if i \<in> S then Some (S - {i}) else None)"
| "see_action (HSend _ _) S = Some S"

lemma sender_id_inj: "\<lbrakk>i \<le> MAX_CLIENTS; j \<le> MAX_CLIENTS\<rbrakk> \<Longrightarrow> sender_id_of i = sender_id_of j \<longleftrightarrow> i = j"
proof -
  assume "i \<le> MAX_CLIENTS" "j \<le> MAX_CLIENTS"
  then have "unat (sender_id_of i) = i + 1" "unat (sender_id_of j) = j + 1"
    by (simp_all add: sender_id_of_def MAX_CLIENTS_def unat_of_nat del: of_nat_Suc)
  then show ?thesis by (metis add_right_imp_eq)
qed

lemma slot_of_sender_iff: "slot_of_sender sid = Some i \<longleftrightarrow> i < MAX_CLIENTS \<and> sid = sender_id_of i"
proof
  assume s: "slot_of_sender sid = Some i"
  then have "1 \<le> unat sid" "unat sid \<le> 4" "i = unat (sid - 1)" "1 \<le> sid"
    by (auto simp: slot_of_sender_def MAX_CLIENTS_def word_le_nat_alt split: if_splits)
  then have "i = unat sid - 1" by (simp add: unat_sub word_le_nat_alt)
  moreover have "sid = of_nat (unat sid)" by simp
  ultimately show "i < MAX_CLIENTS \<and> sid = sender_id_of i"
    using \<open>1 \<le> unat sid\<close> \<open>unat sid \<le> 4\<close> by (simp add: sender_id_of_def MAX_CLIENTS_def)
next
  assume i: "i < MAX_CLIENTS \<and> sid = sender_id_of i"
  then have "unat sid = i + 1" by (simp add: sender_id_of_def MAX_CLIENTS_def unat_of_nat del: of_nat_Suc)
  with i show "slot_of_sender sid = Some i"
    by (simp add: slot_of_sender_def MAX_CLIENTS_def word_le_nat_alt unat_sub)
qed

lemma in_ids_from:
  "sid \<in> ids_from k es \<longleftrightarrow> (\<exists>i < length es. es ! i \<noteq> None \<and> sid = sender_id_of (k + i))"
proof (induction es arbitrary: k)
  case (Cons e es)
  show ?case unfolding ids_from.simps Un_iff Cons.IH length_Cons Ex_less_Suc2 by simp
qed simp

lemma in_occupied: "sid \<in> occupied h \<longleftrightarrow>
    (\<exists>i < length (slots h). slots h ! i \<noteq> None \<and> sid = sender_id_of i)"
  by (simp add: occupied_def in_ids_from)

lemma occupied_update:
  assumes "length (slots h) = MAX_CLIENTS" and "i < MAX_CLIENTS"
  shows "occupied (h\<lparr>slots := (slots h)[i := Some s]\<rparr>) = insert (sender_id_of i) (occupied h)"
proof (intro set_eqI iffI)
  fix sid
  let ?h = "h\<lparr>slots := (slots h)[i := Some s]\<rparr>"
  show "sid \<in> insert (sender_id_of i) (occupied h)" if "sid \<in> occupied ?h"
  proof -
    from that obtain k where "k < length (slots h)" "(slots h)[i := Some s] ! k \<noteq> None"
      "sid = sender_id_of k" by (auto simp: in_occupied)
    then show ?thesis by (cases "k = i") (auto simp: in_occupied)
  qed
  show "sid \<in> occupied ?h" if "sid \<in> insert (sender_id_of i) (occupied h)"
  proof -
    from that consider "sid = sender_id_of i"
      | k where "k < length (slots h)" "slots h ! k \<noteq> None" "sid = sender_id_of k" "k \<noteq> i"
      by (auto simp: in_occupied)
    then show ?thesis
    proof cases
      case 1 with assms show ?thesis by (simp add: in_occupied) (rule exI [of _ i], simp)
    next
      case (2 k) then show ?thesis by (simp add: in_occupied) (rule exI [of _ k], simp)
    qed
  qed
qed

lemma replay_sends:
  "(\<And>a. a \<in> set as \<Longrightarrow> \<exists>to c. a = HSend to c) \<Longrightarrow> replay see_action as S = Some S"
proof (induction as)
  case (Cons a as)
  from Cons.prems [of a] obtain to c where "a = HSend to c" by auto
  with Cons show ?case by simp
qed simp

text \<open>One round of a loop that may drop the entry it looks at.\<close>

lemma drop_loop_step:
  assumes k: "k + 1 + length es \<le> MAX_CLIENTS"
    and fresh: "\<forall>i. k \<le> i \<and> i < MAX_CLIENTS \<longrightarrow> sender_id_of i \<notin> S"
    and e: "e' = None \<and> e \<noteq> None \<and> (\<exists>r. as = [ClientLeft (sender_id_of k) r])
      \<or> (e' = None \<longleftrightarrow> e = None) \<and> as = []"
    and IH: "\<And>S. \<forall>i. k + 1 \<le> i \<and> i < MAX_CLIENTS \<longrightarrow> sender_id_of i \<notin> S \<Longrightarrow>
      replay see_action as' (S \<union> ids_from (k + 1) es) = Some (S \<union> ids_from (k + 1) es')"
  shows "replay see_action (as @ as') (S \<union> ids_from k (e # es)) = Some (S \<union> ids_from k (e' # es'))"
proof -
  have k': "k < MAX_CLIENTS" using k by simp
  have new: "sender_id_of k \<notin> S" using fresh k' by simp
  have "sender_id_of k \<noteq> sender_id_of (k + 1 + i)" if "i < length es" for i
    using sender_id_inj [of k "k + 1 + i"] that k by simp
  then have tail: "sender_id_of k \<notin> ids_from (k + 1) es" by (auto simp: in_ids_from)
  let ?S = "if e' = None then S else insert (sender_id_of k) S"
  have "sender_id_of i \<noteq> sender_id_of k" if "k + 1 \<le> i" "i < MAX_CLIENTS" for i
    using that sender_id_inj [of i k] k' by simp
  with fresh have "\<forall>i. k + 1 \<le> i \<and> i < MAX_CLIENTS \<longrightarrow> sender_id_of i \<notin> ?S" by simp
  from IH [OF this] have IH': "replay see_action as' (?S \<union> ids_from (k + 1) es)
      = Some (?S \<union> ids_from (k + 1) es')" .
  show ?thesis using e
  proof
    assume d: "e' = None \<and> e \<noteq> None \<and> (\<exists>r. as = [ClientLeft (sender_id_of k) r])"
    then obtain r where as: "as = [ClientLeft (sender_id_of k) r]" by blast
    have ids: "S \<union> ids_from k (e # es) = insert (sender_id_of k) (S \<union> ids_from (k + 1) es)"
      "S \<union> ids_from k (e' # es') = S \<union> ids_from (k + 1) es'"
      using d by auto
    have "insert (sender_id_of k) (S \<union> ids_from (k + 1) es) - {sender_id_of k}
        = S \<union> ids_from (k + 1) es"
      using new tail by auto
    with IH' d show ?thesis unfolding as ids by simp
  next
    assume d: "(e' = None \<longleftrightarrow> e = None) \<and> as = []"
    then have "S \<union> ids_from k (e # es) = ?S \<union> ids_from (k + 1) es"
      "S \<union> ids_from k (e' # es') = ?S \<union> ids_from (k + 1) es'"
      by auto
    with IH' d show ?thesis by (simp only: append.simps)
  qed
qed

lemma tick_entry_drops:
  "fst (tick_entry now k e) = None \<and> e \<noteq> None
     \<and> (\<exists>r. fst (snd (tick_entry now k e)) = [ClientLeft (sender_id_of k) r])
   \<or> (fst (tick_entry now k e) = None \<longleftrightarrow> e = None) \<and> fst (snd (tick_entry now k e)) = []"
  by (auto simp: tick_entry_def split: option.split slot_state.split)

lemma tick_loop_view:
  "\<lbrakk>k + length es \<le> MAX_CLIENTS; \<forall>i. k \<le> i \<and> i < MAX_CLIENTS \<longrightarrow> sender_id_of i \<notin> S\<rbrakk> \<Longrightarrow>
   replay see_action (fst (snd (tick_loop now k es))) (S \<union> ids_from k es)
     = Some (S \<union> ids_from k (fst (tick_loop now k es)))"
proof (induction es arbitrary: k S)
  case (Cons e es)
  show ?case unfolding tick_loop.simps case_prod_unfold fst_conv snd_conv
    using Cons.prems tick_entry_drops [of now k e] by (intro drop_loop_step Cons.IH) auto
qed simp

lemma remove_loop_view:
  "\<lbrakk>k + length es \<le> MAX_CLIENTS; \<forall>i. k \<le> i \<and> i < MAX_CLIENTS \<longrightarrow> sender_id_of i \<notin> S\<rbrakk> \<Longrightarrow>
   replay see_action (fst (snd (remove_loop p rs k es))) (S \<union> ids_from k es)
     = Some (S \<union> ids_from k (fst (remove_loop p rs k es)))"
proof (induction es arbitrary: k S)
  case (Cons e es)
  let ?d = "case e of None \<Rightarrow> False | Some s \<Rightarrow> p s"
  let ?e = "if ?d then None else e" and ?as = "if ?d then [ClientLeft (sender_id_of k) rs] else []"
  have "replay see_action (?as @ fst (snd (remove_loop p rs (k + 1) es))) (S \<union> ids_from k (e # es))
      = Some (S \<union> ids_from k (?e # fst (remove_loop p rs (k + 1) es)))"
    using Cons.prems by (intro drop_loop_step Cons.IH) (auto split: option.splits)
  moreover have "remove_loop p rs k (e # es) = (?e # fst (remove_loop p rs (k + 1) es),
      ?as @ fst (snd (remove_loop p rs (k + 1) es)), snd (snd (remove_loop p rs k (e # es))))"
    by (simp add: case_prod_unfold)
  ultimately show ?case by (metis fst_conv snd_conv)
qed simp

lemma replay_then_sends:
  "\<lbrakk>replay see_action as S = Some T; \<And>a. a \<in> set bs \<Longrightarrow> \<exists>to c. a = HSend to c\<rbrakk> \<Longrightarrow>
   replay see_action (as @ bs) S = Some T"
  by (simp add: replay_append replay_sends)

lemma host_tick_view:
  assumes "host_inv h"
  shows "replay see_action (snd (host_tick now h)) (occupied h) = Some (occupied (fst (host_tick now h)))"
proof -
  have "length (slots h) = MAX_CLIENTS" using assms by (simp add: host_inv_def slots_inv_def)
  with tick_loop_view [of 0 "slots h" "{}" now] show ?thesis
    unfolding host_tick_def case_prod_unfold Let_def fst_conv snd_conv
    by (intro replay_then_sends)
      (auto simp: occupied_def in_map_filter dest!: broadcast_sends split: if_splits)
qed

lemma remove_where_view:
  assumes "host_inv h"
  shows "replay see_action (snd (remove_where p rs h)) (occupied h)
    = Some (occupied (fst (remove_where p rs h)))"
proof -
  have "length (slots h) = MAX_CLIENTS" using assms by (simp add: host_inv_def slots_inv_def)
  with remove_loop_view [of 0 "slots h" "{}" p rs] show ?thesis
    unfolding remove_where_def case_prod_unfold Let_def fst_conv snd_conv
    by (intro replay_then_sends) (auto simp: occupied_def dest!: broadcast_sends split: if_splits)
qed

lemma ids_from_cong:
  "map (\<lambda>e. e = None) es' = map (\<lambda>e. e = None) es \<Longrightarrow> ids_from k es' = ids_from k es"
proof (induction es arbitrary: es' k)
  case (Cons e es)
  then obtain e' fs where es': "es' = e' # fs" "(e' = None) = (e = None)"
    "map (\<lambda>e. e = None) fs = map (\<lambda>e. e = None) es"
    by (cases es') simp_all
  from Cons.IH [OF es'(3)] es'(2) show ?case by (simp only: es'(1) ids_from.simps)
qed simp

lemma map_update_same: "f x = f (xs ! i) \<Longrightarrow> map f (xs[i := x]) = map f xs"
  by (cases "i < length xs") (simp_all add: map_update list_update_same_conv list_update_beyond)

lemma quiet_views:
  "occupied (welcome_sent a sq h) = occupied h"
  "occupied (fst (on_ack a sq t h)) = occupied h"
  by (simp_all add: welcome_sent_def on_ack_def occupied_def, auto intro!: ids_from_cong)

lemma snd_on_ack: "snd (on_ack a sq t h) = []"
  by (simp add: on_ack_def)

lemma mark_heard_view: "occupied (mark_heard sid t h) = occupied h"
  by (auto simp: mark_heard_def Let_def occupied_def map_update_same intro!: ids_from_cong
      split: option.split slot_state.split)

lemma sender_id_free:
  assumes "length (slots h) = MAX_CLIENTS" and "i < MAX_CLIENTS" and "slots h ! i = None"
  shows "sender_id_of i \<notin> occupied h"
proof
  assume "sender_id_of i \<in> occupied h"
  then obtain j where "j < MAX_CLIENTS" "slots h ! j \<noteq> None" "sender_id_of i = sender_id_of j"
    using assms(1) by (auto simp: in_occupied)
  with assms(2,3) sender_id_inj [of i j] show False by simp
qed

lemma on_hello_view:
  assumes "host_inv h"
  shows "replay see_action (snd (on_hello a c t h)) (occupied h) = Some (occupied (fst (on_hello a c t h)))"
proof (cases c)
  case (Hello pv code nm cm fm)
  have len: "length (slots h) = MAX_CLIENTS" using assms by (simp add: host_inv_def slots_inv_def)
  show ?thesis
  proof (cases "position (occupied_by a) (slots h)")
    case (Some i)
    then obtain s where s: "i < MAX_CLIENTS" "slots h ! i = Some s" using find_addr len by fastforce
    then have "sender_id_of i \<in> occupied h" by (auto simp: in_occupied len)
    with Some s show ?thesis
      by (simp add: on_hello_def Hello Let_def occupied_update len insert_absorb)
  next
    case None
    note no_addr = None
    show ?thesis
    proof (cases "position (\<lambda>e. e = None) (slots h)")
      case None
      with no_addr show ?thesis by (simp add: on_hello_def Hello)
    next
      case (Some i)
      then have i: "i < MAX_CLIENTS" "slots h ! i = None" using find_free len by fastforce+
      have bc: "replay see_action (broadcast_roster h' ex) S = Some S" for h' ex S
        by (rule replay_sends) (blast dest: broadcast_sends)
      from Some no_addr i sender_id_free [OF len i] show ?thesis
        by (simp add: on_hello_def Hello Let_def occupied_update len bc)
    qed
  qed
qed (simp_all add: on_hello_def)

interpretation embedder: observed_machine host_step ok_event host_inv sendable see_action occupied
proof unfold_locales
  fix e h
  assume "host_inv h"
  then show "replay see_action (snd (host_step e h)) (occupied h) = Some (occupied (fst (host_step e h)))"
    using on_hello_view [of h] remove_where_view [of h] host_tick_view [of h]
    by (cases e) (simp_all add: quiet_views mark_heard_view on_bye_def snd_on_ack)
qed

section \<open>What the host promises\<close>

text \<open>A host after any sequence of well-formed events since it was created.\<close>

definition host_after :: "u8 list \<Rightarrow> u16 \<Rightarrow> session_params \<Rightarrow> rust_string \<Rightarrow> host_event list
    \<Rightarrow> host_handshake" where
  "host_after code sid params nm es = fst (run host_step es (host_new code sid params nm))"

lemma host_new_inv: "utf8_valid nm \<Longrightarrow> host_inv (host_new code sid params nm)"
  by (auto simp: host_inv_def host_new_def slots_inv_def)

lemma host_after_inv:
  "\<lbrakk>utf8_valid nm; \<forall>e \<in> set es. ok_event e\<rbrakk> \<Longrightarrow> host_inv (host_after code sid params nm es)"
  unfolding host_after_def by (intro host.run_inv host_new_inv)

lemma host_new_occupied: "occupied (host_new code sid params nm) = {}"
  by (auto simp: in_occupied host_new_def)

text \<open>A concrete session: one client joins a room and says BYE.\<close>

definition ex_events :: "host_event list" where
  "ex_events = [EHello (V4 10 5000) (Hello 1 [1, 2, 3, 4, 5, 6] [65] 7 3) 0,
     EWelcomeSent (V4 10 5000) 0, EHello (V4 11 5000) (Hello 1 [1, 2, 3, 4, 5, 6] [66] 7 3) 5,
     EAck (V4 10 5000) 0 20, EBye (V4 10 5000), ETick 150]"

lemma ex_events_ok: "\<forall>e \<in> set ex_events. ok_event e"
  by (simp add: ex_events_def ok_event_def ROOM_CODE_LEN_def string_valid_def utf8_width_def
      MAX_NAME_LEN_def)

lemma ex_name_ok: "utf8_valid [72]"
  by (simp add: utf8_width_def)

text \<open>Every packet a host ever sends, whatever HELLOs, ACKs, BYEs, audio and clock readings
  it sees in whatever order, fits the datagram buffer, is written without a panic and is
  accepted by the receiver's parser; in particular the roster never outgrows the parser's limit
  of five players.\<close>

theorem host_packets_parse:
  assumes "utf8_valid nm" and "\<forall>e \<in> set es. ok_event e"
    and "HSend to c \<in> set (snd (run host_step es (host_new code sid params nm)))"
    and "ptype h = packet_type_of c" and "length out = MAX_DATAGRAM"
  shows "\<exists>out' n. control_write c h out = Some (out', n)
    \<and> parse_datagram (take n out') = Ok (h, PControl (control_canon c))"
proof -
  have "sendable (HSend to c)" using assms by (intro host.run_out [OF _ host_new_inv])
  then have "control_sendable c" by (simp add: sendable_def)
  with control_write_parse [of c h out] assms(4,5) show ?thesis by (auto simp: MAX_DATAGRAM_def)
qed

theorem host_packets_parse_witness:
  "\<exists>out' n. control_write (Roster [\<lparr>pid = 0, pname = [72]\<rparr>, \<lparr>pid = 2, pname = [66]\<rparr>])
       \<lparr>ptype = PT_Roster, session_id = 7, sender_id = 0, hseq = 3\<rparr> (replicate 2048 0) = Some (out', n)
     \<and> parse_datagram (take n out') = Ok (\<lparr>ptype = PT_Roster, session_id = 7, sender_id = 0, hseq = 3\<rparr>,
         PControl (control_canon (Roster [\<lparr>pid = 0, pname = [72]\<rparr>, \<lparr>pid = 2, pname = [66]\<rparr>])))"
proof -
  have "HSend (V4 11 5000) (Roster [\<lparr>pid = 0, pname = [72]\<rparr>, \<lparr>pid = 2, pname = [66]\<rparr>])
      \<in> set (snd (run host_step ex_events (host_new [1, 2, 3, 4, 5, 6] 7 default_params [72])))"
    by code_simp
  from host_packets_parse [OF ex_name_ok ex_events_ok this] show ?thesis
    by (simp add: MAX_DATAGRAM_def)
qed

text \<open>C12: an embedder that keeps the set of connected sender ids from the host's actions alone
  always has the host's own set: a join is only reported for a free id, a leave only for an
  occupied one, and no change goes unreported.\<close>

theorem host_actions_track_slots:
  assumes "utf8_valid nm" and "\<forall>e \<in> set es. ok_event e"
  shows "replay see_action (snd (run host_step es (host_new code sid params nm))) {}
    = Some (occupied (host_after code sid params nm es))"
  using embedder.run_view [OF assms(2) host_new_inv [OF assms(1)], of code sid params]
  by (simp add: host_after_def host_new_occupied)

theorem host_actions_track_slots_witness:
  "replay see_action (snd (run host_step ex_events (host_new [1, 2, 3, 4, 5, 6] 7 default_params [72]))) {}
    = Some (occupied (host_after [1, 2, 3, 4, 5, 6] 7 default_params [72] ex_events))"
  by (rule host_actions_track_slots [OF ex_name_ok ex_events_ok])

lemma client_addr_iff:
  "client_addr h sid = Some a \<longleftrightarrow>
     (\<exists>i s. i < MAX_CLIENTS \<and> sid = sender_id_of i \<and> slots h ! i = Some s \<and> sl_addr s = a)"
  by (auto simp: client_addr_def bind_eq_Some_conv slot_of_sender_iff)

lemma slots_inv_addr:
  "\<lbrakk>slots_inv es; es ! i = Some s; es ! j = Some t; sl_addr s = sl_addr t; i < length es;
    j < length es\<rbrakk> \<Longrightarrow> i = j"
  by (simp add: slots_inv_def)

lemma sender_id_range: "i < MAX_CLIENTS \<Longrightarrow> 1 \<le> sender_id_of i \<and> sender_id_of i \<le> 4"
  using slot_of_sender_iff [of "sender_id_of i" i]
  by (simp add: slot_of_sender_def MAX_CLIENTS_def split: if_splits)

lemma position_addr_iff:
  assumes "slots_inv es"
  shows "position (occupied_by a) es = Some i \<longleftrightarrow>
    (\<exists>s. i < length es \<and> es ! i = Some s \<and> sl_addr s = a)"
proof
  assume "\<exists>s. i < length es \<and> es ! i = Some s \<and> sl_addr s = a"
  then obtain s where s: "i < length es" "es ! i = Some s" "sl_addr s = a" by blast
  have "\<not> occupied_by a (es ! j)" if "j < i" for j
    using that s slots_inv_addr [OF assms, of j _ i s]
    by (auto simp: occupied_by_def split: option.splits)
  with s show "position (occupied_by a) es = Some i"
    by (simp add: position_Some_iff occupied_by_def)
qed (use find_addr in blast)

lemma sender_for_addr_iff:
  assumes "host_inv h"
  shows "sender_for_addr h a = Some sid \<longleftrightarrow> client_addr h sid = Some a"
proof -
  have "slots_inv (slots h)" "length (slots h) = MAX_CLIENTS"
    using assms by (simp_all add: host_inv_def slots_inv_def)
  then show ?thesis
    by (auto simp: sender_for_addr_def client_addr_iff position_addr_iff)
qed

lemma client_addrs_iff:
  assumes "host_inv h"
  shows "(sid, a) \<in> set (client_addrs h) \<longleftrightarrow> client_addr h sid = Some a"
proof -
  have "length (slots h) = MAX_CLIENTS" using assms by (simp add: host_inv_def slots_inv_def)
  then show ?thesis
    by (force simp: client_addrs_def client_addr_iff in_map_filter in_set_enumerate_eq Bex_def)
qed

lemma occupied_iff_addr:
  assumes "host_inv h"
  shows "sid \<in> occupied h \<longleftrightarrow> client_addr h sid \<noteq> None"
proof -
  have "length (slots h) = MAX_CLIENTS" using assms by (simp add: host_inv_def slots_inv_def)
  then show ?thesis by (auto simp: in_occupied client_addr_iff)
qed

text \<open>C11: addresses and sender ids stay in bijection. At any time the address lookup, the id
  lookup and the list of client addresses describe one relation, which gives every connected
  id one address and every address at most one id, among 1 to 4.\<close>

theorem host_address_bijection:
  assumes "utf8_valid nm" and "\<forall>e \<in> set es. ok_event e"
  shows "(let h = host_after code sid params nm es in
     (sender_for_addr h a = Some i \<longleftrightarrow> client_addr h i = Some a)
     \<and> ((i, a) \<in> set (client_addrs h) \<longleftrightarrow> client_addr h i = Some a)
     \<and> (client_addr h i = Some a \<and> client_addr h j = Some a \<longrightarrow> i = j)
     \<and> (client_addr h i \<noteq> None \<longleftrightarrow> i \<in> occupied h)
     \<and> (i \<in> occupied h \<longrightarrow> 1 \<le> i \<and> i \<le> 4))"
proof -
  let ?h = "host_after code sid params nm es"
  have inv: "host_inv ?h" using assms by (rule host_after_inv)
  have "1 \<le> i \<and> i \<le> 4" if "i \<in> occupied ?h"
    using that inv sender_id_range by (auto simp: in_occupied host_inv_def slots_inv_def)
  with sender_for_addr_iff [OF inv] client_addrs_iff [OF inv] occupied_iff_addr [OF inv]
  show ?thesis unfolding Let_def by (metis option.inject)
qed

theorem host_address_bijection_witness:
  "sender_for_addr (host_after [1, 2, 3, 4, 5, 6] 7 default_params [72] ex_events) (V4 11 5000) = Some 2"
proof -
  have "client_addr (host_after [1, 2, 3, 4, 5, 6] 7 default_params [72] ex_events) 2 = Some (V4 11 5000)"
    by code_simp
  then show ?thesis
    using host_address_bijection [OF ex_name_ok ex_events_ok, where i = 2 and a = "V4 11 5000"]
    unfolding Let_def by blast
qed

section \<open>What a HELLO gets\<close>

lemma all_occupied:
  assumes "length (slots h) = MAX_CLIENTS"
  shows "position (\<lambda>e. e = None) (slots h) = None \<longleftrightarrow> (\<forall>i < MAX_CLIENTS. sender_id_of i \<in> occupied h)"
proof
  assume "position (\<lambda>e. e = None) (slots h) = None"
  then have "slots h ! i \<noteq> None" if "i < MAX_CLIENTS" for i
    using that assms nth_mem [of i "slots h"] by (auto simp: position_None_iff)
  then show "\<forall>i < MAX_CLIENTS. sender_id_of i \<in> occupied h" using assms by (auto simp: in_occupied)
next
  assume a: "\<forall>i < MAX_CLIENTS. sender_id_of i \<in> occupied h"
  have "slots h ! i \<noteq> None" if "i < MAX_CLIENTS" for i
    using a that sender_id_free [OF assms that] by blast
  then show "position (\<lambda>e. e = None) (slots h) = None"
    using assms by (auto simp: position_None_iff in_set_conv_nth)
qed

definition hello_ok :: "control \<Rightarrow> host_handshake \<Rightarrow> bool" where
  "hello_ok c h = (case c of Hello pv code _ _ _ \<Rightarrow> pv = PROTOCOL_VERSION \<and> code = h_room_code h
     | _ \<Rightarrow> False)"

text \<open>The three ways a well-formed HELLO of the right version and room code ends.\<close>

lemma hello_again:
  assumes inv: "host_inv h" and "hello_ok c h" and known: "sender_for_addr h a = Some sid"
  shows "occupied (fst (on_hello a c t h)) = occupied h
    \<and> sender_for_addr (fst (on_hello a c t h)) a = Some sid
    \<and> (\<exists>i. sid = sender_id_of i \<and> snd (on_hello a c t h) = [HSend a (welcome_for (fst (on_hello a c t h)) i)])"
proof -
  obtain pv code nm cm fm where c: "c = Hello pv code nm cm fm" "pv = PROTOCOL_VERSION"
    "code = h_room_code h"
    using assms(2) by (cases c) (auto simp: hello_ok_def)
  from inv have len: "length (slots h) = MAX_CLIENTS" by (simp add: host_inv_def slots_inv_def)
  from known obtain i where i: "position (occupied_by a) (slots h) = Some i" "sid = sender_id_of i"
    by (auto simp: sender_for_addr_def)
  then obtain s where s: "i < MAX_CLIENTS" "slots h ! i = Some s" "sl_addr s = a"
    using find_addr len by fastforce
  let ?s = "s\<lparr>sl_name := nm, sl_last_heard := t, sl_state := Pending None t 1\<rparr>"
  let ?h = "h\<lparr>slots := (slots h)[i := Some ?s]\<rparr>"
  have res: "on_hello a c t h = (?h, [HSend a (welcome_for ?h i)])"
    using i(1) s by (simp add: on_hello_def c Let_def)
  have "occupied_by a (slots ?h ! j) = occupied_by a (slots h ! j)" if "j < MAX_CLIENTS" for j
    using s that len by (cases "j = i") (simp_all add: occupied_by_def)
  with i(1) s have "position (occupied_by a) (slots ?h) = Some i"
    unfolding position_Some_iff by (simp add: len) (simp add: occupied_by_def)
  moreover have "sender_id_of i \<in> occupied h" using s by (auto simp: in_occupied len)
  ultimately show ?thesis
    using i(2) s len by (auto simp: res sender_for_addr_def occupied_update)
qed

lemma hello_full:
  assumes inv: "host_inv h" and "hello_ok c h" and "sender_for_addr h a = None"
    and "\<forall>i < MAX_CLIENTS. sender_id_of i \<in> occupied h"
  shows "on_hello a c t h = (h, [HSend a (Deny RoomFull)])"
proof -
  from inv have "length (slots h) = MAX_CLIENTS" by (simp add: host_inv_def slots_inv_def)
  with assms show ?thesis
    by (cases c) (auto simp: hello_ok_def on_hello_def all_occupied [symmetric] sender_for_addr_def)
qed

lemma hello_new:
  assumes inv: "host_inv h" and "hello_ok c h" and new: "sender_for_addr h a = None"
    and free: "\<exists>i < MAX_CLIENTS. sender_id_of i \<notin> occupied h"
  obtains i where "i < MAX_CLIENTS" "sender_id_of i \<notin> occupied h"
    "\<forall>j < i. sender_id_of j \<in> occupied h"
    "occupied (fst (on_hello a c t h)) = insert (sender_id_of i) (occupied h)"
    "client_addr (fst (on_hello a c t h)) (sender_id_of i) = Some a"
    "snd (on_hello a c t h) = [HSend a (welcome_for (fst (on_hello a c t h)) i),
       ClientJoined (sender_id_of i) (name c)] @ broadcast_roster (fst (on_hello a c t h)) (Some a)"
proof -
  obtain pv code nm cm fm where c: "c = Hello pv code nm cm fm" "pv = PROTOCOL_VERSION"
    "code = h_room_code h"
    using assms(2) by (cases c) (auto simp: hello_ok_def)
  from inv have len: "length (slots h) = MAX_CLIENTS" by (simp add: host_inv_def slots_inv_def)
  from new have no: "position (occupied_by a) (slots h) = None" by (simp add: sender_for_addr_def)
  from free obtain i where pos: "position (\<lambda>e. e = None) (slots h) = Some i"
    using all_occupied [OF len] by fastforce
  then have i: "i < MAX_CLIENTS" "slots h ! i = None" "\<forall>j < i. slots h ! j \<noteq> None"
    using len by (simp_all add: position_Some_iff)
  let ?s = "\<lparr>sl_addr = a, sl_name = nm, sl_state = Pending None t 1, sl_last_heard = t\<rparr>"
  let ?h = "h\<lparr>slots := (slots h)[i := Some ?s]\<rparr>"
  have res: "on_hello a c t h = (?h, [HSend a (welcome_for ?h i), ClientJoined (sender_id_of i) nm]
      @ broadcast_roster ?h (Some a))"
    using no pos by (simp add: on_hello_def c Let_def)
  have nm: "name c = nm" by (simp add: c)
  show thesis
  proof (rule that [OF i(1) sender_id_free [OF len i(1,2)]])
    show "\<forall>j < i. sender_id_of j \<in> occupied h"
      using i len unfolding in_occupied by (metis less_trans)
    show "client_addr (fst (on_hello a c t h)) (sender_id_of i) = Some a"
      using i len by (auto simp: res client_addr_iff intro!: exI [of _ i])
  qed (simp_all only: res fst_conv snd_conv occupied_update [OF len i(1)] nm)
qed

text \<open>The join in terms of the address, where the room has a free id and where it has none.\<close>

lemma hello_joins:
  assumes inv: "host_inv h" and ok: "hello_ok c h" and valid: "control_valid c" and new: "sender_for_addr h a = None"
    and step: "on_hello a c t h = (h', as)"
  shows "if \<forall>i < MAX_CLIENTS. sender_id_of i \<in> occupied h then h' = h \<and> as = [HSend a (Deny RoomFull)]
    else (\<exists>i < MAX_CLIENTS. sender_id_of i \<notin> occupied h \<and> (\<forall>j < i. sender_id_of j \<in> occupied h)
      \<and> occupied h' = insert (sender_id_of i) (occupied h) \<and> sender_for_addr h' a = Some (sender_id_of i)
      \<and> as = [HSend a (welcome_for h' i), ClientJoined (sender_id_of i) (name c)] @ broadcast_roster h' (Some a))"
proof (cases "\<forall>i < MAX_CLIENTS. sender_id_of i \<in> occupied h")
  case True
  from hello_full [OF inv ok new True, of t] step True show ?thesis by simp
next
  case False
  have res: "fst (on_hello a c t h) = h'" "snd (on_hello a c t h) = as" using step by simp_all
  have "host_inv h'" using host_step_inv [OF _ inv, of "EHello a c t"] step valid by simp
  note addr = sender_for_addr_iff [OF this]
  show ?thesis unfolding if_not_P [OF False] addr
    by (rule hello_new [OF inv ok new, of t, unfolded res]) (use False in blast)+
qed

text \<open>C19: what a HELLO gets, in every reachable state. The wrong version or room code gets the
  matching DENY and changes nothing. Otherwise an address that already has an id keeps it,
  gets one WELCOME for it and no second join is reported, so retries are idempotent; a new
  address gets DENY(RoomFull) and nothing changes if and only if all four ids are taken, and
  else the smallest free id, a WELCOME for it, a report of the join, and a roster to the
  others.\<close>

theorem hello_answers:
  assumes "utf8_valid nm" and "\<forall>e \<in> set es. ok_event e"
    and "h = host_after rc sn params nm es" and "c = Hello pv code n cm fm"
    and "on_hello a c t h = (h', as)" and "control_valid c"
  shows "(pv \<noteq> PROTOCOL_VERSION \<longrightarrow> h' = h \<and> as = [HSend a (Deny VersionMismatch)])
    \<and> (pv = PROTOCOL_VERSION \<and> code \<noteq> h_room_code h \<longrightarrow> h' = h \<and> as = [HSend a (Deny BadRoomCode)])
    \<and> (pv = PROTOCOL_VERSION \<and> code = h_room_code h \<longrightarrow>
        (case sender_for_addr h a of
           Some sid \<Rightarrow> occupied h' = occupied h \<and> sender_for_addr h' a = Some sid
             \<and> (\<exists>i. sid = sender_id_of i \<and> as = [HSend a (welcome_for h' i)])
         | None \<Rightarrow>
             if \<forall>i < MAX_CLIENTS. sender_id_of i \<in> occupied h
             then h' = h \<and> as = [HSend a (Deny RoomFull)]
             else (\<exists>i < MAX_CLIENTS. sender_id_of i \<notin> occupied h
               \<and> (\<forall>j < i. sender_id_of j \<in> occupied h)
               \<and> occupied h' = insert (sender_id_of i) (occupied h)
               \<and> sender_for_addr h' a = Some (sender_id_of i)
               \<and> as = [HSend a (welcome_for h' i), ClientJoined (sender_id_of i) n]
                    @ broadcast_roster h' (Some a))))"
proof -
  have inv: "host_inv h" unfolding assms(3) using assms(1,2) by (rule host_after_inv)
  show ?thesis
  proof (cases "pv = PROTOCOL_VERSION \<and> code = h_room_code h")
    case False
    with assms(5) show ?thesis by (auto simp: on_hello_def assms(4))
  next
    case True
    then have ok: "hello_ok c h" by (simp add: hello_ok_def assms(4))
    show ?thesis
    proof (cases "sender_for_addr h a")
      case (Some sid)
      with True hello_again [OF inv ok Some, of t] assms(5) show ?thesis by simp
    next
      case None
      have "name c = n" by (simp add: assms(4))
      with True None hello_joins [OF inv ok assms(6) None assms(5)] show ?thesis by (simp only: option.case simp_thms)
    qed
  qed
qed

theorem hello_answers_witness:
  "snd (on_hello (V4 12 5000) (Hello 2 [] [] 0 0) 3
      (host_after [1, 2, 3, 4, 5, 6] 7 default_params [72] ex_events)) = [HSend (V4 12 5000) (Deny VersionMismatch)]
   \<and> occupied (fst (on_hello (V4 11 5000) (Hello 1 [1, 2, 3, 4, 5, 6] [65] 7 3) 200
      (host_after [1, 2, 3, 4, 5, 6] 7 default_params [72] ex_events)))
     = occupied (host_after [1, 2, 3, 4, 5, 6] 7 default_params [72] ex_events)"
proof -
  let ?h = "host_after [1, 2, 3, 4, 5, 6] 7 default_params [72] ex_events"
  have known: "sender_for_addr ?h (V4 11 5000) = Some 2" and code: "h_room_code ?h = [1, 2, 3, 4, 5, 6]"
    by code_simp+
  have valid: "control_valid (Hello 1 [1, 2, 3, 4, 5, 6] [65] 7 3)"
    by (simp add: ROOM_CODE_LEN_def string_valid_def utf8_width_def MAX_NAME_LEN_def)
  have "occupied (fst (on_hello (V4 11 5000) (Hello 1 [1, 2, 3, 4, 5, 6] [65] 7 3) 200 ?h)) = occupied ?h"
    using hello_answers [OF ex_name_ok ex_events_ok refl refl surjective_pairing valid,
        where rc = "[1, 2, 3, 4, 5, 6]" and sn = 7 and params = default_params
          and a = "V4 11 5000" and t = 200]
    by (simp add: known code PROTOCOL_VERSION_def)
  moreover have "snd (on_hello (V4 12 5000) (Hello 2 [] [] 0 0) 3 ?h) = [HSend (V4 12 5000) (Deny VersionMismatch)]"
    by (simp add: on_hello_def PROTOCOL_VERSION_def)
  ultimately show ?thesis by simp
qed

section \<open>Clock ticks\<close>

lemma slots_tick: "slots (fst (host_tick now h)) = fst (tick_loop now 0 (slots h))"
  by (simp add: host_tick_def case_prod_unfold Let_def)

lemma tick_loop_nth:
  "i < length es \<Longrightarrow> fst (tick_loop now k es) ! i = fst (tick_entry now (k + i) (es ! i))"
proof (induction es arbitrary: i k)
  case (Cons e es)
  then show ?case by (cases i) (auto simp: case_prod_unfold)
qed simp

lemma tick_loop_leaves:
  "a \<in> set (fst (snd (tick_loop now k es))) \<longleftrightarrow>
   (\<exists>i < length es. a \<in> set (fst (snd (tick_entry now (k + i) (es ! i)))))"
proof (induction es arbitrary: k)
  case (Cons e es)
  show ?case unfolding length_Cons Ex_less_Suc2 by (simp add: case_prod_unfold Cons.IH)
qed simp

lemma tick_loop_resends:
  "j \<in> set (fst (snd (snd (tick_loop now k es)))) \<longleftrightarrow>
   (\<exists>i < length es. j \<in> set (fst (snd (snd (tick_entry now (k + i) (es ! i))))))"
proof (induction es arbitrary: k)
  case (Cons e es)
  show ?case unfolding length_Cons Ex_less_Suc2 by (simp add: case_prod_unfold Cons.IH)
qed simp

lemma silent_nat: "PEER_TIMEOUT_MS < saturating_sub now t \<longleftrightarrow> unat t + 5000 < unat now"
  by (simp add: PEER_TIMEOUT_MS_def word_less_nat_alt) arith

lemma retry_nat: "CONTROL_RETRY_MS \<le> saturating_sub now t \<longleftrightarrow> unat t + 100 \<le> unat now"
  by (simp add: CONTROL_RETRY_MS_def word_le_nat_alt) arith

text \<open>The clock readings at which a slot dies, and what a live slot does.\<close>

definition gives_up :: "u64 \<Rightarrow> slot \<Rightarrow> bool" where
  "gives_up now s \<longleftrightarrow> (case sl_state s of
     Pending _ t n \<Rightarrow> unat t + 100 \<le> unat now \<and> CONTROL_MAX_TRIES \<le> n | Active \<Rightarrow> False)"

lemma tick_slot:
  assumes "host_inv h" and "i < MAX_CLIENTS" and "slots h ! i = Some s"
  shows "slots (fst (host_tick now h)) ! i =
      (if unat (sl_last_heard s) + 5000 < unat now \<or> gives_up now s then None
       else Some (case sl_state s of
           Pending ws t n \<Rightarrow> if unat t + 100 \<le> unat now then s\<lparr>sl_state := Pending ws now (n + 1)\<rparr> else s
         | Active \<Rightarrow> s))"
  using assms tick_loop_nth [of i "slots h" now 0]
  by (auto simp: slots_tick host_inv_def slots_inv_def tick_entry_def silent_nat retry_nat
      gives_up_def split: slot_state.split)

definition retry_due_at :: "u64 \<Rightarrow> slot \<Rightarrow> bool" where
  "retry_due_at now s \<longleftrightarrow> (case sl_state s of Pending _ t _ \<Rightarrow> unat t + 100 \<le> unat now | Active \<Rightarrow> False)"

lemma tick_entry_resends:
  "j \<in> set (fst (snd (snd (tick_entry now i e)))) \<longleftrightarrow> j = i \<and> (\<exists>s. e = Some s
     \<and> \<not> unat (sl_last_heard s) + 5000 < unat now \<and> retry_due_at now s \<and> \<not> gives_up now s)"
  by (auto simp: tick_entry_def silent_nat retry_nat retry_due_at_def gives_up_def
      split: option.split slot_state.split)

lemma tick_entry_leaves:
  "a \<in> set (fst (snd (tick_entry now i e))) \<longleftrightarrow> (\<exists>s. e = Some s
     \<and> (if unat (sl_last_heard s) + 5000 < unat now then a = ClientLeft (sender_id_of i) LeaveTimeout
        else gives_up now s \<and> a = ClientLeft (sender_id_of i) WelcomeUnacked))"
proof (cases e)
  case (Some s)
  then show ?thesis
    by (cases "sl_state s") (simp_all add: tick_entry_def silent_nat retry_nat gives_up_def)
qed (simp add: tick_entry_def)

text \<open>The actions of a tick: leaves, then WELCOMEs, then the new roster.\<close>

definition tick_welcomes :: "u64 \<Rightarrow> host_handshake \<Rightarrow> host_action list" where
  "tick_welcomes now h =
     List.map_filter (\<lambda>slot. map_option (\<lambda>s. HSend (sl_addr s) (welcome_for (fst (host_tick now h)) slot))
         (slots (fst (host_tick now h)) ! slot))
       (fst (snd (snd (tick_loop now 0 (slots h)))))"

lemma snd_host_tick:
  "snd (host_tick now h) = fst (snd (tick_loop now 0 (slots h))) @ tick_welcomes now h
     @ (if snd (snd (snd (tick_loop now 0 (slots h)))) then broadcast_roster (fst (host_tick now h)) None
        else [])"
  by (simp add: tick_welcomes_def host_tick_def case_prod_unfold Let_def)

lemma in_tick_welcomes:
  assumes "length (slots h) = MAX_CLIENTS"
  shows "a \<in> set (tick_welcomes now h) \<longleftrightarrow> (\<exists>j s v. j < MAX_CLIENTS \<and> slots h ! j = Some s
     \<and> \<not> unat (sl_last_heard s) + 5000 < unat now \<and> retry_due_at now s \<and> \<not> gives_up now s
     \<and> slots (fst (host_tick now h)) ! j = Some v
     \<and> a = HSend (sl_addr v) (welcome_for (fst (host_tick now h)) j))"
  unfolding tick_welcomes_def in_map_filter Bex_def tick_loop_resends tick_entry_resends assms
    add_0 map_option_eq_Some
  by blast

lemma in_host_tick:
  "a \<in> set (snd (host_tick now h)) \<Longrightarrow> a \<in> set (fst (snd (tick_loop now 0 (slots h))))
     \<or> a \<in> set (tick_welcomes now h) \<or> (\<exists>to. a = HSend to (Roster (host_roster (fst (host_tick now h)))))"
  unfolding snd_host_tick by (auto dest: broadcast_sends split: if_splits)

lemma host_tick_leaves:
  assumes "host_inv h"
  shows "ClientLeft sid r \<in> set (snd (host_tick now h)) \<longleftrightarrow>
    (\<exists>i s. i < MAX_CLIENTS \<and> sid = sender_id_of i \<and> slots h ! i = Some s
      \<and> (if unat (sl_last_heard s) + 5000 < unat now then r = LeaveTimeout
         else gives_up now s \<and> r = WelcomeUnacked))"
proof -
  have len: "length (slots h) = MAX_CLIENTS" using assms by (simp add: host_inv_def slots_inv_def)
  have "ClientLeft sid r \<notin> set (tick_welcomes now h)" by (simp add: in_tick_welcomes [OF len])
  then have "ClientLeft sid r \<in> set (snd (host_tick now h)) \<longleftrightarrow>
      ClientLeft sid r \<in> set (fst (snd (tick_loop now 0 (slots h))))"
    using in_host_tick [of "ClientLeft sid r" now h] by (auto simp: snd_host_tick)
  then show ?thesis
    unfolding tick_loop_leaves tick_entry_leaves len add_0 by (auto split: if_splits)
qed

lemma host_tick_leaves_at:
  assumes "host_inv h" and i: "i < MAX_CLIENTS" "slots h ! i = Some s"
  shows "ClientLeft (sender_id_of i) r \<in> set (snd (host_tick now h)) \<longleftrightarrow>
    (if unat (sl_last_heard s) + 5000 < unat now then r = LeaveTimeout
     else gives_up now s \<and> r = WelcomeUnacked)" (is "_ \<longleftrightarrow> ?P s")
proof -
  have "(\<exists>j u. j < MAX_CLIENTS \<and> sender_id_of i = sender_id_of j \<and> slots h ! j = Some u \<and> ?P u) \<longleftrightarrow> ?P s"
  proof
    assume "\<exists>j u. j < MAX_CLIENTS \<and> sender_id_of i = sender_id_of j \<and> slots h ! j = Some u \<and> ?P u"
    then obtain j u where j: "j < MAX_CLIENTS" "sender_id_of i = sender_id_of j"
      "slots h ! j = Some u" "?P u" by blast
    then have "j = i" using sender_id_inj [of i j] i by simp
    with j i show "?P s" by simp
  qed (use i in blast)
  then show ?thesis unfolding host_tick_leaves [OF assms(1)] .
qed

lemma host_tick_welcomes:
  assumes inv: "host_inv h" and i: "i < MAX_CLIENTS" "slots h ! i = Some s"
  shows "HSend (sl_addr s) (welcome_for (fst (host_tick now h)) i) \<in> set (snd (host_tick now h)) \<longleftrightarrow>
    \<not> unat (sl_last_heard s) + 5000 < unat now \<and> retry_due_at now s \<and> \<not> gives_up now s"
    (is "?w \<in> _ \<longleftrightarrow> ?due")
proof
  have len: "length (slots h) = MAX_CLIENTS" using inv by (simp add: host_inv_def slots_inv_def)
  assume "?w \<in> set (snd (host_tick now h))"
  from in_host_tick [OF this] have "?w \<in> set (tick_welcomes now h)"
    by (auto simp: tick_loop_sends welcome_for_def)
  then obtain j u where j: "j < MAX_CLIENTS" "slots h ! j = Some u"
    "\<not> unat (sl_last_heard u) + 5000 < unat now" "retry_due_at now u" "\<not> gives_up now u"
    "welcome_for (fst (host_tick now h)) i = welcome_for (fst (host_tick now h)) j"
    by (auto simp: in_tick_welcomes [OF len])
  then have "j = i" using sender_id_inj [of i j] i by (simp add: welcome_for_def)
  with j i show ?due by simp
next
  assume due: ?due
  have len: "length (slots h) = MAX_CLIENTS" using inv by (simp add: host_inv_def slots_inv_def)
  from due obtain v where "slots (fst (host_tick now h)) ! i = Some v" "sl_addr v = sl_addr s"
    by (auto simp: tick_slot [OF inv i] retry_due_at_def split: slot_state.splits)
  with due i have "?w \<in> set (tick_welcomes now h)"
    unfolding in_tick_welcomes [OF len] by auto
  then show "?w \<in> set (snd (host_tick now h))" by (simp add: snd_host_tick)
qed

text \<open>What a clock tick does to a connected client, in every reachable state. It drops the
  client exactly when nothing was heard from it for more than 5000 ms or its WELCOME is
  unacknowledged after ten tries, and reports that reason; it repeats the WELCOME exactly when
  the client stays, has not acknowledged it, and 100 ms have passed since the last one.\<close>

theorem tick_drops_and_retries:
  assumes "utf8_valid nm" and "\<forall>e \<in> set es. ok_event e"
    and "h = host_after rc sn params nm es" and "i < MAX_CLIENTS" and "slots h ! i = Some s"
    and "host_tick now h = (h', as)"
  shows "client_addr h' (sender_id_of i) =
        (if unat (sl_last_heard s) + 5000 < unat now \<or> gives_up now s then None else Some (sl_addr s))
    \<and> (ClientLeft (sender_id_of i) LeaveTimeout \<in> set as \<longleftrightarrow> unat (sl_last_heard s) + 5000 < unat now)
    \<and> (ClientLeft (sender_id_of i) WelcomeUnacked \<in> set as \<longleftrightarrow>
         \<not> unat (sl_last_heard s) + 5000 < unat now \<and> gives_up now s)
    \<and> (HSend (sl_addr s) (welcome_for h' i) \<in> set as \<longleftrightarrow>
         \<not> unat (sl_last_heard s) + 5000 < unat now \<and> retry_due_at now s \<and> \<not> gives_up now s)"
proof -
  have inv: "host_inv h" unfolding assms(3) using assms(1,2) by (rule host_after_inv)
  have res: "fst (host_tick now h) = h'" "snd (host_tick now h) = as" using assms(6) by simp_all
  have "slot_of_sender (sender_id_of i) = Some i" using assms(4) by (simp add: slot_of_sender_iff)
  then have "client_addr h' (sender_id_of i) =
      (if unat (sl_last_heard s) + 5000 < unat now \<or> gives_up now s then None else Some (sl_addr s))"
    using tick_slot [OF inv assms(4,5), of now]
    by (auto simp: client_addr_def res split: slot_state.split)
  with host_tick_leaves_at [OF inv assms(4,5), of _ now] host_tick_welcomes [OF inv assms(4,5), of now]
  show ?thesis by (simp add: res)
qed

theorem tick_drops_and_retries_witness:
  "HSend (V4 11 5000) (welcome_for (fst (host_tick 300 (host_after [1, 2, 3, 4, 5, 6] 7 default_params [72] ex_events))) 1)
     \<in> set (snd (host_tick 300 (host_after [1, 2, 3, 4, 5, 6] 7 default_params [72] ex_events)))"
proof -
  let ?s = "\<lparr>sl_addr = V4 11 5000, sl_name = [66], sl_state = Pending None 150 2, sl_last_heard = 5\<rparr>"
  have s: "slots (host_after [1, 2, 3, 4, 5, 6] 7 default_params [72] ex_events) ! 1 = Some ?s"
    by code_simp
  show ?thesis
    using tick_drops_and_retries [OF ex_name_ok ex_events_ok refl _ s surjective_pairing, of 300]
    by (simp add: MAX_CLIENTS_def retry_due_at_def gives_up_def CONTROL_MAX_TRIES_def)
qed

lemma ticks_retry:
  "\<lbrakk>host_inv h; i < MAX_CLIENTS; slots h ! i = Some s; sl_state s = Pending ws t n;
    unat n + length ts = 10; spaced t ts; \<forall>u \<in> set ts. unat u \<le> unat (sl_last_heard s) + 5000\<rbrakk> \<Longrightarrow>
   slots (fst (run host_step (map ETick ts) h)) ! i = Some (s\<lparr>sl_state := Pending ws (last (t # ts)) 10\<rparr>)"
proof (induction ts arbitrary: h s t n)
  case Nil
  then have "n = 10" by (intro word_unat_eq_iff [THEN iffD2]) simp
  with Nil show ?case by (cases s) simp
next
  case (Cons u us)
  let ?h = "fst (host_tick u h)" and ?s = "s\<lparr>sl_state := Pending ws u (n + 1)\<rparr>"
  have inv: "host_inv ?h" using host.step_inv [of "ETick u" h] Cons.prems(1) by (simp add: ok_event_def)
  have "slots ?h ! i = Some ?s"
    using Cons.prems tick_slot [OF Cons.prems(1-3), of u]
    by (simp add: gives_up_def tries_nat)
  with Cons.prems inv
  have "slots (fst (run host_step (map ETick us) ?h)) ! i = Some (?s\<lparr>sl_state := Pending ws (last (u # us)) 10\<rparr>)"
    by (intro Cons.IH [of _ _ _ "n + 1"]) (simp_all add: tries_nat)
  then show ?case by (simp add: case_prod_unfold)
qed

text \<open>A client that goes silent right after its HELLO does not hold its slot: ten clock ticks
  at least 100 ms apart (within the 5000 ms after which silence alone would do it) end in its
  removal, reported as an unacknowledged WELCOME.\<close>

theorem unacked_client_is_dropped:
  assumes "utf8_valid nm" and "\<forall>e \<in> set es. ok_event e"
    and "h = host_after rc sn params nm es" and "i < MAX_CLIENTS" and "slots h ! i = Some s"
    and "sl_state s = Pending ws t 1"
    and "length ts = 9" and "spaced t (ts @ [u])"
    and "\<forall>v \<in> set (ts @ [u]). unat v \<le> unat (sl_last_heard s) + 5000"
  shows "client_addr (fst (run host_step (map ETick (ts @ [u])) h)) (sender_id_of i) = None
    \<and> ClientLeft (sender_id_of i) WelcomeUnacked \<in> set (snd (run host_step (map ETick (ts @ [u])) h))"
proof -
  have inv: "host_inv h" unfolding assms(3) using assms(1,2) by (rule host_after_inv)
  let ?h = "fst (run host_step (map ETick ts) h)"
  let ?s = "s\<lparr>sl_state := Pending ws (last (t # ts)) 10\<rparr>"
  have sp: "spaced a (xs @ [b]) \<longleftrightarrow> spaced a xs \<and> unat (last (a # xs)) + 100 \<le> unat b" for a b xs
    by (induction xs arbitrary: a) auto
  have inv': "host_inv ?h" using inv by (intro host.run_inv) (auto simp: ok_event_def)
  have slot: "slots ?h ! i = Some ?s"
    using assms(7-9) sp by (intro ticks_retry [OF inv assms(4-6)]) auto
  have late: "\<not> unat (sl_last_heard ?s) + 5000 < unat u" "gives_up u ?s"
    using assms(8,9) by (simp_all add: gives_up_def CONTROL_MAX_TRIES_def sp)
  have "ClientLeft (sender_id_of i) WelcomeUnacked \<in> set (snd (host_tick u ?h))"
    unfolding host_tick_leaves_at [OF inv' assms(4) slot] using late by simp
  moreover have "slots (fst (host_tick u ?h)) ! i = None"
    unfolding tick_slot [OF inv' assms(4) slot] using late by simp
  then have "client_addr (fst (host_tick u ?h)) (sender_id_of i) = None"
    using assms(4) by (simp add: client_addr_def slot_of_sender_iff [THEN iffD2])
  ultimately show ?thesis by (simp add: run_append case_prod_unfold)
qed

theorem unacked_client_is_dropped_witness:
  "client_addr (fst (run host_step (map ETick ([100, 200, 300, 400, 500, 600, 700, 800, 900] @ [1000]))
     (host_after [1, 2, 3, 4, 5, 6] 7 default_params [72] (take 1 ex_events)))) (sender_id_of 0) = None"
proof -
  let ?s = "\<lparr>sl_addr = V4 10 5000, sl_name = [65], sl_state = Pending None 0 1, sl_last_heard = 0\<rparr>"
  have s: "slots (host_after [1, 2, 3, 4, 5, 6] 7 default_params [72] (take 1 ex_events)) ! 0 = Some ?s"
    by code_simp
  have ok: "\<forall>e \<in> set (take 1 ex_events). ok_event e"
    using ex_events_ok by (auto dest: in_set_takeD)
  show ?thesis
    using unacked_client_is_dropped [OF ex_name_ok ok refl _ s,
        of None 0 "[100, 200, 300, 400, 500, 600, 700, 800, 900]" 1000]
    by (simp add: MAX_CLIENTS_def)
qed

section \<open>An acknowledged client is left in peace\<close>

definition settled :: "socket_addr \<Rightarrow> host_handshake \<Rightarrow> bool" where
  "settled a h \<longleftrightarrow> host_inv h
     \<and> (\<forall>s. Some s \<in> set (slots h) \<and> sl_addr s = a \<longrightarrow> sl_state s = Active)"

definition no_hello_from :: "socket_addr \<Rightarrow> host_event \<Rightarrow> bool" where
  "no_hello_from a e \<longleftrightarrow> ok_event e \<and> (\<forall>c t. e \<noteq> EHello a c t)"

definition not_welcoming :: "socket_addr \<Rightarrow> host_action \<Rightarrow> bool" where
  "not_welcoming a act \<longleftrightarrow> (\<forall>i s r f c p. act \<noteq> HSend a (Welcome i s r f c p))"

text \<open>Entries that may only be freed, or keep address and activity.\<close>

definition calm :: "slot option \<Rightarrow> slot option \<Rightarrow> bool" where
  "calm e' e \<longleftrightarrow> (\<forall>s'. e' = Some s' \<longrightarrow> (\<exists>s. e = Some s \<and> sl_addr s' = sl_addr s
     \<and> (sl_state s = Active \<longrightarrow> sl_state s' = Active)))"

lemma calm_refl [simp]: "calm e e"
  by (simp add: calm_def)

lemma calm_None [simp]: "calm None e"
  by (simp add: calm_def)

lemma calm_settled:
  assumes "list_all2 calm es' (slots h)" and "settled a h"
  shows "Some s' \<in> set es' \<Longrightarrow> sl_addr s' = a \<Longrightarrow> sl_state s' = Active"
proof -
  assume "Some s' \<in> set es'" and a: "sl_addr s' = a"
  then obtain i where i: "i < length (slots h)" "es' ! i = Some s'"
    using list_all2_lengthD [OF assms(1)] by (auto simp: in_set_conv_nth)
  then have "calm (Some s') (slots h ! i)" using assms(1) by (metis list_all2_conv_all_nth)
  then obtain s where "slots h ! i = Some s" "sl_addr s' = sl_addr s"
    "sl_state s = Active \<longrightarrow> sl_state s' = Active" by (auto simp: calm_def)
  with assms(2) a i(1) show ?thesis by (metis nth_mem settled_def)
qed

lemma calm_map:
  "(\<And>s. sl_addr (f s) = sl_addr s \<and> (sl_state s = Active \<longrightarrow> sl_state (f s) = Active)) \<Longrightarrow>
   list_all2 calm (map (map_option f) es) es"
  by (auto simp: list_all2_conv_all_nth calm_def)

lemma calm_tick: "list_all2 calm (fst (tick_loop now i es)) es"
proof (induction es arbitrary: i)
  case (Cons e es)
  have "calm (fst (tick_entry now i e)) e"
    by (auto simp: tick_entry_def calm_def split: option.split slot_state.split)
  with Cons show ?case by (simp add: case_prod_unfold)
qed simp

lemma calm_remove: "list_all2 calm (fst (remove_loop p rs i es)) es"
  by (induction es arbitrary: i) (auto simp: case_prod_unfold)

lemma calm_step:
  "\<lbrakk>\<And>a c t. e \<noteq> EHello a c t\<rbrakk> \<Longrightarrow> list_all2 calm (slots (fst (host_step e h))) (slots h)"
proof (cases e)
  case (EWelcomeSent to sq)
  show ?thesis
    by (simp add: EWelcomeSent welcome_sent_def, rule calm_map) (auto split: slot_state.split)
next
  case (EAck a sq t)
  show ?thesis
    by (simp add: EAck on_ack_def, rule calm_map) (auto simp: Let_def split: slot_state.split option.split)
next
  case (EHeard sid t)
  have "calm e' (xs ! i) \<Longrightarrow> list_all2 calm (xs[i := e']) xs" for e' i xs
    unfolding list_all2_conv_all_nth
  proof (intro conjI allI impI)
    fix k assume "calm e' (xs ! i)" "k < length (xs[i := e'])"
    then show "calm (xs[i := e'] ! k) (xs ! k)" by (cases "k = i") simp_all
  qed simp
  then show ?thesis
    by (auto simp: EHeard mark_heard_def Let_def calm_def list_all2_refl split: option.split slot_state.split)
next
  case (EBye a)
  show ?thesis by (simp add: EBye on_bye_def remove_where_def case_prod_unfold Let_def calm_remove)
next
  case (ETick t)
  show ?thesis by (simp add: ETick slots_tick calm_tick)
qed blast

lemma hello_other_settled:
  assumes "settled a h" and "b \<noteq> a" and "Some s \<in> set (slots (fst (on_hello b c t h)))" and "sl_addr s = a"
  shows "sl_state s = Active"
proof -
  have old: "Some s \<in> set (slots h) \<Longrightarrow> sl_state s = Active" using assms(1,4) by (simp add: settled_def)
  have upd: "Some s \<in> set ((slots h)[i := Some u]) \<Longrightarrow> sl_addr u = b \<Longrightarrow> sl_state s = Active" for i u
    using set_update_subset_insert [of "slots h" i "Some u"] old assms(2,4) by auto
  show ?thesis
  proof (cases c)
    case (Hello pv code nm cm fm)
    show ?thesis
    proof (cases "position (occupied_by b) (slots h)")
      case (Some i)
      then obtain u where "slots h ! i = Some u" "sl_addr u = b" using find_addr by blast
      with assms(3) Some old upd [of i] show ?thesis
        by (auto simp: on_hello_def Hello Let_def split: if_splits)
    next
      case None
      with assms(3) old upd show ?thesis
        by (auto simp: on_hello_def Hello Let_def split: if_splits option.splits)
    qed
  qed (use assms(3) old in \<open>simp_all add: on_hello_def\<close>)
qed

lemma settled_no_welcome:
  assumes "settled a h" and "no_hello_from a e" and act: "act \<in> set (snd (host_step e h))"
  shows "not_welcoming a act"
proof -
  show ?thesis
  proof (cases e)
    case (EHello b c t)
    with assms(2) have "b \<noteq> a" by (simp add: no_hello_from_def)
    with act show ?thesis
      by (auto simp: EHello on_hello_def Let_def not_welcoming_def dest!: broadcast_sends
          split: control.splits option.splits if_splits)
  next
    case (ETick t)
    have len: "length (slots h) = MAX_CLIENTS"
      using assms(1) by (simp add: settled_def host_inv_def slots_inv_def)
    have quiet: "sl_addr v \<noteq> a" if "j < MAX_CLIENTS" "slots h ! j = Some s" "retry_due_at t s"
      "slots (fst (host_tick t h)) ! j = Some v" for j s v
    proof
      assume "sl_addr v = a"
      moreover have "sl_addr v = sl_addr s" using host_tick_le [of t h] that(1,2,4) len
        by (auto simp: list_all2_conv_all_nth entry_le_def)
      moreover have "Some s \<in> set (slots h)" using that(1,2) len by (metis nth_mem)
      ultimately show False using assms(1) that(3) by (auto simp: settled_def retry_due_at_def)
    qed
    from act have "act \<in> set (snd (host_tick t h))" by (simp add: ETick)
    from in_host_tick [OF this] show ?thesis
    proof (elim disjE)
      assume "act \<in> set (fst (snd (tick_loop t 0 (slots h))))"
      then show ?thesis using tick_loop_sends by (auto simp: not_welcoming_def)
    next
      assume "act \<in> set (tick_welcomes t h)"
      then show ?thesis using quiet by (auto simp: in_tick_welcomes [OF len] not_welcoming_def)
    qed (auto simp: not_welcoming_def)
  next
    case (EBye b)
    with act show ?thesis
      by (auto simp: on_bye_def remove_where_def case_prod_unfold Let_def not_welcoming_def
          remove_loop_sends dest!: broadcast_sends split: if_splits)
  qed (use act in \<open>simp_all add: snd_on_ack\<close>)
qed

interpretation quiet: event_machine host_step "no_hello_from a" "settled a" "not_welcoming a"
proof unfold_locales
  fix e h act
  assume ok: "no_hello_from a e" and set: "settled a h"
  have "host_inv (fst (host_step e h))"
    using ok set host.step_inv by (simp add: no_hello_from_def settled_def)
  moreover have "sl_state s = Active" if "Some s \<in> set (slots (fst (host_step e h)))" "sl_addr s = a" for s
  proof (cases "\<exists>b c t. e = EHello b c t")
    case True
    then obtain b c t where e: "e = EHello b c t" by blast
    with ok have "b \<noteq> a" by (simp add: no_hello_from_def)
    with hello_other_settled [OF set] that show ?thesis by (simp add: e)
  next
    case False
    then have "list_all2 calm (slots (fst (host_step e h))) (slots h)" by (intro calm_step) blast
    from calm_settled [OF this set that] show ?thesis .
  qed
  ultimately show "settled a (fst (host_step e h))" by (simp add: settled_def)
  assume "act \<in> set (snd (host_step e h))"
  with settled_no_welcome [OF set ok] show "not_welcoming a act" by blast
qed

text \<open>What makes the session at an address the only one there, and the two acknowledgements that settle it.\<close>

lemma only_session:
  assumes "host_inv h" and "i < MAX_CLIENTS" and "slots h ! i = Some s" and "j < MAX_CLIENTS" and "slots h ! j = Some u"
    and "sl_addr u = sl_addr s"
  shows "j = i \<and> u = s"
proof -
  from assms have "j = i" by (auto simp: host_inv_def slots_inv_def)
  with assms(3,5) show ?thesis by simp
qed

lemma matching_ack_settles:
  assumes inv: "host_inv h" and s: "i < MAX_CLIENTS" "slots h ! i = Some s" "sl_state s = Pending (Some sq) lt n"
    and u: "Some u \<in> set (slots (fst (on_ack (sl_addr s) sq t h)))" "sl_addr u = sl_addr s"
  shows "sl_state u = Active"
proof -
  have len: "length (slots h) = MAX_CLIENTS" using inv by (simp add: host_inv_def slots_inv_def)
  define f :: "slot \<Rightarrow> slot" where "f = (\<lambda>x. if sl_addr x = sl_addr s
     then (let x = x\<lparr>sl_last_heard := t\<rparr> in
        case sl_state x of
          Pending (Some ws) t n \<Rightarrow> if ws = sq then x\<lparr>sl_state := Active\<rparr> else x
        | _ \<Rightarrow> x)
     else x)"
  have f: "sl_addr (f x) = sl_addr x" for x
    by (auto simp: f_def Let_def split: slot_state.split option.split)
  have "slots (fst (on_ack (sl_addr s) sq t h)) = map (map_option f) (slots h)"
    by (simp add: on_ack_def f_def)
  with u(1) have "Some u \<in> map_option f ` set (slots h)" by simp
  then obtain x where "x \<in> set (slots h)" "Some u = map_option f x" by (rule imageE)
  then obtain v where "Some v \<in> set (slots h)" and fv: "u = f v" by - (cases x, simp_all)
  then obtain k where k: "k < MAX_CLIENTS" and v: "slots h ! k = Some v" using len by (auto simp: in_set_conv_nth)
  have "sl_addr v = sl_addr s" using u(2) f [of v] by (simp add: fv)
  then have "v = s" using only_session [OF inv s(1,2) k v] by simp
  with s(3) fv show ?thesis by (simp add: f_def)
qed

lemma packet_settles:
  assumes inv: "host_inv h" and s: "i < MAX_CLIENTS" "slots h ! i = Some s"
    and u: "Some u \<in> set (slots (mark_heard (sender_id_of i) t h))" "sl_addr u = sl_addr s"
  shows "sl_state u = Active"
proof -
  have len: "length (slots h) = MAX_CLIENTS" using inv by (simp add: host_inv_def slots_inv_def)
  have "slot_of_sender (sender_id_of i) = Some i" using s(1) by (simp add: slot_of_sender_iff)
  then obtain s' where s': "slots (mark_heard (sender_id_of i) t h) = (slots h)[i := Some s']" "sl_state s' = Active"
    using s(2) by (cases "sl_state s") (simp_all add: mark_heard_def Let_def)
  with u(1) obtain k where k: "k < MAX_CLIENTS" "(slots h)[i := Some s'] ! k = Some u"
    by (metis in_set_conv_nth len length_list_update)
  then show ?thesis
    using s' only_session [OF inv s k(1) _ u(2)] s(1) len by (cases "k = i") auto
qed

text \<open>Acknowledgement stops the retransmission for good. Once a client has acknowledged its
  WELCOME, by the matching ACK or by any packet under its id, no sequence of events sends it a
  WELCOME again unless a new HELLO comes from its own address, and as long as it is connected
  it stays active.\<close>

theorem acknowledged_client_gets_no_welcome:
  assumes "utf8_valid nm" and "\<forall>e \<in> set es. ok_event e"
    and "h = host_after rc sn params nm es" and "i < MAX_CLIENTS" and "slots h ! i = Some s"
    and "(e = EAck (sl_addr s) sq t \<and> (\<exists>lt n. sl_state s = Pending (Some sq) lt n))
       \<or> e = EHeard (sender_id_of i) t"
    and "\<forall>e \<in> set fs. no_hello_from (sl_addr s) e"
  shows "(\<forall>act \<in> set (snd (run host_step fs (fst (host_step e h)))). not_welcoming (sl_addr s) act)
    \<and> (\<forall>u. Some u \<in> set (slots (fst (run host_step fs (fst (host_step e h))))) \<and> sl_addr u = sl_addr s
         \<longrightarrow> sl_state u = Active)"
proof -
  have inv: "host_inv h" unfolding assms(3) using assms(1,2) by (rule host_after_inv)
  have "settled (sl_addr s) (fst (host_step e h))"
    unfolding settled_def
  proof (intro conjI allI impI)
    show "host_inv (fst (host_step e h))"
      using assms(6) inv by (intro host.step_inv) (auto simp: ok_event_def)
    fix u
    assume "Some u \<in> set (slots (fst (host_step e h))) \<and> sl_addr u = sl_addr s"
    with assms(6) matching_ack_settles [OF inv assms(4,5)] packet_settles [OF inv assms(4,5)] show "sl_state u = Active" by auto
  qed
  then show ?thesis
    using quiet.run_inv [OF assms(7)] quiet.run_out [OF assms(7)] by (auto simp: settled_def)
qed

theorem acknowledged_client_gets_no_welcome_witness:
  "list_all (not_welcoming (V4 10 5000)) (snd (run host_step [ETick 150, EHeard 1 200, ETick 250]
      (fst (host_step (EAck (V4 10 5000) 0 20)
        (host_after [1, 2, 3, 4, 5, 6] 7 default_params [72] (take 3 ex_events))))))"
proof -
  let ?s = "\<lparr>sl_addr = V4 10 5000, sl_name = [65], sl_state = Pending (Some 0) 0 1, sl_last_heard = 0\<rparr>"
  have s: "slots (host_after [1, 2, 3, 4, 5, 6] 7 default_params [72] (take 3 ex_events)) ! 0 = Some ?s"
    by code_simp
  have ok: "\<forall>e \<in> set (take 3 ex_events). ok_event e"
    using ex_events_ok by (auto dest: in_set_takeD)
  show ?thesis
    using acknowledged_client_gets_no_welcome [OF ex_name_ok ok refl _ s, of "EAck (V4 10 5000) 0 20" 0 20
        "[ETick 150, EHeard 1 200, ETick 250]"]
    by (simp add: MAX_CLIENTS_def no_hello_from_def ok_event_def list_all_iff)
qed

end
