(* ===== verification/Jitter_Buffer.thy ===== *)
theory Jitter_Buffer
  imports Seq_Arith Complex_Main
begin

text \<open>
  The jitter buffer of \<open>crates/jam-audio/src/jitter.rs\<close>: a ring of 64 slots indexed by the
  sequence number modulo 64, each holding the full 16-bit number. The operations are modelled
  as they run one after another (every atomic access in program order); the fields are the
  atomics of the code. The abstract buffer is a map from unbounded packet numbers to frames
  with a read position, and the ring is shown to implement it.
\<close>

section \<open>State\<close>

definition SLOTS :: nat where "SLOTS = 64"
definition MAX_FRAME_BYTES :: nat where "MAX_FRAME_BYTES = 1024"

datatype mark = STATE_EMPTY | STATE_WRITING | STATE_WRITTEN

record jslot =
  js_state :: mark
  js_seq :: u16
  js_timestamp :: u32
  js_len :: u16
  js_payload :: "u8 list"

definition jslot_new :: jslot where
  "jslot_new = \<lparr>js_state = STATE_EMPTY, js_seq = 0, js_timestamp = 0, js_len = 0,
     js_payload = replicate MAX_FRAME_BYTES 0\<rparr>"

datatype push_outcome = Stored | Late | Duplicate | TooBig

datatype pop_outcome = Frame nat u32 | Missing

record jitter_stats =
  st_received :: u64
  st_late :: u64
  st_duplicates :: u64
  st_concealed :: u64
  st_played :: u64
  st_resets :: u64
  st_jitter_us_bits :: real

definition stats_default :: jitter_stats where
  "stats_default = \<lparr>st_received = 0, st_late = 0, st_duplicates = 0, st_concealed = 0,
     st_played = 0, st_resets = 0, st_jitter_us_bits = 0\<rparr>"

record jitter_buffer =
  jslots :: "jslot list"
  next_seq :: u16
  newest_seq :: u16
  started :: bool
  jstats :: jitter_stats

definition jb_new :: jitter_buffer where
  "jb_new = \<lparr>jslots = replicate SLOTS jslot_new, next_seq = 0, newest_seq = 0, started = False,
     jstats = stats_default\<rparr>"

section \<open>Operations\<close>

definition slot_index :: "u16 \<Rightarrow> nat" where
  "slot_index s = unat s mod SLOTS"

text \<open>\<open>for (dst, src) in slot.payload.iter().zip(payload)\<close>\<close>

definition zip_store :: "'a list \<Rightarrow> 'a list \<Rightarrow> 'a list" where
  "zip_store dst src = take (length dst) src @ drop (length src) dst"

definition store_slot :: "u16 \<Rightarrow> u32 \<Rightarrow> u8 list \<Rightarrow> jslot \<Rightarrow> jslot" where
  "store_slot sq ts pl s =
     (let s = s\<lparr>js_state := STATE_WRITING\<rparr>;
          s = s\<lparr>js_seq := sq, js_timestamp := ts, js_len := of_nat (length pl),
                js_payload := zip_store (js_payload s) pl\<rparr>
      in s\<lparr>js_state := STATE_WRITTEN\<rparr>)"

definition jb_push :: "u16 \<Rightarrow> u32 \<Rightarrow> u8 list \<Rightarrow> jitter_buffer \<Rightarrow> jitter_buffer \<times> push_outcome" where
  "jb_push incoming ts pl b =
     (if MAX_FRAME_BYTES < length pl then (b, TooBig)
      else
        let late = started b \<and> newer_than (next_seq b) incoming;
            b1 = (if \<not> started b
                  then b\<lparr>next_seq := incoming, newest_seq := incoming, started := True\<rparr>
                  else if newer_than incoming (newest_seq b) then b\<lparr>newest_seq := incoming\<rparr> else b)
        in if late then (b\<lparr>jstats := (jstats b)\<lparr>st_late := st_late (jstats b) + 1\<rparr>\<rparr>, Late)
           else
             let i = slot_index incoming; s = jslots b1 ! i
             in if js_state s = STATE_WRITTEN \<and> js_seq s = incoming
                then (b1\<lparr>jstats := (jstats b1)\<lparr>st_duplicates := st_duplicates (jstats b1) + 1\<rparr>\<rparr>,
                      Duplicate)
                else (b1\<lparr>jslots := (jslots b1)[i := store_slot incoming ts pl s],
                         jstats := (jstats b1)\<lparr>st_received := st_received (jstats b1) + 1\<rparr>\<rparr>, Stored))"

text \<open>The estimate is stored as the bits of an \<open>f32\<close> and read back with \<open>from_bits\<close>: the field holds
  the number.\<close>

definition publish_jitter_us :: "real \<Rightarrow> jitter_buffer \<Rightarrow> jitter_buffer" where
  "publish_jitter_us j b = b\<lparr>jstats := (jstats b)\<lparr>st_jitter_us_bits := j\<rparr>\<rparr>"

definition jb_depth :: "jitter_buffer \<Rightarrow> int" where
  "jb_depth b = (if \<not> started b then 0 else diff (newest_seq b) (next_seq b) + 1)"

text \<open>\<open>take\<close>: the copy of \<open>len\<close> bytes panics (\<open>None\<close>) when the output slice is shorter. The second
  look at state and sequence number is the same test on the same slot, since no writer runs in
  between.\<close>

definition jb_take :: "u16 \<Rightarrow> u8 list \<Rightarrow> jitter_buffer \<Rightarrow> (jitter_buffer \<times> u8 list \<times> pop_outcome) option" where
  "jb_take expect out b =
     (let i = slot_index expect; s = jslots b ! i in
      if js_state s \<noteq> STATE_WRITTEN \<or> js_seq s \<noteq> expect then Some (b, out, Missing)
      else
        let len = unat (js_len s); ts = js_timestamp s in
        if MAX_FRAME_BYTES < len then Some (b, out, Missing)
        else if length out < len then None
        else
          let out = zip_store (take len out) (js_payload s) @ drop len out in
          if js_state s \<noteq> STATE_WRITTEN \<or> js_seq s \<noteq> expect then Some (b, out, Missing)
          else Some (b\<lparr>jslots := (jslots b)[i := s\<lparr>js_state := STATE_EMPTY\<rparr>]\<rparr>, out, Frame len ts))"

definition jb_pop_next :: "u8 list \<Rightarrow> jitter_buffer \<Rightarrow> (jitter_buffer \<times> u8 list \<times> pop_outcome) option" where
  "jb_pop_next out b =
     (if \<not> started b then Some (b, out, Missing)
      else
        let expect = next_seq b in
        (case jb_take expect out b of
           None \<Rightarrow> None
         | Some (b, out, outcome) \<Rightarrow>
             let b = b\<lparr>next_seq := expect + 1\<rparr>;
                 b = (case outcome of
                    Frame _ _ \<Rightarrow> b\<lparr>jstats := (jstats b)\<lparr>st_played := st_played (jstats b) + 1\<rparr>\<rparr>
                  | Missing \<Rightarrow> b\<lparr>jstats := (jstats b)\<lparr>st_concealed := st_concealed (jstats b) + 1\<rparr>\<rparr>)
             in Some (b, out, outcome)))"

definition jb_skip_next :: "jitter_buffer \<Rightarrow> jitter_buffer \<times> bool" where
  "jb_skip_next b =
     (if \<not> started b then (b, False)
      else
        let expect = next_seq b; i = slot_index expect; s = jslots b ! i;
            had = (js_state s = STATE_WRITTEN \<and> js_seq s = expect);
            b = (if had then b\<lparr>jslots := (jslots b)[i := s\<lparr>js_state := STATE_EMPTY\<rparr>]\<rparr> else b)
        in (b\<lparr>next_seq := expect + 1\<rparr>, had))"

definition jb_reset :: "jitter_buffer \<Rightarrow> jitter_buffer" where
  "jb_reset b = b\<lparr>jslots := map (\<lambda>s. s\<lparr>js_state := STATE_EMPTY\<rparr>) (jslots b), started := False,
     jstats := (jstats b)\<lparr>st_resets := st_resets (jstats b) + 1\<rparr>\<rparr>"

text \<open>The share of frames the reader had to conceal; two counters that sum to zero give zero.\<close>

definition loss_fraction :: "jitter_stats \<Rightarrow> real" where
  "loss_fraction st =
     (let played = real (unat (st_played st)); concealed = real (unat (st_concealed st))
      in if played + concealed = 0 then 0 else concealed / (played + concealed))"

section \<open>The ring as a machine, and the abstract buffer\<close>

datatype 's jb_event = EvPush 's u32 "u8 list" | EvPop | EvSkip | EvReset | EvDepth

datatype jb_output =
    OPushed push_outcome
  | OPopped "(u8 list \<times> u32) option"
  | OSkipped bool
  | ODepth int
  | OPanic

text \<open>The playout code pops into a zeroed buffer of \<open>MAX_FRAME_BYTES\<close> and uses the first \<open>len\<close>
  bytes.\<close>

definition pop_frame :: "jitter_buffer \<Rightarrow> jitter_buffer \<times> jb_output" where
  "pop_frame b =
     (case jb_pop_next (replicate MAX_FRAME_BYTES 0) b of
        None \<Rightarrow> (b, OPanic)
      | Some (b', out, Frame len ts) \<Rightarrow> (b', OPopped (Some (take len out, ts)))
      | Some (b', out, Missing) \<Rightarrow> (b', OPopped None))"

fun jb_step :: "u16 jb_event \<Rightarrow> jitter_buffer \<Rightarrow> jitter_buffer \<times> jb_output list" where
  "jb_step (EvPush sq ts pl) b = (case jb_push sq ts pl b of (b', r) \<Rightarrow> (b', [OPushed r]))"
| "jb_step EvPop b = (case pop_frame b of (b', r) \<Rightarrow> (b', [r]))"
| "jb_step EvSkip b = (case jb_skip_next b of (b', r) \<Rightarrow> (b', [OSkipped r]))"
| "jb_step EvReset b = (jb_reset b, [])"
| "jb_step EvDepth b = (b, [ODepth (jb_depth b)])"

text \<open>
  The abstract buffer: the unbounded number of the next packet to play, the newest one seen,
  and the frames by number. Storing a frame forgets the others of the same residue modulo 64.
\<close>

record stream =
  s_next :: int
  s_newest :: int
  s_frames :: "int \<Rightarrow> (u8 list \<times> u32) option"

definition same_slot :: "int \<Rightarrow> int \<Rightarrow> bool" where
  "same_slot p q \<longleftrightarrow> p mod int SLOTS = q mod int SLOTS"

definition put_frame :: "int \<Rightarrow> u8 list \<times> u32 \<Rightarrow> (int \<Rightarrow> (u8 list \<times> u32) option)
    \<Rightarrow> (int \<Rightarrow> (u8 list \<times> u32) option)" where
  "put_frame p fr F = (\<lambda>q. if q = p then Some fr else if same_slot q p then None else F q)"

fun stream_step :: "int jb_event \<Rightarrow> stream option \<Rightarrow> stream option \<times> jb_output list" where
  "stream_step (EvPush p ts pl) a =
     (if MAX_FRAME_BYTES < length pl then (a, [OPushed TooBig])
      else (case a of
          None \<Rightarrow> (Some \<lparr>s_next = p, s_newest = p, s_frames = put_frame p (pl, ts) (\<lambda>_. None)\<rparr>,
                   [OPushed Stored])
        | Some s \<Rightarrow>
            if p < s_next s then (a, [OPushed Late])
            else if s_frames s p \<noteq> None then (a, [OPushed Duplicate])
            else (Some (s\<lparr>s_newest := max (s_newest s) p, s_frames := put_frame p (pl, ts) (s_frames s)\<rparr>),
                  [OPushed Stored])))"
| "stream_step EvPop a =
     (case a of
        None \<Rightarrow> (None, [OPopped None])
      | Some s \<Rightarrow> (Some (s\<lparr>s_next := s_next s + 1, s_frames := (s_frames s)(s_next s := None)\<rparr>),
                  [OPopped (s_frames s (s_next s))]))"
| "stream_step EvSkip a =
     (case a of
        None \<Rightarrow> (None, [OSkipped False])
      | Some s \<Rightarrow> (Some (s\<lparr>s_next := s_next s + 1, s_frames := (s_frames s)(s_next s := None)\<rparr>),
                  [OSkipped (s_frames s (s_next s) \<noteq> None)]))"
| "stream_step EvReset a = (None, [])"
| "stream_step EvDepth a =
     (a, [ODepth (case a of None \<Rightarrow> 0 | Some s \<Rightarrow> s_newest s - s_next s + 1)])"

text \<open>What the 16-bit numbers need: a packet is less than half the ring (32768 packets) away from
  the read position and from the newest packet; the depth is asked for while reader and writer
  are that close.\<close>

fun in_window :: "int jb_event \<Rightarrow> stream option \<Rightarrow> bool" where
  "in_window (EvPush p ts pl) a = (case a of None \<Rightarrow> True
     | Some s \<Rightarrow> \<bar>p - s_next s\<bar> \<le> 32767 \<and> \<bar>p - s_newest s\<bar> \<le> 32767)"
| "in_window EvDepth a = (case a of None \<Rightarrow> True | Some s \<Rightarrow> \<bar>s_newest s - s_next s\<bar> \<le> 32767)"
| "in_window _ a = True"

section \<open>The ring implements the abstract buffer\<close>

definition slot_frame :: "jslot \<Rightarrow> u8 list \<times> u32" where
  "slot_frame s = (take (unat (js_len s)) (js_payload s), js_timestamp s)"

definition slot_holds :: "jslot \<Rightarrow> int \<Rightarrow> bool" where
  "slot_holds s q \<longleftrightarrow> js_state s = STATE_WRITTEN \<and> js_seq s = word_of_int q"

definition slot_wf :: "jslot \<Rightarrow> bool" where
  "slot_wf s \<longleftrightarrow> length (js_payload s) = MAX_FRAME_BYTES \<and> unat (js_len s) \<le> MAX_FRAME_BYTES"

definition slot_at :: "jitter_buffer \<Rightarrow> int \<Rightarrow> jslot" where
  "slot_at b q = jslots b ! nat (q mod int SLOTS)"

text \<open>Slot \<open>i\<close> is empty or holds the one frame of the abstract buffer with that residue.\<close>

definition ring_rel :: "jitter_buffer \<Rightarrow> stream \<Rightarrow> bool" where
  "ring_rel b s \<longleftrightarrow>
     (\<forall>q. s_frames s q \<noteq> None \<longrightarrow> s_next s \<le> q \<and> q \<le> s_next s + 32767 \<and> q \<le> s_newest s
        \<and> slot_holds (slot_at b q) q \<and> s_frames s q = Some (slot_frame (slot_at b q)))
     \<and> (\<forall>i < SLOTS. js_state (jslots b ! i) = STATE_WRITTEN \<longrightarrow>
        (\<exists>q. nat (q mod int SLOTS) = i \<and> s_frames s q \<noteq> None))"

definition jb_wf :: "jitter_buffer \<Rightarrow> bool" where
  "jb_wf b \<longleftrightarrow> length (jslots b) = SLOTS \<and> (\<forall>s \<in> set (jslots b). slot_wf s)"

definition jb_rel :: "jitter_buffer \<Rightarrow> stream option \<Rightarrow> bool" where
  "jb_rel b a \<longleftrightarrow> jb_wf b \<and>
     (case a of
        None \<Rightarrow> \<not> started b \<and> (\<forall>s \<in> set (jslots b). js_state s \<noteq> STATE_WRITTEN)
      | Some s \<Rightarrow> started b \<and> next_seq b = word_of_int (s_next s) \<and> newest_seq b = word_of_int (s_newest s)
          \<and> ring_rel b s)"

lemma slot_index_of_int: "slot_index (word_of_int p) = nat (p mod int SLOTS)"
proof -
  have "unat (word_of_int p :: u16) = nat (p mod 65536)"
    by (simp add: unat_eq_nat_uint uint_word_of_int)
  then have "int (slot_index (word_of_int p)) = p mod 65536 mod 64"
    by (simp add: slot_index_def SLOTS_def zmod_int)
  also have "\<dots> = p mod 64" by (simp add: mod_mod_cancel)
  finally show ?thesis by (simp add: SLOTS_def)
qed

lemma slot_index_less [simp]: "nat (p mod int SLOTS) < SLOTS"
  by (simp add: SLOTS_def nat_less_iff)

lemma same_slot_iff: "nat (p mod int SLOTS) = nat (q mod int SLOTS) \<longleftrightarrow> same_slot p q"
  by (auto simp: same_slot_def SLOTS_def nat_eq_iff2)

lemma word_eq_close:
  "\<bar>p - q\<bar> \<le> 32767 \<Longrightarrow> (word_of_int p :: u16) = word_of_int q \<longleftrightarrow> p = q"
  using diff_of_int [of p q] by auto

lemma slot_wf_at: "jb_wf b \<Longrightarrow> slot_wf (slot_at b q)"
  by (auto simp: jb_wf_def slot_at_def)

lemma slot_at_nth: "jslots b ! nat (p mod int SLOTS) = slot_at b p"
  by (simp add: slot_at_def)

lemma slot_at_simps [simp]:
  "slot_at (b\<lparr>next_seq := x\<rparr>) q = slot_at b q"
  "slot_at (b\<lparr>newest_seq := x\<rparr>) q = slot_at b q"
  "slot_at (b\<lparr>jstats := y\<rparr>) q = slot_at b q"
  by (simp_all add: slot_at_def)

lemma ring_rel_simps [simp]:
  "ring_rel (b\<lparr>next_seq := x\<rparr>) s = ring_rel b s"
  "ring_rel (b\<lparr>newest_seq := x\<rparr>) s = ring_rel b s"
  "ring_rel (b\<lparr>jstats := y\<rparr>) s = ring_rel b s"
  by (simp_all add: ring_rel_def)

lemma jb_wf_simps [simp]:
  "jb_wf (b\<lparr>next_seq := x\<rparr>) = jb_wf b"
  "jb_wf (b\<lparr>newest_seq := x\<rparr>) = jb_wf b"
  "jb_wf (b\<lparr>jstats := y\<rparr>) = jb_wf b"
  by (simp_all add: jb_wf_def)

lemmas slot_of_int = slot_index_of_int slot_at_nth

lemma ring_relD:
  "\<lbrakk>ring_rel b s; s_frames s q \<noteq> None\<rbrakk> \<Longrightarrow> s_next s \<le> q \<and> q \<le> s_next s + 32767
     \<and> q \<le> s_newest s \<and> slot_holds (slot_at b q) q \<and> s_frames s q = Some (slot_frame (slot_at b q))"
  unfolding ring_rel_def by blast

lemma ring_rel_unique:
  assumes "ring_rel b s" and "s_frames s q \<noteq> None" and "same_slot q p"
    and "slot_holds (slot_at b p) p" and "s_next s \<le> p" and "p \<le> s_next s + 32767"
  shows "q = p"
proof -
  have "slot_at b q = slot_at b p" using assms(3) by (simp add: slot_at_def same_slot_def)
  with assms(4) ring_relD [OF assms(1,2)]
  have "word_of_int q = (word_of_int p :: u16)" unfolding slot_holds_def by simp
  moreover have "\<bar>q - p\<bar> \<le> 32767" using assms(5,6) ring_relD [OF assms(1,2)] by linarith
  ultimately show ?thesis by (simp only: word_eq_close)
qed

text \<open>The test the code makes on a slot is the question whether the frame is there.\<close>

lemma slot_holds_iff:
  assumes "ring_rel b s" and "s_next s \<le> p" and "p \<le> s_next s + 32767"
  shows "slot_holds (slot_at b p) p \<longleftrightarrow> s_frames s p \<noteq> None"
proof
  assume h: "slot_holds (slot_at b p) p"
  then have "js_state (jslots b ! nat (p mod int SLOTS)) = STATE_WRITTEN"
    by (simp add: slot_holds_def slot_at_def)
  with assms(1) slot_index_less [of p]
  obtain q where q: "same_slot q p" "s_frames s q \<noteq> None"
    unfolding ring_rel_def same_slot_iff [symmetric] by blast
  with ring_rel_unique [OF assms(1) q(2,1) h assms(2,3)] show "s_frames s p \<noteq> None" by simp
qed (use ring_relD [OF assms(1)] in blast)

lemma slot_at_update:
  assumes "length (jslots b) = SLOTS" and "jslots b' = (jslots b)[nat (p mod int SLOTS) := x]"
  shows "slot_at b' q = (if same_slot q p then x else slot_at b q)"
  using assms slot_index_less [of q] slot_index_less [of p]
  by (simp add: slot_at_def nth_list_update same_slot_iff [symmetric] eq_commute)

lemma slots_update:
  assumes "length (jslots b) = SLOTS" and "jslots b' = (jslots b)[nat (p mod int SLOTS) := x]"
    and "i < SLOTS"
  shows "jslots b' ! i = (if i = nat (p mod int SLOTS) then x else jslots b ! i)"
  using assms by (simp add: nth_list_update eq_commute)

text \<open>Storing a frame in its slot.\<close>

lemma ring_rel_store:
  assumes rel: "ring_rel b s" and len: "length (jslots b) = SLOTS"
    and upd: "jslots b' = (jslots b)[nat (p mod int SLOTS) := x]"
    and x: "slot_holds x p" "slot_frame x = fr" and p: "s_next s \<le> p" "p \<le> s_next s + 32767"
    and s': "s_next s' = s_next s" "s_newest s' = max (s_newest s) p"
      "s_frames s' = put_frame p fr (s_frames s)"
  shows "ring_rel b' s'"
  unfolding ring_rel_def
proof (intro conjI allI impI)
  fix q
  assume q: "s_frames s' q \<noteq> None"
  have "s_next s \<le> q \<and> q \<le> s_next s + 32767 \<and> q \<le> max (s_newest s) p
      \<and> slot_holds (slot_at b' q) q \<and> put_frame p fr (s_frames s) q = Some (slot_frame (slot_at b' q))"
  proof (cases "q = p")
    case True
    then show ?thesis using p x
      by (simp add: put_frame_def slot_at_update [OF len upd] same_slot_def)
  next
    case False
    with q have q': "\<not> same_slot q p" "s_frames s q \<noteq> None"
      by (auto simp: s' put_frame_def split: if_splits)
    with ring_relD [OF rel q'(2)] False show ?thesis
      by (simp add: put_frame_def slot_at_update [OF len upd] le_max_iff_disj)
  qed
  then show "s_next s' \<le> q" "q \<le> s_next s' + 32767" "q \<le> s_newest s'"
    "slot_holds (slot_at b' q) q" "s_frames s' q = Some (slot_frame (slot_at b' q))"
    by (simp_all add: s')
next
  fix i
  assume i: "i < SLOTS" and w: "js_state (jslots b' ! i) = STATE_WRITTEN"
  show "\<exists>q. nat (q mod int SLOTS) = i \<and> s_frames s' q \<noteq> None"
  proof (cases "i = nat (p mod int SLOTS)")
    case True
    then show ?thesis by (intro exI [of _ p]) (simp add: s' put_frame_def)
  next
    case False
    with w i have "js_state (jslots b ! i) = STATE_WRITTEN" by (simp add: slots_update [OF len upd])
    with rel i obtain q where q: "nat (q mod int SLOTS) = i" "s_frames s q \<noteq> None"
      unfolding ring_rel_def by blast
    with False have "\<not> same_slot q p" by (simp add: same_slot_iff [symmetric])
    with q show ?thesis by (intro exI [of _ q]) (auto simp: s' put_frame_def same_slot_def)
  qed
qed

text \<open>Taking the frame at the read position, whether it is there or not.\<close>

lemma ring_rel_advance:
  assumes rel: "ring_rel b s" and len: "length (jslots b) = SLOTS"
    and upd: "if slot_holds (slot_at b (s_next s)) (s_next s)
      then jslots b' = (jslots b)[nat (s_next s mod int SLOTS) := x] \<and> js_state x \<noteq> STATE_WRITTEN
      else jslots b' = jslots b"
    and s': "s' = s\<lparr>s_next := s_next s + 1, s_frames := (s_frames s)(s_next s := None)\<rparr>"
  shows "ring_rel b' s'"
proof (cases "slot_holds (slot_at b (s_next s)) (s_next s)")
  case True
  with upd have upd': "jslots b' = (jslots b)[nat (s_next s mod int SLOTS) := x]"
    and x: "js_state x \<noteq> STATE_WRITTEN" by auto
  have other: "\<not> same_slot q (s_next s)" if "s_frames s q \<noteq> None" "q \<noteq> s_next s" for q
    using ring_rel_unique [OF rel that(1) _ True] that(2) by auto
  show ?thesis unfolding ring_rel_def
  proof (intro conjI allI impI)
    fix q
    assume q: "s_frames s' q \<noteq> None"
    then have q': "q \<noteq> s_next s" "s_frames s q \<noteq> None" by (auto simp: s' split: if_splits)
    with rel have "s_next s \<le> q \<and> q \<le> s_next s + 32767 \<and> q \<le> s_newest s \<and> slot_holds (slot_at b q) q
      \<and> s_frames s q = Some (slot_frame (slot_at b q))" by (simp add: ring_rel_def)
    with q' other [OF q'(2,1)] show "s_next s' \<le> q" "q \<le> s_next s' + 32767" "q \<le> s_newest s'"
      "slot_holds (slot_at b' q) q" "s_frames s' q = Some (slot_frame (slot_at b' q))"
      by (simp_all add: s' slot_at_update [OF len upd'])
  next
    fix i
    assume i: "i < SLOTS" and w: "js_state (jslots b' ! i) = STATE_WRITTEN"
    then have ne: "i \<noteq> nat (s_next s mod int SLOTS)" "js_state (jslots b ! i) = STATE_WRITTEN"
      using x by (auto simp: slots_update [OF len upd'] split: if_splits)
    with rel i obtain q where q: "nat (q mod int SLOTS) = i" "s_frames s q \<noteq> None"
      unfolding ring_rel_def by blast
    with ne(1) show "\<exists>q. nat (q mod int SLOTS) = i \<and> s_frames s' q \<noteq> None"
      by (intro exI [of _ q]) (auto simp: s')
  qed
next
  case False
  with upd have same: "jslots b' = jslots b" by simp
  have "s_frames s (s_next s) = None" using False slot_holds_iff [OF rel, of "s_next s"]
    by (simp del: not_None_eq)
  then have F: "s_frames s' = s_frames s" by (simp add: s' fun_upd_idem_iff)
  have "q \<noteq> s_next s" if "s_frames s q \<noteq> None" for q
    using that \<open>s_frames s (s_next s) = None\<close> by auto
  with rel F same show ?thesis
    unfolding ring_rel_def slot_at_def by (fastforce simp: s')
qed

section \<open>Every operation simulates\<close>

lemma zip_store_prefix: "length src \<le> length dst \<Longrightarrow> take (length src) (zip_store dst src) = src"
  by (simp add: zip_store_def)

lemma length_zip_store: "length (zip_store dst src) = length dst"
  by (simp add: zip_store_def)

lemma unat_frame_len:
  "length pl \<le> MAX_FRAME_BYTES \<Longrightarrow> unat (of_nat (length pl) :: u16) = length pl"
  by (simp add: MAX_FRAME_BYTES_def unat_of_nat)

lemma store_slot_spec:
  assumes "slot_wf s" and "length pl \<le> MAX_FRAME_BYTES"
  shows "slot_wf (store_slot (word_of_int p) ts pl s) \<and> slot_holds (store_slot (word_of_int p) ts pl s) p
    \<and> slot_frame (store_slot (word_of_int p) ts pl s) = (pl, ts)"
  using assms
  by (simp add: store_slot_def slot_wf_def slot_holds_def slot_frame_def unat_frame_len
      zip_store_prefix length_zip_store)

lemma jb_wf_update:
  "\<lbrakk>jb_wf b; slot_wf x; jslots b' = (jslots b)[i := x]\<rbrakk> \<Longrightarrow> jb_wf b'"
  using set_update_subset_insert [of "jslots b" i x] by (auto simp: jb_wf_def)

lemma jb_new_rel: "jb_rel jb_new None"
  by (simp add: jb_rel_def jb_wf_def jb_new_def slot_wf_def jslot_new_def)

lemma push_not_started:
  assumes "jb_rel b None" and pl: "length pl \<le> MAX_FRAME_BYTES"
  shows "jb_rel (fst (jb_push (word_of_int p) ts pl b))
      (Some \<lparr>s_next = p, s_newest = p, s_frames = put_frame p (pl, ts) (\<lambda>_. None)\<rparr>)
    \<and> snd (jb_push (word_of_int p) ts pl b) = Stored"
proof -
  have wf: "jb_wf b" and st: "\<not> started b" and empty: "\<forall>s \<in> set (jslots b). js_state s \<noteq> STATE_WRITTEN"
    using assms(1) by (simp_all add: jb_rel_def)
  then have len: "length (jslots b) = SLOTS" by (simp add: jb_wf_def)
  let ?x = "store_slot (word_of_int p) ts pl (slot_at b p)" and ?b = "fst (jb_push (word_of_int p) ts pl b)"
  let ?s0 = "\<lparr>s_next = p, s_newest = p, s_frames = \<lambda>_. None\<rparr>"
  have "js_state (slot_at b p) \<noteq> STATE_WRITTEN" using empty len by (simp add: slot_at_def)
  then have res: "jslots ?b = (jslots b)[nat (p mod int SLOTS) := ?x]" "started ?b"
    "next_seq ?b = word_of_int p" "newest_seq ?b = word_of_int p"
    "snd (jb_push (word_of_int p) ts pl b) = Stored"
    using pl st by (simp_all add: jb_push_def Let_def slot_of_int)
  have "ring_rel b ?s0" using empty len by (simp add: ring_rel_def)
  then have "ring_rel ?b \<lparr>s_next = p, s_newest = p, s_frames = put_frame p (pl, ts) (\<lambda>_. None)\<rparr>"
    using store_slot_spec [OF slot_wf_at [OF wf] pl, of p ts p]
    by (intro ring_rel_store [OF _ len res(1), of ?s0]) auto
  moreover have "jb_wf ?b"
    using jb_wf_update [OF wf _ res(1)] store_slot_spec [OF slot_wf_at [OF wf] pl, of p ts p] by blast
  ultimately show ?thesis by (simp add: jb_rel_def res)
qed

lemma newer_close: "\<bar>p - q\<bar> \<le> 32767 \<Longrightarrow> newer_than (word_of_int p) (word_of_int q) \<longleftrightarrow> q < p"
  using diff_of_int [of p q] by (simp add: newer_than_diff)

lemma push_started:
  assumes "jb_rel b (Some s)" and pl: "length pl \<le> MAX_FRAME_BYTES"
    and win: "in_window (EvPush p ts pl) (Some s)"
  shows "jb_rel (fst (jb_push (word_of_int p) ts pl b)) (fst (stream_step (EvPush p ts pl) (Some s)))
    \<and> [OPushed (snd (jb_push (word_of_int p) ts pl b))] = snd (stream_step (EvPush p ts pl) (Some s))"
proof -
  have wf: "jb_wf b" and st: "started b" "next_seq b = word_of_int (s_next s)"
    "newest_seq b = word_of_int (s_newest s)" and ring: "ring_rel b s"
    using assms(1) by (simp_all add: jb_rel_def)
  then have len: "length (jslots b) = SLOTS" by (simp add: jb_wf_def)
  have late: "newer_than (next_seq b) (word_of_int p) \<longleftrightarrow> p < s_next s"
    "newer_than (word_of_int p) (newest_seq b) \<longleftrightarrow> s_newest s < p"
    using win by (simp_all add: st newer_close abs_minus_commute)
  let ?x = "store_slot (word_of_int p) ts pl (slot_at b p)" and ?b = "fst (jb_push (word_of_int p) ts pl b)"
  show ?thesis
  proof (cases "p < s_next s")
    case True
    with assms(1) pl late show ?thesis
      by (simp add: jb_push_def Let_def st jb_rel_def)
  next
    case False
    then have p: "s_next s \<le> p" "p \<le> s_next s + 32767" using win by auto
    note holds = slot_holds_iff [OF ring p]
    show ?thesis
    proof (cases "s_frames s p = None")
      case dup: False
      with ring_relD [OF ring dup] have "\<not> s_newest s < p" by linarith
      with dup assms(1) pl late False holds show ?thesis
        by (simp add: jb_push_def Let_def st slot_of_int slot_holds_def jb_rel_def)
    next
      case True
      then have "\<not> slot_holds (slot_at b p) p" using holds by simp
      then have res: "jslots ?b = (jslots b)[nat (p mod int SLOTS) := ?x]" "started ?b"
        "next_seq ?b = word_of_int (s_next s)" "newest_seq ?b = word_of_int (max (s_newest s) p)"
        "snd (jb_push (word_of_int p) ts pl b) = Stored"
        using pl st late False
        by (auto simp: jb_push_def Let_def slot_of_int slot_holds_def max_def)
      let ?s = "s\<lparr>s_newest := max (s_newest s) p, s_frames := put_frame p (pl, ts) (s_frames s)\<rparr>"
      have x: "slot_wf ?x" "slot_holds ?x p" "slot_frame ?x = (pl, ts)"
        using store_slot_spec [OF slot_wf_at [OF wf] pl] by blast+
      have "ring_rel ?b ?s" by (rule ring_rel_store [OF ring len res(1) x(2,3) p]) simp_all
      moreover have "jb_wf ?b" by (rule jb_wf_update [OF wf x(1) res(1)])
      ultimately show ?thesis using True False pl by (simp add: jb_rel_def res)
    qed
  qed
qed

definition advance :: "stream \<Rightarrow> stream" where
  "advance s = s\<lparr>s_next := s_next s + 1, s_frames := (s_frames s)(s_next s := None)\<rparr>"

text \<open>What a pop does to the ring when the frame is there, and when it is not.\<close>

lemma pop_hit:
  assumes rel: "jb_rel b (Some s)" and here: "slot_holds (slot_at b (s_next s)) (s_next s)"
  shows "jb_rel (fst (pop_frame b)) (Some (advance s))
    \<and> snd (pop_frame b) = OPopped (Some (slot_frame (slot_at b (s_next s))))"
proof -
  let ?x = "slot_at b (s_next s)"
  have wf: "jb_wf b" and st: "started b" "next_seq b = word_of_int (s_next s)"
    "newest_seq b = word_of_int (s_newest s)" and ring: "ring_rel b s"
    using rel by (simp_all add: jb_rel_def)
  then have len: "length (jslots b) = SLOTS" by (simp add: jb_wf_def)
  have x: "slot_wf ?x" by (rule slot_wf_at [OF wf])
  then have fits: "unat (js_len ?x) \<le> MAX_FRAME_BYTES" "length (js_payload ?x) = MAX_FRAME_BYTES"
    by (simp_all add: slot_wf_def)
  have mark: "js_state ?x = STATE_WRITTEN" "js_seq ?x = word_of_int (s_next s)"
    using here by (simp_all add: slot_holds_def)
  have res: "jslots (fst (pop_frame b)) = (jslots b)[nat (s_next s mod int SLOTS) := ?x\<lparr>js_state := STATE_EMPTY\<rparr>]"
    "started (fst (pop_frame b))" "next_seq (fst (pop_frame b)) = word_of_int (s_next s + 1)"
    "newest_seq (fst (pop_frame b)) = newest_seq b"
    "snd (pop_frame b) = OPopped (Some (take (unat (js_len ?x)) (zip_store
       (take (unat (js_len ?x)) (replicate MAX_FRAME_BYTES 0)) (js_payload ?x)
       @ drop (unat (js_len ?x)) (replicate MAX_FRAME_BYTES 0)), js_timestamp ?x))"
    using fits mark st
    by (simp_all add: pop_frame_def jb_pop_next_def jb_take_def Let_def slot_of_int)
  have "ring_rel (fst (pop_frame b)) (advance s)"
    using here
    by (intro ring_rel_advance [OF ring len, where x = "?x\<lparr>js_state := STATE_EMPTY\<rparr>"])
      (simp_all add: res advance_def)
  moreover have "jb_wf (fst (pop_frame b))"
    using x by (intro jb_wf_update [OF wf _ res(1)]) (simp add: slot_wf_def)
  moreover have "snd (pop_frame b) = OPopped (Some (slot_frame ?x))"
    using fits by (simp add: res slot_frame_def zip_store_def)
  ultimately show ?thesis by (simp add: jb_rel_def res st advance_def)
qed

lemma pop_miss:
  assumes rel: "jb_rel b (Some s)" and gone: "\<not> slot_holds (slot_at b (s_next s)) (s_next s)"
  shows "jb_rel (fst (pop_frame b)) (Some (advance s)) \<and> snd (pop_frame b) = OPopped None"
proof -
  have wf: "jb_wf b" and st: "started b" "next_seq b = word_of_int (s_next s)"
    "newest_seq b = word_of_int (s_newest s)" and ring: "ring_rel b s"
    using rel by (simp_all add: jb_rel_def)
  then have len: "length (jslots b) = SLOTS" by (simp add: jb_wf_def)
  have res: "jslots (fst (pop_frame b)) = jslots b"
    "started (fst (pop_frame b))" "next_seq (fst (pop_frame b)) = word_of_int (s_next s + 1)"
    "newest_seq (fst (pop_frame b)) = newest_seq b" "snd (pop_frame b) = OPopped None"
    using gone st
    by (auto simp: pop_frame_def jb_pop_next_def jb_take_def Let_def slot_of_int
        slot_holds_def)
  have "ring_rel (fst (pop_frame b)) (advance s)"
    using gone by (intro ring_rel_advance [OF ring len]) (simp_all add: res advance_def)
  moreover have "jb_wf (fst (pop_frame b))" using wf by (simp add: jb_wf_def res)
  ultimately show ?thesis by (simp add: jb_rel_def res st advance_def)
qed

lemma pop_sim:
  assumes "jb_rel b a"
  shows "jb_rel (fst (pop_frame b)) (fst (stream_step EvPop a))
    \<and> [snd (pop_frame b)] = snd (stream_step EvPop a)"
proof (cases a)
  case None
  with assms show ?thesis by (simp add: pop_frame_def jb_pop_next_def jb_rel_def)
next
  case (Some s)
  have ring: "ring_rel b s" using assms by (simp add: jb_rel_def Some)
  note holds = slot_holds_iff [OF ring, of "s_next s"]
  show ?thesis
  proof (cases "slot_holds (slot_at b (s_next s)) (s_next s)")
    case True
    with holds ring_relD [OF ring, of "s_next s"] pop_hit [of b s] assms show ?thesis
      by (auto simp: Some advance_def)
  next
    case False
    with holds have "s_frames s (s_next s) = None" by (simp del: not_None_eq)
    with pop_miss [of b s] assms False show ?thesis by (simp add: Some advance_def)
  qed
qed

lemma skip_sim:
  assumes "jb_rel b a"
  shows "jb_rel (fst (jb_skip_next b)) (fst (stream_step EvSkip a))
    \<and> [OSkipped (snd (jb_skip_next b))] = snd (stream_step EvSkip a)"
proof (cases a)
  case None
  with assms show ?thesis by (simp add: jb_skip_next_def jb_rel_def)
next
  case (Some s)
  let ?x = "slot_at b (s_next s)" and ?b = "fst (jb_skip_next b)"
  have wf: "jb_wf b" and st: "started b" "next_seq b = word_of_int (s_next s)"
    "newest_seq b = word_of_int (s_newest s)" and ring: "ring_rel b s"
    using assms by (simp_all add: jb_rel_def Some)
  then have len: "length (jslots b) = SLOTS" by (simp add: jb_wf_def)
  have res: "jslots ?b = (if slot_holds ?x (s_next s)
        then (jslots b)[nat (s_next s mod int SLOTS) := ?x\<lparr>js_state := STATE_EMPTY\<rparr>] else jslots b)"
    "started ?b" "next_seq ?b = word_of_int (s_next s + 1)" "newest_seq ?b = newest_seq b"
    "snd (jb_skip_next b) = slot_holds ?x (s_next s)"
    using st by (simp_all add: jb_skip_next_def Let_def slot_of_int slot_holds_def)
  have "ring_rel ?b (advance s)"
    by (rule ring_rel_advance [OF ring len, where x = "?x\<lparr>js_state := STATE_EMPTY\<rparr>"])
      (simp_all add: res advance_def)
  moreover have "jb_wf ?b"
    using wf slot_wf_at [OF wf, of "s_next s"] jb_wf_update [OF wf, of "?x\<lparr>js_state := STATE_EMPTY\<rparr>" ?b]
    by (cases "slot_holds ?x (s_next s)") (auto simp: res slot_wf_def jb_wf_def)
  ultimately show ?thesis
    using slot_holds_iff [OF ring, of "s_next s"] by (simp add: Some jb_rel_def res st advance_def)
qed

lemma reset_rel: "jb_rel b a \<Longrightarrow> jb_rel (jb_reset b) None"
  by (auto simp: jb_rel_def jb_reset_def jb_wf_def slot_wf_def)

lemma depth_sim:
  "\<lbrakk>jb_rel b (Some s); \<bar>s_newest s - s_next s\<bar> \<le> 32767\<rbrakk> \<Longrightarrow> jb_depth b = s_newest s - s_next s + 1"
  by (simp add: jb_rel_def jb_depth_def diff_of_int abs_le_iff)

interpretation jitter: simulation jb_step stream_step "map_jb_event word_of_int" jb_rel in_window
proof unfold_locales
  fix b a and e :: "int jb_event"
  assume rel: "jb_rel b a" and pre: "in_window e a"
  have "jb_rel (fst (jb_step (map_jb_event word_of_int e) b)) (fst (stream_step e a))
    \<and> snd (jb_step (map_jb_event word_of_int e) b) = snd (stream_step e a)"
  proof (cases e)
    case (EvPush p ts pl)
    show ?thesis
    proof (cases "length pl \<le> MAX_FRAME_BYTES")
      case True
      show ?thesis
      proof (cases a)
        case None
        with rel True push_not_started [of b pl p ts] show ?thesis
          by (simp add: EvPush case_prod_unfold)
      next
        case (Some s)
        with rel True pre push_started [of b s pl p ts] show ?thesis
          by (simp only: EvPush jb_event.map jb_step.simps case_prod_unfold fst_conv snd_conv)
      qed
    next
      case False
      with rel show ?thesis by (simp add: EvPush jb_push_def)
    qed
  next
    case EvPop
    with pop_sim [OF rel] show ?thesis
      by (simp only: EvPop jb_event.map jb_step.simps case_prod_unfold fst_conv snd_conv)
  next
    case EvSkip
    with skip_sim [OF rel] show ?thesis
      by (simp only: EvSkip jb_event.map jb_step.simps case_prod_unfold fst_conv snd_conv)
  next
    case EvReset
    with reset_rel [OF rel] show ?thesis by simp
  next
    case EvDepth
    with rel pre depth_sim [of b] show ?thesis
      by (cases a) (simp_all add: jb_depth_def jb_rel_def)
  qed
  then show "jb_rel (fst (jb_step (map_jb_event word_of_int e) b)) (fst (stream_step e a))"
    and "snd (jb_step (map_jb_event word_of_int e) b) = snd (stream_step e a)"
    by blast+
qed

section \<open>What the buffer promises\<close>

text \<open>C4: the ring of 64 slots with 16-bit numbers behaves as the abstract buffer of unbounded
  packet numbers, in every interleaving of pushes, pops, skips, resets and depth queries, for
  streams of any length and across every wraparound, as long as no packet is half a ring away
  from the read position or the newest packet: same outcome of every push (stored, late,
  duplicate, too big), same payload and timestamp of every pop, same concealments, same depth.\<close>

theorem jitter_buffer_refines_stream:
  assumes "allowed in_window stream_step es None"
  shows "snd (run jb_step (map (map_jb_event word_of_int) es) jb_new) = snd (run stream_step es None)"
  using jitter.run_sim [OF jb_new_rel assms] by blast

definition ex_stream :: "int jb_event list" where
  "ex_stream = [EvPush 65534 10 [1], EvPush 65536 12 [3], EvPush 65534 10 [1], EvDepth, EvPop, EvPop,
     EvPush 65535 11 [2], EvPop, EvPush 65600 76 [9], EvReset, EvPop]"

theorem jitter_buffer_refines_stream_witness:
  "snd (run jb_step (map (map_jb_event word_of_int) ex_stream) jb_new)
     = [OPushed Stored, OPushed Stored, OPushed Duplicate, ODepth 3, OPopped (Some ([1], 10)),
        OPopped None, OPushed Late, OPopped (Some ([3], 12)), OPushed Stored, OPopped None]"
  using jitter_buffer_refines_stream [of ex_stream]
  by (simp add: ex_stream_def put_frame_def same_slot_def SLOTS_def MAX_FRAME_BYTES_def)

text \<open>For arbitrary numbers, also hostile ones outside every window, the ring stays well formed.\<close>

lemma store_slot_wf: "\<lbrakk>slot_wf s; length pl \<le> MAX_FRAME_BYTES\<rbrakk> \<Longrightarrow> slot_wf (store_slot sq ts pl s)"
  by (simp add: store_slot_def slot_wf_def unat_frame_len length_zip_store)

lemma jb_nth_wf: "jb_wf b \<Longrightarrow> slot_wf (jslots b ! slot_index sq)"
  by (auto simp: jb_wf_def slot_index_def SLOTS_def)

lemma clear_wf: "slot_wf s \<Longrightarrow> slot_wf (s\<lparr>js_state := m\<rparr>)"
  by (simp add: slot_wf_def)

lemma jb_wf_slots [simp]:
  "\<lbrakk>jb_wf b; slot_wf x\<rbrakk> \<Longrightarrow> jb_wf (b\<lparr>jslots := (jslots b)[i := x]\<rparr>)"
  "jb_wf (b\<lparr>started := st\<rparr>) = jb_wf b"
  by (rule jb_wf_update) (simp_all add: jb_wf_def)

lemma jb_push_wf: "jb_wf b \<Longrightarrow> jb_wf (fst (jb_push sq ts pl b))"
  using store_slot_wf [OF jb_nth_wf [of b sq], of pl sq ts]
  by (auto simp: jb_push_def Let_def)

lemma jb_skip_wf: "jb_wf b \<Longrightarrow> jb_wf (fst (jb_skip_next b))"
  using clear_wf [OF jb_nth_wf [of b "next_seq b"]]
  by (auto simp: jb_skip_next_def Let_def)

lemma jb_reset_wf: "jb_wf b \<Longrightarrow> jb_wf (jb_reset b)"
  by (auto simp: jb_reset_def jb_wf_def clear_wf)

lemma pop_frame_wf: "jb_wf b \<Longrightarrow> jb_wf (fst (pop_frame b)) \<and> snd (pop_frame b) \<noteq> OPanic"
  using clear_wf [OF jb_nth_wf [of b "next_seq b"]] jb_nth_wf [of b "next_seq b"]
  by (auto simp: pop_frame_def jb_pop_next_def jb_take_def Let_def slot_wf_def [of "jslots b ! slot_index (next_seq b)"])

interpretation ring: event_machine jb_step "\<lambda>_. True" jb_wf "\<lambda>a. a \<noteq> OPanic"
proof unfold_locales
  fix e b a
  assume wf: "jb_wf b"
  then show "jb_wf (fst (jb_step e b))"
    using jb_push_wf jb_skip_wf pop_frame_wf jb_reset_wf by (cases e) (simp_all add: case_prod_unfold)
  assume "a \<in> set (snd (jb_step e b))"
  with pop_frame_wf [OF wf] show "a \<noteq> OPanic" by (cases e) (auto simp: case_prod_unfold)
qed

text \<open>No sequence of packets, of whatever numbers and sizes, and of reads makes the reader
  index outside the frame buffer.\<close>

theorem jitter_buffer_never_panics:
  "OPanic \<notin> set (snd (run jb_step es jb_new))"
  using ring.run_out [of es jb_new OPanic] jb_new_rel by (auto simp: jb_rel_def)

text \<open>Packets that arrive in any order before they are due.\<close>

definition push_of :: "(int \<Rightarrow> u8 list \<times> u32) \<Rightarrow> int \<Rightarrow> int jb_event" where
  "push_of fr p = EvPush p (snd (fr p)) (fst (fr p))"

lemma same_slot_window: "\<lbrakk>same_slot p q; n \<le> p; p < n + 64; n \<le> q; q < n + 64\<rbrakk> \<Longrightarrow> p = q"
proof -
  assume a: "same_slot p q" "n \<le> p" "p < n + 64" "n \<le> q" "q < n + 64"
  then have "64 dvd (p - q)" by (simp add: same_slot_def SLOTS_def mod_eq_dvd_iff)
  then obtain k where "p - q = 64 * k" by (auto elim: dvdE)
  with a have "64 * k < 64" "- 64 < 64 * k" by linarith+
  then have "k = 0" by linarith
  with \<open>p - q = 64 * k\<close> show "p = q" by simp
qed

lemma pushes_stored:
  "\<lbrakk>\<forall>p. length (fst (fr p)) \<le> MAX_FRAME_BYTES; distinct qs; set qs \<subseteq> {n..<n + 64};
    s_next s = n; n \<le> s_newest s; s_newest s < n + 64;
    \<forall>q. s_frames s q \<noteq> None \<longrightarrow> n \<le> q \<and> q < n + 64 \<and> q \<notin> set qs\<rbrakk> \<Longrightarrow>
   \<exists>s'. run stream_step (map (push_of fr) qs) (Some s) = (Some s', replicate (length qs) (OPushed Stored))
     \<and> s_next s' = n \<and> (\<forall>q. s_frames s' q = (if q \<in> set qs then Some (fr q) else s_frames s q))
     \<and> allowed in_window stream_step (map (push_of fr) qs) (Some s)"
proof (induction qs arbitrary: s)
  case (Cons p ps)
  have p: "n \<le> p" "p < n + 64" using Cons.prems(3) by auto
  have len: "\<not> MAX_FRAME_BYTES < length (fst (fr p))" using Cons.prems(1) by (simp add: not_less)
  have new: "s_frames s p = None" using Cons.prems(7) by (metis list.set_intros(1))
  have others: "put_frame p (fr p) (s_frames s) q = (if q = p then Some (fr p) else s_frames s q)" for q
  proof (cases "s_frames s q")
    case (Some v)
    then have "n \<le> q" "q < n + 64" using Cons.prems(7) by auto
    with same_slot_window [of q p n] p show ?thesis by (auto simp: put_frame_def)
  qed (simp add: put_frame_def)
  let ?s = "s\<lparr>s_newest := max (s_newest s) p, s_frames := put_frame p (fr p) (s_frames s)\<rparr>"
  have step: "stream_step (push_of fr p) (Some s) = (Some ?s, [OPushed Stored])"
    using len new p Cons.prems(4) by (simp add: push_of_def)
  have "\<exists>s'. run stream_step (map (push_of fr) ps) (Some ?s) = (Some s', replicate (length ps) (OPushed Stored))
     \<and> s_next s' = n \<and> (\<forall>q. s_frames s' q = (if q \<in> set ps then Some (fr q) else s_frames ?s q))
     \<and> allowed in_window stream_step (map (push_of fr) ps) (Some ?s)"
    using Cons.prems p by (intro Cons.IH) (auto simp: others split: if_splits)
  moreover have "in_window (push_of fr p) (Some s)" using p Cons.prems(4-6) by (simp add: push_of_def abs_le_iff)
  ultimately show ?case using Cons.prems(2) step by (auto simp: others)
qed simp

lemma pops_in_order:
  "\<forall>i < k. s_frames s (s_next s + int i) = Some (fr (s_next s + int i)) \<Longrightarrow>
   snd (run stream_step (replicate k EvPop) (Some s)) = map (\<lambda>i. OPopped (Some (fr (s_next s + int i)))) [0..<k]"
proof (induction k arbitrary: s)
  case (Suc k)
  let ?s = "s\<lparr>s_next := s_next s + 1, s_frames := (s_frames s)(s_next s := None)\<rparr>"
  have now: "s_frames s (s_next s) = Some (fr (s_next s))"
    using Suc.prems [rule_format, of 0] by simp
  have "\<forall>i < k. s_frames ?s (s_next ?s + int i) = Some (fr (s_next ?s + int i))"
  proof (intro allI impI)
    fix i
    assume "i < k"
    then have "s_frames s (s_next s + int (Suc i)) = Some (fr (s_next s + int (Suc i)))"
      using Suc.prems by blast
    then show "s_frames ?s (s_next ?s + int i) = Some (fr (s_next ?s + int i))"
      by (simp add: add.assoc)
  qed
  from Suc.IH [OF this]
  have "snd (run stream_step (replicate k EvPop) (Some ?s))
      = map (\<lambda>i. OPopped (Some (fr (s_next s + int (Suc i))))) [0..<k]"
    by (simp add: add.assoc)
  moreover have "run stream_step (replicate (Suc k) EvPop) (Some s)
      = (let r = run stream_step (replicate k EvPop) (Some ?s)
         in (fst r, OPopped (s_frames s (s_next s)) # snd r))"
    by (simp add: case_prod_unfold Let_def)
  ultimately show ?case unfolding map_upt_Suc by (simp only: Let_def snd_conv now) simp
qed simp

lemma allowed_append:
  "allowed pre st (es @ fs) a \<longleftrightarrow> allowed pre st es a \<and> allowed pre st fs (fst (run st es a))"
  by (induction es arbitrary: a) (auto simp: case_prod_unfold)

lemma allowed_pops: "allowed in_window stream_step (replicate k EvPop) a"
  by (induction k arbitrary: a) auto

text \<open>The buffer repairs reordering. If the next \<open>k\<close> packets of a stream, at most 64, arrive
  in any order before they are played, only the first of them in place, every one is stored and
  the reader gets all \<open>k\<close> frames, each once, in the order of the stream.\<close>

theorem jitter_buffer_reorders:
  assumes "k \<le> 64" and "distinct (n # qs)" and "set (n # qs) = {n..<n + int k}"
    and "\<forall>p. length (fst (fr p)) \<le> MAX_FRAME_BYTES"
  shows "snd (run jb_step (map (map_jb_event word_of_int) (map (push_of fr) (n # qs) @ replicate k EvPop)) jb_new)
    = replicate k (OPushed Stored) @ map (\<lambda>i. OPopped (Some (fr (n + int i)))) [0..<k]"
proof -
  let ?s = "\<lparr>s_next = n, s_newest = n, s_frames = put_frame n (fr n) (\<lambda>_. None)\<rparr>"
  have k: "length (n # qs) = k"
    using distinct_card [OF assms(2)] assms(3) by simp
  have first: "stream_step (push_of fr n) None = (Some ?s, [OPushed Stored])"
    using assms(4) by (simp add: push_of_def not_less)
  have "set qs \<subseteq> {n..<n + int k}" using assms(3) by (metis set_subset_Cons)
  then have sub: "set qs \<subseteq> {n..<n + 64}" using assms(1) by fastforce
  have "\<exists>s'. run stream_step (map (push_of fr) qs) (Some ?s) = (Some s', replicate (length qs) (OPushed Stored))
     \<and> s_next s' = n \<and> (\<forall>q. s_frames s' q = (if q \<in> set qs then Some (fr q) else s_frames ?s q))
     \<and> allowed in_window stream_step (map (push_of fr) qs) (Some ?s)"
    using assms(2) by (intro pushes_stored [OF assms(4) _ sub]) (auto simp: put_frame_def split: if_splits)
  then obtain s' where s': "run stream_step (map (push_of fr) qs) (Some ?s)
      = (Some s', replicate (length qs) (OPushed Stored))" "s_next s' = n"
    "\<forall>q. s_frames s' q = (if q \<in> set qs then Some (fr q) else s_frames ?s q)"
    "allowed in_window stream_step (map (push_of fr) qs) (Some ?s)" by blast
  have "s_frames s' (n + int i) = Some (fr (n + int i))" if "i < k" for i
  proof -
    from that assms(3) have "n + int i \<in> set (n # qs)" by simp
    then show ?thesis by (auto simp: s'(3) put_frame_def)
  qed
  then have pops: "snd (run stream_step (replicate k EvPop) (Some s'))
      = map (\<lambda>i. OPopped (Some (fr (n + int i)))) [0..<k]"
    using pops_in_order [of k s' fr] s'(2) by simp
  have "allowed in_window stream_step (map (push_of fr) (n # qs) @ replicate k EvPop) None"
    using first s'(1,4) by (simp add: allowed_append allowed_pops push_of_def)
  from jitter.run_sim [OF jb_new_rel this, THEN conjunct2] show ?thesis
    using first s'(1) pops k by (auto simp: run_append case_prod_unfold)
qed

theorem jitter_buffer_reorders_witness:
  "snd (run jb_step (map (map_jb_event word_of_int) (map (push_of (\<lambda>p. ([of_int p], 0))) (65535 # [65537, 65536])
       @ replicate 3 EvPop)) jb_new)
    = replicate 3 (OPushed Stored) @ map (\<lambda>i. OPopped (Some ([of_int (65535 + int i)], 0))) [0..<3]"
  by (rule jitter_buffer_reorders) (auto simp: MAX_FRAME_BYTES_def)

end
