(* ===== verification/Mixer_Meter.thy ===== *)
theory Mixer_Meter
  imports Complex_Main Jam_Prelude
begin

text \<open>
  Gain smoothing, mixing and soft clipping (\<open>crates/jam-audio/src/mixer.rs\<close>) and level metering
  (\<open>crates/jam-audio/src/meter.rs\<close>). Samples and gains are exact reals: rounding, infinities and
  NaN are not modelled. A level published through an atomic as its bits is the value itself.
\<close>

section \<open>Gain smoothing\<close>

record smoothed_gain =
  sg_current :: real
  sg_alpha :: real

definition smoothed_gain_new :: "real \<Rightarrow> nat \<Rightarrow> u32 \<Rightarrow> smoothed_gain" where
  "smoothed_gain_new initial frame_samples rate =
     (let frame_s = real frame_samples / real (unat rate); tau = 10 / 1000
      in \<lparr>sg_current = initial, sg_alpha = 1 - exp (- frame_s / tau)\<rparr>)"

definition sg_next :: "real \<Rightarrow> smoothed_gain \<Rightarrow> smoothed_gain \<times> real" where
  "sg_next target g =
     (let g = g\<lparr>sg_current := sg_current g + (target - sg_current g) * sg_alpha g\<rparr>;
          g = (if \<bar>sg_current g - target\<bar> < 1 / 10000 then g\<lparr>sg_current := target\<rparr> else g)
      in (g, sg_current g))"

section \<open>Mixing and clipping\<close>

text \<open>The loops over \<open>dst.iter_mut().zip(src)\<close> leave the samples beyond the shorter slice alone.\<close>

fun mix_scaled :: "real list \<Rightarrow> real list \<Rightarrow> real \<Rightarrow> real list" where
  "mix_scaled (d # dst) (s # src) gain = (d + s * gain) # mix_scaled dst src gain"
| "mix_scaled dst _ _ = dst"

fun unmix_scaled :: "real list \<Rightarrow> real list \<Rightarrow> real \<Rightarrow> real list" where
  "unmix_scaled (d # dst) (s # src) gain = (d - s * gain) # unmix_scaled dst src gain"
| "unmix_scaled dst _ _ = dst"

definition soft_clip :: "real \<Rightarrow> real" where
  "soft_clip x = (if x \<ge> 1 then 2 / 3 else if x \<le> - 1 then - 2 / 3 else x - x * x * x / 3)"

definition soft_clip_buf :: "real list \<Rightarrow> real list" where
  "soft_clip_buf buf = map soft_clip buf"

definition frame_rms :: "real list \<Rightarrow> real" where
  "frame_rms buf =
     (if buf = [] then 0 else sqrt (sum_list (map (\<lambda>x. x * x) buf) / real (length buf)))"

definition LOW_ENERGY_RMS :: real where "LOW_ENERGY_RMS = 3 / 1000"

section \<open>Meters\<close>

record meter =
  m_peak :: real
  m_rms_sq_avg :: real

definition meter_new :: meter where "meter_new = \<lparr>m_peak = 0, m_rms_sq_avg = 0\<rparr>"

text \<open>The loop of \<open>update\<close>: the largest magnitude and the sum of squares, front to back.\<close>

fun meter_scan :: "real list \<Rightarrow> real \<Rightarrow> real \<Rightarrow> real \<times> real" where
  "meter_scan [] peak sq = (peak, sq)"
| "meter_scan (x # xs) peak sq =
     meter_scan xs (let a = \<bar>x\<bar> in if a > peak then a else peak) (sq + x * x)"

definition meter_update :: "real list \<Rightarrow> meter \<Rightarrow> meter" where
  "meter_update frame m =
     (case meter_scan frame 0 0 of (peak, sq) \<Rightarrow>
        let m = m\<lparr>m_peak := max (m_peak m * (995 / 1000)) peak\<rparr>;
            rms_sq = sq / real (max (length frame) 1)
        in m\<lparr>m_rms_sq_avg := m_rms_sq_avg m + (rms_sq - m_rms_sq_avg m) * (12 / 100)\<rparr>)"

record shared_level =
  lv_peak :: real
  lv_rms :: real

definition level_default :: shared_level where "level_default = \<lparr>lv_peak = 0, lv_rms = 0\<rparr>"

definition meter_publish :: "meter \<Rightarrow> shared_level \<Rightarrow> shared_level" where
  "meter_publish m l = l\<lparr>lv_peak := m_peak m, lv_rms := sqrt (m_rms_sq_avg m)\<rparr>"

definition linear_to_db :: "real \<Rightarrow> real" where
  "linear_to_db x = (if x \<le> 1 / 1000000 then - 120 else 20 * log 10 x)"

definition rms_db :: "shared_level \<Rightarrow> real" where "rms_db l = linear_to_db (lv_rms l)"
definition peak_db :: "shared_level \<Rightarrow> real" where "peak_db l = linear_to_db (lv_peak l)"

section \<open>The gain converges\<close>

definition gain_after :: "nat \<Rightarrow> real \<Rightarrow> smoothed_gain \<Rightarrow> smoothed_gain" where
  "gain_after n t g = ((\<lambda>g. fst (sg_next t g)) ^^ n) g"

lemma gain_after_simps [simp]:
  "gain_after 0 t g = g" "gain_after (Suc n) t g = fst (sg_next t (gain_after n t g))"
  by (simp_all add: gain_after_def)

lemma sg_next_alpha [simp]: "sg_alpha (fst (sg_next t g)) = sg_alpha g"
  by (simp add: sg_next_def Let_def)

lemma gain_after_alpha [simp]: "sg_alpha (gain_after n t g) = sg_alpha g"
  by (induction n) simp_all

lemma sg_next_error:
  "\<lbrakk>0 \<le> sg_alpha g; sg_alpha g \<le> 1\<rbrakk> \<Longrightarrow>
   \<bar>sg_current (fst (sg_next t g)) - t\<bar> \<le> (1 - sg_alpha g) * \<bar>sg_current g - t\<bar>"
proof -
  assume a: "0 \<le> sg_alpha g" "sg_alpha g \<le> 1"
  have "sg_current g + (t - sg_current g) * sg_alpha g - t = (1 - sg_alpha g) * (sg_current g - t)"
    by (simp add: algebra_simps)
  with a show ?thesis by (simp add: sg_next_def Let_def abs_mult)
qed

lemma gain_after_error:
  assumes "0 \<le> sg_alpha g" "sg_alpha g \<le> 1"
  shows "\<bar>sg_current (gain_after n t g) - t\<bar> \<le> (1 - sg_alpha g) ^ n * \<bar>sg_current g - t\<bar>"
proof (induction n)
  case (Suc n)
  have "\<bar>sg_current (gain_after (Suc n) t g) - t\<bar>
      \<le> (1 - sg_alpha g) * \<bar>sg_current (gain_after n t g) - t\<bar>"
    using sg_next_error [of "gain_after n t g" t] assms by simp
  also have "\<dots> \<le> (1 - sg_alpha g) * ((1 - sg_alpha g) ^ n * \<bar>sg_current g - t\<bar>)"
    using Suc assms by (intro mult_left_mono) auto
  finally show ?case by simp
qed simp

lemma sg_next_snaps: "\<bar>sg_current (fst (sg_next t g)) - t\<bar> < 1 / 10000 \<Longrightarrow> sg_current (fst (sg_next t g)) = t"
  by (simp add: sg_next_def Let_def split: if_splits)

lemma one_minus_exp:
  "0 < (x :: real) \<Longrightarrow> 0 < 1 - exp (- x / (10 / 1000)) \<and> 1 - exp (- x / (10 / 1000)) < 1"
  by simp

lemma smoothed_gain_alpha:
  assumes "0 < frame_samples" "rate \<noteq> 0"
  shows "0 < sg_alpha (smoothed_gain_new v frame_samples rate)"
    and "sg_alpha (smoothed_gain_new v frame_samples rate) < 1"
proof -
  have "0 < unat rate" using assms(2) by (simp add: unat_gt_0)
  then have "0 < real frame_samples / real (unat rate)" using assms(1)
    by (intro divide_pos_pos) (simp_all del: of_nat_unat)
  then have "0 < 1 - exp (- (real frame_samples / real (unat rate)) / (10 / 1000))
      \<and> 1 - exp (- (real frame_samples / real (unat rate)) / (10 / 1000)) < 1"
    by (rule one_minus_exp)
  then show "0 < sg_alpha (smoothed_gain_new v frame_samples rate)"
    "sg_alpha (smoothed_gain_new v frame_samples rate) < 1"
    unfolding smoothed_gain_new_def Let_def smoothed_gain.simps by blast+
qed

text \<open>A gain control reaches the value the user asked for, from any value and for every frame
  size: after finitely many frames the applied gain is exactly the target, it stays there, and
  on the way no frame is further from the target than the one before.\<close>

theorem gain_reaches_target:
  assumes "0 < frame_samples" and "rate \<noteq> 0"
  shows "\<exists>n. \<forall>k. sg_current (gain_after (n + k) t (smoothed_gain_new v frame_samples rate)) = t
    \<and> \<bar>sg_current (gain_after (Suc k) t (smoothed_gain_new v frame_samples rate)) - t\<bar>
       \<le> \<bar>sg_current (gain_after k t (smoothed_gain_new v frame_samples rate)) - t\<bar>"
proof -
  let ?g = "smoothed_gain_new v frame_samples rate"
  note alpha = smoothed_gain_alpha [OF assms, of v]
  have "(\<lambda>n. (1 - sg_alpha ?g) ^ n * \<bar>sg_current ?g - t\<bar>) \<longlonglongrightarrow> 0 * \<bar>sg_current ?g - t\<bar>"
    using alpha by (intro tendsto_mult LIMSEQ_power_zero tendsto_const) auto
  then have "\<forall>\<^sub>F n in sequentially. (1 - sg_alpha ?g) ^ n * \<bar>sg_current ?g - t\<bar> < 1 / 10000"
    by (rule order_tendstoD) simp
  then obtain n where n: "\<And>k. n \<le> k \<Longrightarrow> (1 - sg_alpha ?g) ^ k * \<bar>sg_current ?g - t\<bar> < 1 / 10000"
    unfolding eventually_sequentially by blast
  have reach: "sg_current (gain_after (Suc n + k) t ?g) = t" for k
  proof -
    have "\<bar>sg_current (gain_after (Suc n + k) t ?g) - t\<bar>
        \<le> (1 - sg_alpha ?g) ^ (Suc n + k) * \<bar>sg_current ?g - t\<bar>"
      using alpha by (intro gain_after_error) auto
    also have "\<dots> < 1 / 10000" by (rule n) simp
    finally show ?thesis using sg_next_snaps [of t "gain_after (n + k) t ?g"] by simp
  qed
  have closer: "\<bar>sg_current (gain_after (Suc k) t ?g) - t\<bar> \<le> \<bar>sg_current (gain_after k t ?g) - t\<bar>" for k
  proof -
    have "\<bar>sg_current (gain_after (Suc k) t ?g) - t\<bar>
        \<le> (1 - sg_alpha ?g) * \<bar>sg_current (gain_after k t ?g) - t\<bar>"
      using sg_next_error [of "gain_after k t ?g" t] alpha by simp
    also have "\<dots> \<le> 1 * \<bar>sg_current (gain_after k t ?g) - t\<bar>"
      using alpha by (intro mult_right_mono) auto
    finally show ?thesis by simp
  qed
  show ?thesis using reach closer by blast
qed

lemma gain_reaches_target_witness:
  "\<exists>n. sg_current (gain_after n 1 (smoothed_gain_new 0 120 48000)) = 1"
proof -
  from gain_reaches_target [of 120 48000 1 0]
  obtain n where "\<And>k. sg_current (gain_after (n + k) 1 (smoothed_gain_new 0 120 48000)) = 1" by auto
  then show ?thesis by blast
qed

section \<open>The mixer is bounded and reversible\<close>

lemma cubic_mono:
  fixes x y :: real
  assumes "- 1 \<le> x" "x \<le> y" "y \<le> 1"
  shows "x - x * x * x / 3 \<le> y - y * y * y / 3"
proof -
  have "x * x \<le> 1" "y * y \<le> 1" "x * y \<le> 1"
    using assms abs_le_square_iff [of x 1] abs_le_square_iff [of y 1] mult_mono [of "\<bar>x\<bar>" 1 "\<bar>y\<bar>" 1]
    by (auto simp: power2_eq_square simp flip: abs_mult)
  then have "0 \<le> (y - x) * (1 - (x * x + x * y + y * y) / 3)"
    using assms by (intro mult_nonneg_nonneg) auto
  then show ?thesis by (simp add: field_simps)
qed

lemma soft_clip_mono: "x \<le> y \<Longrightarrow> soft_clip x \<le> soft_clip y"
  using cubic_mono [of x y] cubic_mono [of x 1] cubic_mono [of "- 1" y] cubic_mono [of "- 1" 1]
  by (auto simp: soft_clip_def)

lemma soft_clip_range: "- (2 / 3) \<le> soft_clip x \<and> soft_clip x \<le> 2 / 3"
  using cubic_mono [of x 1] cubic_mono [of "- 1" x] by (auto simp: soft_clip_def)

lemma soft_clip_odd: "soft_clip (- x) = - soft_clip x"
  by (auto simp: soft_clip_def)

lemma mix_inverse: "unmix_scaled (mix_scaled dst src g) src g = dst"
  by (induction dst src g rule: mix_scaled.induct) auto

lemma length_mix [simp]: "length (mix_scaled dst src g) = length dst"
  by (induction dst src g rule: mix_scaled.induct) auto

lemma mix_commute: "mix_scaled (mix_scaled dst a g) b h = mix_scaled (mix_scaled dst b h) a g"
proof (induction dst arbitrary: a b)
  case (Cons d dst)
  then show ?case by (cases a; cases b) auto
qed (cases a; cases b; simp)

text \<open>What the mixer sends out is bounded whatever the players send: every clipped sample is
  at most two thirds of full scale in magnitude, the clipper never makes a louder sample softer
  than a quieter one, and it treats both signs alike.\<close>

theorem soft_clip_bounds:
  "list_all (\<lambda>y. \<bar>y\<bar> \<le> 2 / 3) (soft_clip_buf buf)
   \<and> length (soft_clip_buf buf) = length buf
   \<and> mono soft_clip \<and> soft_clip (- x) = - soft_clip x"
proof -
  have "\<bar>soft_clip y\<bar> \<le> 2 / 3" for y using soft_clip_range [of y] by linarith
  then have "list_all (\<lambda>y. \<bar>y\<bar> \<le> 2 / 3) (soft_clip_buf buf)"
    by (simp add: soft_clip_buf_def list_all_iff)
  moreover have "mono soft_clip" by (rule monoI) (rule soft_clip_mono)
  ultimately show ?thesis by (simp add: soft_clip_buf_def soft_clip_odd)
qed

text \<open>Mix-minus-self is exact: summing any players into a bus in any order and subtracting one
  of them leaves the bus of the others.\<close>

theorem mix_minus_self:
  "unmix_scaled (mix_scaled (mix_scaled (mix_scaled bus a ga) own g) b gb) own g
     = mix_scaled (mix_scaled bus a ga) b gb"
  by (simp add: mix_commute [of "mix_scaled bus a ga" own g b gb] mix_inverse)

section \<open>Meters stay in range\<close>

lemma meter_scan_bounds:
  assumes "list_all (\<lambda>x. \<bar>x\<bar> \<le> A) xs" "0 \<le> p" "p \<le> A" "0 \<le> s" "s \<le> real n * A ^ 2"
  shows "0 \<le> fst (meter_scan xs p s) \<and> fst (meter_scan xs p s) \<le> A
    \<and> 0 \<le> snd (meter_scan xs p s) \<and> snd (meter_scan xs p s) \<le> real (n + length xs) * A ^ 2"
  using assms
proof (induction xs arbitrary: p s n)
  case (Cons x xs)
  have sq: "x * x \<le> A ^ 2" "0 \<le> x * x"
    using Cons.prems abs_le_square_iff [of x A] by (auto simp: power2_eq_square)
  have "s + x * x \<le> real (Suc n) * A ^ 2" using Cons.prems(5) sq by (simp add: algebra_simps)
  with Cons.IH [of "if \<bar>x\<bar> > p then \<bar>x\<bar> else p" "s + x * x" "Suc n"] Cons.prems sq
  show ?case by (simp add: Let_def)
qed simp

definition meter_ok :: "real \<Rightarrow> meter \<Rightarrow> bool" where
  "meter_ok A m \<longleftrightarrow> 0 \<le> m_peak m \<and> m_peak m \<le> A \<and> 0 \<le> m_rms_sq_avg m \<and> m_rms_sq_avg m \<le> A ^ 2"

definition meter_step :: "real list \<Rightarrow> meter \<Rightarrow> meter \<times> shared_level list" where
  "meter_step frame m = (let m = meter_update frame m in (m, [meter_publish m level_default]))"

lemma average_bounds:
  fixes m :: real
  assumes "0 \<le> m" "m \<le> B" "0 \<le> r" "r \<le> B"
  shows "0 \<le> m + (r - m) * (12 / 100) \<and> m + (r - m) * (12 / 100) \<le> B"
  using assms by (simp add: field_simps)

lemma meter_update_fields:
  "meter_scan frame 0 0 = (p, s) \<Longrightarrow>
   m_peak (meter_update frame m) = max (m_peak m * (995 / 1000)) p
   \<and> m_rms_sq_avg (meter_update frame m)
      = m_rms_sq_avg m + (s / real (max (length frame) 1) - m_rms_sq_avg m) * (12 / 100)"
  by (simp add: meter_update_def Let_def)

lemma meter_update_ok:
  assumes "list_all (\<lambda>x. \<bar>x\<bar> \<le> A) frame" "meter_ok A m"
  shows "meter_ok A (meter_update frame m)"
proof -
  obtain p s where ps: "meter_scan frame 0 0 = (p, s)" by fastforce
  have A: "0 \<le> A" using assms(2) by (simp add: meter_ok_def)
  have b: "0 \<le> p" "p \<le> A" "0 \<le> s" "s \<le> real (length frame) * A ^ 2"
    using meter_scan_bounds [OF assms(1), of 0 0 0] A ps by auto
  let ?r = "s / real (max (length frame) 1)"
  have "0 \<le> ?r" using b by simp
  have "s \<le> real (max (length frame) 1) * A ^ 2"
    using b(4) by (rule order_trans) (intro mult_right_mono; simp)
  then have "?r \<le> A ^ 2" by (simp add: pos_divide_le_eq mult.commute)
  have "m_peak m * (995 / 1000) \<le> A" using assms(2) by (simp add: meter_ok_def)
  moreover have "0 \<le> m_rms_sq_avg (meter_update frame m) \<and> m_rms_sq_avg (meter_update frame m) \<le> A ^ 2"
    using average_bounds [of "m_rms_sq_avg m" "A ^ 2" ?r] assms(2) \<open>0 \<le> ?r\<close> \<open>?r \<le> A ^ 2\<close>
      meter_update_fields [OF ps] unfolding meter_ok_def by presburger
  ultimately show ?thesis
    using meter_update_fields [OF ps, of m] b(1,2) unfolding meter_ok_def by auto
qed

definition level_ok :: "real \<Rightarrow> shared_level \<Rightarrow> bool" where
  "level_ok A l \<longleftrightarrow> 0 \<le> lv_peak l \<and> lv_peak l \<le> A \<and> 0 \<le> lv_rms l \<and> lv_rms l \<le> A"

lemma publish_ok: "meter_ok A m \<Longrightarrow> level_ok A (meter_publish m l)"
  using real_sqrt_le_mono [of "m_rms_sq_avg m" "A ^ 2"]
  by (simp add: meter_ok_def level_ok_def meter_publish_def)

interpretation levels: event_machine meter_step "list_all (\<lambda>x. \<bar>x\<bar> \<le> A)" "meter_ok A" "level_ok A"
  by unfold_locales (auto simp: meter_step_def Let_def meter_update_ok publish_ok)

text \<open>A meter never shows more than was played: over any frames whose samples stay within
  \<open>A\<close>, every published peak and RMS level lies between zero and \<open>A\<close>.\<close>

theorem meter_bounds:
  assumes "list_all (list_all (\<lambda>x. \<bar>x\<bar> \<le> A)) frames" and "0 \<le> A"
  shows "list_all (level_ok A) (snd (run meter_step frames meter_new))"
proof -
  have "meter_ok A meter_new" using assms(2) by (simp add: meter_ok_def meter_new_def)
  then show ?thesis using levels.run_out [of frames A meter_new] assms(1) by (simp add: list_all_iff)
qed

lemma meter_bounds_witness:
  "list_all (level_ok (1 / 2)) (snd (run meter_step [[1 / 2, - 1 / 4], [0, 0]] meter_new))"
  by (rule meter_bounds) simp_all

end
