(* ===== verification/Shared_State.thy ===== *)
theory Shared_State
  imports Host_Handshake Jitter_Buffer Mixer_Meter
begin

text \<open>
  What the threads of one process share (\<open>crates/jam-core/src/lib.rs\<close>): the engine parameters,
  one \<open>StreamShared\<close> per remote stream, \<open>HostShared\<close> with its mute and solo flags, and
  \<open>ClientShared\<close>. An atomic is the field it holds; every operation of the model runs alone,
  its loads and stores in program order. The arrays have the sizes \<open>shared_ok\<close> says; an access
  \<open>shared.clients[slot]\<close> with a computed slot is \<open>client_at\<close> or \<open>store_client\<close>, whose \<open>None\<close> is the
  panic of an index out of range.
\<close>

section \<open>Parameters\<close>

datatype monitor_mode = Direct | ThroughMix | MonitorOff

record engine_params =
  ep_sample_rate :: u32
  ep_frame_samples :: nat
  ep_codec :: codec
  bitrate_bps :: int
  redundancy :: bool
  monitor :: monitor_mode
  jitter_fixed :: "int option"
  drift_correction :: bool
  simulate_loss :: real
  echo :: bool

definition engine_params_default :: engine_params where
  "engine_params_default =
     \<lparr>ep_sample_rate = 48000, ep_frame_samples = 120, ep_codec = Opus, bitrate_bps = 96000,
      redundancy = False, monitor = Direct, jitter_fixed = None, drift_correction = True,
      simulate_loss = 0, echo = False\<rparr>"

section \<open>Shared streams\<close>

record stream_shared =
  active :: bool
  jb :: jitter_buffer
  level :: shared_level
  last_rx_us :: u64
  rtt_us :: u32

definition stream_default :: stream_shared where
  "stream_default =
     \<lparr>active = False, jb = jb_new, level = level_default, last_rx_us = 0, rtt_us = 0\<rparr>"

record host_shared =
  hs_session_id :: u16
  clients :: "stream_shared list"
  gains :: "real list"
  muted :: "bool list"
  soloed :: "bool list"
  hs_monitor_gain :: real
  hs_local_level :: shared_level
  hs_capture_starved :: u64
  hs_shutdown :: bool

definition host_shared_new :: "u16 \<Rightarrow> host_shared" where
  "host_shared_new sid =
     \<lparr>hs_session_id = sid, clients = replicate MAX_CLIENTS stream_default,
      gains = replicate (MAX_CLIENTS + 1) 1, muted = replicate (MAX_CLIENTS + 1) False,
      soloed = replicate (MAX_CLIENTS + 1) False, hs_monitor_gain = 1,
      hs_local_level = level_default, hs_capture_starved = 0, hs_shutdown = False\<rparr>"

definition solo_counts :: "host_shared \<Rightarrow> nat \<Rightarrow> bool" where
  "solo_counts sh p =
     (if muted sh ! p then False else p = 0 \<or> active (clients sh ! (p - 1)))"

definition any_solo :: "host_shared \<Rightarrow> bool" where
  "any_solo sh = list_ex (\<lambda>p. soloed sh ! p \<and> solo_counts sh p) [0..<length (soloed sh)]"

definition in_mix :: "host_shared \<Rightarrow> nat \<Rightarrow> bool \<Rightarrow> bool" where
  "in_mix sh p solo \<longleftrightarrow> \<not> muted sh ! p \<and> (\<not> solo \<or> soloed sh ! p)"

record client_shared =
  joined :: bool
  cs_sender_id :: u16
  cs_session_id :: u16
  from_host :: stream_shared
  cs_monitor_gain :: real
  master_gain :: real
  cs_local_level :: shared_level
  cs_capture_starved :: u64
  cs_shutdown :: bool

definition client_shared_default :: client_shared where
  "client_shared_default =
     \<lparr>joined = False, cs_sender_id = UNJOINED_SENDER_ID, cs_session_id = 0,
      from_host = stream_default, cs_monitor_gain = 1, master_gain = 1,
      cs_local_level = level_default, cs_capture_starved = 0, cs_shutdown = False\<rparr>"

section \<open>Array sizes\<close>

definition shared_ok :: "host_shared \<Rightarrow> bool" where
  "shared_ok sh \<longleftrightarrow> length (clients sh) = MAX_CLIENTS \<and> length (gains sh) = MAX_CLIENTS + 1
     \<and> length (muted sh) = MAX_CLIENTS + 1 \<and> length (soloed sh) = MAX_CLIENTS + 1"

lemma host_shared_new_ok [simp]: "shared_ok (host_shared_new sid)"
  by (simp add: shared_ok_def host_shared_new_def)

section \<open>Mute and solo\<close>

text \<open>The players who are there: the host, and every client whose slot is active.\<close>

definition present :: "host_shared \<Rightarrow> nat \<Rightarrow> bool" where
  "present sh p \<longleftrightarrow> p = 0 \<or> p \<le> MAX_CLIENTS \<and> active (clients sh ! (p - 1))"

text \<open>What a listener expects of the two flags: a player is heard when he is there, is not
  muted, and no audible player is soloed unless he is soloed himself.\<close>

definition heard :: "host_shared \<Rightarrow> nat \<Rightarrow> bool" where
  "heard sh p \<longleftrightarrow> present sh p \<and> \<not> muted sh ! p
     \<and> ((\<exists>q. q \<le> MAX_CLIENTS \<and> present sh q \<and> \<not> muted sh ! q \<and> soloed sh ! q) \<longrightarrow> soloed sh ! p)"

lemma any_solo_iff:
  "shared_ok sh \<Longrightarrow>
   any_solo sh \<longleftrightarrow> (\<exists>q. q \<le> MAX_CLIENTS \<and> present sh q \<and> \<not> muted sh ! q \<and> soloed sh ! q)"
proof -
  assume "shared_ok sh"
  then have "length (soloed sh) = Suc MAX_CLIENTS" by (simp add: shared_ok_def)
  then have "any_solo sh \<longleftrightarrow> (\<exists>q < Suc MAX_CLIENTS. soloed sh ! q \<and> solo_counts sh q)"
    by (auto simp: any_solo_def list_ex_iff simp del: upt_Suc)
  then show ?thesis unfolding less_Suc_eq_le solo_counts_def present_def by auto
qed

lemma in_mix_iff_heard: "shared_ok sh \<Longrightarrow> present sh p \<and> in_mix sh p (any_solo sh) \<longleftrightarrow> heard sh p"
  by (auto simp: any_solo_iff in_mix_def heard_def)

text \<open>Mute and solo do what the players expect: with the solo flag evaluated once per frame,
  the players summed into the mix are those who are there, not muted, and soloed when an audible
  player is soloed. A solo on an empty slot or on a muted player changes nothing, and the room
  goes silent only when every player who is there is muted.\<close>

theorem solo_and_mute:
  assumes "shared_ok sh"
  shows "(present sh p \<and> in_mix sh p (any_solo sh) \<longleftrightarrow> heard sh p)
    \<and> ((\<exists>q. q \<le> MAX_CLIENTS \<and> present sh q \<and> in_mix sh q (any_solo sh))
       \<longleftrightarrow> (\<exists>q. q \<le> MAX_CLIENTS \<and> present sh q \<and> \<not> muted sh ! q))"
  using in_mix_iff_heard [OF assms] by (auto simp: any_solo_iff [OF assms] in_mix_def)

definition ex_room :: host_shared where
  "ex_room = (host_shared_new 7)\<lparr>
     clients := [stream_default\<lparr>active := True\<rparr>, stream_default, stream_default, stream_default],
     muted := [False, True, False, False, False], soloed := [False, True, True, False, False]\<rparr>"

lemma solo_and_mute_witness:
  "(present ex_room 0 \<and> in_mix ex_room 0 (any_solo ex_room) \<longleftrightarrow> heard ex_room 0)
   \<and> present ex_room 0 \<and> in_mix ex_room 0 (any_solo ex_room)"
proof -
  have "shared_ok ex_room" by (simp add: ex_room_def host_shared_new_def shared_ok_def MAX_CLIENTS_def)
  from solo_and_mute [OF this, of 0]
  have "present ex_room 0 \<and> in_mix ex_room 0 (any_solo ex_room) \<longleftrightarrow> heard ex_room 0" by blast
  moreover have "present ex_room 0 \<and> in_mix ex_room 0 (any_solo ex_room)"
    by (simp add: present_def in_mix_def any_solo_def solo_counts_def ex_room_def host_shared_new_def
        upt_rec stream_default_def MAX_CLIENTS_def)
  ultimately show ?thesis by blast
qed

section \<open>One slot at a time\<close>

definition upd_client :: "nat \<Rightarrow> (stream_shared \<Rightarrow> stream_shared) \<Rightarrow> host_shared \<Rightarrow> host_shared" where
  "upd_client slot f sh = sh\<lparr>clients := (clients sh)[slot := f (clients sh ! slot)]\<rparr>"

lemma upd_client_ok [simp]: "shared_ok (upd_client slot f sh) = shared_ok sh"
  by (simp add: upd_client_def shared_ok_def)

lemma upd_client_other: "j \<noteq> i \<Longrightarrow> clients (upd_client i f sh) ! j = clients sh ! j"
  by (simp add: upd_client_def)

lemma upd_client_same: "i < length (clients sh) \<Longrightarrow> clients (upd_client i f sh) ! i = f (clients sh ! i)"
  by (simp add: upd_client_def)

lemma upd_client_fields [simp]:
  "hs_session_id (upd_client i f sh) = hs_session_id sh" "muted (upd_client i f sh) = muted sh"
  "soloed (upd_client i f sh) = soloed sh" "length (clients (upd_client i f sh)) = length (clients sh)"
  by (simp_all add: upd_client_def)

text \<open>\<open>&shared.clients[slot]\<close>, an array of \<open>MAX_CLIENTS\<close> streams, read and stored to.\<close>

definition client_at :: "nat \<Rightarrow> host_shared \<Rightarrow> stream_shared option" where
  "client_at slot sh = array_get MAX_CLIENTS (clients sh) slot"

definition store_client :: "nat \<Rightarrow> (stream_shared \<Rightarrow> stream_shared) \<Rightarrow> host_shared \<Rightarrow> host_shared option" where
  "store_client slot f sh =
     Option.bind (client_at slot sh) (\<lambda>st.
       map_option (\<lambda>cs. sh\<lparr>clients := cs\<rparr>) (array_set MAX_CLIENTS slot (f st) (clients sh)))"

lemma client_in [simp]: "slot < MAX_CLIENTS \<Longrightarrow> client_at slot sh = Some (clients sh ! slot)"
  by (simp add: client_at_def)

lemma store_client_in [simp]: "slot < MAX_CLIENTS \<Longrightarrow> store_client slot f sh = Some (upd_client slot f sh)"
  by (simp add: store_client_def upd_client_def)

lemma store_client_eq_Some: "store_client slot f sh = Some sh' \<longleftrightarrow> slot < MAX_CLIENTS \<and> sh' = upd_client slot f sh"
  by (auto simp: store_client_def client_at_def array_get_def upd_client_def)

lemma store_client_ok: "store_client slot f sh = Some sh' \<Longrightarrow> shared_ok sh' = shared_ok sh"
  by (auto simp: store_client_eq_Some)

end
