(* ===== verification/Playout_Policy.thy ===== *)
theory Playout_Policy
  imports Jam_Prelude Complex_Main
begin

text \<open>
  The adaptive playout policy of \<open>crates/jam-audio/src/jitter.rs\<close>: \<open>PlayoutController\<close> and
  \<open>ArrivalJitter\<close>. Floating-point values are exact reals here: rounding, infinities and NaN
  are not modelled. A cast from a float to an integer type truncates and saturates. Signed
  32-bit additions wrap (the release profile), counters are 32-bit words.
\<close>

section \<open>Casts and 32-bit arithmetic\<close>

definition f_to_u32 :: "real \<Rightarrow> u32" where
  "f_to_u32 r = word_of_int (max 0 (min (2 ^ 32 - 1) \<lfloor>r\<rfloor>))"

text \<open>\<open>r.ceil() as i32\<close>\<close>

definition ceil_i32 :: "real \<Rightarrow> int" where
  "ceil_i32 r = max (- (2 ^ 31)) (min (2 ^ 31 - 1) \<lceil>r\<rceil>)"

definition i32_add :: "int \<Rightarrow> int \<Rightarrow> int" where
  "i32_add a b = sint (word_of_int (a + b) :: 32 word)"

definition i32_sub :: "int \<Rightarrow> int \<Rightarrow> int" where
  "i32_sub a b = sint (word_of_int (a - b) :: 32 word)"

definition i32_clamp :: "int \<Rightarrow> int \<Rightarrow> int \<Rightarrow> int" where
  "i32_clamp x lo hi = (if x < lo then lo else if hi < x then hi else x)"

lemma sint_32_small: "\<lbrakk>- (2 ^ 31) \<le> x; x < 2 ^ 31\<rbrakk> \<Longrightarrow> sint (word_of_int x :: 32 word) = x"
  by (simp add: sint_sbintrunc' signed_take_bit_int_eq_self)

lemma i32_exact:
  "\<lbrakk>- (2 ^ 31) \<le> a + b; a + b < 2 ^ 31\<rbrakk> \<Longrightarrow> i32_add a b = a + b"
  "\<lbrakk>- (2 ^ 31) \<le> a - b; a - b < 2 ^ 31\<rbrakk> \<Longrightarrow> i32_sub a b = a - b"
  by (simp_all only: i32_add_def i32_sub_def sint_32_small)

lemma clamp_bounds: "lo \<le> hi \<Longrightarrow> lo \<le> i32_clamp x lo hi \<and> i32_clamp x lo hi \<le> hi"
  by (simp add: i32_clamp_def)

section \<open>The controller\<close>

datatype adjust = NoAdjust | DropOne | InsertOne

record playout_controller =
  frame_us :: real
  min_frames :: int
  max_frames :: int
  pc_k :: real
  pc_target :: int
  eval_interval_frames :: u32
  frames_since_eval :: u32
  primed :: bool
  consecutive_misses :: u32
  reset_after_misses :: u32
  pc_pending :: adjust
  deadband :: int

definition controller_new :: "nat \<Rightarrow> u32 \<Rightarrow> playout_controller" where
  "controller_new frame_samples rate =
     (let frame_us = real frame_samples * 1000000 / real (unat rate) in
      \<lparr>frame_us = frame_us, min_frames = 2, max_frames = 20, pc_k = 3, pc_target = 2,
       eval_interval_frames = f_to_u32 (2000000 / frame_us), frames_since_eval = 0, primed = False,
       consecutive_misses = 0, reset_after_misses = f_to_u32 (500000 / frame_us),
       pc_pending = NoAdjust, deadband = 1\<rparr>)"

definition set_fixed :: "int \<Rightarrow> playout_controller \<Rightarrow> playout_controller" where
  "set_fixed frames c = c\<lparr>min_frames := frames, max_frames := frames, pc_target := frames\<rparr>"

definition pre_pop :: "int \<Rightarrow> bool \<Rightarrow> playout_controller \<Rightarrow> playout_controller \<times> bool" where
  "pre_pop depth started c =
     (if \<not> primed c then
        let c = (if started \<and> pc_target c \<le> depth then c\<lparr>primed := True, consecutive_misses := 0\<rparr> else c)
        in (c, primed c)
      else (c, True))"

definition post_pop :: "bool \<Rightarrow> real \<Rightarrow> playout_controller \<Rightarrow> playout_controller \<times> bool" where
  "post_pop hit jitter_us c =
     (let c1 = (if hit then c\<lparr>consecutive_misses := 0\<rparr>
                else c\<lparr>consecutive_misses := consecutive_misses c + 1\<rparr>)
      in if \<not> hit \<and> reset_after_misses c1 \<le> consecutive_misses c1
         then (c1\<lparr>primed := False, consecutive_misses := 0, pc_pending := NoAdjust\<rparr>, True)
         else
           let c2 = c1\<lparr>frames_since_eval := frames_since_eval c1 + 1\<rparr>
           in if eval_interval_frames c2 \<le> frames_since_eval c2
              then (c2\<lparr>frames_since_eval := 0,
                       pc_target := i32_clamp
                         (i32_add (min_frames c2) (ceil_i32 (pc_k c2 * jitter_us / frame_us c2)))
                         (min_frames c2) (max_frames c2)\<rparr>, False)
              else (c2, False))"

definition set_deadband :: "int \<Rightarrow> playout_controller \<Rightarrow> playout_controller" where
  "set_deadband frames c = c\<lparr>deadband := max frames 1\<rparr>"

definition observe_depth :: "int \<Rightarrow> playout_controller \<Rightarrow> playout_controller" where
  "observe_depth depth c =
     (if pc_pending c \<noteq> NoAdjust \<or> \<not> primed c then c
      else if i32_add (pc_target c) (deadband c) < depth then c\<lparr>pc_pending := DropOne\<rparr>
      else if depth < i32_sub (pc_target c) (deadband c) then c\<lparr>pc_pending := InsertOne\<rparr>
      else c)"

definition take_adjustment :: "playout_controller \<Rightarrow> playout_controller \<times> adjust" where
  "take_adjustment c = (c\<lparr>pc_pending := NoAdjust\<rparr>, pc_pending c)"

definition controller_reset :: "playout_controller \<Rightarrow> playout_controller" where
  "controller_reset c =
     c\<lparr>primed := False, consecutive_misses := 0, pc_pending := NoAdjust, frames_since_eval := 0\<rparr>"

section \<open>Arrival jitter\<close>

record arrival_jitter =
  aj_prev :: "(u64 \<times> u64) option"
  j_us :: real

definition arrival_new :: arrival_jitter where
  "arrival_new = \<lparr>aj_prev = None, j_us = 0\<rparr>"

text \<open>\<open>arrival_us as i64 - media_us as i64\<close>: 64-bit two's complement, wrapping.\<close>

definition transit :: "u64 \<Rightarrow> u64 \<Rightarrow> 64 word" where
  "transit arrival_us media_us = arrival_us - media_us"

definition on_arrival :: "u64 \<Rightarrow> u64 \<Rightarrow> arrival_jitter \<Rightarrow> arrival_jitter \<times> real" where
  "on_arrival arrival_us media_us a =
     (let a1 = (case aj_prev a of
            Some (pa, pm) \<Rightarrow>
              let d = real_of_int \<bar>sint (transit arrival_us media_us - transit pa pm)\<bar>
              in a\<lparr>j_us := j_us a + (d - j_us a) / 16\<rparr>
          | None \<Rightarrow> a);
          a2 = a1\<lparr>aj_prev := Some (arrival_us, media_us)\<rparr>
      in (a2, j_us a2))"

section \<open>The controller as a machine\<close>

datatype pc_event = PcPre int bool | PcPost bool real | PcObserve int | PcTake | PcReset

datatype pc_output = Playing bool | StreamReset bool | Adjusted adjust

fun pc_step :: "pc_event \<Rightarrow> playout_controller \<Rightarrow> playout_controller \<times> pc_output list" where
  "pc_step (PcPre d s) c = (case pre_pop d s c of (c', r) \<Rightarrow> (c', [Playing r]))"
| "pc_step (PcPost hit j) c = (case post_pop hit j c of (c', r) \<Rightarrow> (c', [StreamReset r]))"
| "pc_step (PcObserve d) c = (observe_depth d c, [])"
| "pc_step PcTake c = (case take_adjustment c of (c', a) \<Rightarrow> (c', [Adjusted a]))"
| "pc_step PcReset c = (controller_reset c, [])"

definition pc_inv :: "int \<Rightarrow> int \<Rightarrow> playout_controller \<Rightarrow> bool" where
  "pc_inv lo hi c \<longleftrightarrow> min_frames c = lo \<and> max_frames c = hi \<and> lo \<le> hi
     \<and> lo \<le> pc_target c \<and> pc_target c \<le> hi \<and> (pc_pending c = NoAdjust \<or> primed c)"

text \<open>An adjustment never comes out of a controller that is not playing.\<close>

lemmas pc_defs = pre_pop_def post_pop_def observe_depth_def take_adjustment_def controller_reset_def
  Let_def

interpretation controller: event_machine pc_step "\<lambda>_. True" "pc_inv lo hi" "\<lambda>_. True"
proof unfold_locales
  fix e c
  assume "pc_inv lo hi c"
  then show "pc_inv lo hi (fst (pc_step e c))"
    using clamp_bounds [of lo hi] by (cases e) (auto simp: pc_defs pc_inv_def)
qed simp

lemma controller_new_inv: "pc_inv 2 20 (controller_new n r)"
  by (simp add: controller_new_def pc_inv_def Let_def)

lemma set_fixed_inv: "pc_pending c = NoAdjust \<or> primed c \<Longrightarrow> pc_inv n n (set_fixed n c)"
  by (simp add: set_fixed_def pc_inv_def)

lemma controller_new_pending: "pc_pending (controller_new n r) = NoAdjust"
  by (simp add: controller_new_def Let_def)

lemma unat_u32_less: "unat (w :: u32) < 4294967296"
  using unsigned_less [of w, where ?'a = nat] by simp

text \<open>Misses below the limit only count; the miss that reaches it resets the stream.\<close>

lemma post_pop_counts:
  assumes "unat (consecutive_misses c) + 1 < unat (reset_after_misses c)"
  shows "snd (post_pop False j c) = False"
    "unat (consecutive_misses (fst (post_pop False j c))) = unat (consecutive_misses c) + 1"
    "reset_after_misses (fst (post_pop False j c)) = reset_after_misses c"
    "primed (fst (post_pop False j c)) = primed c"
proof -
  have "unat (consecutive_misses c + 1) = unat (consecutive_misses c) + 1"
    using assms unat_u32_less [of "reset_after_misses c"] by (subst unat_plus_if') simp
  with assms show "snd (post_pop False j c) = False"
    "unat (consecutive_misses (fst (post_pop False j c))) = unat (consecutive_misses c) + 1"
    "reset_after_misses (fst (post_pop False j c)) = reset_after_misses c"
    "primed (fst (post_pop False j c)) = primed c"
    by (simp_all add: post_pop_def Let_def word_le_nat_alt)
qed

lemma post_pop_resets:
  assumes "unat (consecutive_misses c) + 1 = unat (reset_after_misses c)"
  shows "snd (post_pop False j c)" "\<not> primed (fst (post_pop False j c))"
    "consecutive_misses (fst (post_pop False j c)) = 0"
proof -
  have "unat (consecutive_misses c + 1) = unat (consecutive_misses c) + 1"
    using assms unat_u32_less [of "reset_after_misses c"] by (subst unat_plus_if') simp
  with assms show "snd (post_pop False j c)" "\<not> primed (fst (post_pop False j c))"
    "consecutive_misses (fst (post_pop False j c)) = 0"
    by (simp_all add: post_pop_def Let_def word_le_nat_alt)
qed

lemma misses_count:
  "unat (consecutive_misses c) + length js < unat (reset_after_misses c) \<Longrightarrow>
   (case run pc_step (map (PcPost False) js) c of (c', out) \<Rightarrow>
     out = replicate (length js) (StreamReset False) \<and> primed c' = primed c
     \<and> unat (consecutive_misses c') = unat (consecutive_misses c) + length js
     \<and> reset_after_misses c' = reset_after_misses c)"
proof (induction js arbitrary: c)
  case (Cons j js)
  let ?c = "fst (post_pop False j c)"
  from Cons.prems have "unat (consecutive_misses c) + 1 < unat (reset_after_misses c)" by simp
  note step = post_pop_counts [OF this, where j = j]
  have "unat (consecutive_misses ?c) + length js < unat (reset_after_misses ?c)"
    using Cons.prems step by simp
  from Cons.IH [OF this] step show ?case
    by (cases "post_pop False j c") (auto split: prod.splits)
qed simp

section \<open>Properties\<close>

text \<open>Whatever depths, hits and jitter estimates the controller sees, its target stays between
  two and twenty frames (or at the fixed depth when one is set), also when the computed target
  overflows 32 bits.\<close>

theorem playout_target_bounds:
  "2 \<le> pc_target (fst (run pc_step es (controller_new n r)))
   \<and> pc_target (fst (run pc_step es (controller_new n r))) \<le> 20
   \<and> pc_target (fst (run pc_step es (set_fixed f (controller_new n r)))) = f"
proof -
  have "pc_inv 2 20 (fst (run pc_step es (controller_new n r)))"
    using controller.run_inv [of es 2 20] controller_new_inv by blast
  moreover have "pc_inv f f (fst (run pc_step es (set_fixed f (controller_new n r))))"
    using controller.run_inv [of es f f] set_fixed_inv controller_new_pending by blast
  ultimately show ?thesis by (simp add: pc_inv_def)
qed

text \<open>An outage is declared by the miss that makes \<open>reset_after_misses\<close> misses in a row, no
  earlier: the frames before it report no reset and keep the stream playing; that miss reports
  the reset, stops playback and clears the count.\<close>

theorem outage_resets_playout:
  assumes "consecutive_misses c = 0" and "length js + 1 = unat (reset_after_misses c)"
  shows "snd (run pc_step (map (PcPost False) (js @ [j])) c)
           = replicate (length js) (StreamReset False) @ [StreamReset True]
    \<and> primed (fst (run pc_step (map (PcPost False) js) c)) = primed c
    \<and> \<not> primed (fst (run pc_step (map (PcPost False) (js @ [j])) c))
    \<and> consecutive_misses (fst (run pc_step (map (PcPost False) (js @ [j])) c)) = 0"
proof -
  obtain c' out where run: "run pc_step (map (PcPost False) js) c = (c', out)" by fastforce
  from misses_count [of c js] assms run
  have c': "out = replicate (length js) (StreamReset False)" "primed c' = primed c"
    "unat (consecutive_misses c') + 1 = unat (reset_after_misses c')" by simp_all
  show ?thesis
    using run c' post_pop_resets [OF c'(3), where j = j]
    by (simp add: run_append case_prod_unfold)
qed

definition ex_controller :: playout_controller where
  "ex_controller = fst (pre_pop 5 True ((controller_new 240 48000)\<lparr>reset_after_misses := 3\<rparr>))"

lemma outage_resets_playout_witness:
  "snd (run pc_step (map (PcPost False) ([0, 10] @ [20])) ex_controller)
     = replicate (length [0 :: real, 10]) (StreamReset False) @ [StreamReset True]"
proof -
  have "consecutive_misses ex_controller = 0" "length [0 :: real, 10] + 1 = unat (reset_after_misses ex_controller)"
    by (simp_all add: ex_controller_def controller_new_def pre_pop_def Let_def)
  from outage_resets_playout [OF this, of 20] show ?thesis by blast
qed

text \<open>The depth policy only corrects towards its target, and only outside the deadband: from a
  playing controller with nothing pending, one observed depth latches a drop exactly when the
  buffer is deeper than target plus deadband, an insertion exactly when it is shallower than
  target minus deadband, and the callback then takes that correction once.\<close>

theorem depth_correction:
  assumes "pc_inv 2 20 c" and "primed c" and "pc_pending c = NoAdjust"
    and "1 \<le> deadband c" and "deadband c \<le> 2 ^ 30"
  shows "snd (run pc_step [PcObserve d, PcTake, PcTake] c) =
    [Adjusted (if pc_target c + deadband c < d then DropOne
               else if d < pc_target c - deadband c then InsertOne else NoAdjust),
     Adjusted NoAdjust]"
proof -
  have "2 \<le> pc_target c" "pc_target c \<le> 20" using assms(1) by (simp_all add: pc_inv_def)
  then have "i32_add (pc_target c) (deadband c) = pc_target c + deadband c"
    "i32_sub (pc_target c) (deadband c) = pc_target c - deadband c"
    using assms(4,5) by (auto intro!: i32_exact)
  with assms(2,3) show ?thesis by (simp add: observe_depth_def take_adjustment_def)
qed

lemma depth_correction_witness:
  "snd (run pc_step [PcObserve 9, PcTake, PcTake] ex_controller) = [Adjusted DropOne, Adjusted NoAdjust]"
proof -
  have *: "pc_inv 2 20 ex_controller" "primed ex_controller" "pc_pending ex_controller = NoAdjust"
    "1 \<le> deadband ex_controller" "deadband ex_controller \<le> 2 ^ 30" "pc_target ex_controller = 2"
    "deadband ex_controller = 1"
    by (simp_all add: ex_controller_def controller_new_def pre_pop_def Let_def pc_inv_def)
  from depth_correction [OF *(1-5), of 9] show ?thesis by (simp add: *(6,7))
qed

section \<open>The arrival estimate\<close>

fun aj_run :: "(u64 \<times> u64) list \<Rightarrow> arrival_jitter \<Rightarrow> arrival_jitter" where
  "aj_run [] a = a"
| "aj_run ((arr, media) # ps) a = aj_run ps (fst (on_arrival arr media a))"

text \<open>The transit change between one packet and the one before it.\<close>

fun transit_changes :: "(u64 \<times> u64) list \<Rightarrow> real list" where
  "transit_changes ((a, m) # (a', m') # ps) =
     real_of_int \<bar>sint (transit a' m' - transit a m)\<bar> # transit_changes ((a', m') # ps)"
| "transit_changes _ = []"

lemma ewma_bounds:
  "\<lbrakk>0 \<le> j; j \<le> D; 0 \<le> d; d \<le> D\<rbrakk> \<Longrightarrow> 0 \<le> j + (d - j) / 16 \<and> j + (d - j) / 16 \<le> (D :: real)"
  by (simp add: field_simps)

lemma aj_run_bounds:
  "\<lbrakk>0 \<le> j_us a; j_us a \<le> D; list_all (\<lambda>d. d \<le> D)
      (case aj_prev a of None \<Rightarrow> transit_changes ps | Some p \<Rightarrow> transit_changes (p # ps))\<rbrakk>
   \<Longrightarrow> 0 \<le> j_us (aj_run ps a) \<and> j_us (aj_run ps a) \<le> D"
proof (induction ps arbitrary: a)
  case (Cons p ps)
  obtain arr media where p: "p = (arr, media)" by fastforce
  show ?case
  proof (cases "aj_prev a")
    case None
    with Cons.prems Cons.IH [of "fst (on_arrival arr media a)"] show ?thesis
      by (simp add: p on_arrival_def Let_def)
  next
    case (Some q)
    obtain pa pm where q: "q = (pa, pm)" by fastforce
    let ?d = "real_of_int \<bar>sint (transit arr media - transit pa pm)\<bar>"
    from Cons.prems Some have "?d \<le> D" by (simp add: p q)
    with Cons.prems have "0 \<le> j_us a + (?d - j_us a) / 16" "j_us a + (?d - j_us a) / 16 \<le> D"
      using ewma_bounds [of "j_us a" D ?d] by auto
    with Cons.prems Some Cons.IH [of "fst (on_arrival arr media a)"] show ?thesis
      by (simp add: p q on_arrival_def Let_def)
  qed
qed simp

text \<open>The inter-arrival estimate is never negative and never exceeds the largest change of
  transit time it has seen.\<close>

theorem arrival_jitter_bounds:
  assumes "list_all (\<lambda>d. d \<le> D) (transit_changes ps)" and "0 \<le> D"
  shows "0 \<le> j_us (aj_run ps arrival_new) \<and> j_us (aj_run ps arrival_new) \<le> D"
  using assms aj_run_bounds [of arrival_new D ps] by (simp add: arrival_new_def)

lemma arrival_jitter_bounds_witness:
  "j_us (aj_run [(1000, 0), (6500, 5000), (10900, 10000)] arrival_new) \<le> 600
   \<and> j_us (aj_run [(1000, 0), (6500, 5000), (10900, 10000)] arrival_new) = 4275 / 64"
proof -
  have "list_all (\<lambda>d. d \<le> 600) (transit_changes [(1000, 0), (6500, 5000), (10900, 10000)])"
    by (simp add: transit_def)
  from arrival_jitter_bounds [OF this] show ?thesis
    by (simp add: arrival_new_def on_arrival_def transit_def Let_def)
qed

end
