(* ===== verification/Net_Threads.thy ===== *)
theory Net_Threads
  imports Shared_State Playout_Policy "HOL-Library.Sublist"
begin

text \<open>
  The receive and transmit threads of \<open>crates/jam-core/src/net.rs\<close>. Each thread owns its copy of
  the address table, fed by \<open>AddrUpdate\<close>s from the control thread. A socket is the list of
  datagrams it was asked to send; what \<open>recv_from\<close> returns and what the clock reads are the
  events. The shared state is the value the thread works on: one datagram is handled without
  another thread in between. An index out of range is a panic: \<open>None\<close> in the parts of a handler, and
  \<open>NetPanic\<close> among the outputs of the thread. The receive thread's \<open>jitters\<close> is a \<open>Vec\<close> of \<open>MAX_CLIENTS\<close>
  elements that never changes its size, \<open>client_addrs\<close> and \<open>clients\<close> are arrays of that size. Floats are exact
  reals.
\<close>

section \<open>Messages\<close>

definition DEST_PEER :: u8 where "DEST_PEER = 255"

record tx_item =
  tx_dest :: u8
  tx_len :: u16
  tx_buf :: "u8 list"

text \<open>\<open>TxItem::new\<close>: the copy panics (\<open>None\<close>) when the bytes exceed the buffer.\<close>

definition tx_item_new :: "u8 \<Rightarrow> u8 list \<Rightarrow> tx_item option" where
  "tx_item_new dest bytes =
     map_option (\<lambda>buf. \<lparr>tx_dest = dest, tx_len = of_nat (length bytes), tx_buf = buf\<rparr>)
       (copy_at 0 bytes (replicate MAX_DATAGRAM 0))"

datatype addr_update = UpClient u8 "socket_addr option" | UpPeer socket_addr

record ctrl_event =
  ce_from :: socket_addr
  ce_header :: header
  ce_control :: control
  ce_rx_us :: u64

datatype net_out = Sent socket_addr "u8 list" | ToControl ctrl_event | NetPanic

section \<open>The transmit thread\<close>

record tx_state =
  tx_clients :: "socket_addr option list"
  tx_peer :: "socket_addr option"
  tx_rng :: u64

definition tx_init :: tx_state where
  "tx_init = \<lparr>tx_clients = replicate MAX_CLIENTS None, tx_peer = None, tx_rng = 0x9E3779B97F4A7C15\<rparr>"

definition tx_update :: "addr_update \<Rightarrow> tx_state \<Rightarrow> tx_state option" where
  "tx_update u s =
     (case u of
        UpClient slot addr \<Rightarrow>
          if unat slot < MAX_CLIENTS
          then map_option (\<lambda>as. s\<lparr>tx_clients := as\<rparr>) (array_set MAX_CLIENTS (unat slot) addr (tx_clients s))
          else Some s
      | UpPeer addr \<Rightarrow> Some (s\<lparr>tx_peer := Some addr\<rparr>))"

text \<open>One step of the generator and the roll, a number below one.\<close>

definition lcg :: "u64 \<Rightarrow> u64" where
  "lcg r = r * 6364136223846793005 + 1442695040888963407"

definition roll :: "u64 \<Rightarrow> real" where
  "roll r = real (unat (drop_bit 40 r)) / 2 ^ 24"

definition tx_resolve :: "tx_state \<Rightarrow> u8 \<Rightarrow> socket_addr option" where
  "tx_resolve s dest =
     (if dest = DEST_PEER then tx_peer s
      else if unat dest < length (tx_clients s) then tx_clients s ! unat dest else None)"

definition tx_send_item :: "real \<Rightarrow> tx_item \<Rightarrow> tx_state \<Rightarrow> tx_state \<times> net_out list" where
  "tx_send_item loss item s =
     (let s = (if loss > 0 then s\<lparr>tx_rng := lcg (tx_rng s)\<rparr> else s)
      in if loss > 0 \<and> roll (tx_rng s) < loss then (s, [])
         else (case tx_resolve s (tx_dest item) of
             None \<Rightarrow> (s, [])
           | Some addr \<Rightarrow>
               if unat (tx_len item) \<le> length (tx_buf item)
               then (s, [Sent addr (take (unat (tx_len item)) (tx_buf item))])
               else (s, [NetPanic])))"

text \<open>One round of the loop: the pending updates, then the ring.\<close>

definition tx_round ::
  "real \<Rightarrow> addr_update list \<Rightarrow> tx_item list \<Rightarrow> tx_state \<Rightarrow> tx_state \<times> net_out list" where
  "tx_round loss updates items s =
     (case for_each tx_update updates s of
        None \<Rightarrow> (s, [NetPanic])
      | Some s \<Rightarrow> run (tx_send_item loss) items s)"

section \<open>The receive thread\<close>

record rx_state =
  rx_addrs :: "socket_addr option list"
  rx_jitters :: "arrival_jitter list"

definition rx_init :: rx_state where
  "rx_init = \<lparr>rx_addrs = replicate MAX_CLIENTS None, rx_jitters = replicate MAX_CLIENTS arrival_new\<rparr>"

definition rx_update :: "addr_update \<Rightarrow> rx_state \<Rightarrow> rx_state option" where
  "rx_update u s =
     (case u of
        UpClient slot addr \<Rightarrow>
          if unat slot < MAX_CLIENTS
          then Option.bind (array_set MAX_CLIENTS (unat slot) addr (rx_addrs s)) (\<lambda>as.
               map_option (\<lambda>js. s\<lparr>rx_addrs := as, rx_jitters := js\<rparr>)
                 (array_set MAX_CLIENTS (unat slot) arrival_new (rx_jitters s)))
          else Some s
      | UpPeer _ \<Rightarrow> Some s)"

text \<open>\<open>(timestamp as f64 * us_per_sample) as u64\<close>, truncating and saturating\<close>

definition media_us :: "u32 \<Rightarrow> u32 \<Rightarrow> u64" where
  "media_us rate ts =
     word_of_int (max 0 (min (2 ^ 64 - 1) \<lfloor>real (unat ts) * (1000000 / real (unat rate))\<rfloor>))"

text \<open>The payload and, when the packet carries one, the copy of the previous frame.\<close>

definition push_audio :: "nat \<Rightarrow> header \<Rightarrow> audio_packet \<Rightarrow> jitter_buffer \<Rightarrow> jitter_buffer" where
  "push_audio frame h a b =
     (let b = fst (jb_push (hseq h) (timestamp a) (payload a) b)
      in case redundant a of
           None \<Rightarrow> b
         | Some red \<Rightarrow> fst (jb_push (hseq h - 1) (timestamp a - of_nat frame) red b))"

definition stream_audio :: "u32 \<Rightarrow> nat \<Rightarrow> u64 \<Rightarrow> header \<Rightarrow> audio_packet \<Rightarrow> real
    \<Rightarrow> stream_shared \<Rightarrow> stream_shared" where
  "stream_audio rate frame now_us h a j st =
     (let st = st\<lparr>last_rx_us := now_us\<rparr>;
          st = st\<lparr>jb := publish_jitter_us j (jb st)\<rparr>
      in st\<lparr>jb := push_audio frame h a (jb st)\<rparr>)"

datatype rx_shared = RxHost host_shared | RxClient client_shared socket_addr

definition rx_ping :: "rx_shared \<Rightarrow> u64 \<Rightarrow> u64 \<Rightarrow> socket_addr \<Rightarrow> header \<Rightarrow> u64 \<Rightarrow> net_out list" where
  "rx_ping role now_us t3 src h t1 =
     (let reply = \<lparr>ptype = PT_Pong, session_id = session_id h,
            sender_id = (case role of RxHost _ \<Rightarrow> HOST_SENDER_ID | RxClient sh _ \<Rightarrow> cs_sender_id sh),
            hseq = hseq h\<rparr>
      in case control_write (Pong t1 now_us t3) reply (replicate 64 0) of
           None \<Rightarrow> [NetPanic]
         | Some (out, n) \<Rightarrow> [Sent src (take n out)])"

text \<open>The jitter estimate of one stream: \<open>jitters[slot].on_arrival(now_us, media_us)\<close>.\<close>

definition rx_arrival :: "u32 \<Rightarrow> u64 \<Rightarrow> audio_packet \<Rightarrow> nat \<Rightarrow> rx_state \<Rightarrow> (rx_state \<times> real) option" where
  "rx_arrival rate now_us a slot s =
     Option.bind (array_get MAX_CLIENTS (rx_jitters s) slot) (\<lambda>aj.
       case on_arrival now_us (media_us rate (timestamp a)) aj of (aj, j) \<Rightarrow>
         map_option (\<lambda>js. (s\<lparr>rx_jitters := js\<rparr>, j)) (array_set MAX_CLIENTS slot aj (rx_jitters s)))"

definition rx_host_audio :: "u32 \<Rightarrow> nat \<Rightarrow> u64 \<Rightarrow> socket_addr \<Rightarrow> header \<Rightarrow> audio_packet
    \<Rightarrow> host_shared \<Rightarrow> rx_state \<Rightarrow> (host_shared \<times> rx_state) option" where
  "rx_host_audio rate frame now_us src h a sh s =
     (if session_id h \<noteq> hs_session_id sh then Some (sh, s)
      else if sender_id h = 0 \<or> MAX_CLIENTS < unat (sender_id h) then Some (sh, s)
      else
        let slot = unat (sender_id h - 1) in
        Option.bind (array_get MAX_CLIENTS (rx_addrs s) slot) (\<lambda>addr.
          if addr \<noteq> Some src then Some (sh, s)
          else Option.bind (rx_arrival rate now_us a slot s) (\<lambda>(s, j).
            map_option (\<lambda>sh. (sh, s)) (store_client slot (stream_audio rate frame now_us h a j) sh))))"

definition rx_client_audio :: "u32 \<Rightarrow> nat \<Rightarrow> u64 \<Rightarrow> socket_addr \<Rightarrow> header \<Rightarrow> audio_packet
    \<Rightarrow> client_shared \<Rightarrow> socket_addr \<Rightarrow> rx_state \<Rightarrow> (client_shared \<times> rx_state) option" where
  "rx_client_audio rate frame now_us src h a sh host s =
     (if src \<noteq> host \<or> sender_id h \<noteq> HOST_SENDER_ID \<or> \<not> joined sh \<or> session_id h \<noteq> cs_session_id sh
      then Some (sh, s)
      else map_option (\<lambda>(s, j). (sh\<lparr>from_host := stream_audio rate frame now_us h a j (from_host sh)\<rparr>, s))
             (rx_arrival rate now_us a 0 s))"

definition rx_control :: "u64 \<Rightarrow> socket_addr \<Rightarrow> header \<Rightarrow> control \<Rightarrow> rx_shared \<Rightarrow> rx_state
    \<Rightarrow> (rx_shared \<times> net_out list) option" where
  "rx_control now_us src h c role s =
     (let ev = [ToControl \<lparr>ce_from = src, ce_header = h, ce_control = c, ce_rx_us = now_us\<rparr>]
      in case role of
           RxClient sh host \<Rightarrow>
             Some (if src \<noteq> host then (role, [])
                   else (RxClient (sh\<lparr>from_host := (from_host sh)\<lparr>last_rx_us := now_us\<rparr>\<rparr>) host, ev))
         | RxHost sh \<Rightarrow>
             if 1 \<le> sender_id h \<and> sender_id h \<le> of_nat MAX_CLIENTS
             then
               let slot = unat (sender_id h - 1) in
               Option.bind (array_get MAX_CLIENTS (rx_addrs s) slot) (\<lambda>addr.
                 if addr = Some src
                 then map_option (\<lambda>sh. (RxHost sh, ev)) (store_client slot (\<lambda>st. st\<lparr>last_rx_us := now_us\<rparr>) sh)
                 else Some (role, ev))
             else Some (role, ev))"

definition rx_datagram :: "u32 \<Rightarrow> nat \<Rightarrow> u64 \<Rightarrow> u64 \<Rightarrow> socket_addr \<Rightarrow> u8 list
    \<Rightarrow> rx_shared \<times> rx_state \<Rightarrow> (rx_shared \<times> rx_state) \<times> net_out list" where
  "rx_datagram rate frame now_us t3 src bytes rs =
     (case rs of (role, s) \<Rightarrow>
       (case parse_datagram (take MAX_DATAGRAM bytes) of
          Panic \<Rightarrow> (rs, [NetPanic])
        | Err _ \<Rightarrow> (rs, [])
        | Ok (h, PControl (Ping t1)) \<Rightarrow> (rs, rx_ping role now_us t3 src h t1)
        | Ok (h, PAudio a) \<Rightarrow>
            (case role of
               RxHost sh \<Rightarrow>
                 (case rx_host_audio rate frame now_us src h a sh s of
                    None \<Rightarrow> (rs, [NetPanic])
                  | Some (sh, s) \<Rightarrow> ((RxHost sh, s), []))
             | RxClient sh host \<Rightarrow>
                 (case rx_client_audio rate frame now_us src h a sh host s of
                    None \<Rightarrow> (rs, [NetPanic])
                  | Some (sh, s) \<Rightarrow> ((RxClient sh host, s), [])))
        | Ok (h, PControl c) \<Rightarrow>
            (case rx_control now_us src h c role s of
               None \<Rightarrow> (rs, [NetPanic])
             | Some (role, out) \<Rightarrow> ((role, s), out))))"

text \<open>The thread as a machine: an address update, or a received datagram with the two clock readings.\<close>

datatype rx_event = RxUpdate addr_update | RxData u64 u64 socket_addr "u8 list"

fun rx_step :: "u32 \<Rightarrow> nat \<Rightarrow> rx_event \<Rightarrow> rx_shared \<times> rx_state
    \<Rightarrow> (rx_shared \<times> rx_state) \<times> net_out list" where
  "rx_step rate frame (RxUpdate u) rs =
     (case rs of (role, s) \<Rightarrow>
        (case rx_update u s of None \<Rightarrow> (rs, [NetPanic]) | Some s \<Rightarrow> ((role, s), [])))"
| "rx_step rate frame (RxData now_us t3 src bytes) rs = rx_datagram rate frame now_us t3 src bytes rs"

section \<open>The receive thread is safe\<close>

lemma rx_ping_sends:
  "\<exists>d. rx_ping role now_us t3 src h t1 = [Sent src d] \<and> length d = 32
     \<and> parse_datagram d = Ok (\<lparr>ptype = PT_Pong, session_id = session_id h,
         sender_id = (case role of RxHost _ \<Rightarrow> HOST_SENDER_ID | RxClient sh _ \<Rightarrow> cs_sender_id sh),
         hseq = hseq h\<rparr>, PControl (Pong t1 now_us t3))"
proof -
  let ?r = "\<lparr>ptype = PT_Pong, session_id = session_id h,
         sender_id = (case role of RxHost _ \<Rightarrow> HOST_SENDER_ID | RxClient sh _ \<Rightarrow> cs_sender_id sh),
         hseq = hseq h\<rparr>"
  let ?d = "enc_header ?r @ enc_body (Pong t1 now_us t3)"
  have "parse_datagram ?d = Ok (?r, PControl (Pong t1 now_us t3))"
    by (simp add: parse_datagram_control)
  moreover have "length ?d = 32" by (simp add: enc_header_def)
  ultimately show ?thesis
    by (simp add: rx_ping_def Let_def control_write_eq copy_at_fits del: enc_body.simps)
qed

definition rx_inv :: "rx_shared \<times> rx_state \<Rightarrow> bool" where
  "rx_inv rs \<longleftrightarrow> length (rx_addrs (snd rs)) = MAX_CLIENTS \<and> length (rx_jitters (snd rs)) = MAX_CLIENTS
     \<and> (case fst rs of RxHost sh \<Rightarrow> shared_ok sh | RxClient _ _ \<Rightarrow> True)"

text \<open>The only datagrams this thread sends are PONGs of 32 bytes; it never panics.\<close>

definition rx_out_ok :: "net_out \<Rightarrow> bool" where
  "rx_out_ok a = (case a of
      Sent to d \<Rightarrow> length d = 32 \<and> (\<exists>h t1 t2 t3. parse_datagram d = Ok (h, PControl (Pong t1 t2 t3)))
    | ToControl ev \<Rightarrow> ptype (ce_header ev) = packet_type_of (ce_control ev) \<and> ptype (ce_header ev) \<noteq> PT_Ping
    | NetPanic \<Rightarrow> False)"

text \<open>The checks on the slot keep every index in range: no part of a handler panics.\<close>

lemma unat_sender_less: "\<lbrakk>1 \<le> sid; unat (sid :: u16) \<le> n\<rbrakk> \<Longrightarrow> unat (sid - 1) < n"
  by (simp add: unat_sub word_le_nat_alt)

lemma unat_le_clients: "sid \<le> of_nat MAX_CLIENTS \<longleftrightarrow> unat (sid :: u16) \<le> MAX_CLIENTS"
  by (simp add: word_le_nat_alt MAX_CLIENTS_def)

lemma rx_update_eq:
  "rx_update u s = Some (case u of
      UpClient slot addr \<Rightarrow>
        if unat slot < MAX_CLIENTS
        then s\<lparr>rx_addrs := (rx_addrs s)[unat slot := addr], rx_jitters := (rx_jitters s)[unat slot := arrival_new]\<rparr>
        else s
    | UpPeer _ \<Rightarrow> s)"
  by (simp add: rx_update_def split: addr_update.split)

lemma tx_update_eq:
  "tx_update u s = Some (case u of
      UpClient slot addr \<Rightarrow>
        if unat slot < MAX_CLIENTS then s\<lparr>tx_clients := (tx_clients s)[unat slot := addr]\<rparr> else s
    | UpPeer addr \<Rightarrow> s\<lparr>tx_peer := Some addr\<rparr>)"
  by (simp add: tx_update_def split: addr_update.split)

lemma rx_arrival_eq:
  "slot < MAX_CLIENTS \<Longrightarrow> rx_arrival rate now_us a slot s =
   (case on_arrival now_us (media_us rate (timestamp a)) (rx_jitters s ! slot) of
      (aj, j) \<Rightarrow> Some (s\<lparr>rx_jitters := (rx_jitters s)[slot := aj]\<rparr>, j))"
  by (simp add: rx_arrival_def case_prod_unfold)

lemma rx_host_audio_eq:
  "rx_host_audio rate frame now_us src h a sh s =
   Some (if session_id h \<noteq> hs_session_id sh \<or> sender_id h = 0 \<or> MAX_CLIENTS < unat (sender_id h)
            \<or> rx_addrs s ! unat (sender_id h - 1) \<noteq> Some src then (sh, s)
         else
           let slot = unat (sender_id h - 1) in
           case on_arrival now_us (media_us rate (timestamp a)) (rx_jitters s ! slot) of
             (aj, j) \<Rightarrow> (upd_client slot (stream_audio rate frame now_us h a j) sh,
                         s\<lparr>rx_jitters := (rx_jitters s)[slot := aj]\<rparr>))"
proof (cases "sender_id h = 0 \<or> MAX_CLIENTS < unat (sender_id h)")
  case False
  then have "unat (sender_id h - 1) < MAX_CLIENTS"
    by (intro unat_sender_less) (simp_all add: word_le_nat_alt unat_gt_0 Suc_le_eq)
  with False show ?thesis by (simp add: rx_host_audio_def Let_def rx_arrival_eq case_prod_unfold)
qed (auto simp: rx_host_audio_def)

lemma rx_client_audio_eq:
  "rx_client_audio rate frame now_us src h a sh host s =
   Some (if src \<noteq> host \<or> sender_id h \<noteq> HOST_SENDER_ID \<or> \<not> joined sh \<or> session_id h \<noteq> cs_session_id sh
         then (sh, s)
         else (case on_arrival now_us (media_us rate (timestamp a)) (rx_jitters s ! 0) of
             (aj, j) \<Rightarrow> (sh\<lparr>from_host := stream_audio rate frame now_us h a j (from_host sh)\<rparr>,
                         s\<lparr>rx_jitters := (rx_jitters s)[0 := aj]\<rparr>)))"
  by (simp add: rx_client_audio_def rx_arrival_eq case_prod_unfold MAX_CLIENTS_def)

lemma rx_control_eq:
  "rx_control now_us src h c role s =
   (let ev = [ToControl \<lparr>ce_from = src, ce_header = h, ce_control = c, ce_rx_us = now_us\<rparr>]
    in Some (case role of
           RxClient sh host \<Rightarrow>
             if src \<noteq> host then (role, [])
             else (RxClient (sh\<lparr>from_host := (from_host sh)\<lparr>last_rx_us := now_us\<rparr>\<rparr>) host, ev)
         | RxHost sh \<Rightarrow>
             (if 1 \<le> sender_id h \<and> sender_id h \<le> of_nat MAX_CLIENTS
                 \<and> rx_addrs s ! unat (sender_id h - 1) = Some src
              then RxHost (upd_client (unat (sender_id h - 1)) (\<lambda>st. st\<lparr>last_rx_us := now_us\<rparr>) sh)
              else role, ev)))"
proof (cases "1 \<le> sender_id h \<and> sender_id h \<le> of_nat MAX_CLIENTS")
  case True
  then have "unat (sender_id h - 1) < MAX_CLIENTS" by (intro unat_sender_less) (simp_all add: unat_le_clients)
  with True show ?thesis by (simp add: rx_control_def Let_def split: rx_shared.split)
qed (auto simp: rx_control_def Let_def split: rx_shared.split)

lemma rx_host_audio_inv:
  assumes "rx_host_audio rate frame now_us src h a sh s = Some (sh', s')"
  shows "shared_ok sh' = shared_ok sh" "length (rx_addrs s') = length (rx_addrs s)"
    "length (rx_jitters s') = length (rx_jitters s)" "rx_addrs s' = rx_addrs s"
  using assms by (auto simp: rx_host_audio_eq Let_def split: if_splits prod.splits)

lemma rx_client_audio_inv:
  assumes "rx_client_audio rate frame now_us src h a sh host s = Some (sh', s')"
  shows "length (rx_addrs s') = length (rx_addrs s)" "length (rx_jitters s') = length (rx_jitters s)"
  using assms by (auto simp: rx_client_audio_eq split: if_splits prod.splits)

lemma rx_control_inv:
  "rx_control now_us src h c role s = Some (role', out) \<Longrightarrow>
   (case role' of RxHost sh \<Rightarrow> shared_ok sh | RxClient _ _ \<Rightarrow> True)
     = (case role of RxHost sh \<Rightarrow> shared_ok sh | RxClient _ _ \<Rightarrow> True)
   \<and> set out \<subseteq> {ToControl \<lparr>ce_from = src, ce_header = h, ce_control = c, ce_rx_us = now_us\<rparr>}"
  by (auto simp: rx_control_eq Let_def split: rx_shared.splits if_splits)

text \<open>A received packet, by cases.\<close>

lemma rx_datagram_cases:
  obtains (junk) "rx_datagram rate frame now_us t3 src bytes (role, s) = ((role, s), [])"
    "\<nexists>r. parse_datagram (take MAX_DATAGRAM bytes) = Ok r"
  | (ping) h t1 where "parse_datagram (take MAX_DATAGRAM bytes) = Ok (h, PControl (Ping t1))"
    "rx_datagram rate frame now_us t3 src bytes (role, s) = ((role, s), rx_ping role now_us t3 src h t1)"
  | (host) h a sh sh' s' where "parse_datagram (take MAX_DATAGRAM bytes) = Ok (h, PAudio a)" "role = RxHost sh"
    "rx_host_audio rate frame now_us src h a sh s = Some (sh', s')"
    "rx_datagram rate frame now_us t3 src bytes (role, s) = ((RxHost sh', s'), [])"
  | (client) h a sh hst sh' s' where "parse_datagram (take MAX_DATAGRAM bytes) = Ok (h, PAudio a)"
    "role = RxClient sh hst" "rx_client_audio rate frame now_us src h a sh hst s = Some (sh', s')"
    "rx_datagram rate frame now_us t3 src bytes (role, s) = ((RxClient sh' hst, s'), [])"
  | (control) h c role' out where "parse_datagram (take MAX_DATAGRAM bytes) = Ok (h, PControl c)"
    "packet_type_of c \<noteq> PT_Ping" "rx_control now_us src h c role s = Some (role', out)"
    "rx_datagram rate frame now_us t3 src bytes (role, s) = ((role', s), out)"
proof (cases "parse_datagram (take MAX_DATAGRAM bytes)")
  case Panic
  then show ?thesis using datagram_no_panic by blast
next
  case (Err e)
  then show ?thesis using junk by (simp add: rx_datagram_def)
next
  case (Ok r)
  obtain h p where r: "r = (h, p)" by fastforce
  show ?thesis
  proof (cases p)
    case (PAudio a)
    show ?thesis
    proof (cases role)
      case (RxHost sh)
      obtain r where "rx_host_audio rate frame now_us src h a sh s = Some r" by (simp only: rx_host_audio_eq option.inject)
      moreover obtain sh' s' where "r = (sh', s')" by fastforce
      ultimately have "rx_host_audio rate frame now_us src h a sh s = Some (sh', s')" by simp
      with host [of h a sh sh' s'] Ok r PAudio RxHost show ?thesis by (simp add: rx_datagram_def)
    next
      case (RxClient sh hst)
      obtain r where "rx_client_audio rate frame now_us src h a sh hst s = Some r" by (simp only: rx_client_audio_eq option.inject)
      moreover obtain sh' s' where "r = (sh', s')" by fastforce
      ultimately have "rx_client_audio rate frame now_us src h a sh hst s = Some (sh', s')" by simp
      with client [of h a sh hst sh' s'] Ok r PAudio RxClient show ?thesis by (simp add: rx_datagram_def)
    qed
  next
    case (PControl c)
    obtain r where "rx_control now_us src h c role s = Some r" by (simp only: rx_control_eq Let_def option.inject)
    moreover obtain role' out where "r = (role', out)" by fastforce
    ultimately have "rx_control now_us src h c role s = Some (role', out)" by simp
    then show ?thesis using Ok r PControl ping [of h] control [of h c role' out]
      by (cases c) (auto simp: rx_datagram_def)
  qed
qed

interpretation rx: event_machine "rx_step rate frame" "\<lambda>_. True" rx_inv rx_out_ok
proof unfold_locales
  fix e rs a
  assume inv: "rx_inv rs"
  obtain role s where rs: "rs = (role, s)" by fastforce
  have "rx_inv (fst (rx_step rate frame e rs)) \<and> (a \<in> set (snd (rx_step rate frame e rs)) \<longrightarrow> rx_out_ok a)"
  proof (cases e)
    case (RxUpdate u)
    with inv rs show ?thesis by (cases u) (auto simp: rx_inv_def rx_update_eq)
  next
    case (RxData now_us t3 src bytes)
    show ?thesis
    proof (cases rule: rx_datagram_cases [of rate frame now_us t3 src bytes role s])
      case junk
      with inv rs RxData show ?thesis by simp
    next
      case (ping h t1)
      with inv rs RxData rx_ping_sends [of role now_us t3 src h t1] show ?thesis
        by (auto simp: rx_out_ok_def)
    next
      case (host h b sh sh' s')
      with inv rs RxData rx_host_audio_inv [OF host(3)] show ?thesis by (simp add: rx_inv_def)
    next
      case (client h b sh hst sh' s')
      with inv rs RxData rx_client_audio_inv [OF client(3)] show ?thesis by (simp add: rx_inv_def)
    next
      case (control h c role' out)
      with inv rs RxData rx_control_inv [OF control(3)] show ?thesis
        by (auto simp: rx_inv_def rx_out_ok_def parse_datagram_control)
    qed
  qed
  then show "rx_inv (fst (rx_step rate frame e rs))" "a \<in> set (snd (rx_step rate frame e rs)) \<Longrightarrow> rx_out_ok a"
    by blast+
qed

text \<open>C15: no traffic, however malformed, makes the receive thread panic, in either role and in any
  sequence of datagrams and address updates. Every datagram it sends is a PONG of 32 bytes, and
  every packet it hands to the control thread is well formed and not a PING.\<close>

theorem rx_thread_safe:
  assumes "rx_inv rs" and "a \<in> set (snd (run (rx_step rate frame) es rs))"
  shows "rx_out_ok a"
  using rx.run_out [of es rs] assms by blast

definition ping_bytes :: "u8 list" where
  "ping_bytes = [0xA5, 0x14, 0, 7, 0, 1, 0, 5, 0, 0, 0, 0, 0, 0, 0, 9]"

definition stray_bytes :: "u8 list" where
  "stray_bytes = [0xA5, 0x16, 0, 7, 0, 9, 0, 5]"

lemma rx_thread_safe_witness:
  "\<exists>d ev. snd (run (rx_step 48000 120) [RxUpdate (UpClient 200 (Some (V4 1 2))), RxUpdate (UpClient 0 (Some (V4 1 2))),
        RxData 3 4 (V4 9 9) ping_bytes, RxData 5 6 (V4 1 2) stray_bytes] (RxHost (host_shared_new 7), rx_init))
      = [Sent (V4 9 9) d, ToControl ev] \<and> sender_id (ce_header ev) = 9
    \<and> rx_out_ok (Sent (V4 9 9) d) \<and> rx_out_ok (ToControl ev)"
proof -
  let ?rs = "(RxHost (host_shared_new 7), rx_init)"
  let ?es = "[RxUpdate (UpClient 200 (Some (V4 1 2))), RxUpdate (UpClient 0 (Some (V4 1 2))),
    RxData 3 4 (V4 9 9) ping_bytes, RxData 5 6 (V4 1 2) stray_bytes]"
  let ?h = "\<lparr>ptype = PT_Keepalive, session_id = 7, sender_id = 9, hseq = 5\<rparr>"
  let ?ev = "\<lparr>ce_from = V4 1 2, ce_header = ?h, ce_control = Keepalive, ce_rx_us = 5\<rparr>"
  have "parse_datagram (take MAX_DATAGRAM ping_bytes)
      = Ok (\<lparr>ptype = PT_Ping, session_id = 7, sender_id = 1, hseq = 5\<rparr>, PControl (Ping 9))"
    "parse_datagram (take MAX_DATAGRAM stray_bytes) = Ok (?h, PControl Keepalive)"
    by code_simp+
  then obtain d where r: "snd (run (rx_step 48000 120) ?es ?rs) = [Sent (V4 9 9) d, ToControl ?ev]"
    using rx_ping_sends [of "fst ?rs" 3 4 "V4 9 9" "\<lparr>ptype = PT_Ping, session_id = 7, sender_id = 1, hseq = 5\<rparr>" 9]
    by (auto simp: rx_datagram_def rx_update_eq rx_control_eq MAX_CLIENTS_def)
  have inv: "rx_inv ?rs" by (simp add: rx_inv_def rx_init_def)
  have "rx_out_ok (Sent (V4 9 9) d)" "rx_out_ok (ToControl ?ev)"
    using rx_thread_safe [OF inv, of _ 48000 120 ?es] unfolding r by simp_all
  with r show ?thesis by (intro exI [of _ d] exI [of _ ?ev]) simp
qed

lemma unat_sender: "\<lbrakk>1 \<le> sid; unat sid \<le> MAX_CLIENTS\<rbrakk> \<Longrightarrow> sender_id_of (unat (sid - 1)) = sid"
proof -
  assume a: "1 \<le> sid" "unat sid \<le> MAX_CLIENTS"
  have "unat (sid - 1) + 1 = unat sid"
    using a(1) by (simp add: unat_sub word_le_nat_alt)
  then have "sender_id_of (unat (sid - 1)) = of_nat (unat sid)" by (simp only: sender_id_of_def)
  then show ?thesis by simp
qed

text \<open>What one datagram from \<open>src\<close> may do to slot \<open>i\<close> of the host.\<close>

definition slot_change :: "u64 \<Rightarrow> socket_addr \<Rightarrow> u8 list \<Rightarrow> host_shared \<Rightarrow> rx_state \<Rightarrow> nat
    \<Rightarrow> stream_shared \<Rightarrow> bool" where
  "slot_change now_us src bytes sh s i st' \<longleftrightarrow> rx_addrs s ! i = Some src
     \<and> last_rx_us st' = now_us \<and> active st' = active (clients sh ! i) \<and> rtt_us st' = rtt_us (clients sh ! i)
     \<and> (\<exists>h p. parse_datagram (take MAX_DATAGRAM bytes) = Ok (h, p) \<and> sender_id h = sender_id_of i
          \<and> (jb st' = jb (clients sh ! i)
             \<or> session_id h = hs_session_id sh \<and> ptype h = PT_Audio))"

lemma host_audio_change:
  assumes "parse_datagram (take MAX_DATAGRAM bytes) = Ok (h, PAudio a)"
    and "rx_host_audio rate frame now_us src h a sh s = Some (sh', s')"
  shows "(clients sh' ! i = clients sh ! i \<or> slot_change now_us src bytes sh s i (clients sh' ! i))
    \<and> sh'\<lparr>clients := clients sh\<rparr> = sh"
proof (cases "sh' = sh")
  case False
  let ?i = "unat (sender_id h - 1)"
  obtain j where sh': "sh' = upd_client ?i (stream_audio rate frame now_us h a j) sh"
    and c: "session_id h = hs_session_id sh" "sender_id h \<noteq> 0" "unat (sender_id h) \<le> MAX_CLIENTS"
      "rx_addrs s ! ?i = Some src"
    using assms(2) False by (auto simp: rx_host_audio_eq Let_def split: if_splits prod.splits)
  have pt: "ptype h = PT_Audio" using assms(1) by (simp add: parse_datagram_audio)
  have id: "sender_id_of ?i = sender_id h" using c by (simp add: unat_sender word_le_nat_alt unat_gt_0 Suc_le_eq)
  have "clients sh' ! i = clients sh ! i \<or> i = ?i \<and> clients sh' ! i = stream_audio rate frame now_us h a j (clients sh ! i)"
    by (cases "i = ?i"; cases "?i < length (clients sh)") (auto simp: sh' upd_client_def list_update_beyond)
  moreover have "slot_change now_us src bytes sh s ?i (stream_audio rate frame now_us h a j (clients sh ! ?i))"
    using assms(1) c id pt by (auto simp: slot_change_def stream_audio_def Let_def)
  ultimately show ?thesis by (auto simp: sh' upd_client_def)
qed simp

lemma host_control_change:
  assumes "parse_datagram (take MAX_DATAGRAM bytes) = Ok (h, PControl c)"
    and "rx_control now_us src h c (RxHost sh) s = Some (RxHost sh', out)"
  shows "(clients sh' ! i = clients sh ! i \<or> slot_change now_us src bytes sh s i (clients sh' ! i))
    \<and> sh'\<lparr>clients := clients sh\<rparr> = sh"
proof (cases "sh' = sh")
  case False
  let ?i = "unat (sender_id h - 1)"
  have sh': "sh' = upd_client ?i (\<lambda>st. st\<lparr>last_rx_us := now_us\<rparr>) sh"
    and c: "1 \<le> sender_id h" "unat (sender_id h) \<le> MAX_CLIENTS" "rx_addrs s ! ?i = Some src"
    using assms(2) False by (auto simp: rx_control_eq Let_def unat_le_clients split: if_splits)
  have id: "sender_id_of ?i = sender_id h" using c by (simp add: unat_sender)
  have "clients sh' ! i = clients sh ! i \<or> i = ?i \<and> clients sh' ! i = (clients sh ! i)\<lparr>last_rx_us := now_us\<rparr>"
    by (cases "i = ?i"; cases "?i < length (clients sh)") (auto simp: sh' upd_client_def list_update_beyond)
  moreover have "slot_change now_us src bytes sh s ?i ((clients sh ! ?i)\<lparr>last_rx_us := now_us\<rparr>)"
    using assms(1) c id by (auto simp: slot_change_def)
  ultimately show ?thesis by (auto simp: sh' upd_client_def)
qed simp

lemma host_rx_change:
  assumes "rx_datagram rate frame now_us t3 src bytes (RxHost sh, s) = ((role', s'), out)"
  shows "\<exists>sh'. role' = RxHost sh' \<and> sh'\<lparr>clients := clients sh\<rparr> = sh \<and> rx_addrs s' = rx_addrs s
    \<and> (clients sh' ! i = clients sh ! i \<or> slot_change now_us src bytes sh s i (clients sh' ! i))"
proof (cases rule: rx_datagram_cases [of rate frame now_us t3 src bytes "RxHost sh" s])
  case junk
  with assms show ?thesis by auto
next
  case (ping h t1)
  with assms show ?thesis by auto
next
  case (host h a sh0 sh1 s1)
  with assms host_audio_change [OF host(1), of rate frame now_us src sh0 s sh1 s1 i] rx_host_audio_inv [OF host(3)]
  show ?thesis by auto
next
  case (client h a sh0 hst)
  then show ?thesis by simp
next
  case (control h c role1 out1)
  then obtain sh1 where r: "role1 = RxHost sh1" by (auto simp: rx_control_eq Let_def split: if_splits)
  with control assms host_control_change [OF control(1), of now_us src sh s sh1 out1 i] show ?thesis by auto
qed

text \<open>Nobody can speak for another player. Whatever bytes arrive at the host from an address,
  a slot changes only when that address is the one registered for the slot and the packet carries
  the slot's sender id; its jitter buffer changes only for an audio packet that also carries the
  session id; nothing but the clients' streams changes.\<close>

theorem host_rx_antispoof:
  assumes "rx_datagram rate frame now_us t3 src bytes (RxHost sh, s) = ((role', s'), out)"
  shows "\<exists>sh'. role' = RxHost sh' \<and> sh'\<lparr>clients := clients sh\<rparr> = sh \<and> rx_addrs s' = rx_addrs s
    \<and> (clients sh' ! i = clients sh ! i \<or> slot_change now_us src bytes sh s i (clients sh' ! i))"
  by (rule host_rx_change [OF assms])

lemma host_rx_antispoof_witness:
  "\<exists>role' s' out sh'. rx_datagram 48000 120 3 4 (V4 9 9) ping_bytes (RxHost (host_shared_new 7), rx_init) = ((role', s'), out)
     \<and> role' = RxHost sh' \<and> rx_addrs s' = rx_addrs rx_init
     \<and> (clients sh' ! 0 = clients (host_shared_new 7) ! 0
        \<or> slot_change 3 (V4 9 9) ping_bytes (host_shared_new 7) rx_init 0 (clients sh' ! 0))"
proof -
  obtain role' s' out where r:
    "rx_datagram 48000 120 3 4 (V4 9 9) ping_bytes (RxHost (host_shared_new 7), rx_init) = ((role', s'), out)"
    by (metis surj_pair)
  from r host_rx_antispoof [OF r, of 0] show ?thesis by blast
qed

text \<open>A client listens to its host only: a datagram from any other address changes nothing the
  client has and reaches nobody, a PING excepted, which it answers to whoever sent it.\<close>

theorem client_rx_only_host:
  assumes "src \<noteq> hst"
  shows "\<exists>out. rx_datagram rate frame now_us t3 src bytes (RxClient sh hst, s) = ((RxClient sh hst, s), out)
    \<and> (out = [] \<or> (\<exists>h t1 d. parse_datagram (take MAX_DATAGRAM bytes) = Ok (h, PControl (Ping t1))
         \<and> out = [Sent src d] \<and> length d = 32))"
proof (cases rule: rx_datagram_cases [of rate frame now_us t3 src bytes "RxClient sh hst" s])
  case junk
  then show ?thesis by simp
next
  case (ping h t1)
  with rx_ping_sends [of "RxClient sh hst" now_us t3 src h t1] show ?thesis by auto
next
  case (host h a sh0 sh1 s1)
  then show ?thesis by simp
next
  case (client h a sh0 hst0 sh1 s1)
  with assms show ?thesis by (auto simp: rx_client_audio_eq)
next
  case (control h c role1 out1)
  with assms show ?thesis by (auto simp: rx_control_eq Let_def)
qed

lemma client_rx_only_host_witness:
  "\<exists>d. rx_datagram 48000 120 3 4 (V4 9 9) ping_bytes (RxClient client_shared_default (V4 1 2), rx_init)
     = ((RxClient client_shared_default (V4 1 2), rx_init), [Sent (V4 9 9) d])"
proof -
  have p: "parse_datagram (take MAX_DATAGRAM ping_bytes)
      = Ok (\<lparr>ptype = PT_Ping, session_id = 7, sender_id = 1, hseq = 5\<rparr>, PControl (Ping 9))"
    by code_simp
  have "V4 9 9 \<noteq> V4 1 2" by simp
  from client_rx_only_host [OF this, of 48000 120 3 4 ping_bytes client_shared_default rx_init]
  show ?thesis
    using p rx_ping_sends [of "RxClient client_shared_default (V4 1 2)" 3 4 "V4 9 9"
        "\<lparr>ptype = PT_Ping, session_id = 7, sender_id = 1, hseq = 5\<rparr>" 9]
    by (auto simp: rx_datagram_def)
qed

section \<open>Redundant copies repair a lost packet\<close>

lemma push_audio_pops:
  assumes "redundant a = Some red"
  shows "drop 2 (snd (run jb_step [EvPush (hseq h) (timestamp a) (payload a),
             EvPush (hseq h - 1) (timestamp a - of_nat frame) red, EvPop, EvPop] b))
    = snd (run jb_step [EvPop, EvPop] (push_audio frame h a b))"
  using assms by (simp add: push_audio_def Let_def case_prod_unfold)

lemma publish_rel [simp]: "jb_rel (publish_jitter_us j b) a = jb_rel b a"
  by (simp add: jb_rel_def publish_jitter_us_def split: option.splits)

lemma repaired_pops:
  assumes rel: "jb_rel b (Some st)" and miss: "s_frames st (s_next st) = None" "s_frames st (s_next st + 1) = None"
    and win: "\<bar>s_newest st - s_next st\<bar> \<le> 32000"
    and len: "length (payload a) \<le> MAX_FRAME_BYTES" "length red \<le> MAX_FRAME_BYTES"
    and h: "hseq h = word_of_int (s_next st + 1)" and red: "redundant a = Some red"
  shows "snd (run jb_step [EvPop, EvPop] (push_audio frame h a b))
    = [OPopped (Some (red, timestamp a - of_nat frame)), OPopped (Some (payload a, timestamp a))]"
proof -
  let ?es = "[EvPush (s_next st + 1) (timestamp a) (payload a),
    EvPush (s_next st) (timestamp a - of_nat frame) red, EvPop, EvPop]"
  have far: "\<not> same_slot (s_next st) (s_next st + 1)" "\<not> same_slot (s_next st + 1) (s_next st)"
    using same_slot_window [of "s_next st" "s_next st + 1" "s_next st"]
      same_slot_window [of "s_next st + 1" "s_next st" "s_next st"] by auto
  have steps: "snd (run stream_step ?es (Some st)) = [OPushed Stored, OPushed Stored,
      OPopped (Some (red, timestamp a - of_nat frame)), OPopped (Some (payload a, timestamp a))]
    \<and> allowed in_window stream_step ?es (Some st)"
    using miss len far win by (auto simp: not_less put_frame_def abs_le_iff)
  then have "snd (run jb_step (map (map_jb_event word_of_int) ?es) b)
      = [OPushed Stored, OPushed Stored, OPopped (Some (red, timestamp a - of_nat frame)),
         OPopped (Some (payload a, timestamp a))]"
    using jitter.run_sim [OF rel, of ?es] by (simp only: simp_thms)
  moreover have "map (map_jb_event word_of_int) ?es = [EvPush (hseq h) (timestamp a) (payload a),
      EvPush (hseq h - 1) (timestamp a - of_nat frame) red, EvPop, EvPop]"
    by (simp add: h)
  ultimately show ?thesis using push_audio_pops [OF red, of h frame b] by simp
qed

lemma slot_of_id: "i < MAX_CLIENTS \<Longrightarrow> sender_id_of i \<noteq> 0 \<and> unat (sender_id_of i) \<le> MAX_CLIENTS
    \<and> unat (sender_id_of i - 1) = i"
proof -
  assume "i < MAX_CLIENTS"
  then consider "i = 0" | "i = 1" | "i = 2" | "i = 3" by (fastforce simp: MAX_CLIENTS_def)
  then show ?thesis by cases (simp_all add: sender_id_of_def MAX_CLIENTS_def)
qed

lemma host_audio_accepted:
  assumes "i < MAX_CLIENTS" "shared_ok sh" "rx_addrs s ! i = Some src"
    and "session_id h = hs_session_id sh" "sender_id h = sender_id_of i"
    and "rx_host_audio rate frame now_us src h a sh s = Some (sh', s')"
  shows "\<exists>j. clients sh' ! i = stream_audio rate frame now_us h a j (clients sh ! i)"
proof -
  have "i < length (clients sh)" using assms(1,2) by (simp add: shared_ok_def)
  then show ?thesis
    using assms slot_of_id [OF assms(1)]
    by (auto simp: rx_host_audio_eq Let_def case_prod_unfold upd_client_same)
qed

text \<open>C31: the redundant copy repairs a lost packet. After any admissible history of the buffer in
  which the packet due next never arrived, the packet behind it, carrying the copy, is received
  from the slot's address: the next two reads give the lost frame, with the timestamp one frame
  back, and the frame of that packet.\<close>

theorem redundancy_repairs_loss:
  assumes "allowed in_window stream_step es None" and "fst (run stream_step es None) = Some st"
    and "s_frames st (s_next st) = None" and "s_frames st (s_next st + 1) = None"
    and "\<bar>s_newest st - s_next st\<bar> \<le> 32000"
    and "jb (clients sh ! i) = fst (run jb_step (map (map_jb_event word_of_int) es) jb_new)"
    and "i < MAX_CLIENTS" and "shared_ok sh" and "rx_addrs s ! i = Some src"
    and "parse_datagram (take MAX_DATAGRAM bytes) = Ok (h, PAudio a)"
    and "session_id h = hs_session_id sh" and "sender_id h = sender_id_of i"
    and "hseq h = word_of_int (s_next st + 1)"
    and "redundant a = Some red" and "length red \<le> MAX_FRAME_BYTES" and "length (payload a) \<le> MAX_FRAME_BYTES"
    and "rx_datagram rate frame now_us t3 src bytes (RxHost sh, s) = ((RxHost sh', s'), out)"
  shows "snd (run jb_step [EvPop, EvPop] (jb (clients sh' ! i)))
    = [OPopped (Some (red, timestamp a - of_nat frame)), OPopped (Some (payload a, timestamp a))]"
proof -
  have rel: "jb_rel (jb (clients sh ! i)) (Some st)"
    using jitter.run_sim [OF jb_new_rel assms(1)] assms(2,6) by simp
  have "rx_host_audio rate frame now_us src h a sh s = Some (sh', s')"
    using assms(10,17) by (cases rule: rx_datagram_cases [of rate frame now_us t3 src bytes "RxHost sh" s]) auto
  from host_audio_accepted [OF assms(7-9,11,12) this]
  obtain j where "clients sh' ! i = stream_audio rate frame now_us h a j (clients sh ! i)" by auto
  then have "jb (clients sh' ! i) = push_audio frame h a (publish_jitter_us j (jb (clients sh ! i)))"
    by (simp add: stream_audio_def Let_def)
  moreover have "jb_rel (publish_jitter_us j (jb (clients sh ! i))) (Some st)" using rel by simp
  ultimately show ?thesis using repaired_pops [OF _ assms(3-5,16,15,13,14)] by (simp only:)
qed

lemma parse_enc_audio:
  "\<lbrakk>audio_fits a; ptype h = PT_Audio\<rbrakk> \<Longrightarrow> parse_datagram (enc_header h @ enc_audio a) = Ok (h, PAudio a)"
  unfolding parse_datagram_audio enc_audio_def
  by (intro conjI exI [of _ "if redundant a \<noteq> None then AUDIO_FLAG_REDUNDANCY else 0"])
    (auto simp: AUDIO_FLAG_REDUNDANCY_def)

definition lossy_audio :: audio_packet where
  "lossy_audio = \<lparr>timestamp = 240, acodec = PcmS16, payload = [3], redundant = Some [2]\<rparr>"

definition lossy_header :: header where
  "lossy_header = \<lparr>ptype = PT_Audio, session_id = 7, sender_id = 1, hseq = 2\<rparr>"

definition lossy_host :: host_shared where
  "lossy_host = upd_client 0 (\<lambda>st. st\<lparr>active := True,
     jb := fst (run jb_step (map (map_jb_event word_of_int) [EvPush 0 0 [1], EvPop]) jb_new)\<rparr>) (host_shared_new 7)"

lemma redundancy_repairs_loss_witness:
  "\<exists>sh' s' out. rx_datagram 48000 120 3 4 (V4 1 2) (enc_header lossy_header @ enc_audio lossy_audio)
        (RxHost lossy_host, the (rx_update (UpClient 0 (Some (V4 1 2))) rx_init)) = ((RxHost sh', s'), out)
     \<and> snd (run jb_step [EvPop, EvPop] (jb (clients sh' ! 0)))
        = [OPopped (Some ([2], 120)), OPopped (Some ([3], 240))]"
proof -
  let ?es = "[EvPush 0 0 [1], EvPop] :: int jb_event list"
  let ?d = "enc_header lossy_header @ enc_audio lossy_audio"
  let ?s = "the (rx_update (UpClient 0 (Some (V4 1 2))) rx_init)"
  let ?st = "\<lparr>s_next = 1, s_newest = 0, s_frames = (put_frame 0 ([1], 0) (\<lambda>_. None))(0 := None)\<rparr>"
  have es: "allowed in_window stream_step ?es None" "fst (run stream_step ?es None) = Some ?st"
    by (simp_all add: MAX_FRAME_BYTES_def)
  have st: "s_frames ?st (s_next ?st) = None" "s_frames ?st (s_next ?st + 1) = None"
    "\<bar>s_newest ?st - s_next ?st\<bar> \<le> 32000" by (simp_all add: put_frame_def)
  have sh: "jb (clients lossy_host ! 0) = fst (run jb_step (map (map_jb_event word_of_int) ?es) jb_new)"
    "0 < MAX_CLIENTS" "shared_ok lossy_host" "rx_addrs ?s ! 0 = Some (V4 1 2)"
    by (simp_all add: lossy_host_def upd_client_same host_shared_new_def MAX_CLIENTS_def rx_update_eq
        rx_init_def shared_ok_def upd_client_def)
  have "length ?d \<le> MAX_DATAGRAM"
    by (simp add: lossy_audio_def lossy_header_def length_enc_audio MAX_DATAGRAM_def)
  then have pkt: "parse_datagram (take MAX_DATAGRAM ?d) = Ok (lossy_header, PAudio lossy_audio)"
    "session_id lossy_header = hs_session_id lossy_host" "sender_id lossy_header = sender_id_of 0"
    "hseq lossy_header = word_of_int (s_next ?st + 1)" "redundant lossy_audio = Some [2]"
    "length [2 :: u8] \<le> MAX_FRAME_BYTES" "length (payload lossy_audio) \<le> MAX_FRAME_BYTES"
    using parse_enc_audio [of lossy_audio lossy_header]
    by (simp_all add: audio_fits_def lossy_audio_def lossy_header_def
        lossy_host_def host_shared_new_def sender_id_of_def MAX_FRAME_BYTES_def)
  obtain sh' s' out where rx: "rx_datagram 48000 120 3 4 (V4 1 2) ?d (RxHost lossy_host, ?s) = ((RxHost sh', s'), out)"
    using pkt(1) by (simp add: rx_datagram_def rx_host_audio_eq case_prod_unfold)
  from redundancy_repairs_loss [OF es st sh pkt rx] rx show ?thesis by (auto simp: lossy_audio_def)
qed

section \<open>The transmit thread\<close>

definition tx_fits :: "tx_item \<Rightarrow> bool" where
  "tx_fits item \<longleftrightarrow> unat (tx_len item) \<le> length (tx_buf item)"

lemma tx_item_new_ok:
  "length bytes \<le> MAX_DATAGRAM \<Longrightarrow> \<exists>item. tx_item_new dest bytes = Some item \<and> tx_fits item
     \<and> tx_dest item = dest \<and> take (unat (tx_len item)) (tx_buf item) = bytes"
  by (auto simp: tx_item_new_def copy_at_def tx_fits_def MAX_DATAGRAM_def unat_of_nat)

text \<open>What should go out: every item that has an address, to that address, with its bytes.\<close>

definition tx_deliver :: "tx_state \<Rightarrow> tx_item \<Rightarrow> net_out option" where
  "tx_deliver s item =
     map_option (\<lambda>addr. Sent addr (take (unat (tx_len item)) (tx_buf item))) (tx_resolve s (tx_dest item))"

lemma tx_resolve_rng [simp]: "tx_resolve (s\<lparr>tx_rng := r\<rparr>) d = tx_resolve s d"
  by (simp add: tx_resolve_def)

lemma tx_deliver_rng [simp]: "tx_deliver (s\<lparr>tx_rng := r\<rparr>) = tx_deliver s"
  by (simp add: tx_deliver_def fun_eq_iff)

lemma tx_items_sent:
  "list_all tx_fits items \<Longrightarrow>
   (loss \<le> 0 \<longrightarrow> snd (run (tx_send_item loss) items s) = List.map_filter (tx_deliver s) items)
   \<and> subseq (snd (run (tx_send_item loss) items s)) (List.map_filter (tx_deliver s) items)"
proof (induction items arbitrary: s)
  case (Cons item items)
  then have fits: "unat (tx_len item) \<le> length (tx_buf item)" by (simp add: tx_fits_def)
  show ?case
  proof (cases "loss > 0")
    case True
    with Cons.IH [of "s\<lparr>tx_rng := lcg (tx_rng s)\<rparr>"] Cons.prems fits show ?thesis
      by (cases "tx_resolve s (tx_dest item)")
        (auto simp: tx_send_item_def Let_def case_prod_unfold List.map_filter_simps tx_deliver_def)
  next
    case False
    with Cons.IH [of s] Cons.prems fits show ?thesis
      by (cases "tx_resolve s (tx_dest item)")
        (auto simp: tx_send_item_def Let_def case_prod_unfold List.map_filter_simps tx_deliver_def)
  qed
qed (simp add: List.map_filter_simps)

lemma tx_updates_fold: "for_each tx_update ups s = Some (fold (\<lambda>u s. the (tx_update u s)) ups s)"
  by (rule for_each_fold) (simp add: tx_update_eq)

text \<open>The transmit thread neither invents, reorders, alters nor misdirects a datagram: one round
  sends, in the order of the ring, each item's bytes to the address its slot has after the
  pending updates; with the loss simulation off it sends all of those, with it on a subsequence.
  So it does not panic.\<close>

theorem tx_round_faithful:
  assumes "list_all tx_fits items"
  shows "\<exists>s'. for_each tx_update ups s = Some s'
    \<and> (loss \<le> 0 \<longrightarrow> snd (tx_round loss ups items s) = List.map_filter (tx_deliver s') items)
    \<and> subseq (snd (tx_round loss ups items s)) (List.map_filter (tx_deliver s') items)"
proof -
  obtain s' where "for_each tx_update ups s = Some s'" using tx_updates_fold by blast
  then show ?thesis using tx_items_sent [OF assms, of loss s'] by (simp add: tx_round_def)
qed

lemma tx_round_faithful_witness:
  "\<exists>i1 i2. tx_item_new 1 [7, 8] = Some i1 \<and> tx_item_new 0 [9] = Some i2
     \<and> snd (tx_round 0 [UpClient 1 (Some (V4 3 4))] [i1, i2] tx_init) = [Sent (V4 3 4) [7, 8]]"
proof -
  obtain i1 i2 where i: "tx_item_new 1 [7, 8] = Some i1" "tx_fits i1" "tx_dest i1 = 1"
    "take (unat (tx_len i1)) (tx_buf i1) = [7, 8]" "tx_item_new 0 [9] = Some i2" "tx_fits i2" "tx_dest i2 = 0"
    using tx_item_new_ok [of "[7, 8]" 1] tx_item_new_ok [of "[9]" 0] by (auto simp: MAX_DATAGRAM_def)
  then have "list_all tx_fits [i1, i2]" by simp
  from tx_round_faithful [OF this, where loss = 0 and ups = "[UpClient 1 (Some (V4 3 4))]" and s = tx_init] i show ?thesis
    by (auto simp: List.map_filter_simps tx_deliver_def tx_resolve_def tx_update_eq tx_init_def
        DEST_PEER_def MAX_CLIENTS_def)
qed

end
