(* ===== verification/Host_Control.thy ===== *)
theory Host_Control
  imports Net_Threads
begin

text \<open>
  The host half of \<open>crates/jam-core/src/control.rs\<close>: the control thread's sender \<open>ControlIo\<close>, the
  RTT estimate, and the loop of \<open>spawn_host_control\<close>, one definition per part of its body. What the
  loop sends, on the socket and on the two address channels, is a list of outputs; a panic is
  \<open>None\<close>. The clock readings of an iteration are arguments; the other threads act on the shared
  state between two iterations.
\<close>

section \<open>ControlIo and RTT\<close>

record control_io =
  io_seq :: seq_gen
  io_buf :: "u8 list"

definition io_new :: control_io where
  "io_new = \<lparr>io_seq = seq_new, io_buf = replicate MAX_DATAGRAM 0\<rparr>"

datatype ctl_out = Datagram socket_addr "u8 list" | AddrTable addr_update | CtlPanic

definition io_send :: "control \<Rightarrow> u16 \<Rightarrow> u16 \<Rightarrow> socket_addr \<Rightarrow> control_io
    \<Rightarrow> (control_io \<times> ctl_out list \<times> u16) option" where
  "io_send c sid sender to io =
     (case seq_next (io_seq io) of (sq, g) \<Rightarrow>
        (case control_write c \<lparr>ptype = packet_type_of c, session_id = sid, sender_id = sender, hseq = sq\<rparr>
                (io_buf io) of
           None \<Rightarrow> None
         | Some (buf, n) \<Rightarrow> Some (\<lparr>io_seq = g, io_buf = buf\<rparr>, [Datagram to (take n buf)], sq)))"

text \<open>\<open>update_rtt\<close> returns the value it stores. \<open>RTT_ALPHA\<close> is one fifth.\<close>

definition RTT_ALPHA :: real where "RTT_ALPHA = 2 / 10"

definition update_rtt :: "u32 \<Rightarrow> u64 \<Rightarrow> u32" where
  "update_rtt old sample_us =
     (let new = (if old = 0 then real (unat sample_us)
                 else real (unat old) * (1 - RTT_ALPHA) + real (unat sample_us) * RTT_ALPHA)
      in f_to_u32 new)"

definition rtt_from_pong :: "u64 \<Rightarrow> u64 \<Rightarrow> u64 \<Rightarrow> u64 \<Rightarrow> u64" where
  "rtt_from_pong rx_us t1 t2 t3 = saturating_sub (saturating_sub rx_us t1) (saturating_sub t3 t2)"

definition PING_INTERVAL_MS :: u64 where "PING_INTERVAL_MS = 1000"
definition SNAPSHOT_INTERVAL_MS :: u64 where "SNAPSHOT_INTERVAL_MS = 500"

section \<open>State\<close>

record host_ctl =
  hc_hs :: host_handshake
  hc_io :: control_io
  hc_names :: "rust_string option list"
  hc_shared :: host_shared
  hc_last_ping :: u64
  hc_last_keepalive :: u64
  hc_last_snapshot :: u64
  hc_running :: bool

definition host_ctl_new :: "u8 list \<Rightarrow> rust_string \<Rightarrow> engine_params \<Rightarrow> host_shared \<Rightarrow> host_ctl" where
  "host_ctl_new code nm ep sh =
     \<lparr>hc_hs = host_new code (hs_session_id sh)
        \<lparr>p_sample_rate = ep_sample_rate ep, p_frame_samples = of_nat (ep_frame_samples ep), p_codec = ep_codec ep\<rparr> nm,
      hc_io = io_new, hc_names = replicate MAX_CLIENTS None, hc_shared = sh,
      hc_last_ping = 0, hc_last_keepalive = 0, hc_last_snapshot = 0, hc_running = True\<rparr>"

section \<open>Executing the actions\<close>

definition is_welcome :: "control \<Rightarrow> bool" where
  "is_welcome c = (case c of Welcome _ _ _ _ _ _ \<Rightarrow> True | _ \<Rightarrow> False)"

definition ctl_send :: "socket_addr \<Rightarrow> control \<Rightarrow> host_ctl \<Rightarrow> (host_ctl \<times> ctl_out list) option" where
  "ctl_send to c s =
     (case io_send c (hs_session_id (hc_shared s)) HOST_SENDER_ID to (hc_io s) of
        None \<Rightarrow> None
      | Some (io, out, sq) \<Rightarrow>
          let s = s\<lparr>hc_io := io\<rparr>
          in Some (if is_welcome c then s\<lparr>hc_hs := welcome_sent to sq (hc_hs s)\<rparr> else s, out))"

definition clear_mix :: "nat \<Rightarrow> host_shared \<Rightarrow> host_shared" where
  "clear_mix p sh = sh\<lparr>muted := (muted sh)[p := False], soloed := (soloed sh)[p := False]\<rparr>"

definition ctl_joined :: "u16 \<Rightarrow> rust_string \<Rightarrow> host_ctl \<Rightarrow> (host_ctl \<times> ctl_out list) option" where
  "ctl_joined sid nm s =
     (let slot = unat (sid - 1); addr = client_addr (hc_hs s) sid in
      if MAX_CLIENTS \<le> slot then None
      else
        let sh = upd_client slot (\<lambda>st. st\<lparr>jb := jb_reset (jb st), last_rx_us := 0, rtt_us := 0\<rparr>) (hc_shared s);
            sh = clear_mix (unat sid) sh;
            sh = upd_client slot (\<lambda>st. st\<lparr>active := True\<rparr>) sh
        in Some (s\<lparr>hc_shared := sh, hc_names := (hc_names s)[slot := Some nm]\<rparr>,
                 [AddrTable (UpClient (of_nat slot) addr)]))"

definition ctl_left :: "u16 \<Rightarrow> host_ctl \<Rightarrow> (host_ctl \<times> ctl_out list) option" where
  "ctl_left sid s =
     (let slot = unat (sid - 1) in
      if MAX_CLIENTS \<le> slot then None
      else
        let sh = upd_client slot (\<lambda>st. st\<lparr>active := False, jb := jb_reset (jb st)\<rparr>) (hc_shared s);
            sh = clear_mix (unat sid) sh
        in Some (s\<lparr>hc_shared := sh, hc_names := (hc_names s)[slot := None]\<rparr>,
                 [AddrTable (UpClient (of_nat slot) None)]))"

fun ctl_action :: "host_action \<Rightarrow> host_ctl \<Rightarrow> (host_ctl \<times> ctl_out list) option" where
  "ctl_action (HSend to c) s = ctl_send to c s"
| "ctl_action (ClientJoined sid nm) s = ctl_joined sid nm s"
| "ctl_action (ClientLeft sid _) s = ctl_left sid s"

fun ctl_run :: "host_action list \<Rightarrow> host_ctl \<Rightarrow> (host_ctl \<times> ctl_out list) option" where
  "ctl_run [] s = Some (s, [])"
| "ctl_run (a # as) s =
     (case ctl_action a s of
        None \<Rightarrow> None
      | Some (s, out) \<Rightarrow> map_option (\<lambda>(s, outs). (s, out @ outs)) (ctl_run as s))"

text \<open>Let the handshake machine take an event and execute what it asks for.\<close>

definition ctl_drive :: "host_event \<Rightarrow> host_ctl \<Rightarrow> (host_ctl \<times> ctl_out list) option" where
  "ctl_drive e s = (case host_step e (hc_hs s) of (h, as) \<Rightarrow> ctl_run as (s\<lparr>hc_hs := h\<rparr>))"

text \<open>One packet to every client: goodbyes, pings, keepalives.\<close>

fun ctl_send_all :: "(socket_addr \<times> control) list \<Rightarrow> host_ctl \<Rightarrow> (host_ctl \<times> ctl_out list) option" where
  "ctl_send_all [] s = Some (s, [])"
| "ctl_send_all ((to, c) # cs) s =
     (case io_send c (hs_session_id (hc_shared s)) HOST_SENDER_ID to (hc_io s) of
        None \<Rightarrow> None
      | Some (io, out, _) \<Rightarrow> map_option (\<lambda>(s, outs). (s, out @ outs)) (ctl_send_all cs (s\<lparr>hc_io := io\<rparr>)))"

definition to_clients :: "(nat \<Rightarrow> control) \<Rightarrow> host_ctl \<Rightarrow> (socket_addr \<times> control) list" where
  "to_clients f s = map (\<lambda>(k, _, addr). (addr, f k)) (enumerate 0 (client_addrs (hc_hs s)))"

section \<open>The loop\<close>

datatype recv = RecvOk ctrl_event | RecvTimeout | RecvDisconnected

definition ctl_heard :: "ctrl_event \<Rightarrow> u64 \<Rightarrow> host_ctl \<Rightarrow> host_ctl" where
  "ctl_heard ev now_ms s =
     (case sender_for_addr (hc_hs s) (ce_from ev) of
        None \<Rightarrow> s
      | Some sender \<Rightarrow> s\<lparr>hc_hs := mark_heard sender now_ms (hc_hs s)\<rparr>)"

definition ctl_pong :: "ctrl_event \<Rightarrow> u64 \<Rightarrow> u64 \<Rightarrow> u64 \<Rightarrow> host_ctl \<Rightarrow> host_ctl option" where
  "ctl_pong ev t1 t2 t3 s =
     (case sender_for_addr (hc_hs s) (ce_from ev) of
        None \<Rightarrow> Some s
      | Some sender \<Rightarrow>
          if 1 \<le> sender
          then map_option (\<lambda>sh. s\<lparr>hc_shared := sh\<rparr>)
                 (store_client (unat (sender - 1))
                   (\<lambda>st. st\<lparr>rtt_us := update_rtt (rtt_us st) (rtt_from_pong (ce_rx_us ev) t1 t2 t3)\<rparr>)
                   (hc_shared s))
          else Some s)"

definition ctl_packet :: "ctrl_event \<Rightarrow> u64 \<Rightarrow> host_ctl \<Rightarrow> (host_ctl \<times> ctl_out list) option" where
  "ctl_packet ev now_ms s0 =
     (let s = ctl_heard ev now_ms s0 in
      case ce_control ev of
        Hello _ _ _ _ _ \<Rightarrow> ctl_drive (EHello (ce_from ev) (ce_control ev) now_ms) s
      | Ack acked _ \<Rightarrow> ctl_drive (EAck (ce_from ev) acked now_ms) s
      | Pong t1 t2 t3 \<Rightarrow> map_option (\<lambda>s. (s, [])) (ctl_pong ev t1 t2 t3 s)
      | Bye \<Rightarrow> if session_id (ce_header ev) = hs_session_id (hc_shared s)
               then ctl_drive (EBye (ce_from ev)) s else Some (s, [])
      | _ \<Rightarrow> Some (s, []))"

text \<open>\<open>for slot in 0..MAX_CLIENTS\<close>: feed the audio path's liveness into the handshake machine.\<close>

definition ctl_feed_slot :: "nat \<Rightarrow> host_ctl \<Rightarrow> host_ctl option" where
  "ctl_feed_slot slot s =
     map_option (\<lambda>st.
         let us = last_rx_us st in
         if 0 < us then s\<lparr>hc_hs := mark_heard (of_nat (slot + 1)) (us div 1000) (hc_hs s)\<rparr> else s)
       (client_at slot (hc_shared s))"

definition ctl_feed :: "host_ctl \<Rightarrow> host_ctl option" where
  "ctl_feed s = for_each ctl_feed_slot [0..<MAX_CLIENTS] s"

definition ctl_ping :: "u64 \<Rightarrow> (nat \<Rightarrow> u64) \<Rightarrow> host_ctl \<Rightarrow> (host_ctl \<times> ctl_out list) option" where
  "ctl_ping now_ms us s =
     (if PING_INTERVAL_MS \<le> saturating_sub now_ms (hc_last_ping s)
      then ctl_send_all (to_clients (\<lambda>k. Ping (us k)) s) (s\<lparr>hc_last_ping := now_ms\<rparr>)
      else Some (s, []))"

definition ctl_keepalive :: "u64 \<Rightarrow> host_ctl \<Rightarrow> (host_ctl \<times> ctl_out list) option" where
  "ctl_keepalive now_ms s =
     (if KEEPALIVE_MS \<le> saturating_sub now_ms (hc_last_keepalive s)
      then ctl_send_all (to_clients (\<lambda>_. Keepalive) s) (s\<lparr>hc_last_keepalive := now_ms\<rparr>)
      else Some (s, []))"

text \<open>The timer of the snapshot for the UI; the snapshot itself is built in \<open>Ui_Snapshot\<close>.\<close>

definition ctl_snapshot :: "u64 \<Rightarrow> host_ctl \<Rightarrow> host_ctl" where
  "ctl_snapshot now_ms s =
     (if SNAPSHOT_INTERVAL_MS \<le> saturating_sub now_ms (hc_last_snapshot s)
      then s\<lparr>hc_last_snapshot := now_ms\<rparr> else s)"

text \<open>Sequencing of parts that may panic, their outputs collected.\<close>

definition then_do :: "('s \<times> 'o list) option \<Rightarrow> ('s \<Rightarrow> ('s \<times> 'o list) option) \<Rightarrow> ('s \<times> 'o list) option" where
  "then_do m f =
     (case m of None \<Rightarrow> None | Some (s, out) \<Rightarrow> map_option (\<lambda>(s, outs). (s, out @ outs)) (f s))"

definition ctl_goodbye :: "host_ctl \<Rightarrow> (host_ctl \<times> ctl_out list) option" where
  "ctl_goodbye s = ctl_send_all (to_clients (\<lambda>_. Bye) s) s"

definition ctl_shutdown :: "host_ctl \<Rightarrow> (host_ctl \<times> ctl_out list) option" where
  "ctl_shutdown s =
     then_do (ctl_goodbye s) (\<lambda>s. then_do (ctl_goodbye s) (\<lambda>s. Some (s\<lparr>hc_running := False\<rparr>, [])))"

definition ctl_iteration :: "recv \<Rightarrow> u64 \<Rightarrow> (nat \<Rightarrow> u64) \<Rightarrow> host_ctl \<Rightarrow> (host_ctl \<times> ctl_out list) option" where
  "ctl_iteration r now_ms us s =
     (if hs_shutdown (hc_shared s) then ctl_shutdown s
      else case r of
          RecvDisconnected \<Rightarrow> then_do (ctl_goodbye s) (\<lambda>s. Some (s\<lparr>hc_running := False\<rparr>, []))
        | _ \<Rightarrow>
            then_do (case r of RecvOk ev \<Rightarrow> ctl_packet ev now_ms s | _ \<Rightarrow> Some (s, []))
              (\<lambda>s. then_do (Option.bind (ctl_feed s) (ctl_drive (ETick now_ms)))
              (\<lambda>s. then_do (ctl_ping now_ms us s)
              (\<lambda>s. then_do (ctl_keepalive now_ms s)
              (\<lambda>s. Some (ctl_snapshot now_ms s, []))))))"

text \<open>The thread as a machine: an iteration, or the other threads at work on the shared state.\<close>

datatype hc_event = HcIter recv u64 "nat \<Rightarrow> u64" | HcOthers "host_shared \<Rightarrow> host_shared"

fun hc_step :: "hc_event \<Rightarrow> host_ctl \<Rightarrow> host_ctl \<times> ctl_out list" where
  "hc_step (HcIter r now_ms us) s =
     (if \<not> hc_running s then (s, [])
      else case ctl_iteration r now_ms us s of None \<Rightarrow> (s, [CtlPanic]) | Some r \<Rightarrow> r)"
| "hc_step (HcOthers f) s = (s\<lparr>hc_shared := f (hc_shared s)\<rparr>, [])"

section \<open>What an action may do\<close>

text \<open>The address tables of the two network threads, as the updates sent to them build it.\<close>

fun see_out :: "ctl_out \<Rightarrow> socket_addr option list \<Rightarrow> socket_addr option list option" where
  "see_out (Datagram _ _) T = Some T"
| "see_out (AddrTable (UpClient k addr)) T = (if unat k < length T then Some (T[unat k := addr]) else None)"
| "see_out (AddrTable (UpPeer _)) T = None"
| "see_out CtlPanic T = None"

definition addr_table :: "host_handshake \<Rightarrow> socket_addr option list" where
  "addr_table h = map (map_option sl_addr) (slots h)"

text \<open>Every output is sound: no panic, and every datagram parses as a control packet of the session
  from the host.\<close>

definition ctl_out_ok :: "u16 \<Rightarrow> ctl_out \<Rightarrow> bool" where
  "ctl_out_ok sid a = (case a of
      Datagram to d \<Rightarrow> length d \<le> 195 \<and> (\<exists>h c. parse_datagram d = Ok (h, PControl c) \<and> session_id h = sid
        \<and> sender_id h = HOST_SENDER_ID)
    | AddrTable _ \<Rightarrow> True
    | CtlPanic \<Rightarrow> False)"

definition io_ok :: "control_io \<Rightarrow> bool" where
  "io_ok io \<longleftrightarrow> length (io_buf io) = MAX_DATAGRAM"

lemma io_send_ok:
  assumes "io_ok io" and "control_sendable c"
  shows "\<exists>io' d sq. io_send c sid sender to io = Some (io', [Datagram to d], sq) \<and> io_ok io'
    \<and> length d \<le> 195 \<and> parse_datagram d
        = Ok (\<lparr>ptype = packet_type_of c, session_id = sid, sender_id = sender, hseq = sq\<rparr>, PControl (control_canon c))"
proof -
  obtain sq g where sq: "seq_next (io_seq io) = (sq, g)" by fastforce
  let ?h = "\<lparr>ptype = packet_type_of c, session_id = sid, sender_id = sender, hseq = sq\<rparr>"
  have "195 \<le> length (io_buf io)" using assms(1) by (simp add: io_ok_def MAX_DATAGRAM_def)
  from control_write_parse [OF assms(2), of ?h, OF _ this]
  obtain out' n where "control_write c ?h (io_buf io) = Some (out', n)" "n \<le> 195"
    "length out' = length (io_buf io)" "parse_datagram (take n out') = Ok (?h, PControl (control_canon c))"
    by auto
  with assms(1) sq show ?thesis by (simp add: io_send_def io_ok_def)
qed

lemma host_len: "host_inv h \<Longrightarrow> length (slots h) = MAX_CLIENTS"
  by (simp add: host_inv_def slots_inv_def)

lemma client_addr_nth: "i < MAX_CLIENTS \<Longrightarrow> client_addr h (sender_id_of i) = map_option sl_addr (slots h ! i)"
  using slot_of_sender_iff [of "sender_id_of i" i] by (simp add: client_addr_def)

lemma client_addr_eqI:
  assumes "\<And>i. i < MAX_CLIENTS \<Longrightarrow> map_option sl_addr (slots h' ! i) = map_option sl_addr (slots h ! i)"
  shows "client_addr h' = client_addr h"
proof
  fix sid
  show "client_addr h' sid = client_addr h sid"
  proof (cases "slot_of_sender sid")
    case (Some i)
    then have "i < MAX_CLIENTS" "sid = sender_id_of i" by (simp_all add: slot_of_sender_iff)
    then show ?thesis using assms by (simp add: client_addr_nth)
  qed (simp add: client_addr_def)
qed

lemma welcome_sent_addr: "host_inv h \<Longrightarrow> client_addr (welcome_sent to sq h) = client_addr h"
  by (rule client_addr_eqI)
    (auto simp: welcome_sent_def host_len option.map_comp comp_def intro!: option.map_cong
      split: slot_state.split)

lemma room_code_step [simp]: "h_room_code (fst (host_step e h)) = h_room_code h"
  by (cases e)
    (auto simp: on_hello_def welcome_sent_def on_ack_def mark_heard_def on_bye_def
      remove_where_def host_tick_def Let_def case_prod_unfold
      split: control.split option.split slot_state.split)

lemma room_code_simps [simp]:
  "h_room_code (welcome_sent to sq h) = h_room_code h" "h_room_code (mark_heard k t h) = h_room_code h"
  using room_code_step [of "EWelcomeSent to sq" h] room_code_step [of "EHeard k t" h] by simp_all

lemma welcome_sent_inv: "host_inv h \<Longrightarrow> host_inv (welcome_sent to sq h)"
  using host_step_inv [of "EWelcomeSent to sq" h] by simp

text \<open>While a list of actions runs: \<open>S\<close> are the ids that are in, \<open>A\<close> the machine's address lookup,
  \<open>X\<close> the address each slot has or gets, \<open>T\<close> the threads' table.\<close>

definition ctl_rel :: "u8 list \<Rightarrow> u16 \<Rightarrow> (u16 \<Rightarrow> socket_addr option) \<Rightarrow> (nat \<Rightarrow> socket_addr option) \<Rightarrow> u16 set
    \<Rightarrow> socket_addr option list \<Rightarrow> host_ctl \<Rightarrow> bool" where
  "ctl_rel code sid A X S T s \<longleftrightarrow> host_inv (hc_hs s) \<and> h_room_code (hc_hs s) = code \<and> client_addr (hc_hs s) = A \<and> io_ok (hc_io s)
     \<and> length (hc_names s) = MAX_CLIENTS \<and> shared_ok (hc_shared s) \<and> hs_session_id (hc_shared s) = sid
     \<and> length T = MAX_CLIENTS
     \<and> (\<forall>i < MAX_CLIENTS. active (clients (hc_shared s) ! i) = (sender_id_of i \<in> S)
          \<and> (hc_names s ! i \<noteq> None) = (sender_id_of i \<in> S)
          \<and> T ! i = (if sender_id_of i \<in> S then X i else None))"

definition action_ok :: "(u16 \<Rightarrow> socket_addr option) \<Rightarrow> (nat \<Rightarrow> socket_addr option) \<Rightarrow> host_action \<Rightarrow> bool" where
  "action_ok A X a = (case a of
      HSend _ c \<Rightarrow> control_sendable c
    | ClientJoined sid _ \<Rightarrow> (\<exists>i < MAX_CLIENTS. sid = sender_id_of i \<and> X i = A sid)
    | ClientLeft sid _ \<Rightarrow> (\<exists>i < MAX_CLIENTS. sid = sender_id_of i))"

lemma clear_mix_fields [simp]:
  "clients (clear_mix p sh) = clients sh" "shared_ok (clear_mix p sh) = shared_ok sh"
  "hs_session_id (clear_mix p sh) = hs_session_id sh"
  by (simp_all add: clear_mix_def shared_ok_def)

lemma slot_ids: "i < MAX_CLIENTS \<Longrightarrow> unat (sender_id_of i - 1) = i \<and> unat (word_of_nat i :: u8) = i"
  using slot_of_id [of i] by (simp add: MAX_CLIENTS_def unat_of_nat)

lemma ctl_joined_rel:
  assumes rel: "ctl_rel code sid A X S T s" and i: "i < MAX_CLIENTS" and X: "X i = A (sender_id_of i)"
  shows "\<exists>s' T' out. ctl_joined (sender_id_of i) nm s = Some (s', out) \<and> replay see_out out T = Some T'
    \<and> ctl_rel code sid A X (insert (sender_id_of i) S) T' s' \<and> (\<forall>b \<in> set out. ctl_out_ok sid b)"
proof -
  have len: "length T = MAX_CLIENTS" "length (hc_names s) = MAX_CLIENTS" "length (clients (hc_shared s)) = MAX_CLIENTS"
    using rel by (simp_all add: ctl_rel_def shared_ok_def)
  let ?T = "T[i := A (sender_id_of i)]"
  obtain s' out where s': "ctl_joined (sender_id_of i) nm s = Some (s', out)"
    using i slot_ids [OF i] by (simp add: ctl_joined_def Let_def)
  have f: "hc_hs s' = hc_hs s" "hc_io s' = hc_io s" "hc_names s' = (hc_names s)[i := Some nm]"
    "shared_ok (hc_shared s') = shared_ok (hc_shared s)" "hs_session_id (hc_shared s') = hs_session_id (hc_shared s)"
    "out = [AddrTable (UpClient (of_nat i) (client_addr (hc_hs s) (sender_id_of i)))]"
    and act: "active (clients (hc_shared s') ! j) = (if j = i then True else active (clients (hc_shared s) ! j))" for j
    using s' slot_ids [OF i] i len by (auto simp: ctl_joined_def Let_def upd_client_def shared_ok_def clear_mix_def)
  have "ctl_rel code sid A X (insert (sender_id_of i) S) ?T s'"
    unfolding ctl_rel_def
  proof (intro conjI allI impI)
    fix j
    assume j: "j < MAX_CLIENTS"
    have id: "sender_id_of j = sender_id_of i \<longleftrightarrow> j = i" using i j by (simp add: sender_id_inj)
    have old: "active (clients (hc_shared s) ! j) = (sender_id_of j \<in> S)"
      "(hc_names s ! j \<noteq> None) = (sender_id_of j \<in> S)" "T ! j = (if sender_id_of j \<in> S then X j else None)"
      using rel j unfolding ctl_rel_def by blast+
    show "active (clients (hc_shared s') ! j) = (sender_id_of j \<in> insert (sender_id_of i) S)"
      "(hc_names s' ! j \<noteq> None) = (sender_id_of j \<in> insert (sender_id_of i) S)"
      "?T ! j = (if sender_id_of j \<in> insert (sender_id_of i) S then X j else None)"
      using old j X len by (cases "j = i"; simp add: act f id)+
  qed (use rel in \<open>simp_all add: ctl_rel_def f\<close>)
  moreover have "replay see_out out T = Some ?T"
    using rel slot_ids [OF i] i by (simp add: f ctl_rel_def)
  ultimately show ?thesis using s' f by (auto simp: ctl_out_ok_def)
qed

lemma ctl_left_rel:
  assumes rel: "ctl_rel code sid A X S T s" and i: "i < MAX_CLIENTS"
  shows "\<exists>s' T' out. ctl_left (sender_id_of i) s = Some (s', out) \<and> replay see_out out T = Some T'
    \<and> ctl_rel code sid A X (S - {sender_id_of i}) T' s' \<and> (\<forall>b \<in> set out. ctl_out_ok sid b)"
proof -
  have len: "length T = MAX_CLIENTS" "length (hc_names s) = MAX_CLIENTS" "length (clients (hc_shared s)) = MAX_CLIENTS"
    using rel by (simp_all add: ctl_rel_def shared_ok_def)
  let ?T = "T[i := None]"
  obtain s' out where s': "ctl_left (sender_id_of i) s = Some (s', out)"
    using i slot_ids [OF i] by (simp add: ctl_left_def Let_def)
  have f: "hc_hs s' = hc_hs s" "hc_io s' = hc_io s" "hc_names s' = (hc_names s)[i := None]"
    "shared_ok (hc_shared s') = shared_ok (hc_shared s)" "hs_session_id (hc_shared s') = hs_session_id (hc_shared s)"
    "out = [AddrTable (UpClient (of_nat i) None)]"
    and act: "active (clients (hc_shared s') ! j) = (if j = i then False else active (clients (hc_shared s) ! j))" for j
    using s' slot_ids [OF i] i len by (auto simp: ctl_left_def Let_def upd_client_def shared_ok_def clear_mix_def)
  have "ctl_rel code sid A X (S - {sender_id_of i}) ?T s'"
    unfolding ctl_rel_def
  proof (intro conjI allI impI)
    fix j
    assume j: "j < MAX_CLIENTS"
    have id: "sender_id_of j = sender_id_of i \<longleftrightarrow> j = i" using i j by (simp add: sender_id_inj)
    have old: "active (clients (hc_shared s) ! j) = (sender_id_of j \<in> S)"
      "(hc_names s ! j \<noteq> None) = (sender_id_of j \<in> S)" "T ! j = (if sender_id_of j \<in> S then X j else None)"
      using rel j unfolding ctl_rel_def by blast+
    show "active (clients (hc_shared s') ! j) = (sender_id_of j \<in> S - {sender_id_of i})"
      "(hc_names s' ! j \<noteq> None) = (sender_id_of j \<in> S - {sender_id_of i})"
      "?T ! j = (if sender_id_of j \<in> S - {sender_id_of i} then X j else None)"
      using old j len by (cases "j = i"; simp add: act f id)+
  qed (use rel in \<open>simp_all add: ctl_rel_def f\<close>)
  moreover have "replay see_out out T = Some ?T"
    using rel slot_ids [OF i] i by (simp add: f ctl_rel_def)
  ultimately show ?thesis using s' f by (auto simp: ctl_out_ok_def)
qed

lemma ctl_send_rel:
  assumes rel: "ctl_rel code sid A X S T s" and c: "control_sendable c"
  shows "\<exists>s' d. ctl_send to c s = Some (s', [Datagram to d]) \<and> ctl_rel code sid A X S T s'
    \<and> ctl_out_ok sid (Datagram to d)"
proof -
  have "io_ok (hc_io s)" "hs_session_id (hc_shared s) = sid" using rel by (simp_all add: ctl_rel_def)
  with io_send_ok [OF this(1) c, of sid HOST_SENDER_ID to] rel show ?thesis
    by (auto simp: ctl_send_def Let_def ctl_rel_def ctl_out_ok_def welcome_sent_inv welcome_sent_addr)
qed

lemma ctl_action_rel:
  assumes "ctl_rel code sid A X S T s" and "action_ok A X a" and "see_action a S = Some S'"
  shows "\<exists>s' T' out. ctl_action a s = Some (s', out) \<and> replay see_out out T = Some T'
    \<and> ctl_rel code sid A X S' T' s' \<and> (\<forall>b \<in> set out. ctl_out_ok sid b)"
proof (cases a)
  case (HSend to c)
  with assms ctl_send_rel [OF assms(1), of c to] show ?thesis by (auto simp: action_ok_def)
next
  case (ClientJoined i nm)
  with assms ctl_joined_rel [OF assms(1)] show ?thesis by (auto simp: action_ok_def split: if_splits)
next
  case (ClientLeft i rs)
  with assms ctl_left_rel [OF assms(1)] show ?thesis by (auto simp: action_ok_def split: if_splits)
qed

lemma ctl_run_rel:
  "\<lbrakk>ctl_rel code sid A X S T s; \<forall>a \<in> set as. action_ok A X a; replay see_action as S = Some S'\<rbrakk> \<Longrightarrow>
   \<exists>s' T' out. ctl_run as s = Some (s', out) \<and> replay see_out out T = Some T'
    \<and> ctl_rel code sid A X S' T' s' \<and> (\<forall>b \<in> set out. ctl_out_ok sid b)"
proof (induction as arbitrary: S T s)
  case (Cons a as)
  from Cons.prems(3) obtain S1 where S1: "see_action a S = Some S1" "replay see_action as S1 = Some S'"
    by (auto simp: bind_eq_Some_conv)
  have "action_ok A X a" using Cons.prems(2) by simp
  from ctl_action_rel [OF Cons.prems(1) this S1(1)] obtain s1 T1 out1
    where one: "ctl_action a s = Some (s1, out1)" "replay see_out out1 T = Some T1"
      "ctl_rel code sid A X S1 T1 s1" "\<forall>b \<in> set out1. ctl_out_ok sid b" by blast
  from Cons.IH [OF one(3) _ S1(2)] Cons.prems(2) obtain s2 T2 out2
    where two: "ctl_run as s1 = Some (s2, out2)" "replay see_out out2 T1 = Some T2"
      "ctl_rel code sid A X S' T2 s2" "\<forall>b \<in> set out2. ctl_out_ok sid b" by auto
  have "replay see_out (out1 @ out2) T = Some T2" using one(2) two(2) by (simp add: replay_append)
  with one two show ?case by (intro exI [of _ s2] exI [of _ T2] exI [of _ "out1 @ out2"]) auto
qed simp

section \<open>One event of the machine\<close>

text \<open>Between two steps of the machine: the shared flags and the names mirror its slots.\<close>

definition ctl_inv :: "u8 list \<Rightarrow> u16 \<Rightarrow> host_ctl \<Rightarrow> bool" where
  "ctl_inv code sid s \<longleftrightarrow> host_inv (hc_hs s) \<and> h_room_code (hc_hs s) = code \<and> io_ok (hc_io s) \<and> length (hc_names s) = MAX_CLIENTS
     \<and> shared_ok (hc_shared s) \<and> hs_session_id (hc_shared s) = sid
     \<and> (\<forall>i < MAX_CLIENTS. (active (clients (hc_shared s) ! i) \<longleftrightarrow> slots (hc_hs s) ! i \<noteq> None)
          \<and> (hc_names s ! i \<noteq> None \<longleftrightarrow> slots (hc_hs s) ! i \<noteq> None))"

lemma in_occupied_iff: "\<lbrakk>host_inv h; i < MAX_CLIENTS\<rbrakk> \<Longrightarrow> sender_id_of i \<in> occupied h \<longleftrightarrow> slots h ! i \<noteq> None"
  by (simp add: occupied_iff_addr client_addr_nth)

lemma addr_table_nth: "\<lbrakk>host_inv h; i < MAX_CLIENTS\<rbrakk> \<Longrightarrow> addr_table h ! i = client_addr h (sender_id_of i)"
  by (simp add: addr_table_def host_len client_addr_nth)

text \<open>A client keeps its address as long as it is in.\<close>

lemma entry_le_addr:
  "\<lbrakk>list_all2 entry_le (slots h') (slots h); slots h' ! i = Some s'; slots h ! i = Some s;
    i < MAX_CLIENTS; host_inv h\<rbrakk> \<Longrightarrow> sl_addr s' = sl_addr s"
  by (auto simp: entry_le_def host_len dest!: list_all2_nthD2 [of _ _ _ i])

lemma host_step_keeps_addr:
  assumes inv: "host_inv h" and i: "i < MAX_CLIENTS" and s: "slots h ! i = Some s"
    and s': "slots (fst (host_step e h)) ! i = Some s'"
  shows "sl_addr s' = sl_addr s"
proof (cases e)
  case (EHello a c t)
  have len: "length (slots h) = MAX_CLIENTS" using inv by (rule host_len)
  show ?thesis
  proof (cases "\<exists>k x. slots (fst (on_hello a c t h)) = (slots h)[k := Some x] \<and>
      (\<forall>y. slots h ! k = Some y \<longrightarrow> sl_addr x = sl_addr y)")
    case True
    then obtain k x where kx: "slots (fst (on_hello a c t h)) = (slots h)[k := Some x]"
      "\<forall>y. slots h ! k = Some y \<longrightarrow> sl_addr x = sl_addr y" by blast
    show ?thesis
    proof (cases "k = i")
      case True
      with EHello s s' i len kx show ?thesis by simp
    next
      case False
      with EHello s s' kx show ?thesis by simp
    qed
  next
    case False
    then have "slots (fst (on_hello a c t h)) = slots h"
      by (fastforce simp: on_hello_def Let_def dest: find_addr find_free
          split: control.splits option.splits if_splits)
    then show ?thesis using EHello s s' by simp
  qed
next
  case (EWelcomeSent to sq)
  then show ?thesis using s' by (simp add: entry_le_addr [OF welcome_sent_le _ s i inv])
next
  case (EAck a sq t)
  then show ?thesis using s' by (simp add: entry_le_addr [OF on_ack_le _ s i inv])
next
  case (EHeard k t)
  then show ?thesis using s' by (simp add: entry_le_addr [OF mark_heard_le _ s i inv])
next
  case (EBye a)
  then show ?thesis using s' by (simp add: on_bye_def entry_le_addr [OF remove_where_le _ s i inv])
next
  case (ETick t)
  then show ?thesis using s' by (simp add: entry_le_addr [OF host_tick_le _ s i inv])
qed

text \<open>Who gets in has said HELLO with this protocol version and this room code.\<close>

definition hello_admits :: "u8 list \<Rightarrow> control \<Rightarrow> bool" where
  "hello_admits code c = (case c of Hello pv rc _ _ _ \<Rightarrow> pv = PROTOCOL_VERSION \<and> rc = code | _ \<Rightarrow> False)"

lemma hello_slots:
  "slots (fst (on_hello a c t h)) = slots h \<or>
   (\<exists>k x. slots (fst (on_hello a c t h)) = (slots h)[k := Some x] \<and> sl_addr x = a \<and> hello_admits (h_room_code h) c)"
proof (cases "hello_admits (h_room_code h) c")
  case False
  then show ?thesis by (auto simp: on_hello_def hello_admits_def split: control.splits)
next
  case True
  then obtain nm cm fm where c: "c = Hello PROTOCOL_VERSION (h_room_code h) nm cm fm"
    by (auto simp: hello_admits_def split: control.splits)
  show ?thesis
  proof (cases "position (occupied_by a) (slots h)")
    case (Some k)
    with find_addr [OF Some] have "\<exists>x. slots (fst (on_hello a c t h)) = (slots h)[k := Some x] \<and> sl_addr x = a"
      by (auto simp: on_hello_def c Let_def)
    with True show ?thesis by blast
  next
    case None
    show ?thesis
    proof (cases "position (\<lambda>e. e = None) (slots h)")
      case (Some k)
      with None have "\<exists>x. slots (fst (on_hello a c t h)) = (slots h)[k := Some x] \<and> sl_addr x = a"
        by (auto simp: on_hello_def c Let_def)
      with True show ?thesis by blast
    next
      case none: None
      with None show ?thesis by (simp add: on_hello_def c)
    qed
  qed
qed

lemma step_admits:
  assumes inv: "host_inv h" and i: "i < MAX_CLIENTS" and s': "slots (fst (host_step e h)) ! i = Some s'"
  shows "Some (sl_addr s') = map_option sl_addr (slots h ! i)
    \<or> (\<exists>c t. e = EHello (sl_addr s') c t \<and> hello_admits (h_room_code h) c)"
proof (cases "slots h ! i")
  case (Some s)
  with host_step_keeps_addr [OF inv i Some s'] show ?thesis by simp
next
  case None
  have quiet: False if "list_all2 entry_le (slots h') (slots h)" "slots h' ! i = Some s'" for h'
    using list_all2_nthD2 [OF that(1), of i] None i inv that(2) by (simp add: host_len entry_le_def)
  show ?thesis
  proof (cases e)
    case (EHello a c t)
    from hello_slots [of a c t h] show ?thesis
    proof (elim disjE exE conjE)
      assume "slots (fst (on_hello a c t h)) = slots h"
      with EHello None s' show ?thesis by simp
    next
      fix k x
      assume kx: "slots (fst (on_hello a c t h)) = (slots h)[k := Some x]" "sl_addr x = a"
        and adm: "hello_admits (h_room_code h) c"
      have "s' = x" using kx EHello None s' i host_len [OF inv] by (cases "k = i") simp_all
      with EHello kx adm show ?thesis by auto
    qed
  next
    case (EWelcomeSent to sq) with quiet [OF welcome_sent_le] s' show ?thesis by auto
  next
    case (EAck a sq t) with quiet [OF on_ack_le] s' show ?thesis by auto
  next
    case (EHeard k t) with quiet [OF mark_heard_le] s' show ?thesis by auto
  next
    case (EBye a) with quiet [OF remove_where_le] s' show ?thesis by (auto simp: on_bye_def)
  next
    case (ETick t) with quiet [OF host_tick_le] s' show ?thesis by auto
  qed
qed

text \<open>Joins are of a free slot, leaves of one of the four.\<close>

lemma broadcast_no_change:
  "ClientJoined sid nm \<notin> set (broadcast_roster h ex)" "ClientLeft sid r \<notin> set (broadcast_roster h ex)"
  by (auto dest: broadcast_sends)

lemma remove_loop_ids:
  "a \<in> set (fst (snd (remove_loop p rs k es))) \<Longrightarrow> \<exists>i < length es. a = ClientLeft (sender_id_of (k + i)) rs"
proof (induction es arbitrary: k)
  case (Cons e es)
  from Cons.prems consider "a = ClientLeft (sender_id_of k) rs"
    | "a \<in> set (fst (snd (remove_loop p rs (k + 1) es)))"
    by (auto simp: case_prod_unfold split: if_splits)
  then show ?case
  proof cases
    case 1 then show ?thesis by (intro exI [of _ 0]) simp
  next
    case 2
    with Cons.IH obtain i where "i < length es" "a = ClientLeft (sender_id_of (k + 1 + i)) rs" by blast
    then show ?thesis by (intro exI [of _ "Suc i"]) simp
  qed
qed simp

lemma tick_changes:
  assumes "host_inv h" and "a \<in> set (snd (host_tick now h))"
  shows "(\<exists>to c. a = HSend to c) \<or> (\<exists>i r. i < MAX_CLIENTS \<and> a = ClientLeft (sender_id_of i) r)"
proof -
  have len: "length (slots h) = MAX_CLIENTS" using assms(1) by (rule host_len)
  from in_host_tick [OF assms(2)] show ?thesis
  proof (elim disjE exE)
    assume "a \<in> set (fst (snd (tick_loop now 0 (slots h))))"
    then show ?thesis by (auto simp: tick_loop_leaves tick_entry_leaves len split: if_splits)
  next
    assume "a \<in> set (tick_welcomes now h)"
    then show ?thesis by (auto simp: in_tick_welcomes [OF len])
  qed blast
qed

lemma hello_changes:
  assumes "host_inv h" and "a \<in> set (snd (on_hello addr c t h))"
  shows "(\<exists>to c. a = HSend to c)
    \<or> (\<exists>i nm. i < MAX_CLIENTS \<and> slots h ! i = None \<and> a = ClientJoined (sender_id_of i) nm)"
proof -
  have len: "length (slots h) = MAX_CLIENTS" using assms(1) by (rule host_len)
  show ?thesis
    using assms(2) find_free [of "slots h"] len
    by (fastforce simp: on_hello_def Let_def dest: broadcast_sends
        split: control.splits option.splits if_splits)
qed

lemma step_changes:
  assumes "host_inv h" and "a \<in> set (snd (host_step e h))"
  shows "(\<exists>to c. a = HSend to c) \<or> (\<exists>i r. i < MAX_CLIENTS \<and> a = ClientLeft (sender_id_of i) r)
    \<or> (\<exists>i nm. i < MAX_CLIENTS \<and> slots h ! i = None \<and> a = ClientJoined (sender_id_of i) nm)"
proof (cases e)
  case (EHello addr c t)
  with assms(2) have "a \<in> set (snd (on_hello addr c t h))" by simp
  from hello_changes [OF assms(1) this] show ?thesis by blast
next
  case (EBye addr)
  with assms host_len [OF assms(1)] show ?thesis
    by (auto simp: on_bye_def remove_where_def Let_def case_prod_unfold
        dest!: remove_loop_ids broadcast_sends split: if_splits)
next
  case (ETick t)
  with tick_changes [OF assms(1)] assms(2) show ?thesis by auto
qed (use assms in \<open>auto simp: snd_on_ack\<close>)

definition good :: "u8 list \<Rightarrow> socket_addr option set \<Rightarrow> u16 \<Rightarrow> host_ctl \<Rightarrow> (host_ctl \<times> ctl_out list) option \<Rightarrow> bool" where
  "good code N sid s r \<longleftrightarrow> (\<exists>s' out. r = Some (s', out) \<and> ctl_inv code sid s'
     \<and> replay see_out out (addr_table (hc_hs s)) = Some (addr_table (hc_hs s'))
     \<and> set (addr_table (hc_hs s')) \<subseteq> set (addr_table (hc_hs s)) \<union> N
     \<and> (\<forall>a \<in> set out. ctl_out_ok sid a))"

text \<open>The address table after an event: it follows from the sessions alone, an entry that was free
  takes its new session's address, one that stays keeps its address, and no address is new but the
  one admitted.\<close>

lemma length_addr_table: "host_inv h \<Longrightarrow> length (addr_table h) = MAX_CLIENTS"
  by (simp add: addr_table_def host_len)

lemma addr_table_cong:
  assumes "host_inv h" and "host_inv h'" and "client_addr h = client_addr h'"
  shows "addr_table h = addr_table h'"
  using assms 
  by (intro nth_equalityI) (simp_all add: addr_table_nth length_addr_table)

lemma followed_table:
  assumes "host_inv h" and "host_inv (fst (host_step e h))" and "length T = MAX_CLIENTS"
    and "\<And>i. i < MAX_CLIENTS \<Longrightarrow> T ! i = (if slots (fst (host_step e h)) ! i = None then None
      else if slots h ! i = None then client_addr (fst (host_step e h)) (sender_id_of i) else addr_table h ! i)"
  shows "T = addr_table (fst (host_step e h))"
proof (rule nth_equalityI)
  show "length T = length (addr_table (fst (host_step e h)))" using assms(2,3) by (simp add: length_addr_table)
next
  fix i
  assume "i < length T"
  then have i: "i < MAX_CLIENTS" using assms(3) by simp
  show "T ! i = addr_table (fst (host_step e h)) ! i"
  proof (cases "slots h ! i = None \<or> slots (fst (host_step e h)) ! i = None")
    case True
    with assms i show ?thesis by (auto simp: addr_table_nth client_addr_nth)
  next
    case False
    then obtain u v where uv: "slots h ! i = Some u" "slots (fst (host_step e h)) ! i = Some v" by auto
    with host_step_keeps_addr [OF assms(1) i uv(1) uv(2)] assms(1,2,4) i show ?thesis
      by (simp add: addr_table_nth client_addr_nth)
  qed
qed

lemma table_grows_by_admitted:
  assumes "host_inv h" and "host_inv (fst (host_step e h))" and "None \<in> N"
    and adm: "\<And>a c t. \<lbrakk>e = EHello a c t; hello_admits (h_room_code h) c\<rbrakk> \<Longrightarrow> Some a \<in> N"
  shows "set (addr_table (fst (host_step e h))) \<subseteq> set (addr_table h) \<union> N"
proof
  fix x
  assume "x \<in> set (addr_table (fst (host_step e h)))"
  then obtain i where i: "i < MAX_CLIENTS" and x: "x = map_option sl_addr (slots (fst (host_step e h)) ! i)"
    using assms(2) by (auto simp: in_set_conv_nth addr_table_def host_len)
  show "x \<in> set (addr_table h) \<union> N"
  proof (cases "slots (fst (host_step e h)) ! i")
    case None
    with x assms(3) show ?thesis by simp
  next
    case (Some v)
    have "map_option sl_addr (slots h ! i) \<in> set (addr_table h)"
      using i assms(1) by (auto simp: addr_table_def in_set_conv_nth host_len intro!: exI [of _ i])
    then show ?thesis using step_admits [OF assms(1) i Some] x Some adm by auto
  qed
qed

text \<open>Before the actions of an event run, the address table is that of the sessions before it.\<close>

lemma ctl_rel_start:
  assumes "ctl_inv code sid s" and "host_inv h'" and "h_room_code h' = h_room_code (hc_hs s)"
  shows "ctl_rel code sid (client_addr h')
    (\<lambda>i. if slots (hc_hs s) ! i = None then client_addr h' (sender_id_of i) else addr_table (hc_hs s) ! i)
    (occupied (hc_hs s)) (addr_table (hc_hs s)) (s\<lparr>hc_hs := h'\<rparr>)"
  unfolding ctl_rel_def
proof (intro conjI allI impI)
  fix i
  assume i: "i < MAX_CLIENTS"
  have h: "host_inv (hc_hs s)" using assms(1) by (simp add: ctl_inv_def)
  show "addr_table (hc_hs s) ! i = (if sender_id_of i \<in> occupied (hc_hs s)
      then if slots (hc_hs s) ! i = None then client_addr h' (sender_id_of i) else addr_table (hc_hs s) ! i else None)"
    using i h by (simp add: in_occupied_iff addr_table_nth client_addr_nth)
qed (use assms in \<open>auto simp: ctl_inv_def in_occupied_iff addr_table_def host_len\<close>)

lemma drive_good:
  assumes inv: "ctl_inv code sid s" and ok: "ok_event e" and N: "None \<in> N"
    and adm: "\<And>a c t. \<lbrakk>e = EHello a c t; hello_admits code c\<rbrakk> \<Longrightarrow> Some a \<in> N"
  shows "good code N sid s (ctl_drive e s)"
proof -
  let ?h = "hc_hs s" and ?h' = "fst (host_step e (hc_hs s))" and ?as = "snd (host_step e (hc_hs s))"
  let ?A = "client_addr ?h'"
  let ?X = "\<lambda>i. if slots ?h ! i = None then ?A (sender_id_of i) else addr_table ?h ! i"
  have h: "host_inv ?h" "host_inv ?h'" and code: "h_room_code ?h = code"
    using inv host.step_inv [OF ok] by (simp_all add: ctl_inv_def)
  have "action_ok ?A ?X a" if "a \<in> set ?as" for a
  proof -
    from step_changes [OF h(1) that] show ?thesis
    proof (elim disjE exE conjE)
      fix i nm
      assume "i < MAX_CLIENTS" "slots ?h ! i = None" "a = ClientJoined (sender_id_of i) nm"
      then show ?thesis by (auto simp: action_ok_def intro!: exI [of _ i])
    qed (use host.step_out [OF ok h(1) that] in \<open>auto simp: action_ok_def sendable_def\<close>)
  qed
  with ctl_run_rel [OF ctl_rel_start [OF inv h(2)] _ embedder.step_view [OF ok h(1)]]
  obtain s' T' out where r: "ctl_run ?as (s\<lparr>hc_hs := ?h'\<rparr>) = Some (s', out)"
    "replay see_out out (addr_table ?h) = Some T'" "ctl_rel code sid ?A ?X (occupied ?h') T' s'"
    "\<forall>b \<in> set out. ctl_out_ok sid b" by auto
  have s': "host_inv (hc_hs s')" "client_addr (hc_hs s') = ?A" using r(3) by (simp_all add: ctl_rel_def)
  have same: "slots (hc_hs s') ! i = None \<longleftrightarrow> slots ?h' ! i = None" if "i < MAX_CLIENTS" for i
    using s'(2) client_addr_nth [OF that, of "hc_hs s'"] client_addr_nth [OF that, of ?h']
    by (metis map_option_is_None)
  have table: "addr_table (hc_hs s') = addr_table ?h'" by (rule addr_table_cong [OF s'(1) h(2) s'(2)])
  have "T' = addr_table ?h'"
    by (rule followed_table [OF h]) (use r(3) h(2) in \<open>auto simp: ctl_rel_def in_occupied_iff\<close>)
  moreover have "set (addr_table ?h') \<subseteq> set (addr_table ?h) \<union> N"
    by (rule table_grows_by_admitted [OF h N]) (use adm code in simp)
  moreover have "ctl_inv code sid s'"
    using r(3) same h(2) by (simp add: ctl_rel_def ctl_inv_def in_occupied_iff)
  ultimately show ?thesis using r table by (simp add: good_def ctl_drive_def case_prod_unfold)
qed

section \<open>One iteration of the loop\<close>

lemma good_Some: "ctl_inv code sid s \<Longrightarrow> good code N sid s (Some (s, []))"
  by (simp add: good_def)

lemma good_quiet:
  "\<lbrakk>ctl_inv code sid s'; addr_table (hc_hs s') = addr_table (hc_hs s)\<rbrakk> \<Longrightarrow> good code N sid s (Some (s', []))"
  by (simp add: good_def)

lemma good_then_do:
  assumes "good code N sid s r" and "\<And>s'. ctl_inv code sid s' \<Longrightarrow> good code N sid s' (f s')"
  shows "good code N sid s (then_do r f)"
proof -
  from assms(1) obtain s1 out1 where one: "r = Some (s1, out1)" "ctl_inv code sid s1"
    "replay see_out out1 (addr_table (hc_hs s)) = Some (addr_table (hc_hs s1))"
    "set (addr_table (hc_hs s1)) \<subseteq> set (addr_table (hc_hs s)) \<union> N" "\<forall>a \<in> set out1. ctl_out_ok sid a"
    unfolding good_def by blast
  from assms(2) [OF one(2)] obtain s2 out2 where two: "f s1 = Some (s2, out2)" "ctl_inv code sid s2"
    "replay see_out out2 (addr_table (hc_hs s1)) = Some (addr_table (hc_hs s2))"
    "set (addr_table (hc_hs s2)) \<subseteq> set (addr_table (hc_hs s1)) \<union> N" "\<forall>a \<in> set out2. ctl_out_ok sid a"
    unfolding good_def by blast
  from one two show ?thesis unfolding good_def then_do_def
    by (simp add: replay_append ball_Un) blast
qed

lemma good_from:
  "\<lbrakk>good code N sid s' r; addr_table (hc_hs s') = addr_table (hc_hs s)\<rbrakk> \<Longrightarrow> good code N sid s r"
  by (simp add: good_def)

text \<open>A change of the machine that keeps every slot's occupant.\<close>

lemma mark_heard_addr:
  assumes "host_inv h"
  shows "host_inv (mark_heard sid t h)"
    and "i < MAX_CLIENTS \<Longrightarrow> map_option sl_addr (slots (mark_heard sid t h) ! i) = map_option sl_addr (slots h ! i)"
proof -
  show "host_inv (mark_heard sid t h)" using host_step_inv [of "EHeard sid t" h] assms by simp
  show "i < MAX_CLIENTS \<Longrightarrow> map_option sl_addr (slots (mark_heard sid t h) ! i) = map_option sl_addr (slots h ! i)"
    by (cases "slot_of_sender sid = Some i")
      (auto simp: mark_heard_def Let_def host_len assms nth_list_update
        split: option.split slot_state.split)
qed

lemma mark_heard_table:
  "host_inv h \<Longrightarrow> addr_table (mark_heard sid t h) = addr_table h"
  using mark_heard_addr(1) [of h sid t] mark_heard_addr(2) [where h = h and sid = sid and t = t]
  by (intro nth_equalityI) (simp_all add: addr_table_def host_len)

lemma mark_heard_ctl_inv:
  assumes "ctl_inv code sid s"
  shows "ctl_inv code sid (s\<lparr>hc_hs := mark_heard k t (hc_hs s)\<rparr>)"
    and "addr_table (mark_heard k t (hc_hs s)) = addr_table (hc_hs s)"
proof -
  have h: "host_inv (hc_hs s)" using assms by (simp add: ctl_inv_def)
  have "slots (mark_heard k t (hc_hs s)) ! i = None \<longleftrightarrow> slots (hc_hs s) ! i = None" if "i < MAX_CLIENTS" for i
    using mark_heard_addr(2) [OF h that, of k t] by (metis map_option_is_None)
  then show "ctl_inv code sid (s\<lparr>hc_hs := mark_heard k t (hc_hs s)\<rparr>)"
    using assms mark_heard_addr(1) [OF h] by (simp add: ctl_inv_def)
  show "addr_table (mark_heard k t (hc_hs s)) = addr_table (hc_hs s)" by (rule mark_heard_table [OF h])
qed

lemma ctl_heard_inv:
  "ctl_inv code sid s \<Longrightarrow> ctl_inv code sid (ctl_heard ev now s) \<and> addr_table (hc_hs (ctl_heard ev now s)) = addr_table (hc_hs s)"
  by (auto simp: ctl_heard_def mark_heard_ctl_inv split: option.split)

text \<open>The feed stays within the array of slots; it is a fold of \<open>feed_from\<close>.\<close>

definition feed_from :: "nat \<Rightarrow> host_ctl \<Rightarrow> host_ctl" where
  "feed_from slot s =
     (let us = last_rx_us (clients (hc_shared s) ! slot) in
      if 0 < us then s\<lparr>hc_hs := mark_heard (of_nat (slot + 1)) (us div 1000) (hc_hs s)\<rparr> else s)"

definition feed_all :: "host_ctl \<Rightarrow> host_ctl" where
  "feed_all s = fold feed_from [0..<MAX_CLIENTS] s"

lemma ctl_feed_eq [simp]: "ctl_feed s = Some (feed_all s)"
  unfolding ctl_feed_def feed_all_def
  by (rule for_each_fold) (simp add: ctl_feed_slot_def feed_from_def)

lemma ctl_feed_inv:
  "ctl_inv code sid s \<Longrightarrow> ctl_inv code sid (fold feed_from ks s) \<and> addr_table (hc_hs (fold feed_from ks s)) = addr_table (hc_hs s)"
proof (induction ks arbitrary: s)
  case (Cons k ks)
  have "ctl_inv code sid (feed_from k s) \<and> addr_table (hc_hs (feed_from k s)) = addr_table (hc_hs s)"
    using Cons.prems by (auto simp: feed_from_def Let_def mark_heard_ctl_inv)
  with Cons.IH [of "feed_from k s"] show ?case by simp
qed simp

lemma active_upd_client:
  "(\<And>st. active (f st) = active st) \<Longrightarrow> active (clients (upd_client k f sh) ! i) = active (clients sh ! i)"
  by (cases "i = k"; cases "k < length (clients sh)") (simp_all add: upd_client_def list_update_beyond not_less)

text \<open>An address that has a session has one of the four sender ids, so the PONG's slot is in range.\<close>

lemma ctl_pong_some:
  assumes "ctl_inv code sid s"
  shows "\<exists>s'. ctl_pong ev t1 t2 t3 s = Some s' \<and> ctl_inv code sid s' \<and> hc_hs s' = hc_hs s"
proof (cases "sender_for_addr (hc_hs s) (ce_from ev)")
  case None
  with assms show ?thesis by (simp add: ctl_pong_def)
next
  case (Some sender)
  then obtain i where i: "i < length (slots (hc_hs s))" "sender = sender_id_of i"
    by (auto simp: sender_for_addr_def dest: position_SomeD)
  have "length (slots (hc_hs s)) = MAX_CLIENTS" using assms by (simp add: ctl_inv_def host_len)
  with i slot_of_id [of i] have "unat (sender - 1) < MAX_CLIENTS" by simp
  with Some assms show ?thesis by (auto simp: ctl_pong_def ctl_inv_def active_upd_client)
qed

lemma ctl_packet_good:
  assumes "ctl_inv code sid s" and "control_valid (ce_control ev)" and N: "None \<in> N"
    and adm: "hello_admits code (ce_control ev) \<Longrightarrow> Some (ce_from ev) \<in> N"
  shows "good code N sid s (ctl_packet ev now s)"
proof -
  let ?s = "ctl_heard ev now s"
  have s: "ctl_inv code sid ?s" "addr_table (hc_hs ?s) = addr_table (hc_hs s)"
    using ctl_heard_inv [OF assms(1)] by blast+
  have drive: "good code N sid s (ctl_drive e ?s)"
    if "ok_event e" "\<And>a c t. e = EHello a c t \<Longrightarrow> a = ce_from ev \<and> c = ce_control ev" for e
    using drive_good [OF s(1) that(1) N] adm that(2) s(2) by (blast intro: good_from)
  have "good code N sid s (ctl_drive (EHello (ce_from ev) (ce_control ev) now) ?s)"
    using assms(2) by (intro drive) (simp_all add: ok_event_def)
  moreover have "good code N sid s (ctl_drive (EAck (ce_from ev) k now) ?s)" for k
    by (intro drive) (simp_all add: ok_event_def)
  moreover have "good code N sid s (ctl_drive (EBye (ce_from ev)) ?s)"
    by (intro drive) (simp_all add: ok_event_def)
  moreover have "good code N sid s (map_option (\<lambda>s. (s, [])) (ctl_pong ev t1 t2 t3 ?s))" for t1 t2 t3
  proof -
    obtain s' where p: "ctl_pong ev t1 t2 t3 ?s = Some s'" "ctl_inv code sid s'" "hc_hs s' = hc_hs ?s"
      using ctl_pong_some [OF s(1)] by blast
    from good_quiet [OF p(2)] p(1,3) s(2) show ?thesis by simp
  qed
  moreover have "good code N sid s (Some (?s, []))" using s by (rule good_quiet)
  ultimately show ?thesis
    by (cases "ce_control ev") (simp_all add: ctl_packet_def Let_def)
qed

lemma send_all_good:
  "\<lbrakk>ctl_inv code sid s; \<forall>(to, c) \<in> set cs. control_sendable c\<rbrakk> \<Longrightarrow> good code N sid s (ctl_send_all cs s)"
proof (induction cs arbitrary: s)
  case Nil
  then show ?case by (simp add: good_Some)
next
  case (Cons tc cs)
  obtain to c where tc: "tc = (to, c)" by fastforce
  have io: "io_ok (hc_io s)" "hs_session_id (hc_shared s) = sid" using Cons.prems by (simp_all add: ctl_inv_def)
  from Cons.prems tc have "control_sendable c" by simp
  from io_send_ok [OF io(1) this, of sid HOST_SENDER_ID to]
  obtain io' d sq where d: "io_send c sid HOST_SENDER_ID to (hc_io s) = Some (io', [Datagram to d], sq)"
    "io_ok io'" "ctl_out_ok sid (Datagram to d)" by (auto simp: ctl_out_ok_def)
  have "ctl_inv code sid (s\<lparr>hc_io := io'\<rparr>)" using Cons.prems(1) d(2) by (simp add: ctl_inv_def)
  from Cons.IH [OF this] Cons.prems(2) obtain s2 out2 where "ctl_send_all cs (s\<lparr>hc_io := io'\<rparr>) = Some (s2, out2)"
    "ctl_inv code sid s2" "replay see_out out2 (addr_table (hc_hs s)) = Some (addr_table (hc_hs s2))"
    "set (addr_table (hc_hs s2)) \<subseteq> set (addr_table (hc_hs s)) \<union> N"
    "\<forall>a \<in> set out2. ctl_out_ok sid a" by (auto simp: good_def)
  with tc io d show ?case by (simp add: good_def)
qed

lemma to_clients_sendable: "(\<And>k. control_sendable (f k)) \<Longrightarrow> \<forall>(to, c) \<in> set (to_clients f s). control_sendable c"
  by (auto simp: to_clients_def)

lemma goodbye_good: "ctl_inv code sid s \<Longrightarrow> good code N sid s (ctl_goodbye s)"
  unfolding ctl_goodbye_def by (intro send_all_good to_clients_sendable) simp_all

lemma ping_good: "ctl_inv code sid s \<Longrightarrow> good code N sid s (ctl_ping now us s)"
proof -
  assume inv: "ctl_inv code sid s"
  then have "good code N sid (s\<lparr>hc_last_ping := now\<rparr>) (ctl_send_all (to_clients (\<lambda>k. Ping (us k)) s) (s\<lparr>hc_last_ping := now\<rparr>))"
    by (intro send_all_good to_clients_sendable) (simp_all add: ctl_inv_def)
  then have "good code N sid s (ctl_send_all (to_clients (\<lambda>k. Ping (us k)) s) (s\<lparr>hc_last_ping := now\<rparr>))"
    by (rule good_from) simp
  with inv show ?thesis by (simp add: ctl_ping_def good_Some)
qed

lemma keepalive_good: "ctl_inv code sid s \<Longrightarrow> good code N sid s (ctl_keepalive now s)"
proof -
  assume inv: "ctl_inv code sid s"
  then have "good code N sid (s\<lparr>hc_last_keepalive := now\<rparr>) (ctl_send_all (to_clients (\<lambda>_. Keepalive) s) (s\<lparr>hc_last_keepalive := now\<rparr>))"
    by (intro send_all_good to_clients_sendable) (simp_all add: ctl_inv_def)
  then have "good code N sid s (ctl_send_all (to_clients (\<lambda>_. Keepalive) s) (s\<lparr>hc_last_keepalive := now\<rparr>))"
    by (rule good_from) simp
  with inv show ?thesis by (simp add: ctl_keepalive_def good_Some)
qed

lemma stop_good: "ctl_inv code sid s \<Longrightarrow> good code N sid s (Some (s\<lparr>hc_running := False\<rparr>, []))"
  by (rule good_quiet) (simp_all add: ctl_inv_def)

lemma snapshot_good: "ctl_inv code sid s \<Longrightarrow> good code N sid s (Some (ctl_snapshot now s, []))"
  by (rule good_quiet) (simp_all add: ctl_snapshot_def ctl_inv_def)

lemma tick_good: "\<lbrakk>ctl_inv code sid s; None \<in> N\<rbrakk> \<Longrightarrow> good code N sid s (ctl_drive (ETick now) (feed_all s))"
  using ctl_feed_inv [of code sid s "[0..<MAX_CLIENTS]"]
  by (intro good_from [OF drive_good, of code sid "feed_all s"]) (simp_all add: feed_all_def ok_event_def)

definition recv_ok :: "recv \<Rightarrow> bool" where
  "recv_ok r = (case r of RecvOk ev \<Rightarrow> control_valid (ce_control ev) | _ \<Rightarrow> True)"

text \<open>The address an iteration may add to the table.\<close>

definition newcomer :: "u8 list \<Rightarrow> recv \<Rightarrow> socket_addr option set" where
  "newcomer code r = insert None (case r of
      RecvOk ev \<Rightarrow> if hello_admits code (ce_control ev) then {Some (ce_from ev)} else {} | _ \<Rightarrow> {})"

lemma iteration_good:
  assumes "ctl_inv code sid s" and "recv_ok r"
  shows "good code (newcomer code r) sid s (ctl_iteration r now us s)"
proof (cases "hs_shutdown (hc_shared s)")
  case True
  then show ?thesis using assms(1)
    by (auto simp: ctl_iteration_def ctl_shutdown_def intro!: good_then_do goodbye_good stop_good)
next
  case False
  let ?N = "newcomer code r"
  have N: "None \<in> ?N" by (simp add: newcomer_def)
  have go: "good code ?N sid s (then_do m
      (\<lambda>s. then_do (ctl_drive (ETick now) (feed_all s))
      (\<lambda>s. then_do (ctl_ping now us s) (\<lambda>s. then_do (ctl_keepalive now s)
      (\<lambda>s. Some (ctl_snapshot now s, []))))))" if "good code ?N sid s m" for m
    using that N by (intro good_then_do tick_good ping_good keepalive_good snapshot_good)
  show ?thesis
  proof (cases r)
    case (RecvOk ev)
    with assms N have "good code ?N sid s (ctl_packet ev now s)"
      by (intro ctl_packet_good) (simp_all add: recv_ok_def newcomer_def)
    with RecvOk False go show ?thesis by (simp add: ctl_iteration_def)
  next
    case RecvTimeout
    with assms False go [OF good_Some] show ?thesis by (simp add: ctl_iteration_def)
  next
    case RecvDisconnected
    with assms(1) False show ?thesis
      by (auto simp: ctl_iteration_def intro!: good_then_do goodbye_good stop_good)
  qed
qed

text \<open>The other threads keep the sizes, the session id and the flags the control thread owns.\<close>

definition others_ok :: "(host_shared \<Rightarrow> host_shared) \<Rightarrow> bool" where
  "others_ok f \<longleftrightarrow> (\<forall>sh. shared_ok (f sh) = shared_ok sh \<and> hs_session_id (f sh) = hs_session_id sh
     \<and> map active (clients (f sh)) = map active (clients sh))"

fun hc_ok :: "hc_event \<Rightarrow> bool" where
  "hc_ok (HcIter r _ _) = recv_ok r"
| "hc_ok (HcOthers f) = others_ok f"

lemma others_inv: "\<lbrakk>ctl_inv code sid s; others_ok f\<rbrakk> \<Longrightarrow> ctl_inv code sid (s\<lparr>hc_shared := f (hc_shared s)\<rparr>)"
proof -
  assume inv: "ctl_inv code sid s" and f: "others_ok f"
  have map: "map active (clients (f (hc_shared s))) = map active (clients (hc_shared s))"
    using f by (simp add: others_ok_def)
  then have "length (clients (f (hc_shared s))) = length (clients (hc_shared s))" by (rule map_eq_imp_length_eq)
  moreover have "length (clients (hc_shared s)) = MAX_CLIENTS" using inv by (simp add: ctl_inv_def shared_ok_def)
  ultimately have "active (clients (f (hc_shared s)) ! i) = active (clients (hc_shared s) ! i)" if "i < MAX_CLIENTS" for i
    using arg_cong [OF map, of "\<lambda>l. l ! i"] that by simp
  with inv f show ?thesis by (simp add: ctl_inv_def others_ok_def)
qed

lemma hc_step_good:
  assumes "hc_ok e" and "ctl_inv code sid s"
  shows "ctl_inv code sid (fst (hc_step e s))"
    and "replay see_out (snd (hc_step e s)) (addr_table (hc_hs s)) = Some (addr_table (hc_hs (fst (hc_step e s))))"
    and "a \<in> set (snd (hc_step e s)) \<Longrightarrow> ctl_out_ok sid a"
proof -
  have "ctl_inv code sid (fst (hc_step e s))
    \<and> replay see_out (snd (hc_step e s)) (addr_table (hc_hs s)) = Some (addr_table (hc_hs (fst (hc_step e s))))
    \<and> (a \<in> set (snd (hc_step e s)) \<longrightarrow> ctl_out_ok sid a)"
  proof (cases e)
    case (HcIter r now us)
    with assms iteration_good [OF assms(2), of r now us] show ?thesis by (auto simp: good_def)
  next
    case (HcOthers f)
    with assms others_inv show ?thesis by simp
  qed
  then show "ctl_inv code sid (fst (hc_step e s))"
    and "replay see_out (snd (hc_step e s)) (addr_table (hc_hs s)) = Some (addr_table (hc_hs (fst (hc_step e s))))"
    and "a \<in> set (snd (hc_step e s)) \<Longrightarrow> ctl_out_ok sid a" by blast+
qed

interpretation control: observed_machine hc_step hc_ok "ctl_inv code sid" "ctl_out_ok sid" see_out "addr_table \<circ> hc_hs"
  by unfold_locales (simp_all add: hc_step_good)

lemma host_ctl_new_inv:
  "utf8_valid nm \<Longrightarrow> ctl_inv code sid (host_ctl_new code nm ep (host_shared_new sid))"
  using host_new_inv
  by (auto simp: ctl_inv_def host_ctl_new_def io_ok_def io_new_def host_shared_new_def
      shared_ok_def host_new_def stream_default_def)

lemma hc_step_admits:
  assumes "hc_ok e" and "ctl_inv code sid s"
  shows "set (addr_table (hc_hs (fst (hc_step e s)))) \<subseteq> set (addr_table (hc_hs s))
    \<union> (case e of HcIter r _ _ \<Rightarrow> newcomer code r | _ \<Rightarrow> {None})"
proof (cases e)
  case (HcIter r now us)
  with assms iteration_good [OF assms(2), of r now us] show ?thesis by (auto simp: good_def)
next
  case (HcOthers f)
  then show ?thesis by auto
qed

text \<open>The addresses whose HELLO carried the room code, in a list of events.\<close>

fun knocked :: "u8 list \<Rightarrow> hc_event list \<Rightarrow> socket_addr set" where
  "knocked code [] = {}"
| "knocked code (HcIter (RecvOk ev) _ _ # es) =
     (if hello_admits code (ce_control ev) then {ce_from ev} else {}) \<union> knocked code es"
| "knocked code (_ # es) = knocked code es"

lemma knocked_Cons: "(case e of HcIter r _ _ \<Rightarrow> newcomer code r | _ \<Rightarrow> {None}) \<union> Some ` knocked code es
    \<subseteq> insert None (Some ` knocked code (e # es))"
  by (cases "(code, e # es)" rule: knocked.cases) (auto simp: newcomer_def)

lemma run_admits:
  "\<lbrakk>\<forall>e \<in> set es. hc_ok e; ctl_inv code sid s\<rbrakk> \<Longrightarrow>
   set (addr_table (hc_hs (fst (run hc_step es s)))) \<subseteq> set (addr_table (hc_hs s)) \<union> insert None (Some ` knocked code es)"
proof (induction es arbitrary: s)
  case (Cons e es)
  let ?s = "fst (hc_step e s)"
  have "ctl_inv code sid ?s" using Cons.prems hc_step_good(1) by simp
  with Cons have "set (addr_table (hc_hs (fst (run hc_step es ?s))))
      \<subseteq> set (addr_table (hc_hs ?s)) \<union> insert None (Some ` knocked code es)" by simp
  moreover have "set (addr_table (hc_hs ?s)) \<subseteq> set (addr_table (hc_hs s))
      \<union> (case e of HcIter r _ _ \<Rightarrow> newcomer code r | _ \<Rightarrow> {None})"
    using Cons.prems by (intro hc_step_admits [where sid = sid]) simp_all
  ultimately have "set (addr_table (hc_hs (fst (run hc_step es ?s))))
      \<subseteq> set (addr_table (hc_hs s)) \<union> insert None (Some ` knocked code (e # es))"
    using knocked_Cons [where e = e and code = code and es = es] by blast
  then show ?case by (simp add: case_prod_unfold)
qed auto

text \<open>The address updates among the outputs, as the two network threads receive them.\<close>

definition updates :: "ctl_out list \<Rightarrow> addr_update list" where
  "updates outs = List.map_filter (\<lambda>a. case a of AddrTable u \<Rightarrow> Some u | _ \<Rightarrow> None) outs"

lemma updates_tables:
  "\<lbrakk>replay see_out outs T = Some T'; length T = MAX_CLIENTS; rx_addrs r = T; tx_clients t = T\<rbrakk> \<Longrightarrow>
   map_option rx_addrs (for_each rx_update (updates outs) r) = Some T'
   \<and> map_option (\<lambda>t. (tx_clients t, tx_peer t)) (for_each tx_update (updates outs) t) = Some (T', tx_peer t)"
proof (induction outs arbitrary: T r t)
  case Nil
  then show ?case by (simp add: updates_def List.map_filter_simps)
next
  case (Cons a outs)
  show ?case
  proof (cases "(a, T)" rule: see_out.cases)
    case (1 to d T1)
    with Cons show ?thesis by (simp add: updates_def List.map_filter_simps)
  next
    case (2 k addr T1)
    with Cons.prems have "unat k < MAX_CLIENTS" by (auto split: if_splits)
    with 2 Cons.prems Cons.IH [of "T[unat k := addr]" "the (rx_update (UpClient k addr) r)" "the (tx_update (UpClient k addr) t)"]
    show ?thesis by (simp add: updates_def List.map_filter_simps rx_update_eq tx_update_eq)
  qed (use Cons.prems in simp_all)
qed

text \<open>A host's control thread after some events, with what it has sent.\<close>

definition host_ctl_after :: "u8 list \<Rightarrow> rust_string \<Rightarrow> engine_params \<Rightarrow> u16 \<Rightarrow> hc_event list
    \<Rightarrow> host_ctl \<times> ctl_out list" where
  "host_ctl_after code nm ep sid es = run hc_step es (host_ctl_new code nm ep (host_shared_new sid))"

lemma after_inv:
  "\<lbrakk>utf8_valid nm; \<forall>e \<in> set es. hc_ok e\<rbrakk> \<Longrightarrow> ctl_inv code sid (fst (host_ctl_after code nm ep sid es))"
  unfolding host_ctl_after_def by (intro control.run_inv host_ctl_new_inv)

lemma new_table: "addr_table (hc_hs (host_ctl_new code nm ep sh)) = replicate MAX_CLIENTS None"
  by (simp add: addr_table_def host_ctl_new_def host_new_def)

lemma after_tables:
  assumes "utf8_valid nm" and "\<forall>e \<in> set es. hc_ok e" and "host_ctl_after code nm ep sid es = (s, outs)"
  shows "map_option rx_addrs (for_each rx_update (updates outs) rx_init) = Some (addr_table (hc_hs s))"
    and "map_option tx_clients (for_each tx_update (updates outs) tx_init) = Some (addr_table (hc_hs s))"
proof -
  have "replay see_out outs (replicate MAX_CLIENTS None) = Some (addr_table (hc_hs s))"
    using control.run_view [OF assms(2) host_ctl_new_inv [OF assms(1), where code = code and sid = sid and ep = ep]]
      assms(3)
    by (simp add: host_ctl_after_def new_table)
  from updates_tables [OF this, of rx_init tx_init]
  show "map_option rx_addrs (for_each rx_update (updates outs) rx_init) = Some (addr_table (hc_hs s))"
    and "map_option tx_clients (for_each tx_update (updates outs) tx_init) = Some (addr_table (hc_hs s))"
    by (auto simp: rx_init_def tx_init_def)
qed

lemma after_admitted:
  assumes "utf8_valid nm" and "\<forall>e \<in> set es. hc_ok e"
    and "Some a \<in> set (addr_table (hc_hs (fst (host_ctl_after code nm ep sid es))))"
  shows "a \<in> knocked code es"
  using run_admits [OF assms(2) host_ctl_new_inv [OF assms(1)]] assms(3)
  unfolding host_ctl_after_def by (fastforce simp: new_table)

section \<open>What the control thread promises\<close>

text \<open>A session: a client joins, acknowledges, is pinged and leaves.\<close>

definition ex_ctl :: "socket_addr \<Rightarrow> control \<Rightarrow> u16 \<Rightarrow> recv" where
  "ex_ctl a c sid = RecvOk \<lparr>ce_from = a, ce_header = \<lparr>ptype = packet_type_of c, session_id = sid, sender_id = 1, hseq = 0\<rparr>,
     ce_control = c, ce_rx_us = 7\<rparr>"

definition ex_session :: "hc_event list" where
  "ex_session = [HcIter (ex_ctl (V4 10 5000) (Hello 1 [1, 2, 3, 4, 5, 6] [65] 7 3) 0) 5 (\<lambda>_. 5000),
     HcOthers (upd_client 0 (\<lambda>st. st\<lparr>last_rx_us := 6000\<rparr>)),
     HcIter (ex_ctl (V4 10 5000) (Ack 0 2) 9) 7 (\<lambda>_. 7000), HcIter RecvTimeout 1100 (\<lambda>_. 1100000)]"

lemma ex_session_ok: "\<forall>e \<in> set ex_session. hc_ok e"
proof -
  have "map active ((clients sh)[0 := (clients sh ! 0)\<lparr>last_rx_us := 6000\<rparr>]) = map active (clients sh)" for sh
    by (cases "clients sh") (simp_all add: map_update)
  then have "others_ok (upd_client 0 (\<lambda>st. st\<lparr>last_rx_us := 6000\<rparr>))"
    by (auto simp: others_ok_def upd_client_def shared_ok_def)
  then show ?thesis
    by (simp add: ex_session_def ex_ctl_def recv_ok_def ROOM_CODE_LEN_def string_valid_def utf8_width_def
        MAX_NAME_LEN_def)
qed

text \<open>C14: the host's control thread never panics and only sends sound datagrams: over every sequence
  of packets, timeouts, clock readings and changes by the other threads, every output is an
  address update for one of the four slots or a datagram of at most 195 bytes that the
  receiver's parser accepts, with this session's id and the host's sender id.\<close>

theorem host_control_safe:
  assumes "utf8_valid nm" and "\<forall>e \<in> set es. hc_ok e"
    and "a \<in> set (snd (host_ctl_after code nm ep sid es))"
  shows "ctl_out_ok sid a"
  using control.run_out [OF assms(2) host_ctl_new_inv [OF assms(1)]] assms(3) by (simp add: host_ctl_after_def)

lemma host_control_safe_witness:
  "list_all (ctl_out_ok 9) (snd (host_ctl_after [1, 2, 3, 4, 5, 6] [72] engine_params_default 9 ex_session))"
  unfolding list_all_iff using host_control_safe [OF ex_name_ok ex_session_ok] by blast

text \<open>C13: the three copies of the address table agree. After any events the receive thread and the
  transmit thread, fed with the updates sent to them, take them without a panic and hold exactly the addresses of the
  handshake machine's slots, a slot is active for the audio callback if and only if it is
  occupied, and a name is shown for it if and only if it is.\<close>

theorem address_tables_agree:
  assumes "utf8_valid nm" and "\<forall>e \<in> set es. hc_ok e" and "host_ctl_after code nm ep sid es = (s, outs)"
  shows "map_option rx_addrs (for_each rx_update (updates outs) rx_init) = Some (map (map_option sl_addr) (slots (hc_hs s)))
    \<and> map_option tx_clients (for_each tx_update (updates outs) tx_init) = Some (map (map_option sl_addr) (slots (hc_hs s)))
    \<and> (i < MAX_CLIENTS \<longrightarrow> (active (clients (hc_shared s) ! i) \<longleftrightarrow> slots (hc_hs s) ! i \<noteq> None)
         \<and> (hc_names s ! i \<noteq> None \<longleftrightarrow> slots (hc_hs s) ! i \<noteq> None))"
  using after_tables [OF assms] after_inv [OF assms(1,2), of code sid ep] assms(3)
  by (simp add: addr_table_def ctl_inv_def)

lemma address_tables_agree_witness:
  "\<exists>s outs. host_ctl_after [1, 2, 3, 4, 5, 6] [72] engine_params_default 9 ex_session = (s, outs)
     \<and> map_option rx_addrs (for_each rx_update (updates outs) rx_init) = Some (map (map_option sl_addr) (slots (hc_hs s)))"
proof (intro exI conjI)
  let ?r = "host_ctl_after [1, 2, 3, 4, 5, 6] [72] engine_params_default 9 ex_session"
  show "?r = (fst ?r, snd ?r)" by simp
  from address_tables_agree [OF ex_name_ok ex_session_ok this]
  show "map_option rx_addrs (for_each rx_update (updates (snd ?r)) rx_init) = Some (map (map_option sl_addr) (slots (hc_hs (fst ?r))))"
    by blast
qed

section \<open>The liveness feed\<close>

lemma mark_heard_nth:
  assumes "host_inv h" and "k < MAX_CLIENTS" and "i < MAX_CLIENTS"
  shows "slots (mark_heard (sender_id_of k) t h) ! i =
    (if i = k then map_option (\<lambda>v. v\<lparr>sl_last_heard := t, sl_state := Active\<rparr>) (slots h ! i) else slots h ! i)"
proof -
  have "slot_of_sender (sender_id_of k) = Some k" using assms(2) by (simp add: slot_of_sender_iff)
  then show ?thesis
    using assms by (cases "slots h ! k") (auto simp: mark_heard_def Let_def host_len split: slot_state.split)
qed

definition fed :: "u64 \<Rightarrow> slot option \<Rightarrow> slot option" where
  "fed us e = (if us = 0 then e else map_option (\<lambda>v. v\<lparr>sl_last_heard := us div 1000, sl_state := Active\<rparr>) e)"

lemma feed_slot_nth:
  assumes "host_inv (hc_hs s)" and "k < MAX_CLIENTS" and "i < MAX_CLIENTS"
  shows "slots (hc_hs (feed_from k s)) ! i =
    (if i = k then fed (last_rx_us (clients (hc_shared s) ! i)) (slots (hc_hs s) ! i) else slots (hc_hs s) ! i)"
  unfolding feed_from_def Let_def word_gt_0 fed_def
  using mark_heard_nth [OF assms] by (cases "i = k") (simp_all add: sender_id_of_def)

lemma feed_slot_keeps:
  assumes "host_inv (hc_hs s)"
  shows "hc_shared (feed_from k s) = hc_shared s" and "host_inv (hc_hs (feed_from k s))"
  using mark_heard_addr(1) [OF assms] assms by (simp_all add: feed_from_def Let_def)

lemma feed_fold_nth:
  "\<lbrakk>host_inv (hc_hs s); set ks \<subseteq> {0..<MAX_CLIENTS}; distinct ks; i < MAX_CLIENTS\<rbrakk> \<Longrightarrow>
   host_inv (hc_hs (fold feed_from ks s)) \<and> slots (hc_hs (fold feed_from ks s)) ! i =
    (if i \<in> set ks then fed (last_rx_us (clients (hc_shared s) ! i)) (slots (hc_hs s) ! i) else slots (hc_hs s) ! i)"
proof (induction ks arbitrary: s)
  case (Cons k ks)
  then have k: "k < MAX_CLIENTS" "k \<notin> set ks" by auto
  note keeps = feed_slot_keeps [OF Cons.prems(1), of k]
  from Cons.IH [of "feed_from k s"] Cons.prems keeps
  have "host_inv (hc_hs (fold feed_from ks (feed_from k s))) \<and>
    slots (hc_hs (fold feed_from ks (feed_from k s))) ! i =
    (if i \<in> set ks then fed (last_rx_us (clients (hc_shared s) ! i)) (slots (hc_hs (feed_from k s)) ! i)
     else slots (hc_hs (feed_from k s)) ! i)"
    by simp
  then show ?case
    using feed_slot_nth [OF Cons.prems(1) k(1) Cons.prems(4)] k(2) by (cases "i = k") simp_all
qed simp

text \<open>Executing actions never changes a slot that is free or active.\<close>

definition settled :: "slot option \<Rightarrow> bool" where
  "settled e = (case e of None \<Rightarrow> True | Some v \<Rightarrow> sl_state v = Active)"

lemma welcome_sent_settled:
  "\<lbrakk>host_inv h; i < MAX_CLIENTS; settled (slots h ! i)\<rbrakk> \<Longrightarrow> slots (welcome_sent to sq h) ! i = slots h ! i"
  by (cases "slots h ! i") (auto simp: welcome_sent_def settled_def host_len)

lemma ctl_action_settled:
  assumes "ctl_action a s = Some (s', out)" and "host_inv (hc_hs s)" and "i < MAX_CLIENTS"
    and "settled (slots (hc_hs s) ! i)"
  shows "slots (hc_hs s') ! i = slots (hc_hs s) ! i \<and> host_inv (hc_hs s')"
proof (cases a)
  case (HSend to c)
  with assms show ?thesis
    by (auto simp: ctl_send_def Let_def welcome_sent_settled welcome_sent_inv split: option.splits)
next
  case (ClientJoined sid nm)
  with assms show ?thesis by (auto simp: ctl_joined_def Let_def split: if_splits)
next
  case (ClientLeft sid r)
  with assms show ?thesis by (auto simp: ctl_left_def Let_def split: if_splits)
qed

lemma ctl_run_settled:
  "\<lbrakk>ctl_run as s = Some (s', out); host_inv (hc_hs s); i < MAX_CLIENTS; settled (slots (hc_hs s) ! i)\<rbrakk> \<Longrightarrow>
   slots (hc_hs s') ! i = slots (hc_hs s) ! i"
proof (induction as arbitrary: s out)
  case (Cons a as)
  from Cons.prems(1) obtain s1 out1 out2 where one: "ctl_action a s = Some (s1, out1)"
    and two: "ctl_run as s1 = Some (s', out2)" by (auto split: option.splits)
  from ctl_action_settled [OF one Cons.prems(2-4)] Cons.IH [OF two] Cons.prems(3,4) show ?case by simp
qed simp

lemma send_all_hs: "ctl_send_all cs s = Some (s', out) \<Longrightarrow> hc_hs s' = hc_hs s"
  by (induction cs s arbitrary: s' out rule: ctl_send_all.induct) (fastforce split: option.splits)+

lemma then_do_Some: "then_do m f = Some (s', out) \<longleftrightarrow>
   (\<exists>s1 o1 o2. m = Some (s1, o1) \<and> f s1 = Some (s', o2) \<and> out = o1 @ o2)"
  by (auto simp: then_do_def split: option.splits)

text \<open>After the feed and the tick, a slot with audio liveness is free or active, with the time of its
  last audio.\<close>

lemma fed_slot:
  assumes inv: "host_inv (hc_hs s)" and i: "i < MAX_CLIENTS" and v: "slots (hc_hs s) ! i = Some v"
    and us: "last_rx_us (clients (hc_shared s) ! i) \<noteq> 0"
    and run: "ctl_drive (ETick now) (feed_all s) = Some (s', out)"
  shows "slots (hc_hs s') ! i = (if unat (last_rx_us (clients (hc_shared s) ! i) div 1000) + 5000 < unat now then None
     else Some (v\<lparr>sl_last_heard := last_rx_us (clients (hc_shared s) ! i) div 1000, sl_state := Active\<rparr>))"
proof -
  let ?w = "v\<lparr>sl_last_heard := last_rx_us (clients (hc_shared s) ! i) div 1000, sl_state := Active\<rparr>"
  have h: "host_inv (hc_hs (feed_all s))" and fed: "slots (hc_hs (feed_all s)) ! i = Some ?w"
    using feed_fold_nth [OF inv _ _ i, of "[0..<MAX_CLIENTS]"] v us i by (simp_all add: feed_all_def fed_def)
  have "slots (fst (host_tick now (hc_hs (feed_all s)))) ! i
      = (if unat (last_rx_us (clients (hc_shared s) ! i) div 1000) + 5000 < unat now then None else Some ?w)"
    using tick_slot [OF h i fed, of now] by (simp add: gives_up_def)
  moreover from run have "slots (hc_hs s') ! i = slots (fst (host_tick now (hc_hs (feed_all s)))) ! i"
    using ctl_run_settled [of _ "(feed_all s)\<lparr>hc_hs := fst (host_tick now (hc_hs (feed_all s)))\<rparr>" s' out i]
      host_step_inv [of "ETick now", OF _ h] i calculation
    by (auto simp: ctl_drive_def case_prod_unfold settled_def split: if_splits)
  ultimately show ?thesis by simp
qed

lemma hello_refresh:
  assumes inv: "host_inv h" and i: "i < MAX_CLIENTS" and v: "slots h ! i = Some v"
    and c: "c = Hello PROTOCOL_VERSION (h_room_code h) nm cm fm"
  shows "\<exists>h'. on_hello (sl_addr v) c t h = (h', [HSend (sl_addr v) (welcome_for h' i)])
    \<and> slots h' = (slots h)[i := Some (v\<lparr>sl_name := nm, sl_last_heard := t, sl_state := Pending None t 1\<rparr>)]"
proof -
  have "slots_inv (slots h)" "i < length (slots h)" using inv i by (simp_all add: host_inv_def slots_inv_def)
  then have "position (occupied_by (sl_addr v)) (slots h) = Some i" using v by (simp add: position_addr_iff)
  then show ?thesis by (simp add: on_hello_def c Let_def v)
qed

lemma hello_packet:
  assumes inv: "ctl_inv code sid s" and i: "i < MAX_CLIENTS" and v: "slots (hc_hs s) ! i = Some v"
    and ev: "ce_from ev = sl_addr v" "ce_control ev = Hello PROTOCOL_VERSION code nm cm fm"
      "control_valid (ce_control ev)"
    and run: "ctl_packet ev now s = Some (s1, out)"
  shows "hc_shared s1 = hc_shared s"
    and "\<exists>w. slots (hc_hs s1) ! i = Some w \<and> sl_addr w = sl_addr v \<and> sl_name w = nm \<and> host_inv (hc_hs s1)"
proof -
  let ?s = "ctl_heard ev now s"
  have h: "host_inv (hc_hs s)" using inv by (simp add: ctl_inv_def)
  have s: "ctl_inv code sid ?s" "hc_shared ?s = hc_shared s"
    using ctl_heard_inv [OF inv] by (simp_all add: ctl_heard_def split: option.split)
  then have hs: "host_inv (hc_hs ?s)" "h_room_code (hc_hs ?s) = code" by (simp_all add: ctl_inv_def)
  have "map_option sl_addr (slots (hc_hs ?s) ! i) = map_option sl_addr (slots (hc_hs s) ! i)"
    using mark_heard_addr(2) [OF h i] by (simp add: ctl_heard_def split: option.split)
  with v obtain u where u: "slots (hc_hs ?s) ! i = Some u" "sl_addr u = sl_addr v" by auto
  have c: "ce_control ev = Hello PROTOCOL_VERSION (h_room_code (hc_hs ?s)) nm cm fm" using ev(2) hs(2) by simp
  from hello_refresh [OF hs(1) i u(1) c, of now] u(2)
  obtain h' where h': "on_hello (sl_addr v) (ce_control ev) now (hc_hs ?s) = (h', [HSend (sl_addr v) (welcome_for h' i)])"
    "slots h' = (slots (hc_hs ?s))[i := Some (u\<lparr>sl_name := nm, sl_last_heard := now, sl_state := Pending None now 1\<rparr>)]"
    by auto
  have inv': "host_inv h'"
    using host_step_inv [of "EHello (sl_addr v) (ce_control ev) now" "hc_hs ?s"] ev(3) hs(1) h'(1) by simp
  have len: "i < length (slots (hc_hs ?s))" using hs i by (simp add: host_len)
  have drive: "ctl_packet ev now s = ctl_run [HSend (sl_addr v) (welcome_for h' i)] (?s\<lparr>hc_hs := h'\<rparr>)"
    using h'(1) ev(1,2) by (simp add: ctl_packet_def Let_def ctl_drive_def)
  obtain sq where s1: "hc_shared s1 = hc_shared s" "hc_hs s1 = welcome_sent (sl_addr v) sq h'"
    using run s(2) unfolding drive
    by (auto simp: ctl_send_def Let_def is_welcome_def welcome_for_def split: option.splits)
  show "hc_shared s1 = hc_shared s" by (rule s1)
  show "\<exists>w. slots (hc_hs s1) ! i = Some w \<and> sl_addr w = sl_addr v \<and> sl_name w = nm \<and> host_inv (hc_hs s1)"
    using h'(2) len u(2) welcome_sent_inv [OF inv'] by (auto simp: s1 welcome_sent_def)
qed

text \<open>C37: a HELLO does not refresh a client that has sent audio before. When a client whose slot has a
  last audio time says HELLO again (it restarted), the same iteration puts that old time back:
  the slot is dropped if it is more than five seconds old, and otherwise is at once active
  with the old time, so that the WELCOME just sent is never repeated and the slot expires five
  seconds after the old audio, not after the HELLO.\<close>

theorem hello_does_not_refresh_stale_slot:
  assumes "ctl_inv code sid s" and "\<not> hs_shutdown (hc_shared s)"
    and "i < MAX_CLIENTS" and "slots (hc_hs s) ! i = Some v" and "ce_from ev = sl_addr v"
    and "ce_control ev = Hello PROTOCOL_VERSION code nm cm fm" and "control_valid (ce_control ev)"
    and "last_rx_us (clients (hc_shared s) ! i) = us" and "us \<noteq> 0"
  shows "\<exists>s' out. ctl_iteration (RecvOk ev) now rd s = Some (s', out)
    \<and> slots (hc_hs s') ! i = (if unat (us div 1000) + 5000 < unat now then None
        else Some \<lparr>sl_addr = sl_addr v, sl_name = nm, sl_state = Active, sl_last_heard = us div 1000\<rparr>)"
proof -
  have "recv_ok (RecvOk ev)" using assms(7) by (simp add: recv_ok_def)
  from iteration_good [OF assms(1) this, of now rd]
  obtain s' out where it: "ctl_iteration (RecvOk ev) now rd s = Some (s', out)" by (auto simp: good_def)
  then obtain s1 o1 s2 o2 s3 o3 s4 o4 where steps: "ctl_packet ev now s = Some (s1, o1)"
    "ctl_drive (ETick now) (feed_all s1) = Some (s2, o2)" "ctl_ping now rd s2 = Some (s3, o3)"
    "ctl_keepalive now s3 = Some (s4, o4)" "s' = ctl_snapshot now s4"
    using assms(2) by (auto simp: ctl_iteration_def then_do_Some)
  have "hc_hs s3 = hc_hs s2" using steps(3) by (auto simp: ctl_ping_def dest: send_all_hs split: if_splits)
  moreover have "hc_hs s4 = hc_hs s3"
    using steps(4) by (auto simp: ctl_keepalive_def dest: send_all_hs split: if_splits)
  ultimately have hs: "hc_hs s' = hc_hs s2" by (simp add: steps(5) ctl_snapshot_def)
  note pkt = hello_packet [OF assms(1,3,4,5,6,7) steps(1)]
  then obtain w where w: "slots (hc_hs s1) ! i = Some w" "sl_addr w = sl_addr v" "sl_name w = nm"
    "host_inv (hc_hs s1)" by blast
  have "last_rx_us (clients (hc_shared s1) ! i) \<noteq> 0" using pkt(1) assms(8,9) by simp
  from fed_slot [OF w(4) assms(3) w(1) this steps(2)] pkt(1) assms(8) w(2,3) it hs show ?thesis by simp
qed

text \<open>A client that joined with its first audio at 1 ms and restarts at 4 seconds.\<close>

definition ex_slot :: slot where
  "ex_slot = \<lparr>sl_addr = V4 10 5000, sl_name = [65], sl_state = Active, sl_last_heard = 1\<rparr>"

definition ex_restart :: host_ctl where
  "ex_restart = (let s = host_ctl_new [1, 2, 3, 4, 5, 6] [72] engine_params_default (host_shared_new 9) in
     s\<lparr>hc_hs := (hc_hs s)\<lparr>slots := (slots (hc_hs s))[0 := Some ex_slot]\<rparr>,
       hc_names := (hc_names s)[0 := Some [65]],
       hc_shared := upd_client 0 (\<lambda>st. st\<lparr>active := True, last_rx_us := 1000\<rparr>) (hc_shared s)\<rparr>)"

lemma ex_restart_inv: "ctl_inv [1, 2, 3, 4, 5, 6] 9 ex_restart"
proof -
  let ?s = "host_ctl_new [1, 2, 3, 4, 5, 6] [72] engine_params_default (host_shared_new 9)"
  have inv: "ctl_inv [1, 2, 3, 4, 5, 6] 9 ?s" using ex_name_ok by (rule host_ctl_new_inv)
  have none: "slots (hc_hs ?s) ! i = None" if "i < MAX_CLIENTS" for i
    using that by (simp add: host_ctl_new_def host_new_def)
  have "slot_ok ex_slot"
    by (simp add: ex_slot_def slot_ok_def string_valid_def utf8_width_def MAX_NAME_LEN_def)
  then have "slots_inv ((slots (hc_hs ?s))[0 := Some ex_slot])"
    using inv none by (intro slots_inv_update) (auto simp: ctl_inv_def host_inv_def slots_inv_def)
  moreover have "active (clients (upd_client 0 (\<lambda>st. st\<lparr>active := True, last_rx_us := 1000\<rparr>) (hc_shared ?s)) ! i)
      = (i = 0 \<or> active (clients (hc_shared ?s) ! i))" if "i < MAX_CLIENTS" for i
    using that inv by (cases "i = 0") (simp_all add: upd_client_other upd_client_same ctl_inv_def shared_ok_def)
  ultimately show ?thesis
    using inv none host_len [of "hc_hs ?s"]
    by (auto simp: ctl_inv_def host_inv_def ex_restart_def Let_def nth_list_update)
qed

lemma hello_does_not_refresh_stale_slot_witness:
  "\<exists>s' out. ctl_iteration (ex_ctl (V4 10 5000) (Hello 1 [1, 2, 3, 4, 5, 6] [66] 7 3) 0) 4000 (\<lambda>_. 4000000) ex_restart
      = Some (s', out)
    \<and> slots (hc_hs s') ! 0 = Some \<lparr>sl_addr = V4 10 5000, sl_name = [66], sl_state = Active, sl_last_heard = 1\<rparr>"
proof -
  let ?c = "Hello 1 [1, 2, 3, 4, 5, 6] [66] 7 3"
  let ?ev = "\<lparr>ce_from = V4 10 5000, ce_header = \<lparr>ptype = packet_type_of ?c, session_id = 0, sender_id = 1, hseq = 0\<rparr>,
     ce_control = ?c, ce_rx_us = 7\<rparr>"
  let ?v = ex_slot
  have s: "\<not> hs_shutdown (hc_shared ex_restart)" "0 < MAX_CLIENTS" "slots (hc_hs ex_restart) ! 0 = Some ?v"
    "last_rx_us (clients (hc_shared ex_restart) ! 0) = 1000"
    by (simp_all add: ex_restart_def Let_def host_ctl_new_def host_new_def host_shared_new_def upd_client_def
        MAX_CLIENTS_def)
  have ev: "ce_from ?ev = sl_addr ?v" "ce_control ?ev = Hello PROTOCOL_VERSION [1, 2, 3, 4, 5, 6] [66] 7 3"
    "control_valid (ce_control ?ev)"
    by (simp_all add: ex_slot_def PROTOCOL_VERSION_def ROOM_CODE_LEN_def string_valid_def utf8_width_def
        MAX_NAME_LEN_def)
  from hello_does_not_refresh_stale_slot [OF ex_restart_inv s(1-3) ev s(4), of 4000 "\<lambda>_. 4000000"]
  show ?thesis by (simp add: ex_ctl_def ex_slot_def)
qed

section \<open>Round trip times\<close>

text \<open>A clock that runs ahead by \<open>k\<close> at the peer does not matter, nor does the time the peer takes to
  answer: with the one-way delays \<open>d1\<close> and \<open>d2\<close> and the answer time \<open>p\<close>, the sample is \<open>d1 + d2\<close>.\<close>

lemma rtt_sample:
  assumes "t1 + d1 + p + d2 < 2 ^ 64" and "k + t1 + d1 + p < 2 ^ 64"
  shows "unat (rtt_from_pong (of_nat (t1 + d1 + p + d2)) (of_nat t1) (of_nat (k + t1 + d1)) (of_nat (k + t1 + d1 + p)))
    = d1 + d2"
proof -
  have u: "unat (of_nat n :: u64) = n" if "n < 2 ^ 64" for n
    using that by (simp add: unat_of_nat)
  show ?thesis
    using assms by (simp only: rtt_from_pong_def unat_saturating_sub u)
qed

lemma f_to_u32_floor: "\<lbrakk>0 \<le> r; r < 2 ^ 32\<rbrakk> \<Longrightarrow> unat (f_to_u32 r) = nat \<lfloor>r\<rfloor>"
proof -
  assume r: "0 \<le> r" "r < 2 ^ 32"
  then have "0 \<le> \<lfloor>r\<rfloor>" "\<lfloor>r\<rfloor> < 2 ^ 32" by (simp_all add: floor_less_iff)
  then show ?thesis by (simp add: f_to_u32_def unat_eq_nat_uint uint_word_of_int)
qed

fun rtt_run :: "u64 list \<Rightarrow> u32 \<Rightarrow> u32" where
  "rtt_run [] r = r"
| "rtt_run (x # xs) r = rtt_run xs (update_rtt r x)"

lemma update_rtt_bounds:
  assumes "1 \<le> lo" "hi < 2 ^ 32" "lo \<le> unat x" "unat x \<le> hi" "r = 0 \<or> lo \<le> unat r \<and> unat r \<le> hi"
  shows "lo \<le> unat (update_rtt r x) \<and> unat (update_rtt r x) \<le> hi"
proof -
  let ?v = "if r = 0 then real (unat x) else real (unat r) * (1 - RTT_ALPHA) + real (unat x) * RTT_ALPHA"
  have b: "real lo \<le> ?v" "?v \<le> real hi"
  proof -
    have "real lo \<le> real (unat x)" "real (unat x) \<le> real hi"
      "r \<noteq> 0 \<longrightarrow> real lo \<le> real (unat r) \<and> real (unat r) \<le> real hi"
      using assms(3-5) by (auto simp del: of_nat_unat)
    then show "real lo \<le> ?v" "?v \<le> real hi"
      by (auto simp: RTT_ALPHA_def field_simps simp del: of_nat_unat)
  qed
  then have "int lo \<le> \<lfloor>?v\<rfloor>" "\<lfloor>?v\<rfloor> \<le> int hi" by (simp_all add: le_floor_iff floor_le_iff)
  moreover have "unat (update_rtt r x) = nat \<lfloor>?v\<rfloor>"
    unfolding update_rtt_def Let_def using b assms(2) by (intro f_to_u32_floor) auto
  ultimately show ?thesis by linarith
qed

text \<open>The round trip estimate is sound. A PONG's sample is exactly the time spent on the wire,
  whatever the peer's clock shows and however long it takes to answer; and after any
  number of samples between \<open>lo\<close> and \<open>hi\<close> microseconds the smoothed estimate lies between them.\<close>

theorem rtt_estimate_bounds:
  assumes "1 \<le> lo" and "hi < 2 ^ 32" and "list_all (\<lambda>x. lo \<le> unat x \<and> unat x \<le> hi) (x # xs)"
    and "t1 + d1 + p + d2 < 2 ^ 64" and "k + t1 + d1 + p < 2 ^ 64"
  shows "lo \<le> unat (rtt_run (x # xs) 0) \<and> unat (rtt_run (x # xs) 0) \<le> hi
    \<and> unat (rtt_from_pong (of_nat (t1 + d1 + p + d2)) (of_nat t1) (of_nat (k + t1 + d1)) (of_nat (k + t1 + d1 + p)))
      = d1 + d2"
proof -
  have "lo \<le> unat (rtt_run xs r) \<and> unat (rtt_run xs r) \<le> hi"
    if "list_all (\<lambda>x. lo \<le> unat x \<and> unat x \<le> hi) xs" "lo \<le> unat r \<and> unat r \<le> hi" for xs r
    using that by (induction xs arbitrary: r) (simp_all add: update_rtt_bounds [OF assms(1,2)])
  with assms(3) update_rtt_bounds [OF assms(1,2), of x 0] rtt_sample [OF assms(4,5)] show ?thesis by simp
qed

lemma rtt_estimate_bounds_witness:
  "20000 \<le> unat (rtt_run [20000, 30000, 25000] 0) \<and> unat (rtt_run [20000, 30000, 25000] 0) \<le> 30000
   \<and> unat (rtt_from_pong (of_nat (5 + 10 + 3 + 12)) (of_nat 5) (of_nat (100 + 5 + 10)) (of_nat (100 + 5 + 10 + 3)))
     = 10 + 12"
  by (rule rtt_estimate_bounds) simp_all

end
