(* ===== verification/Client_Control.thy ===== *)
theory Client_Control
  imports Host_Control
begin

text \<open>
  The client half of \<open>crates/jam-core/src/control.rs\<close>: the loop of \<open>spawn_client_control\<close>, one
  definition per part of its body. As on the host, outputs are the datagrams sent, a panic is
  \<open>None\<close>, and the clock readings of an iteration are arguments. The status strings for the UI are
  the constructors of \<open>client_status\<close> with the values the code formats into them.
\<close>

section \<open>State\<close>

record client_cfg =
  cg_room_code :: "u8 list"
  cg_name :: rust_string
  cg_params :: engine_params
  cg_host :: socket_addr

datatype client_status = HostEnded | ParameterMismatch codec u16 | JoinDenied deny_reason | HostUnreachable

record client_ctl =
  cc_cs :: client_handshake
  cc_io :: control_io
  cc_roster :: "player_info list"
  cc_last_roster :: "u16 option"
  cc_last_ping :: u64
  cc_last_keepalive :: u64
  cc_last_snapshot :: u64
  cc_deadline :: "u64 option"
  cc_status :: "client_status option"
  cc_shared :: client_shared
  cc_running :: bool

section \<open>Sending\<close>

definition cc_send :: "client_cfg \<Rightarrow> control \<Rightarrow> client_ctl \<Rightarrow> (client_ctl \<times> ctl_out list) option" where
  "cc_send cfg c s =
     (case io_send c (cs_session_id (cc_shared s)) (cs_sender_id (cc_shared s)) (cg_host cfg) (cc_io s) of
        None \<Rightarrow> None
      | Some (io, out, _) \<Rightarrow> Some (s\<lparr>cc_io := io\<rparr>, out))"

text \<open>\<open>for a in cs.start(now) { if let Send(c) = a \{ send_ctrl(c) \} }\<close>, after a fresh \<open>ClientHandshake::new\<close>\<close>

fun cc_send_starts :: "client_cfg \<Rightarrow> client_action list \<Rightarrow> client_ctl \<Rightarrow> (client_ctl \<times> ctl_out list) option" where
  "cc_send_starts cfg [] s = Some (s, [])"
| "cc_send_starts cfg (CSend c # as) s = then_do (cc_send cfg c s) (cc_send_starts cfg as)"
| "cc_send_starts cfg (_ # as) s = cc_send_starts cfg as s"

definition cc_rejoin :: "client_cfg \<Rightarrow> u64 \<Rightarrow> client_ctl \<Rightarrow> (client_ctl \<times> ctl_out list) option" where
  "cc_rejoin cfg now_ms s =
     (case client_start now_ms (client_new (cg_room_code cfg) (cg_name cfg)) of
        (cs, as) \<Rightarrow> cc_send_starts cfg as (s\<lparr>cc_cs := cs\<rparr>))"

text \<open>The thread's locals and the first HELLO; \<open>now_a\<close> and \<open>now0\<close> are the two clock readings.\<close>

definition cc_begin :: "client_cfg \<Rightarrow> u64 \<Rightarrow> u64 \<Rightarrow> client_shared \<Rightarrow> (client_ctl \<times> ctl_out list) option" where
  "cc_begin cfg now_a now0 sh =
     cc_rejoin cfg now0
       \<lparr>cc_cs = client_new (cg_room_code cfg) (cg_name cfg), cc_io = io_new, cc_roster = [],
        cc_last_roster = None, cc_last_ping = 0, cc_last_keepalive = 0, cc_last_snapshot = 0,
        cc_deadline = Some (now_a + REJOIN_WINDOW_MS), cc_status = None, cc_shared = sh, cc_running = True\<rparr>"

section \<open>Packets\<close>

definition reset_jb :: "client_shared \<Rightarrow> client_shared" where
  "reset_jb sh = sh\<lparr>from_host := (from_host sh)\<lparr>jb := jb_reset (jb (from_host sh))\<rparr>\<rparr>"

text \<open>Each packet leaves the state and the actions of the handshake machine to execute.\<close>

definition cc_on_control :: "control \<Rightarrow> client_ctl \<Rightarrow> client_ctl \<times> client_action list" where
  "cc_on_control c s = (case client_on_control c (cc_cs s) of (cs, as) \<Rightarrow> (s\<lparr>cc_cs := cs\<rparr>, as))"

definition cc_welcome :: "client_cfg \<Rightarrow> ctrl_event \<Rightarrow> u16 \<Rightarrow> client_ctl
    \<Rightarrow> (client_ctl \<times> ctl_out list \<times> client_action list) option" where
  "cc_welcome cfg ev wsid s =
     (case io_send (Ack (hseq (ce_header ev)) (ptype_code (ptype (ce_header ev)))) wsid
             (cs_sender_id (cc_shared s)) (cg_host cfg) (cc_io s) of
        None \<Rightarrow> None
      | Some (io, out, _) \<Rightarrow>
          (case cc_on_control (ce_control ev) (s\<lparr>cc_io := io\<rparr>) of (s, as) \<Rightarrow> Some (s, out, as)))"

definition cc_packet :: "client_cfg \<Rightarrow> ctrl_event \<Rightarrow> client_ctl
    \<Rightarrow> (client_ctl \<times> ctl_out list \<times> client_action list) option" where
  "cc_packet cfg ev s =
     (case ce_control ev of
        Welcome _ wsid _ _ _ _ \<Rightarrow> cc_welcome cfg ev wsid s
      | Roster ps \<Rightarrow>
          (case accept_control_seq (cc_last_roster s) (hseq (ce_header ev)) of (l, ok) \<Rightarrow>
             let s = s\<lparr>cc_last_roster := l\<rparr> in Some (if ok then s\<lparr>cc_roster := ps\<rparr> else s, [], []))
      | Deny _ \<Rightarrow> (case cc_on_control (ce_control ev) s of (s, as) \<Rightarrow> Some (s, [], as))
      | Pong t1 t2 t3 \<Rightarrow>
          let sh = cc_shared s; st = from_host sh;
              st = st\<lparr>rtt_us := update_rtt (rtt_us st) (rtt_from_pong (ce_rx_us ev) t1 t2 t3)\<rparr>
          in Some (s\<lparr>cc_shared := sh\<lparr>from_host := st\<rparr>\<rparr>, [], [])
      | Bye \<Rightarrow>
          if session_id (ce_header ev) = cs_session_id (cc_shared s)
          then Some (s\<lparr>cc_shared := reset_jb ((cc_shared s)\<lparr>joined := False\<rparr>),
                       cc_status := Some HostEnded, cc_deadline := None\<rparr>, [], [])
          else Some (s, [], [])
      | _ \<Rightarrow> Some (s, [], []))"

section \<open>Actions\<close>

definition cc_start_audio :: "client_cfg \<Rightarrow> u64 \<Rightarrow> u64 \<Rightarrow> u16 \<Rightarrow> u16 \<Rightarrow> session_params \<Rightarrow> client_ctl \<Rightarrow> client_ctl" where
  "cc_start_audio cfg now_ms now_us ai sid p s =
     (let s = (if unat (p_frame_samples p) \<noteq> ep_frame_samples (cg_params cfg) \<or> p_codec p \<noteq> ep_codec (cg_params cfg)
               then s\<lparr>cc_status := Some (ParameterMismatch (p_codec p) (p_frame_samples p))\<rparr> else s);
          sh = reset_jb (cc_shared s);
          sh = sh\<lparr>from_host := (from_host sh)\<lparr>last_rx_us := now_us\<rparr>\<rparr>;
          sh = sh\<lparr>cs_session_id := sid, cs_sender_id := ai, joined := True\<rparr>
      in s\<lparr>cc_shared := sh, cc_deadline := Some (now_ms + REJOIN_WINDOW_MS), cc_last_roster := None\<rparr>)"

definition cc_failed :: "client_cfg \<Rightarrow> u64 \<Rightarrow> join_failure \<Rightarrow> client_ctl \<Rightarrow> (client_ctl \<times> ctl_out list) option" where
  "cc_failed cfg now_ms f s =
     (case f of
        Denied r \<Rightarrow> Some (s\<lparr>cc_status := Some (JoinDenied r), cc_deadline := None\<rparr>, [])
      | Timeout \<Rightarrow>
          (case cc_deadline s of
             Some deadline \<Rightarrow>
               if now_ms < deadline then cc_rejoin cfg now_ms s
               else Some (s\<lparr>cc_status := Some HostUnreachable\<rparr>, [])
           | None \<Rightarrow> Some (s\<lparr>cc_status := Some HostUnreachable\<rparr>, [])))"

fun cc_action :: "client_cfg \<Rightarrow> u64 \<Rightarrow> u64 \<Rightarrow> client_action \<Rightarrow> client_ctl \<Rightarrow> (client_ctl \<times> ctl_out list) option" where
  "cc_action cfg now_ms now_us (CSend c) s = cc_send cfg c s"
| "cc_action cfg now_ms now_us (StartAudio ai sid p) s = Some (cc_start_audio cfg now_ms now_us ai sid p s, [])"
| "cc_action cfg now_ms now_us (RosterUpdate r) s = Some (s\<lparr>cc_roster := r\<rparr>, [])"
| "cc_action cfg now_ms now_us (CFailed f) s = cc_failed cfg now_ms f s"

fun cc_actions :: "client_cfg \<Rightarrow> u64 \<Rightarrow> u64 \<Rightarrow> client_action list \<Rightarrow> client_ctl \<Rightarrow> (client_ctl \<times> ctl_out list) option" where
  "cc_actions cfg now_ms now_us [] s = Some (s, [])"
| "cc_actions cfg now_ms now_us (a # as) s =
     then_do (cc_action cfg now_ms now_us a s) (cc_actions cfg now_ms now_us as)"

section \<open>The loop\<close>

definition cc_liveness :: "client_cfg \<Rightarrow> u64 \<Rightarrow> u64 \<Rightarrow> client_ctl \<Rightarrow> (client_ctl \<times> ctl_out list) option" where
  "cc_liveness cfg now_ms now_us s =
     (if joined (cc_shared s)
         \<and> PEER_TIMEOUT_MS * 1000 < saturating_sub now_us (last_rx_us (from_host (cc_shared s)))
      then cc_rejoin cfg now_ms
             (s\<lparr>cc_shared := reset_jb ((cc_shared s)\<lparr>joined := False\<rparr>),
                cc_deadline := Some (now_ms + REJOIN_WINDOW_MS)\<rparr>)
      else Some (s, []))"

definition cc_ping :: "client_cfg \<Rightarrow> u64 \<Rightarrow> u64 \<Rightarrow> client_ctl \<Rightarrow> (client_ctl \<times> ctl_out list) option" where
  "cc_ping cfg now_ms t1 s =
     (if joined (cc_shared s) \<and> PING_INTERVAL_MS \<le> saturating_sub now_ms (cc_last_ping s)
      then cc_send cfg (Ping t1) (s\<lparr>cc_last_ping := now_ms\<rparr>) else Some (s, []))"

definition cc_keepalive :: "client_cfg \<Rightarrow> u64 \<Rightarrow> client_ctl \<Rightarrow> (client_ctl \<times> ctl_out list) option" where
  "cc_keepalive cfg now_ms s =
     (if joined (cc_shared s) \<and> KEEPALIVE_MS \<le> saturating_sub now_ms (cc_last_keepalive s)
      then cc_send cfg Keepalive (s\<lparr>cc_last_keepalive := now_ms\<rparr>) else Some (s, []))"

definition cc_snapshot :: "u64 \<Rightarrow> client_ctl \<Rightarrow> client_ctl" where
  "cc_snapshot now_ms s =
     (if SNAPSHOT_INTERVAL_MS \<le> saturating_sub now_ms (cc_last_snapshot s)
      then s\<lparr>cc_last_snapshot := now_ms\<rparr> else s)"

definition cc_bye :: "client_cfg \<Rightarrow> nat \<Rightarrow> client_ctl \<Rightarrow> (client_ctl \<times> ctl_out list) option" where
  "cc_bye cfg n s =
     then_do (if joined (cc_shared s)
              then ((\<lambda>m. then_do m (cc_send cfg Bye)) ^^ n) (Some (s, [])) else Some (s, []))
       (\<lambda>s. Some (s\<lparr>cc_running := False\<rparr>, []))"

definition cc_timers :: "client_cfg \<Rightarrow> u64 \<Rightarrow> u64 \<Rightarrow> client_ctl \<Rightarrow> (client_ctl \<times> ctl_out list) option" where
  "cc_timers cfg now_ms t1 s =
     then_do (cc_ping cfg now_ms t1 s)
       (\<lambda>s. then_do (cc_keepalive cfg now_ms s) (\<lambda>s. Some (cc_snapshot now_ms s, [])))"

text \<open>The tick's actions follow those of the packet; then liveness, ping and keepalive. The clock
  reads \<open>now_us 0\<close> for a start of audio, \<open>now_us 1\<close> for liveness, \<open>now_us 2\<close> for the ping.\<close>

definition cc_body :: "client_cfg \<Rightarrow> u64 \<Rightarrow> (nat \<Rightarrow> u64) \<Rightarrow> client_action list \<Rightarrow> client_ctl
    \<Rightarrow> (client_ctl \<times> ctl_out list) option" where
  "cc_body cfg now_ms now_us as s =
     (case client_tick now_ms (cc_cs s) of (cs, bs) \<Rightarrow>
       then_do (cc_actions cfg now_ms (now_us 0) (as @ bs) (s\<lparr>cc_cs := cs\<rparr>))
       (\<lambda>s. then_do (cc_liveness cfg now_ms (now_us 1) s) (cc_timers cfg now_ms (now_us 2))))"

definition cc_iteration :: "client_cfg \<Rightarrow> recv \<Rightarrow> u64 \<Rightarrow> (nat \<Rightarrow> u64) \<Rightarrow> client_ctl
    \<Rightarrow> (client_ctl \<times> ctl_out list) option" where
  "cc_iteration cfg r now_ms now_us s =
     (if cs_shutdown (cc_shared s) then cc_bye cfg 2 s
      else case r of
          RecvDisconnected \<Rightarrow> cc_bye cfg 1 s
        | RecvTimeout \<Rightarrow> cc_body cfg now_ms now_us [] s
        | RecvOk ev \<Rightarrow>
            (case cc_packet cfg ev s of
               None \<Rightarrow> None
             | Some (s, out, as) \<Rightarrow>
                 map_option (\<lambda>(s, outs). (s, out @ outs)) (cc_body cfg now_ms now_us as s)))"

datatype cc_event = CcIter recv u64 "nat \<Rightarrow> u64" | CcOthers "client_shared \<Rightarrow> client_shared"

fun cc_step :: "client_cfg \<Rightarrow> cc_event \<Rightarrow> client_ctl \<Rightarrow> client_ctl \<times> ctl_out list" where
  "cc_step cfg (CcIter r now_ms now_us) s =
     (if \<not> cc_running s then (s, [])
      else case cc_iteration cfg r now_ms now_us s of None \<Rightarrow> (s, [CtlPanic]) | Some r \<Rightarrow> r)"
| "cc_step cfg (CcOthers f) s = (s\<lparr>cc_shared := f (cc_shared s)\<rparr>, [])"

section \<open>The loop is safe\<close>

definition cfg_hello :: "client_cfg \<Rightarrow> control" where
  "cfg_hello cfg = Hello PROTOCOL_VERSION (cg_room_code cfg) (cg_name cfg) 7 3"

definition cfg_ok :: "client_cfg \<Rightarrow> bool" where
  "cfg_ok cfg \<longleftrightarrow> length (cg_room_code cfg) = ROOM_CODE_LEN \<and> utf8_valid (cg_name cfg)"

text \<open>The audio path runs only for the session the handshake machine has joined, under its ids.\<close>

definition cc_inv :: "client_cfg \<Rightarrow> client_ctl \<Rightarrow> bool" where
  "cc_inv cfg s \<longleftrightarrow> io_ok (cc_io s) \<and> hello (cc_cs s) = cfg_hello cfg
     \<and> (joined (cc_shared s) \<longrightarrow>
          (\<exists>p. phase (cc_cs s) = Joined (cs_sender_id (cc_shared s)) (cs_session_id (cc_shared s)) p))"

fun client_sends :: "control \<Rightarrow> bool" where
  "client_sends (Hello _ _ _ _ _) = True"
| "client_sends (Ack _ _) = True"
| "client_sends (Ping _) = True"
| "client_sends Keepalive = True"
| "client_sends Bye = True"
| "client_sends _ = False"

definition cc_out_ok :: "client_cfg \<Rightarrow> ctl_out \<Rightarrow> bool" where
  "cc_out_ok cfg a = (case a of
      Datagram to d \<Rightarrow> to = cg_host cfg \<and> length d \<le> 195
        \<and> (\<exists>h c. parse_datagram d = Ok (h, PControl c) \<and> client_sends c)
    | AddrTable _ \<Rightarrow> False
    | CtlPanic \<Rightarrow> False)"

definition cgood :: "client_cfg \<Rightarrow> (client_ctl \<times> ctl_out list) option \<Rightarrow> bool" where
  "cgood cfg r \<longleftrightarrow> (\<exists>s out. r = Some (s, out) \<and> cc_inv cfg s \<and> (\<forall>a \<in> set out. cc_out_ok cfg a))"

lemma then_do_pure: "then_do (Some (s, [])) f = f s"
  by (cases "f s") (simp_all add: then_do_def case_prod_unfold)

lemma cgood_Some: "cc_inv cfg s \<Longrightarrow> cgood cfg (Some (s, []))"
  by (simp add: cgood_def)

lemma cgood_then:
  assumes "cgood cfg m" and "\<And>s out. \<lbrakk>m = Some (s, out); cc_inv cfg s\<rbrakk> \<Longrightarrow> cgood cfg (f s)"
  shows "cgood cfg (then_do m f)"
proof -
  from assms(1) obtain s1 o1 where 1: "m = Some (s1, o1)" "cc_inv cfg s1" "\<forall>a \<in> set o1. cc_out_ok cfg a"
    by (auto simp: cgood_def)
  from assms(2) [OF 1(1,2)] obtain s2 o2 where "f s1 = Some (s2, o2)" "cc_inv cfg s2" "\<forall>a \<in> set o2. cc_out_ok cfg a"
    by (auto simp: cgood_def)
  with 1 show ?thesis by (auto simp: cgood_def then_do_def)
qed

lemma client_sends_canon [simp]: "client_sends (control_canon c) = client_sends c"
  by (cases c) simp_all

lemma cc_io_send:
  assumes "io_ok io" and "control_sendable c" and "client_sends c"
  shows "\<exists>io' d sq. io_send c sid sender (cg_host cfg) io = Some (io', [Datagram (cg_host cfg) d], sq)
    \<and> io_ok io' \<and> cc_out_ok cfg (Datagram (cg_host cfg) d)
    \<and> (\<exists>h. parse_datagram d = Ok (h, PControl (control_canon c)))"
  using io_send_ok [OF assms(1,2), of sid sender "cg_host cfg"] assms(3) by (auto simp: cc_out_ok_def)

lemma cc_send_some:
  assumes "io_ok (cc_io s)" and "control_sendable c" and "client_sends c"
  shows "\<exists>io' d. cc_send cfg c s = Some (s\<lparr>cc_io := io'\<rparr>, [Datagram (cg_host cfg) d]) \<and> io_ok io'
    \<and> cc_out_ok cfg (Datagram (cg_host cfg) d) \<and> (\<exists>h. parse_datagram d = Ok (h, PControl (control_canon c)))"
  using cc_io_send [OF assms, of "cs_session_id (cc_shared s)" "cs_sender_id (cc_shared s)" cfg]
  by (auto simp: cc_send_def)

lemma cc_send_good: "\<lbrakk>cc_inv cfg s; control_sendable c; client_sends c\<rbrakk> \<Longrightarrow> cgood cfg (cc_send cfg c s)"
  using cc_send_some [of s c cfg] by (auto simp: cgood_def cc_inv_def)

lemma hello_sendable: "cfg_ok cfg \<Longrightarrow> control_sendable (cfg_hello cfg) \<and> client_sends (cfg_hello cfg)"
  by (simp add: cfg_ok_def cfg_hello_def)

text \<open>A fresh handshake: one HELLO goes out.\<close>

lemma cc_rejoin_some:
  assumes "cfg_ok cfg" and "io_ok (cc_io s)"
  shows "\<exists>io' d. cc_rejoin cfg now s = Some (s\<lparr>cc_cs := \<lparr>phase = Joining now 1, hello = cfg_hello cfg\<rparr>, cc_io := io'\<rparr>,
      [Datagram (cg_host cfg) d]) \<and> io_ok io' \<and> cc_out_ok cfg (Datagram (cg_host cfg) d)
    \<and> (\<exists>h. parse_datagram d = Ok (h, PControl (control_canon (cfg_hello cfg))))"
  using cc_send_some [of "s\<lparr>cc_cs := \<lparr>phase = Joining now 1, hello = cfg_hello cfg\<rparr>\<rparr>" "cfg_hello cfg" cfg] assms hello_sendable
  by (auto simp: cc_rejoin_def client_start_def client_new_def cfg_hello_def then_do_def)

lemma cc_rejoin_fields:
  assumes "cfg_ok cfg" and "io_ok (cc_io s)" and "cc_rejoin cfg now s = Some (s', out)"
  shows "cc_running s' = cc_running s \<and> cc_shared s' = cc_shared s \<and> phase (cc_cs s') = Joining now 1"
  using cc_rejoin_some [OF assms(1,2), of now] assms(3) by auto

lemma cc_rejoin_good:
  "\<lbrakk>cfg_ok cfg; io_ok (cc_io s); \<not> joined (cc_shared s)\<rbrakk> \<Longrightarrow> cgood cfg (cc_rejoin cfg now s)"
  using cc_rejoin_some [of cfg s now] by (auto simp: cgood_def cc_inv_def)

text \<open>The lists of actions that occur.\<close>

definition plan_ok :: "client_cfg \<Rightarrow> client_ctl \<Rightarrow> client_action list \<Rightarrow> bool" where
  "plan_ok cfg s as \<longleftrightarrow> as = [] \<or> as = [CSend (cfg_hello cfg)] \<or> (\<exists>f. as = [CFailed f] \<and> \<not> joined (cc_shared s))
     \<or> (\<exists>ai sid p r. as = [StartAudio ai sid p, RosterUpdate r] \<and> phase (cc_cs s) = Joined ai sid p)"

lemma cc_failed_good:
  "\<lbrakk>cfg_ok cfg; cc_inv cfg s; \<not> joined (cc_shared s)\<rbrakk> \<Longrightarrow> cgood cfg (cc_failed cfg now f s)"
  by (auto simp: cc_failed_def cc_inv_def intro!: cc_rejoin_good cgood_Some
      split: join_failure.split option.split)

lemma cc_actions_good:
  assumes "cfg_ok cfg" and "cc_inv cfg s" and "plan_ok cfg s as"
  shows "cgood cfg (cc_actions cfg now us as s)"
  using assms(3) unfolding plan_ok_def
proof (elim disjE exE conjE)
  assume "as = []"
  then show ?thesis using assms(2) by (simp add: cgood_Some)
next
  assume "as = [CSend (cfg_hello cfg)]"
  then show ?thesis using assms hello_sendable by (auto intro!: cgood_then cc_send_good cgood_Some)
next
  fix f
  assume "as = [CFailed f]" "\<not> joined (cc_shared s)"
  then show ?thesis using assms by (auto intro!: cgood_then cc_failed_good cgood_Some)
next
  fix ai sid p r
  assume as: "as = [StartAudio ai sid p, RosterUpdate r]" "phase (cc_cs s) = Joined ai sid p"
  have "cc_inv cfg ((cc_start_audio cfg now us ai sid p s)\<lparr>cc_roster := r\<rparr>)"
    using assms(2) as(2) by (auto simp: cc_inv_def cc_start_audio_def reset_jb_def Let_def)
  then show ?thesis by (simp add: as(1) then_do_def cgood_def)
qed

text \<open>After the tick of the handshake machine.\<close>

lemma tick_plan:
  assumes inv: "cc_inv cfg s" and tick: "client_tick now (cc_cs s) = (cs, bs)"
    and as: "plan_ok cfg s as" "as \<noteq> [] \<Longrightarrow> bs = []"
  shows "cc_inv cfg (s\<lparr>cc_cs := cs\<rparr>) \<and> plan_ok cfg (s\<lparr>cc_cs := cs\<rparr>) (as @ bs)"
proof -
  have j: "phase (cc_cs s) = Joined ai sid p \<Longrightarrow> cs = cc_cs s \<and> bs = []" for ai sid p
    using tick by (simp add: client_tick_def)
  have "joined (cc_shared s) \<Longrightarrow> cs = cc_cs s \<and> bs = []" using inv j by (auto simp: cc_inv_def)
  moreover have "hello cs = hello (cc_cs s)" "bs = [] \<or> bs = [CSend (hello (cc_cs s))] \<or> (\<exists>f. bs = [CFailed f])"
    using tick by (auto simp: client_tick_def split: client_phase.splits if_splits)
  ultimately show ?thesis
    using inv as j by (auto simp: cc_inv_def plan_ok_def)
qed

lemma liveness_good: "\<lbrakk>cfg_ok cfg; cc_inv cfg s\<rbrakk> \<Longrightarrow> cgood cfg (cc_liveness cfg now us s)"
  by (auto simp: cc_liveness_def reset_jb_def cc_inv_def intro!: cc_rejoin_good cgood_Some)

lemma cc_ping_good: "cc_inv cfg s \<Longrightarrow> cgood cfg (cc_ping cfg now t1 s)"
  by (auto simp: cc_ping_def intro!: cc_send_good cgood_Some) (auto simp: cc_inv_def)

lemma cc_keepalive_good: "cc_inv cfg s \<Longrightarrow> cgood cfg (cc_keepalive cfg now s)"
  by (auto simp: cc_keepalive_def intro!: cc_send_good cgood_Some) (auto simp: cc_inv_def)

lemma cc_snapshot_good: "cc_inv cfg s \<Longrightarrow> cgood cfg (Some (cc_snapshot now s, []))"
  by (rule cgood_Some) (auto simp: cc_snapshot_def cc_inv_def)

lemma timers_good: "cc_inv cfg s \<Longrightarrow> cgood cfg (cc_timers cfg now t1 s)"
  unfolding cc_timers_def by (intro cgood_then cc_ping_good cc_keepalive_good cc_snapshot_good)

lemma cc_send_keeps:
  "cc_send cfg c s = Some (s', out) \<Longrightarrow>
   cc_shared s' = cc_shared s \<and> cc_cs s' = cc_cs s \<and> cc_deadline s' = cc_deadline s"
  by (auto simp: cc_send_def split: option.splits)

lemma ping_keeps:
  "cc_ping cfg now t1 s = Some (s', out) \<Longrightarrow>
   cc_shared s' = cc_shared s \<and> cc_cs s' = cc_cs s \<and> cc_deadline s' = cc_deadline s"
  by (auto simp: cc_ping_def dest: cc_send_keeps split: if_splits)

lemma keepalive_keeps:
  "cc_keepalive cfg now s = Some (s', out) \<Longrightarrow>
   cc_shared s' = cc_shared s \<and> cc_cs s' = cc_cs s \<and> cc_deadline s' = cc_deadline s"
  by (auto simp: cc_keepalive_def dest: cc_send_keeps split: if_splits)

lemma timers_keep:
  assumes "cc_timers cfg now t1 s = Some (s', out)"
  shows "cc_shared s' = cc_shared s \<and> cc_cs s' = cc_cs s \<and> cc_deadline s' = cc_deadline s"
proof -
  from assms obtain s1 s2 o1 o2 where "cc_ping cfg now t1 s = Some (s1, o1)"
    "cc_keepalive cfg now s1 = Some (s2, o2)" "s' = cc_snapshot now s2"
    unfolding cc_timers_def then_do_Some by blast
  then show ?thesis using ping_keeps [of cfg now t1 s s1 o1] keepalive_keeps [of cfg now s1 s2 o2]
    by (simp add: cc_snapshot_def)
qed

lemma timers_idle: "\<not> joined (cc_shared s) \<Longrightarrow> cc_timers cfg now t1 s = Some (cc_snapshot now s, [])"
  by (simp add: cc_timers_def then_do_def cc_ping_def cc_keepalive_def)

lemma body_good:
  assumes "cfg_ok cfg" and "cc_inv cfg s" and "plan_ok cfg s as"
    and "as \<noteq> [] \<Longrightarrow> snd (client_tick now (cc_cs s)) = []"
  shows "cgood cfg (cc_body cfg now us as s)"
proof -
  obtain cs bs where tick: "client_tick now (cc_cs s) = (cs, bs)" by fastforce
  from tick_plan [OF assms(2) tick assms(3)] assms(4) tick
  have "cc_inv cfg (s\<lparr>cc_cs := cs\<rparr>)" "plan_ok cfg (s\<lparr>cc_cs := cs\<rparr>) (as @ bs)" by auto
  from cc_actions_good [OF assms(1) this] show ?thesis
    unfolding cc_body_def tick prod.case
    using assms(1) by (intro cgood_then liveness_good timers_good)
qed

lemma on_control_plan:
  assumes "cc_inv cfg s" and "cc_on_control c s = (s', as)" and "is_welcome c \<or> (\<exists>r. c = Deny r)"
  shows "cc_inv cfg s' \<and> plan_ok cfg s' as \<and> (as \<noteq> [] \<longrightarrow> snd (client_tick now (cc_cs s')) = [])"
  using assms
  by (auto simp: cc_on_control_def client_on_control_def cc_inv_def plan_ok_def client_tick_def is_welcome_def
      Let_def split: control.splits client_phase.splits prod.splits)

lemma packet_good:
  assumes inv: "cc_inv cfg s"
  shows "\<exists>s' out as. cc_packet cfg ev s = Some (s', out, as) \<and> cc_inv cfg s' \<and> plan_ok cfg s' as
    \<and> (as \<noteq> [] \<longrightarrow> snd (client_tick now (cc_cs s')) = []) \<and> (\<forall>a \<in> set out. cc_out_ok cfg a)"
proof (cases "ce_control ev")
  case (Welcome ai wsid sr fs cd ros)
  have "io_ok (cc_io s)" using inv by (simp add: cc_inv_def)
  from cc_io_send [OF this, of "Ack (hseq (ce_header ev)) (ptype_code (ptype (ce_header ev)))" wsid
      "cs_sender_id (cc_shared s)" cfg]
  obtain io' d sq where io: "io_send (Ack (hseq (ce_header ev)) (ptype_code (ptype (ce_header ev)))) wsid
      (cs_sender_id (cc_shared s)) (cg_host cfg) (cc_io s) = Some (io', [Datagram (cg_host cfg) d], sq)"
    "io_ok io'" "cc_out_ok cfg (Datagram (cg_host cfg) d)" by auto
  have "cc_inv cfg (s\<lparr>cc_io := io'\<rparr>)" using inv io(2) by (simp add: cc_inv_def)
  from on_control_plan [OF this surjective_pairing, of "ce_control ev"] io Welcome show ?thesis
    by (simp add: cc_packet_def cc_welcome_def is_welcome_def case_prod_unfold)
next
  case (Deny r)
  from on_control_plan [OF inv surjective_pairing, of "ce_control ev"] Deny show ?thesis
    by (simp add: cc_packet_def case_prod_unfold)
qed (use inv in \<open>auto simp: cc_packet_def cc_inv_def plan_ok_def reset_jb_def Let_def split: prod.split\<close>)

lemma bye_good: "cc_inv cfg s \<Longrightarrow> cgood cfg (cc_bye cfg n s)"
proof -
  assume inv: "cc_inv cfg s"
  have "cgood cfg (((\<lambda>m. then_do m (cc_send cfg Bye)) ^^ n) (Some (s, [])))"
    using inv by (induction n) (auto intro!: cgood_then cc_send_good cgood_Some)
  moreover have "cc_inv cfg (s1\<lparr>cc_running := False\<rparr>)" if "cc_inv cfg s1" for s1
    using that by (simp add: cc_inv_def)
  ultimately show ?thesis using inv by (auto simp: cc_bye_def intro!: cgood_then cgood_Some)
qed

lemma cc_iteration_good:
  assumes "cfg_ok cfg" and "cc_inv cfg s"
  shows "cgood cfg (cc_iteration cfg r now us s)"
proof (cases "cs_shutdown (cc_shared s)")
  case True
  then show ?thesis using bye_good [OF assms(2)] by (simp add: cc_iteration_def)
next
  case False
  show ?thesis
  proof (cases r)
    case (RecvOk ev)
    from packet_good [OF assms(2), of ev now] obtain s' out as where p: "cc_packet cfg ev s = Some (s', out, as)"
      "cc_inv cfg s'" "plan_ok cfg s' as" "as \<noteq> [] \<longrightarrow> snd (client_tick now (cc_cs s')) = []"
      "\<forall>a \<in> set out. cc_out_ok cfg a" by blast
    from body_good [OF assms(1) p(2,3), of now us] p False RecvOk show ?thesis
      by (auto simp: cc_iteration_def cgood_def)
  next
    case RecvTimeout
    then show ?thesis using body_good [OF assms, of "[]" now us] False by (simp add: cc_iteration_def plan_ok_def)
  next
    case RecvDisconnected
    then show ?thesis using bye_good [OF assms(2)] False by (simp add: cc_iteration_def)
  qed
qed

text \<open>The other threads keep the fields the control thread owns.\<close>

fun cc_ok :: "cc_event \<Rightarrow> bool" where
  "cc_ok (CcIter _ _ _) = True"
| "cc_ok (CcOthers f) = (\<forall>sh. joined (f sh) = joined sh \<and> cs_sender_id (f sh) = cs_sender_id sh
     \<and> cs_session_id (f sh) = cs_session_id sh)"

definition cc_begun :: "client_cfg \<Rightarrow> client_ctl \<Rightarrow> bool" where
  "cc_begun cfg s \<longleftrightarrow> cfg_ok cfg \<and> cc_inv cfg s"

interpretation client_loop: event_machine "cc_step cfg" cc_ok "cc_begun cfg" "cc_out_ok cfg"
proof unfold_locales
  fix e s a
  assume ok: "cc_ok e" and inv: "cc_begun cfg s"
  have "cc_begun cfg (fst (cc_step cfg e s)) \<and> (a \<in> set (snd (cc_step cfg e s)) \<longrightarrow> cc_out_ok cfg a)"
  proof (cases e)
    case (CcIter r now us)
    with inv cc_iteration_good [of cfg s r now us] show ?thesis by (auto simp: cc_begun_def cgood_def)
  next
    case (CcOthers f)
    with ok inv show ?thesis by (simp add: cc_begun_def cc_inv_def)
  qed
  then show "cc_begun cfg (fst (cc_step cfg e s))" "a \<in> set (snd (cc_step cfg e s)) \<Longrightarrow> cc_out_ok cfg a" by blast+
qed

section \<open>What the client's control thread promises\<close>

lemma begin_begun:
  assumes "cfg_ok cfg" and "\<not> joined sh" and "cc_begin cfg now_a now0 sh = Some (s, out)"
  shows "cc_begun cfg s \<and> (\<forall>a \<in> set out. cc_out_ok cfg a)"
proof -
  have "cgood cfg (cc_begin cfg now_a now0 sh)"
    unfolding cc_begin_def using assms(1,2) by (intro cc_rejoin_good) (simp_all add: io_ok_def io_new_def)
  with assms(1,3) show ?thesis by (simp add: cgood_def cc_begun_def)
qed

definition ex_cfg :: client_cfg where
  "ex_cfg = \<lparr>cg_room_code = [1, 2, 3, 4, 5, 6], cg_name = [65], cg_params = engine_params_default,
     cg_host = V4 10 7000\<rparr>"

lemma ex_cfg_ok: "cfg_ok ex_cfg"
  by (simp add: ex_cfg_def cfg_ok_def ROOM_CODE_LEN_def utf8_width_def)

definition ex_welcome :: recv where
  "ex_welcome = ex_ctl (V4 10 7000) (Welcome 2 9 48000 120 Opus [\<lparr>pid = 0, pname = [72]\<rparr>]) 9"

lemma io_new_ok: "io_ok io_new"
  by (simp add: io_ok_def io_new_def)

lemma begin_some:
  assumes "cfg_ok cfg"
  shows "\<exists>s out. cc_begin cfg now_a now0 sh = Some (s, out)"
proof -
  have "\<exists>s' out. cc_rejoin cfg now0 s = Some (s', out)" if "io_ok (cc_io s)" for s
    using cc_rejoin_some [OF assms that, of now0] by blast
  then show ?thesis unfolding cc_begin_def by (simp add: io_new_ok)
qed

lemma ex_begin: "\<exists>s out. cc_begin ex_cfg 0 0 client_shared_default = Some (s, out)"
  by (rule begin_some [OF ex_cfg_ok])

text \<open>C16: the client's control thread never panics and speaks to its host alone: it starts without a
  panic, and from its start, over every sequence of packets, timeouts, clock readings and changes by
  the other threads, all it sends are HELLO, ACK, PING, KEEPALIVE and BYE packets that the parser
  accepts, to the configured host address.\<close>

theorem client_control_safe:
  assumes "cfg_ok cfg" and "\<not> joined sh" and "\<forall>e \<in> set es. cc_ok e"
  shows "\<exists>s out. cc_begin cfg now_a now0 sh = Some (s, out)
    \<and> (\<forall>a \<in> set out \<union> set (snd (run (cc_step cfg) es s)). cc_out_ok cfg a)"
proof -
  from begin_some [OF assms(1)] obtain s out where s: "cc_begin cfg now_a now0 sh = Some (s, out)" by blast
  from begin_begun [OF assms(1,2) s] client_loop.run_out [OF assms(3), of cfg s] s show ?thesis by blast
qed

lemma client_control_safe_witness:
  "\<exists>s out. cc_begin ex_cfg 0 0 client_shared_default = Some (s, out)
     \<and> list_all (cc_out_ok ex_cfg) (out @ snd (run (cc_step ex_cfg) [CcIter ex_welcome 20 (\<lambda>_. 20000), CcIter RecvTimeout 70 (\<lambda>_. 70000)] s))"
proof -
  have "\<not> joined client_shared_default" by (simp add: client_shared_default_def)
  from client_control_safe [OF ex_cfg_ok this, of "[CcIter ex_welcome 20 (\<lambda>_. 20000), CcIter RecvTimeout 70 (\<lambda>_. 70000)]" 0 0]
  show ?thesis by (simp only: list_all_iff set_append) simp
qed

text \<open>Audio only flows in a joined session. Whenever the flag that opens the audio path is set, the
  handshake machine is joined, and the sender and session id the audio path stamps on its
  packets are the ones the host assigned in its WELCOME.\<close>

theorem client_joined_means_welcomed:
  assumes "cfg_ok cfg" and "\<not> joined sh" and "cc_begin cfg now_a now0 sh = Some (s, out)"
    and "\<forall>e \<in> set es. cc_ok e" and "s' = fst (run (cc_step cfg) es s)" and "joined (cc_shared s')"
  shows "\<exists>p. phase (cc_cs s') = Joined (cs_sender_id (cc_shared s')) (cs_session_id (cc_shared s')) p"
proof -
  have "cc_begun cfg s'"
    using begin_begun [OF assms(1-3)] client_loop.run_inv [OF assms(4), of cfg s] assms(5) by blast
  with assms(6) show ?thesis by (simp add: cc_begun_def cc_inv_def)
qed

text \<open>The WELCOME's effect, for the example.\<close>

lemma welcome_joins:
  assumes "cfg_ok cfg" and inv: "cc_inv cfg s" and run: "\<not> cs_shutdown (cc_shared s)"
    and ph: "phase (cc_cs s) = Joining t n" and ev: "ce_control ev = Welcome ai sid sr fs cd ros"
    and fresh: "unat (saturating_sub (us 1) (us 0)) \<le> 5000000"
  shows "\<exists>s2 d out sq. cc_iteration cfg (RecvOk ev) now us s = Some (s2, Datagram (cg_host cfg) d # out)
    \<and> length d \<le> 195
    \<and> parse_datagram d = Ok (\<lparr>ptype = PT_Ack, session_id = sid, sender_id = cs_sender_id (cc_shared s), hseq = sq\<rparr>,
        PControl (Ack (hseq (ce_header ev)) (ptype_code (ptype (ce_header ev)))))
    \<and> joined (cc_shared s2) \<and> cs_sender_id (cc_shared s2) = ai \<and> cs_session_id (cc_shared s2) = sid"
proof -
  let ?ack = "Ack (hseq (ce_header ev)) (ptype_code (ptype (ce_header ev)))"
  let ?p = "\<lparr>p_sample_rate = sr, p_frame_samples = fs, p_codec = cd\<rparr>"
  have "io_ok (cc_io s)" using inv by (simp add: cc_inv_def)
  from io_send_ok [OF this, of ?ack sid "cs_sender_id (cc_shared s)" "cg_host cfg"]
  obtain io' d sq where io: "io_send ?ack sid (cs_sender_id (cc_shared s)) (cg_host cfg) (cc_io s)
      = Some (io', [Datagram (cg_host cfg) d], sq)" "length d \<le> 195"
    "parse_datagram d = Ok (\<lparr>ptype = PT_Ack, session_id = sid, sender_id = cs_sender_id (cc_shared s), hseq = sq\<rparr>, PControl ?ack)"
    by auto
  from packet_good [OF inv, of ev now] obtain s1 out as where p: "cc_packet cfg ev s = Some (s1, out, as)"
    "cc_inv cfg s1" "plan_ok cfg s1 as" "as \<noteq> [] \<longrightarrow> snd (client_tick now (cc_cs s1)) = []" by blast
  have as: "as = [StartAudio ai sid ?p, RosterUpdate ros]" and ph1: "phase (cc_cs s1) = Joined ai sid ?p"
    and out: "out = [Datagram (cg_host cfg) d]"
    using p(1) ev ph io(1) by (auto simp: cc_packet_def cc_welcome_def cc_on_control_def client_on_control_def Let_def)
  have tick: "client_tick now (cc_cs s1) = (cc_cs s1, [])" by (simp add: client_tick_def ph1)
  let ?s = "(cc_start_audio cfg now (us 0) ai sid ?p s1)\<lparr>cc_roster := ros\<rparr>"
  have acts: "cc_actions cfg now (us 0) as (s1\<lparr>cc_cs := cc_cs s1\<rparr>) = Some (?s, [])"
    by (simp add: as then_do_def)
  have j: "joined (cc_shared ?s)" "last_rx_us (from_host (cc_shared ?s)) = us 0"
    "cs_sender_id (cc_shared ?s) = ai" "cs_session_id (cc_shared ?s) = sid"
    by (simp_all add: cc_start_audio_def Let_def)
  moreover have "\<not> PEER_TIMEOUT_MS * 1000 < saturating_sub (us 1) (us 0)"
    using fresh by (simp add: PEER_TIMEOUT_MS_def word_less_nat_alt)
  ultimately have live: "cc_liveness cfg now (us 1) ?s = Some (?s, [])" by (simp add: cc_liveness_def)
  have "cgood cfg (cc_body cfg now us as s1)"
    using body_good [OF assms(1) p(2,3), of now us] p(4) by blast
  then obtain s2 out2 where body: "cc_body cfg now us as s1 = Some (s2, out2)" by (auto simp: cgood_def)
  have "cc_body cfg now us as s1 = cc_timers cfg now (us 2) ?s"
    unfolding cc_body_def tick prod.case append_Nil2 acts then_do_pure live ..
  with body timers_keep have "cc_shared s2 = cc_shared ?s" by metis
  moreover have "cc_iteration cfg (RecvOk ev) now us s = Some (s2, Datagram (cg_host cfg) d # out2)"
    using run p(1) body by (simp add: cc_iteration_def out)
  ultimately show ?thesis using j io(2,3) by auto
qed

lemma client_joined_means_welcomed_witness:
  "\<exists>s out p. cc_begin ex_cfg 0 0 client_shared_default = Some (s, out)
     \<and> joined (cc_shared (fst (run (cc_step ex_cfg) [CcIter ex_welcome 20 (\<lambda>_. 20000)] s)))
     \<and> phase (cc_cs (fst (run (cc_step ex_cfg) [CcIter ex_welcome 20 (\<lambda>_. 20000)] s)))
        = Joined (cs_sender_id (cc_shared (fst (run (cc_step ex_cfg) [CcIter ex_welcome 20 (\<lambda>_. 20000)] s))))
            (cs_session_id (cc_shared (fst (run (cc_step ex_cfg) [CcIter ex_welcome 20 (\<lambda>_. 20000)] s)))) p"
proof -
  obtain s out where s: "cc_begin ex_cfg 0 0 client_shared_default = Some (s, out)" using ex_begin by blast
  have nj: "\<not> joined client_shared_default" by (simp add: client_shared_default_def)
  have "cc_inv ex_cfg s" using begin_begun [OF ex_cfg_ok nj s] by (simp add: cc_begun_def)
  moreover have "cc_running s" "\<not> cs_shutdown (cc_shared s)" "phase (cc_cs s) = Joining 0 1"
    using cc_rejoin_fields [OF ex_cfg_ok _ s [unfolded cc_begin_def]]
    by (simp_all add: io_ok_def io_new_def client_shared_default_def)
  moreover obtain ev where ev: "ex_welcome = RecvOk ev"
    "ce_control ev = Welcome 2 9 48000 120 Opus [\<lparr>pid = 0, pname = [72]\<rparr>]"
    by (simp add: ex_welcome_def ex_ctl_def)
  ultimately have j: "joined (cc_shared (fst (run (cc_step ex_cfg) [CcIter ex_welcome 20 (\<lambda>_. 20000)] s)))"
    using welcome_joins [OF ex_cfg_ok _ _ _ ev(2), of s 0 1 "\<lambda>_. 20000" 20] by auto
  from client_joined_means_welcomed [OF ex_cfg_ok nj s _ refl j] j s show ?thesis by auto
qed

text \<open>A client whose host goes quiet rejoins by itself. An iteration without a packet that finds a
  joined client's host silent for more than five seconds closes the audio path, empties the
  jitter buffer, opens a new join window and sends exactly one packet, a HELLO, with a fresh
  handshake.\<close>

theorem client_rejoins_on_silence:
  assumes "cfg_ok cfg" and "cc_inv cfg s" and "\<not> cs_shutdown (cc_shared s)" and "joined (cc_shared s)"
    and "unat (last_rx_us (from_host (cc_shared s))) + 5000000 < unat (us 1)"
  shows "\<exists>s' d h. cc_iteration cfg RecvTimeout now us s = Some (s', [Datagram (cg_host cfg) d])
    \<and> parse_datagram d = Ok (h, PControl (control_canon (cfg_hello cfg)))
    \<and> phase (cc_cs s') = Joining now 1 \<and> \<not> joined (cc_shared s')
    \<and> jb (from_host (cc_shared s')) = jb_reset (jb (from_host (cc_shared s)))
    \<and> cc_deadline s' = Some (now + REJOIN_WINDOW_MS)"
proof -
  obtain ai sid p where ph: "phase (cc_cs s) = Joined ai sid p" using assms(2,4) by (auto simp: cc_inv_def)
  then have tick: "client_tick now (cc_cs s) = (cc_cs s, [])" by (simp add: client_tick_def)
  let ?s = "s\<lparr>cc_shared := reset_jb ((cc_shared s)\<lparr>joined := False\<rparr>), cc_deadline := Some (now + REJOIN_WINDOW_MS)\<rparr>"
  have "PEER_TIMEOUT_MS * 1000 < saturating_sub (us 1) (last_rx_us (from_host (cc_shared s)))"
    using assms(5) by (simp add: PEER_TIMEOUT_MS_def word_less_nat_alt)
  then have live: "cc_liveness cfg now (us 1) s = cc_rejoin cfg now ?s"
    using assms(4) by (simp add: cc_liveness_def)
  have "io_ok (cc_io ?s)" using assms(2) by (simp add: cc_inv_def)
  from cc_rejoin_some [OF assms(1) this, of now] obtain io' d h where r: "cc_rejoin cfg now ?s
      = Some (?s\<lparr>cc_cs := \<lparr>phase = Joining now 1, hello = cfg_hello cfg\<rparr>, cc_io := io'\<rparr>, [Datagram (cg_host cfg) d])"
    "parse_datagram d = Ok (h, PControl (control_canon (cfg_hello cfg)))" by auto
  let ?s1 = "?s\<lparr>cc_cs := \<lparr>phase = Joining now 1, hello = cfg_hello cfg\<rparr>, cc_io := io'\<rparr>"
  have idle: "cc_timers cfg now (us 2) ?s1 = Some (cc_snapshot now ?s1, [])"
    by (rule timers_idle) (simp add: reset_jb_def)
  have "cc_iteration cfg RecvTimeout now us s = then_do (cc_liveness cfg now (us 1) s) (cc_timers cfg now (us 2))"
    using assms(3) by (simp add: cc_iteration_def cc_body_def tick then_do_pure del: One_nat_def)
  also have "\<dots> = Some (cc_snapshot now ?s1, [Datagram (cg_host cfg) d])"
    unfolding live r(1) then_do_def option.case prod.case idle by simp
  finally show ?thesis using r(2) by (simp add: cc_snapshot_def reset_jb_def)
qed

definition ex_joined :: client_ctl where
  "ex_joined = \<lparr>cc_cs = \<lparr>phase = Joined 2 9 default_params, hello = cfg_hello ex_cfg\<rparr>, cc_io = io_new,
     cc_roster = [], cc_last_roster = None, cc_last_ping = 0, cc_last_keepalive = 0, cc_last_snapshot = 0,
     cc_deadline = None, cc_status = None,
     cc_shared = client_shared_default\<lparr>joined := True, cs_sender_id := 2, cs_session_id := 9\<rparr>, cc_running = True\<rparr>"

lemma client_rejoins_on_silence_witness:
  "\<exists>s' d. cc_iteration ex_cfg RecvTimeout 6000 (\<lambda>_. 6000000) ex_joined = Some (s', [Datagram (V4 10 7000) d])
     \<and> phase (cc_cs s') = Joining 6000 1 \<and> \<not> joined (cc_shared s')"
proof -
  have "cc_inv ex_cfg ex_joined" "\<not> cs_shutdown (cc_shared ex_joined)" "joined (cc_shared ex_joined)"
    "unat (last_rx_us (from_host (cc_shared ex_joined))) + 5000000 < unat (6000000 :: u64)"
    by (simp_all add: cc_inv_def ex_joined_def io_ok_def io_new_def client_shared_default_def stream_default_def)
  from client_rejoins_on_silence [OF ex_cfg_ok this, of 6000] show ?thesis by (auto simp: ex_cfg_def)
qed

end
