(* ===== verification/Session.thy ===== *)
theory Session
  imports Client_Control
begin

text \<open>
  How the parts meet when a client joins: the client's control thread sends its HELLO, the host's
  receive thread parses and forwards it, the host's control thread answers, the client's receive
  thread forwards the answer, and the client's control thread opens the audio path. The lemmas
  here follow one slot of the host through its control thread's loop; the root theory states the
  properties that span the threads.
\<close>

section \<open>What never changes at the host\<close>

lemma session_id_step: "h_session_id (fst (host_step e h)) = h_session_id h"
  by (cases e)
    (auto simp: on_hello_def welcome_sent_def on_ack_def mark_heard_def on_bye_def
      remove_where_def host_tick_def Let_def case_prod_unfold
      split: control.split option.split slot_state.split)

lemma session_id_simps [simp]:
  "h_session_id (welcome_sent to sq h) = h_session_id h" "h_session_id (mark_heard k t h) = h_session_id h"
  using session_id_step [of "EWelcomeSent to sq" h] session_id_step [of "EHeard k t" h] by simp_all

lemma ctl_action_session: "ctl_action a s = Some (s', out) \<Longrightarrow> h_session_id (hc_hs s') = h_session_id (hc_hs s)"
  by (cases a) (auto simp: ctl_send_def ctl_joined_def ctl_left_def Let_def split: option.splits if_splits)

lemma ctl_run_Cons: "ctl_run (a # as) s = Some (s', out) \<longleftrightarrow>
   (\<exists>s1 o1 o2. ctl_action a s = Some (s1, o1) \<and> ctl_run as s1 = Some (s', o2) \<and> out = o1 @ o2)"
  by (auto split: option.splits)

lemma ctl_run_session: "ctl_run as s = Some (s', out) \<Longrightarrow> h_session_id (hc_hs s') = h_session_id (hc_hs s)"
  by (induction as arbitrary: s s' out) (auto dest!: ctl_action_session split: option.splits)

lemma ctl_drive_session: "ctl_drive e s = Some (s', out) \<Longrightarrow> h_session_id (hc_hs s') = h_session_id (hc_hs s)"
  using session_id_step [of e "hc_hs s"] by (auto simp: ctl_drive_def case_prod_unfold dest!: ctl_run_session)

lemma ctl_heard_session [simp]: "h_session_id (hc_hs (ctl_heard ev now s)) = h_session_id (hc_hs s)"
  by (simp add: ctl_heard_def split: option.split)

lemma feed_all_session [simp]: "h_session_id (hc_hs (feed_all s)) = h_session_id (hc_hs s)"
proof -
  have "h_session_id (hc_hs (fold feed_from ks s)) = h_session_id (hc_hs s)" for ks
    by (induction ks arbitrary: s) (simp_all add: feed_from_def Let_def)
  then show ?thesis by (simp add: feed_all_def)
qed

lemma ctl_packet_session: "ctl_packet ev now s = Some (s', out) \<Longrightarrow> h_session_id (hc_hs s') = h_session_id (hc_hs s)"
  by (cases "ce_control ev")
    (auto simp: ctl_packet_def Let_def ctl_pong_def dest!: ctl_drive_session split: if_splits option.splits)

lemma send_all_shared: "ctl_send_all cs s = Some (s', out) \<Longrightarrow> hc_shared s' = hc_shared s"
  by (induction cs s arbitrary: s' out rule: ctl_send_all.induct) (fastforce split: option.splits)+

lemma goodbye_hs: "ctl_goodbye s = Some (s', out) \<Longrightarrow> hc_hs s' = hc_hs s"
  by (auto simp: ctl_goodbye_def dest: send_all_hs)

lemma ctl_iteration_session:
  assumes "ctl_iteration r now us s = Some (s', out)"
  shows "h_session_id (hc_hs s') = h_session_id (hc_hs s)"
proof (cases "hs_shutdown (hc_shared s) \<or> r = RecvDisconnected")
  case True
  with assms show ?thesis
    by (auto simp: ctl_iteration_def ctl_shutdown_def then_do_Some dest!: goodbye_hs split: if_splits)
next
  case False
  with assms obtain s1 o1 s2 o2 s3 o3 s4 o4 where steps:
    "(case r of RecvOk ev \<Rightarrow> ctl_packet ev now s | _ \<Rightarrow> Some (s, [])) = Some (s1, o1)"
    "ctl_drive (ETick now) (feed_all s1) = Some (s2, o2)" "ctl_ping now us s2 = Some (s3, o3)"
    "ctl_keepalive now s3 = Some (s4, o4)" "s' = ctl_snapshot now s4"
    by (cases r) (auto simp: ctl_iteration_def then_do_Some)
  have "hc_hs s3 = hc_hs s2" using steps(3) by (auto simp: ctl_ping_def dest: send_all_hs split: if_splits)
  moreover have "hc_hs s4 = hc_hs s3"
    using steps(4) by (auto simp: ctl_keepalive_def dest: send_all_hs split: if_splits)
  moreover have "h_session_id (hc_hs s1) = h_session_id (hc_hs s)"
    using steps(1) by (cases r) (auto dest: ctl_packet_session)
  ultimately show ?thesis using ctl_drive_session [OF steps(2)] by (simp add: steps(5) ctl_snapshot_def)
qed

lemma after_session: "h_session_id (hc_hs (fst (host_ctl_after code nm ep sid es))) = sid"
proof -
  have step: "h_session_id (hc_hs (fst (hc_step e s))) = h_session_id (hc_hs s)" for e s
    by (cases e) (auto dest: ctl_iteration_session split: option.split)
  have "h_session_id (hc_hs (fst (run hc_step es s))) = h_session_id (hc_hs s)" for s
    by (induction es arbitrary: s) (simp_all add: case_prod_unfold step)
  then show ?thesis by (simp add: host_ctl_after_def host_ctl_new_def host_new_def host_shared_new_def)
qed

text \<open>Nor does the control thread touch the request to shut down.\<close>

lemma shutdown_upd_client [simp]: "hs_shutdown (upd_client i f sh) = hs_shutdown sh"
  by (simp add: upd_client_def)

lemma shutdown_clear_mix [simp]: "hs_shutdown (clear_mix p sh) = hs_shutdown sh"
  by (simp add: clear_mix_def)

lemma ctl_run_shutdown: "ctl_run as s = Some (s', out) \<Longrightarrow> hs_shutdown (hc_shared s') = hs_shutdown (hc_shared s)"
proof (induction as arbitrary: s out)
  case (Cons a as)
  from Cons.prems obtain s1 o1 o2 where one: "ctl_action a s = Some (s1, o1)" and two: "ctl_run as s1 = Some (s', o2)"
    by (auto simp: ctl_run_Cons simp del: ctl_run.simps)
  have "hs_shutdown (hc_shared s1) = hs_shutdown (hc_shared s)"
    using one by (cases a) (auto simp: ctl_send_def ctl_joined_def ctl_left_def Let_def split: option.splits if_splits)
  with Cons.IH [OF two] show ?case by simp
qed simp

lemma ctl_drive_shutdown: "ctl_drive e s = Some (s', out) \<Longrightarrow> hs_shutdown (hc_shared s') = hs_shutdown (hc_shared s)"
  by (auto simp: ctl_drive_def case_prod_unfold dest!: ctl_run_shutdown)

lemma ctl_heard_shared [simp]: "hc_shared (ctl_heard ev now s) = hc_shared s"
  by (simp add: ctl_heard_def split: option.split)

lemma feed_all_shared [simp]: "hc_shared (feed_all s) = hc_shared s"
proof -
  have "hc_shared (fold feed_from ks s) = hc_shared s" for ks
    by (induction ks arbitrary: s) (simp_all add: feed_from_def Let_def)
  then show ?thesis by (simp add: feed_all_def)
qed

lemma ctl_packet_shutdown:
  "ctl_packet ev now s = Some (s', out) \<Longrightarrow> hs_shutdown (hc_shared s') = hs_shutdown (hc_shared s)"
  by (cases "ce_control ev")
    (auto simp: ctl_packet_def Let_def ctl_pong_def store_client_eq_Some upd_client_def dest!: ctl_drive_shutdown split: if_splits option.splits)

text \<open>An iteration with a packet, in its five parts; the last three leave the machine alone.\<close>

lemma iteration_parts:
  assumes "ctl_iteration (RecvOk ev) now us s = Some (s', out)" and "\<not> hs_shutdown (hc_shared s)"
  obtains s1 o1 s2 o2 o3 where "ctl_packet ev now s = Some (s1, o1)"
    "ctl_drive (ETick now) (feed_all s1) = Some (s2, o2)" "hc_hs s' = hc_hs s2" "hc_shared s' = hc_shared s2"
    "out = o1 @ o2 @ o3"
proof -
  from assms obtain s1 o1 s2 o2 s3 o3 s4 o4 where steps: "ctl_packet ev now s = Some (s1, o1)"
    "ctl_drive (ETick now) (feed_all s1) = Some (s2, o2)" "ctl_ping now us s2 = Some (s3, o3)"
    "ctl_keepalive now s3 = Some (s4, o4)" "s' = ctl_snapshot now s4" "out = o1 @ o2 @ o3 @ o4"
    by (auto simp: ctl_iteration_def then_do_Some)
  have "hc_hs s3 = hc_hs s2 \<and> hc_shared s3 = hc_shared s2"
    using steps(3) by (auto simp: ctl_ping_def dest: send_all_hs send_all_shared split: if_splits)
  moreover have "hc_hs s4 = hc_hs s3 \<and> hc_shared s4 = hc_shared s3"
    using steps(4) by (auto simp: ctl_keepalive_def dest: send_all_hs send_all_shared split: if_splits)
  ultimately have "hc_hs s' = hc_hs s2" "hc_shared s' = hc_shared s2" by (simp_all add: steps(5) ctl_snapshot_def)
  with steps that show thesis by blast
qed

section \<open>A slot that has just been given\<close>

definition fresh_slot :: "socket_addr \<Rightarrow> u64 \<Rightarrow> slot option \<Rightarrow> bool" where
  "fresh_slot a now e \<longleftrightarrow> (\<exists>v ws. e = Some v \<and> sl_addr v = a \<and> sl_last_heard v = now \<and> sl_state v = Pending ws now 1)"

lemma fresh_welcome_sent:
  "\<lbrakk>host_inv h; k < MAX_CLIENTS; fresh_slot a now (slots h ! k)\<rbrakk> \<Longrightarrow> fresh_slot a now (slots (welcome_sent to sq h) ! k)"
proof -
  assume h: "host_inv h" "k < MAX_CLIENTS" "fresh_slot a now (slots h ! k)"
  then obtain v ws where v: "slots h ! k = Some v" "sl_addr v = a" "sl_last_heard v = now" "sl_state v = Pending ws now 1"
    by (auto simp: fresh_slot_def)
  with h have "slots (welcome_sent to sq h) ! k
      = Some (if sl_addr v = to then v\<lparr>sl_state := Pending (Some sq) now 1\<rparr> else v)"
    by (simp add: welcome_sent_def host_len)
  with v show ?thesis by (simp add: fresh_slot_def)
qed

text \<open>The slot, and the absence of audio from it, while the host executes actions.\<close>

definition awaits :: "socket_addr \<Rightarrow> u64 \<Rightarrow> nat \<Rightarrow> host_ctl \<Rightarrow> bool" where
  "awaits a now k s \<longleftrightarrow> host_inv (hc_hs s) \<and> fresh_slot a now (slots (hc_hs s) ! k)
     \<and> last_rx_us (clients (hc_shared s) ! k) = 0"

lemma silent_upd_client:
  "\<lbrakk>\<And>st. last_rx_us (f st) = last_rx_us st \<or> last_rx_us (f st) = 0; last_rx_us (clients sh ! k) = 0\<rbrakk> \<Longrightarrow>
   last_rx_us (clients (upd_client j f sh) ! k) = 0"
  by (cases "k = j"; cases "j < length (clients sh)") (auto simp: upd_client_def list_update_beyond not_less, metis)

lemma awaits_action:
  assumes "ctl_action b s = Some (s', out)" and "awaits a now k s" and "k < MAX_CLIENTS"
  shows "awaits a now k s'"
proof (cases b)
  case (HSend to c)
  with assms show ?thesis
    by (auto simp: awaits_def ctl_send_def Let_def fresh_welcome_sent welcome_sent_inv split: option.splits)
next
  case (ClientJoined sid nm)
  with assms show ?thesis
    by (auto simp: awaits_def ctl_joined_def Let_def intro!: silent_upd_client split: if_splits)
next
  case (ClientLeft sid r)
  with assms show ?thesis
    by (auto simp: awaits_def ctl_left_def Let_def intro!: silent_upd_client split: if_splits)
qed

lemma awaits_run: "\<lbrakk>ctl_run as s = Some (s', out); awaits a now k s; k < MAX_CLIENTS\<rbrakk> \<Longrightarrow> awaits a now k s'"
proof (induction as arbitrary: s out)
  case (Cons b as)
  from Cons.prems(1) obtain s1 out1 out2 where "ctl_action b s = Some (s1, out1)" "ctl_run as s1 = Some (s', out2)"
    by (auto split: option.splits)
  with awaits_action Cons show ?case by blast
qed simp

lemma awaits_feed: "\<lbrakk>awaits a now k s; k < MAX_CLIENTS\<rbrakk> \<Longrightarrow> awaits a now k (feed_all s)"
proof -
  assume s: "awaits a now k s" and k: "k < MAX_CLIENTS"
  with feed_fold_nth [of s "[0..<MAX_CLIENTS]" k] show ?thesis
    using feed_all_shared [of s] by (simp add: awaits_def feed_all_def fed_def)
qed

lemma awaits_tick:
  assumes "ctl_drive (ETick now) s = Some (s', out)" and "awaits a now k s" and "k < MAX_CLIENTS"
  shows "awaits a now k s'"
proof -
  let ?h = "fst (host_tick now (hc_hs s))"
  from assms(2) obtain v ws where v: "slots (hc_hs s) ! k = Some v" "sl_addr v = a" "sl_last_heard v = now"
    "sl_state v = Pending ws now 1" and inv: "host_inv (hc_hs s)"
    by (auto simp: awaits_def fresh_slot_def)
  have "slots ?h ! k = Some v" using tick_slot [OF inv assms(3) v(1), of now] v by (simp add: gives_up_def)
  moreover have "host_inv ?h" using host_step_inv [of "ETick now", OF _ inv] by simp
  ultimately have "awaits a now k (s\<lparr>hc_hs := ?h\<rparr>)" using assms(2) v by (auto simp: awaits_def fresh_slot_def)
  with assms(1,3) show ?thesis by (auto simp: ctl_drive_def case_prod_unfold intro: awaits_run)
qed

section \<open>The host admits a newcomer\<close>

lemma run_sends_shared:
  "\<lbrakk>ctl_run as s = Some (s', out); \<forall>a \<in> set as. \<exists>to c. a = HSend to c\<rbrakk> \<Longrightarrow> hc_shared s' = hc_shared s"
proof (induction as arbitrary: s out)
  case (Cons a as)
  from Cons.prems obtain to c s1 out1 out2 where "ctl_send to c s = Some (s1, out1)" "ctl_run as s1 = Some (s', out2)"
    by (auto split: option.splits)
  moreover from this have "hc_shared s1 = hc_shared s" by (auto simp: ctl_send_def Let_def split: option.splits)
  ultimately show ?case using Cons by simp
qed simp

lemma broadcast_only_sends: "a \<in> set (broadcast_roster h x) \<Longrightarrow> \<exists>to c. a = HSend to c"
  by (auto simp: broadcast_roster_def map_filter_def split: option.splits if_splits)

lemma on_hello_newcomer:
  assumes "sender_for_addr h a = None" and "position (\<lambda>e. e = None) (slots h) = Some k"
    and "c = Hello PROTOCOL_VERSION (h_room_code h) nm cm fm"
  obtains h' where "on_hello a c now h = (h', [HSend a (welcome_for h' k), ClientJoined (sender_id_of k) nm]
      @ broadcast_roster h' (Some a))"
    "slots h' = (slots h)[k := Some \<lparr>sl_addr = a, sl_name = nm, sl_state = Pending None now 1, sl_last_heard = now\<rparr>]"
    "h_session_id h' = h_session_id h"
  using that assms by (simp add: on_hello_def sender_for_addr_def Let_def)

text \<open>A HELLO from a new address with a slot free: the first thing the host sends is the WELCOME,
  and at the end of the iteration the slot is the newcomer's.\<close>

lemma hello_admitted:
  assumes inv: "ctl_inv code sid s" and up: "\<not> hs_shutdown (hc_shared s)"
    and new: "sender_for_addr (hc_hs s) (ce_from ev) = None"
    and free: "position (\<lambda>e. e = None) (slots (hc_hs s)) = Some k"
    and ev: "ce_control ev = Hello PROTOCOL_VERSION code nm cm fm" "control_valid (ce_control ev)"
  shows "\<exists>s' d out ros sr fs cd sq. ctl_iteration (RecvOk ev) now us s = Some (s', Datagram (ce_from ev) d # out)
    \<and> length d \<le> 195
    \<and> parse_datagram d = Ok (\<lparr>ptype = PT_Welcome, session_id = sid, sender_id = HOST_SENDER_ID, hseq = sq\<rparr>,
        PControl (Welcome (sender_id_of k) (h_session_id (hc_hs s)) sr fs cd ros))
    \<and> awaits (ce_from ev) now k s' \<and> k < MAX_CLIENTS \<and> ctl_inv code sid s' \<and> \<not> hs_shutdown (hc_shared s')"
proof -
  let ?a = "ce_from ev"
  have h: "host_inv (hc_hs s)" "h_room_code (hc_hs s) = code" "hs_session_id (hc_shared s) = sid" "io_ok (hc_io s)"
    using inv by (simp_all add: ctl_inv_def)
  have k: "k < MAX_CLIENTS" using find_free [OF free] h(1) by (simp add: host_len)
  have heard: "ctl_heard ev now s = s" using new by (simp add: ctl_heard_def)
  from on_hello_newcomer [OF new free, of "ce_control ev" nm cm fm now] ev(1) h(2)
  obtain h' where h': "on_hello ?a (ce_control ev) now (hc_hs s)
      = (h', [HSend ?a (welcome_for h' k), ClientJoined (sender_id_of k) nm] @ broadcast_roster h' (Some ?a))"
    "slots h' = (slots (hc_hs s))[k := Some \<lparr>sl_addr = ?a, sl_name = nm, sl_state = Pending None now 1, sl_last_heard = now\<rparr>]"
    "h_session_id h' = h_session_id (hc_hs s)" by blast
  have ok: "ok_event (EHello ?a (ce_control ev) now)" using ev(2) by (simp add: ok_event_def)
  have inv': "host_inv h'" using host_step_inv [of "EHello ?a (ce_control ev) now", OF _ h(1)] ev(2) h'(1) by simp
  have "control_sendable (welcome_for h' k)"
    using host.step_out [OF ok h(1), of "HSend ?a (welcome_for h' k)"] h'(1) by (simp add: sendable_def)
  from io_send_ok [OF h(4) this, of sid HOST_SENDER_ID ?a] obtain io' d sq where
    io: "io_send (welcome_for h' k) sid HOST_SENDER_ID ?a (hc_io s) = Some (io', [Datagram ?a d], sq)"
    "length d \<le> 195" "parse_datagram d = Ok (\<lparr>ptype = PT_Welcome, session_id = sid, sender_id = HOST_SENDER_ID, hseq = sq\<rparr>,
       PControl (control_canon (welcome_for h' k)))" by (auto simp: welcome_for_def)
  have recv: "recv_ok (RecvOk ev)" using ev(2) by (simp add: recv_ok_def)
  from iteration_good [OF inv recv, of now us] obtain s' out where it: "ctl_iteration (RecvOk ev) now us s = Some (s', out)"
    and s': "ctl_inv code sid s'" by (auto simp: good_def)
  from iteration_parts [OF it up] obtain s1 o1 s2 o2 o3 where parts: "ctl_packet ev now s = Some (s1, o1)"
    "ctl_drive (ETick now) (feed_all s1) = Some (s2, o2)" "hc_hs s' = hc_hs s2" "hc_shared s' = hc_shared s2"
    "out = o1 @ o2 @ o3" by metis
  let ?s0 = "s\<lparr>hc_hs := welcome_sent ?a sq h', hc_io := io'\<rparr>"
  have "ctl_run ([HSend ?a (welcome_for h' k), ClientJoined (sender_id_of k) nm]
      @ broadcast_roster h' (Some ?a)) (s\<lparr>hc_hs := h'\<rparr>) = Some (s1, o1)"
    using parts(1) ev(1) heard h'(1) by (simp add: ctl_packet_def Let_def ctl_drive_def del: ctl_run.simps)
  moreover have "ctl_send ?a (welcome_for h' k) (s\<lparr>hc_hs := h'\<rparr>) = Some (?s0, [Datagram ?a d])"
    using io(1) h(3) by (simp add: ctl_send_def Let_def is_welcome_def welcome_for_def)
  ultimately obtain o11 s11 o12 where run: "ctl_joined (sender_id_of k) nm ?s0 = Some (s11, o11)"
    "ctl_run (broadcast_roster h' (Some ?a)) s11 = Some (s1, o12)" "o1 = Datagram ?a d # o11 @ o12"
    by (auto simp: ctl_run_Cons simp del: ctl_run.simps)
  have slot: "fresh_slot ?a now (slots h' ! k)" using h'(2) k h(1) by (simp add: fresh_slot_def host_len)
  have hs11: "hc_hs s11 = welcome_sent ?a sq h'"
    using run(1) by (auto simp: ctl_joined_def Let_def split: if_splits)
  have "last_rx_us (clients (hc_shared s11) ! k) = 0"
    using run(1) k h slot_ids [OF k] inv
    by (auto simp: ctl_joined_def Let_def upd_client_def ctl_inv_def shared_ok_def split: if_splits)
  then have "awaits ?a now k s11"
    using hs11 welcome_sent_inv [OF inv'] fresh_welcome_sent [OF inv' k slot] by (simp add: awaits_def)
  then have "awaits ?a now k s2"
    using awaits_run [OF run(2) _ k] awaits_feed [OF _ k] awaits_tick [OF parts(2) _ k] by blast
  then have "awaits ?a now k s'" by (simp add: awaits_def parts(3,4))
  moreover have "\<not> hs_shutdown (hc_shared s')"
    using up ctl_packet_shutdown [OF parts(1)] ctl_drive_shutdown [OF parts(2)] by (simp add: parts(4))
  ultimately show ?thesis using it io(2,3) k s' h'(3) by (auto simp: parts(5) run(3) welcome_for_def)
qed

section \<open>The host hears from the newcomer\<close>

lemma heard_slot:
  assumes "host_inv h" and "k < MAX_CLIENTS" and "slots h ! k = Some v"
  shows "sender_for_addr h (sl_addr v) = Some (sender_id_of k)"
    and "slots (mark_heard (sender_id_of k) now h) ! k = Some (v\<lparr>sl_last_heard := now, sl_state := Active\<rparr>)"
proof -
  have "slots_inv (slots h)" "k < length (slots h)" using assms by (simp_all add: host_inv_def slots_inv_def)
  then show "sender_for_addr h (sl_addr v) = Some (sender_id_of k)"
    using assms(3) position_addr_iff [of "slots h" "sl_addr v" k] by (simp add: sender_for_addr_def)
  have "slot_of_sender (sender_id_of k) = Some k" using assms(2) by (simp add: slot_of_sender_iff)
  then show "slots (mark_heard (sender_id_of k) now h) ! k = Some (v\<lparr>sl_last_heard := now, sl_state := Active\<rparr>)"
    using assms host_len [OF assms(1)] by (cases "sl_state v") (simp_all add: mark_heard_def Let_def)
qed

text \<open>Any control packet from the newcomer that is neither HELLO nor BYE makes its slot active: here
  the ACK of the WELCOME.\<close>

lemma ack_activates:
  assumes inv: "ctl_inv code sid s" and up: "\<not> hs_shutdown (hc_shared s)"
    and slot: "awaits (ce_from ev) t0 k s" and k: "k < MAX_CLIENTS"
    and ev: "ce_control ev = Ack acked ty"
  shows "\<exists>s' out v. ctl_iteration (RecvOk ev) now us s = Some (s', out)
    \<and> slots (hc_hs s') ! k = Some v \<and> sl_addr v = ce_from ev \<and> sl_state v = Active \<and> sl_last_heard v = now"
proof -
  from slot obtain v ws where v: "slots (hc_hs s) ! k = Some v" "sl_addr v = ce_from ev" "host_inv (hc_hs s)"
    "last_rx_us (clients (hc_shared s) ! k) = 0" by (auto simp: awaits_def fresh_slot_def)
  let ?v = "v\<lparr>sl_last_heard := now, sl_state := Active\<rparr>" and ?s = "ctl_heard ev now s"
  have "recv_ok (RecvOk ev)" by (simp add: recv_ok_def ev)
  from iteration_good [OF inv this, of now us] obtain s' out where it: "ctl_iteration (RecvOk ev) now us s = Some (s', out)"
    by (auto simp: good_def)
  from iteration_parts [OF it up] obtain s1 o1 s2 o2 where parts: "ctl_packet ev now s = Some (s1, o1)"
    "ctl_drive (ETick now) (feed_all s1) = Some (s2, o2)" "hc_hs s' = hc_hs s2" by metis
  have "slots (hc_hs ?s) ! k = Some ?v" "hc_shared ?s = hc_shared s"
    using heard_slot [OF v(3) k v(1)] v(2) by (simp_all add: ctl_heard_def)
  moreover have h: "host_inv (hc_hs ?s)" using ctl_heard_inv [OF inv] by (simp add: ctl_inv_def)
  moreover have s1: "hc_hs s1 = fst (on_ack (ce_from ev) acked now (hc_hs ?s))" "hc_shared s1 = hc_shared ?s"
    using parts(1) by (auto simp: ctl_packet_def ev Let_def ctl_drive_def case_prod_unfold on_ack_def)
  ultimately have slot1: "slots (hc_hs s1) ! k = Some ?v"
    using k v(2) by (simp add: on_ack_def Let_def host_len)
  have h1: "host_inv (hc_hs s1)" using host_step_inv [of "EAck (ce_from ev) acked now", OF _ h] s1(1) by simp
  have h2: "host_inv (hc_hs (feed_all s1))" and slot2: "slots (hc_hs (feed_all s1)) ! k = Some ?v"
    using feed_fold_nth [OF h1 _ _ k, of "[0..<MAX_CLIENTS]"] slot1 s1(2) v(4) \<open>hc_shared ?s = hc_shared s\<close> k
    by (simp_all add: feed_all_def fed_def)
  have "slots (fst (host_tick now (hc_hs (feed_all s1)))) ! k = Some ?v"
    using tick_slot [OF h2 k slot2, of now] by (simp add: gives_up_def)
  with parts(2) have "slots (hc_hs s2) ! k = Some ?v"
    using ctl_run_settled [of _ "(feed_all s1)\<lparr>hc_hs := fst (host_tick now (hc_hs (feed_all s1)))\<rparr>" s2 o2 k]
      host_step_inv [of "ETick now", OF _ h2] k
    by (auto simp: ctl_drive_def case_prod_unfold settled_def)
  then show ?thesis using it parts(3) v(2) by auto
qed

section \<open>Control packets pass the receive threads\<close>

lemma host_forwards:
  assumes "length d \<le> 195" and "parse_datagram d = Ok (h, PControl c)" and "packet_type_of c \<noteq> PT_Ping"
  shows "snd (rx_datagram rate frame now_us t3 src d (RxHost sh, rx))
    = [ToControl \<lparr>ce_from = src, ce_header = h, ce_control = c, ce_rx_us = now_us\<rparr>]"
proof -
  have "parse_datagram (take MAX_DATAGRAM d) = Ok (h, PControl c)" using assms(1,2) by (simp add: MAX_DATAGRAM_def)
  with assms(3) show ?thesis by (cases c) (simp_all add: rx_datagram_def rx_control_eq Let_def case_prod_unfold)
qed

lemma client_forwards:
  assumes "length d \<le> 195" and "parse_datagram d = Ok (h, PControl c)" and "packet_type_of c \<noteq> PT_Ping"
  shows "snd (rx_datagram rate frame now_us t3 hst d (RxClient sh hst, rx))
    = [ToControl \<lparr>ce_from = hst, ce_header = h, ce_control = c, ce_rx_us = now_us\<rparr>]"
proof -
  have "parse_datagram (take MAX_DATAGRAM d) = Ok (h, PControl c)" using assms(1,2) by (simp add: MAX_DATAGRAM_def)
  with assms(3) show ?thesis by (cases c) (simp_all add: rx_datagram_def rx_control_eq Let_def case_prod_unfold)
qed

section \<open>A client begins\<close>

lemma begins:
  assumes "cfg_ok cfg" and "cc_begin cfg now_a now0 csh = Some (c, sent)" and "\<not> joined csh"
  shows "\<exists>d h. sent = [Datagram (cg_host cfg) d] \<and> length d \<le> 195
    \<and> parse_datagram d = Ok (h, PControl (control_canon (cfg_hello cfg))) \<and> cc_inv cfg c
    \<and> cc_shared c = csh \<and> phase (cc_cs c) = Joining now0 1"
proof -
  have "io_ok (cc_io s) \<Longrightarrow> cc_rejoin cfg now0 s = Some (c, sent) \<Longrightarrow> cc_shared c = cc_shared s
      \<and> phase (cc_cs c) = Joining now0 1 \<and> (\<exists>d h. sent = [Datagram (cg_host cfg) d] \<and> length d \<le> 195
      \<and> parse_datagram d = Ok (h, PControl (control_canon (cfg_hello cfg))))" for s
    using cc_rejoin_some [OF assms(1), of s now0] by (auto simp: cc_out_ok_def)
  from this [OF _ assms(2) [unfolded cc_begin_def]] have "cc_shared c = csh" "phase (cc_cs c) = Joining now0 1"
    "\<exists>d h. sent = [Datagram (cg_host cfg) d] \<and> length d \<le> 195
      \<and> parse_datagram d = Ok (h, PControl (control_canon (cfg_hello cfg)))" by (simp_all add: io_new_ok)
  with begin_begun [OF assms(1,3,2)] show ?thesis by (auto simp: cc_begun_def)
qed

end
