(* ===== verification/Audio_Codec.thy ===== *)
theory Audio_Codec
  imports Wire_Types Complex_Main
begin

text \<open>
  The codec wrappers of \<open>crates/jam-audio/src/codec.rs\<close>. Opus is a library the code only calls: its
  constructors, encoder and decoder are the parameter \<open>lib\<close> of every definition, and so is
  the conversion between a sample and the bits of its \<open>f32\<close>, because samples are exact reals
  here. What the code relies on is \<open>media_ok\<close>. \<open>expect\<close> on a missing Opus state is a panic.
\<close>

section \<open>The library\<close>

text \<open>\<open>ml_enc\<close> takes the room in the output buffer and returns the bytes written, \<open>ml_dec\<close> takes the
  payload (empty for a lost packet) and the sample buffer and returns the buffer and the number
  of samples decoded; \<open>None\<close> is an error.\<close>

record ('e, 'd) media_lib =
  ml_enc_new :: "u32 \<Rightarrow> int \<Rightarrow> 'e option"
  ml_enc :: "'e \<Rightarrow> real list \<Rightarrow> nat \<Rightarrow> 'e \<times> u8 list option"
  ml_dec_new :: "u32 \<Rightarrow> 'd option"
  ml_dec :: "'d \<Rightarrow> u8 list \<Rightarrow> real list \<Rightarrow> 'd \<times> real list \<times> nat option"
  ml_bits :: "real \<Rightarrow> u32"
  ml_of_bits :: "u32 \<Rightarrow> real"

definition media_ok :: "('e, 'd) media_lib \<Rightarrow> bool" where
  "media_ok lib \<longleftrightarrow>
     (\<forall>e pcm room bs. snd (ml_enc lib e pcm room) = Some bs \<longrightarrow> length bs \<le> room)
   \<and> (\<forall>d bs buf. length (fst (snd (ml_dec lib d bs buf))) = length buf)"

datatype codec_error = OpusError | OutputTooSmall | BadPcmLength

section \<open>Encoder\<close>

record 'e audio_encoder =
  en_codec :: codec
  en_opus :: "'e option"

definition encoder_new :: "('e, 'd) media_lib \<Rightarrow> codec \<Rightarrow> u32 \<Rightarrow> int \<Rightarrow> 'e audio_encoder option" where
  "encoder_new lib c rate bitrate =
     (case c of
        Opus \<Rightarrow> map_option (\<lambda>e. \<lparr>en_codec = c, en_opus = Some e\<rparr>) (ml_enc_new lib rate bitrate)
      | _ \<Rightarrow> Some \<lparr>en_codec = c, en_opus = None\<rparr>)"

text \<open>\<open>(x.clamp(-1.0, 1.0) * i16::MAX as f32) as i16\<close>: the cast truncates towards zero.\<close>

definition trunc :: "real \<Rightarrow> int" where
  "trunc r = (if r < 0 then \<lceil>r\<rceil> else \<lfloor>r\<rfloor>)"

definition s16_of :: "real \<Rightarrow> int" where
  "s16_of x = trunc ((if x < - 1 then - 1 else if 1 < x then 1 else x) * 32767)"

definition le_bytes :: "nat \<Rightarrow> 'a::len word \<Rightarrow> u8 list" where
  "le_bytes n w = rev (be_bytes n w)"

text \<open>\<open>encode(pcm, out)\<close> with \<open>room = out.len()\<close>: the bytes written at the front of \<open>out\<close>.\<close>

definition encode :: "('e, 'd) media_lib \<Rightarrow> real list \<Rightarrow> nat \<Rightarrow> 'e audio_encoder
    \<Rightarrow> 'e audio_encoder \<times> (codec_error, u8 list) outcome" where
  "encode lib pcm room en =
     (case en_codec en of
        Opus \<Rightarrow>
          (case en_opus en of
             None \<Rightarrow> (en, Panic)
           | Some e \<Rightarrow>
               (case ml_enc lib e pcm room of
                  (e, None) \<Rightarrow> (en\<lparr>en_opus := Some e\<rparr>, Err OpusError)
                | (e, Some bs) \<Rightarrow> (en\<lparr>en_opus := Some e\<rparr>, Ok bs)))
      | PcmS16 \<Rightarrow>
          (en, if room < length pcm * 2 then Err OutputTooSmall
               else Ok (concat (map (\<lambda>x. le_bytes 2 (word_of_int (s16_of x) :: u16)) pcm)))
      | PcmF32 \<Rightarrow>
          (en, if room < length pcm * 4 then Err OutputTooSmall
               else Ok (concat (map (\<lambda>x. le_bytes 4 (ml_bits lib x)) pcm))))"

section \<open>Decoder\<close>

record 'd audio_decoder =
  de_codec :: codec
  de_opus :: "'d option"

definition decoder_new :: "('e, 'd) media_lib \<Rightarrow> codec \<Rightarrow> u32 \<Rightarrow> 'd audio_decoder option" where
  "decoder_new lib c rate =
     (case c of
        Opus \<Rightarrow> map_option (\<lambda>d. \<lparr>de_codec = c, de_opus = Some d\<rparr>) (ml_dec_new lib rate)
      | _ \<Rightarrow> Some \<lparr>de_codec = c, de_opus = None\<rparr>)"

text \<open>The chunks of a PCM payload.\<close>

fun s16_samples :: "u8 list \<Rightarrow> real list" where
  "s16_samples (a # b # bs) = real_of_int (sint (from_be_bytes [b, a] :: u16)) / 32767 # s16_samples bs"
| "s16_samples _ = []"

fun f32_samples :: "(u32 \<Rightarrow> real) \<Rightarrow> u8 list \<Rightarrow> real list" where
  "f32_samples of_bits (a # b # c # d # bs) = of_bits (from_be_bytes [d, c, b, a]) # f32_samples of_bits bs"
| "f32_samples of_bits _ = []"

text \<open>One PCM decode, for \<open>width\<close> bytes per sample: silence for a lost packet, an error and an
  untouched buffer for a payload of the wrong length.\<close>

definition decode_pcm :: "nat \<Rightarrow> (u8 list \<Rightarrow> real list) \<Rightarrow> u8 list option \<Rightarrow> real list
    \<Rightarrow> real list \<times> (codec_error, unit) outcome" where
  "decode_pcm width samples pl pcm =
     (case pl of
        None \<Rightarrow> (replicate (length pcm) 0, Ok ())
      | Some bs \<Rightarrow> if length bs \<noteq> length pcm * width then (pcm, Err BadPcmLength)
                   else (samples bs, Ok ()))"

definition decode :: "('e, 'd) media_lib \<Rightarrow> u8 list option \<Rightarrow> real list \<Rightarrow> 'd audio_decoder
    \<Rightarrow> 'd audio_decoder \<times> real list \<times> (codec_error, unit) outcome" where
  "decode lib pl pcm de =
     (case de_codec de of
        Opus \<Rightarrow>
          (case de_opus de of
             None \<Rightarrow> (de, pcm, Panic)
           | Some d \<Rightarrow>
               (case ml_dec lib d (case pl of None \<Rightarrow> [] | Some bs \<Rightarrow> bs) pcm of
                  (d, pcm, None) \<Rightarrow> (de\<lparr>de_opus := Some d\<rparr>, pcm, Err OpusError)
                | (d, pcm, Some n) \<Rightarrow>
                    (de\<lparr>de_opus := Some d\<rparr>, take n pcm @ replicate (length pcm - n) 0, Ok ())))
      | PcmS16 \<Rightarrow> (de, decode_pcm 2 s16_samples pl pcm)
      | PcmF32 \<Rightarrow> (de, decode_pcm 4 (f32_samples (ml_of_bits lib)) pl pcm))"

section \<open>PCM\<close>

lemma le_bytes_2: "\<exists>a b. le_bytes 2 (w :: u16) = [a, b] \<and> from_be_bytes [b, a] = w"
proof -
  have "length (be_bytes 2 w) = 2" by simp
  then obtain a b where ab: "be_bytes 2 w = [b, a]" by (auto simp: length_Suc_conv numeral_2_eq_2)
  moreover have "from_be_bytes (be_bytes 2 w) = w" by (rule from_be_bytes_be_bytes) simp
  ultimately show ?thesis by (simp add: le_bytes_def)
qed

lemma le_bytes_4: "\<exists>a b c d. le_bytes 4 (w :: u32) = [a, b, c, d] \<and> from_be_bytes [d, c, b, a] = w"
proof -
  have "length (be_bytes 4 w) = 4" by simp
  then obtain a b c d where "be_bytes 4 w = [d, c, b, a]"
    by (auto simp: length_Suc_conv numeral_eq_Suc)
  moreover have "from_be_bytes (be_bytes 4 w) = w" by (rule from_be_bytes_be_bytes) simp
  ultimately show ?thesis by (simp add: le_bytes_def)
qed

lemma s16_samples_bytes:
  "s16_samples (concat (map (\<lambda>x. le_bytes 2 (g x :: u16)) xs)) = map (\<lambda>x. real_of_int (sint (g x)) / 32767) xs"
proof (induction xs)
  case (Cons x xs)
  from le_bytes_2 [of "g x"] Cons show ?case by auto
qed simp

lemma f32_samples_bytes:
  "f32_samples h (concat (map (\<lambda>x. le_bytes 4 (g x)) xs)) = map (\<lambda>x. h (g x)) xs"
proof (induction xs)
  case (Cons x xs)
  from le_bytes_4 [of "g x"] Cons show ?case by auto
qed simp

lemma length_samples [simp]: "length (s16_samples bs) = length bs div 2" "length (f32_samples h bs) = length bs div 4"
proof -
  show "length (s16_samples bs) = length bs div 2" by (induction bs rule: s16_samples.induct) simp_all
  show "length (f32_samples h bs) = length bs div 4" by (induction h bs rule: f32_samples.induct) simp_all
qed

lemma length_concat_le: "length (concat (map (\<lambda>x. le_bytes n (g x)) xs)) = length xs * n"
  by (induction xs) (simp_all add: le_bytes_def)

definition clamp1 :: "real \<Rightarrow> real" where
  "clamp1 x = max (- 1) (min 1 x)"

lemma s16_of_close: "\<bar>real_of_int (s16_of x) - clamp1 x * 32767\<bar> < 1 \<and> \<bar>s16_of x\<bar> \<le> 32767"
proof -
  have e: "s16_of x = trunc (clamp1 x * 32767)" by (auto simp: s16_of_def clamp1_def)
  have b: "- 32767 \<le> clamp1 x * 32767" "clamp1 x * 32767 \<le> 32767" by (auto simp: clamp1_def)
  then show ?thesis unfolding e trunc_def by (auto simp: abs_le_iff) linarith+
qed

lemma sint_s16_of: "sint (word_of_int (s16_of x) :: u16) = s16_of x"
  using s16_of_close [of x] by (simp add: sint_sbintrunc' signed_take_bit_int_eq_self abs_le_iff)

text \<open>PCM survives the wire. A frame that fits is encoded in exactly two or four bytes a sample, and
  decoding these bytes into a buffer of the frame's length gives every sample back: with
  16 bits within one step of 1/32767 of the sample clipped to \<open>[-1, 1]\<close>, with \<open>f32\<close> exactly the
  value of the bits that were written. A frame that does not fit is an error.\<close>

theorem pcm_roundtrip:
  assumes "en_codec en = c" and "de_codec de = c" and "c = PcmS16 \<and> w = 2 \<or> c = PcmF32 \<and> w = 4"
    and "length buf = length pcm"
  shows "if room < length pcm * w then encode lib pcm room en = (en, Err OutputTooSmall)
    else \<exists>bs out. encode lib pcm room en = (en, Ok bs) \<and> length bs = length pcm * w
      \<and> decode lib (Some bs) buf de = (de, out, Ok ()) \<and> length out = length pcm
      \<and> (\<forall>i < length pcm. if c = PcmS16 then \<bar>out ! i - clamp1 (pcm ! i)\<bar> < 1 / 32767
           else out ! i = ml_of_bits lib (ml_bits lib (pcm ! i)))"
proof (cases "room < length pcm * w")
  case False
  show ?thesis
  proof (cases "c = PcmS16")
    case True
    have "\<bar>real_of_int (s16_of x) / 32767 - clamp1 x\<bar> < 1 / 32767" for x
      using s16_of_close [of x] by (auto simp: abs_less_iff field_simps)

    then show ?thesis
      using assms True False
      by (simp add: encode_def decode_def decode_pcm_def length_concat_le s16_samples_bytes sint_s16_of)
  next
    case n: False
    then show ?thesis
      using assms False
      by (simp add: encode_def decode_def decode_pcm_def length_concat_le f32_samples_bytes)
  qed
qed (use assms in \<open>auto simp: encode_def\<close>)

definition silent_lib :: "(unit, unit) media_lib" where
  "silent_lib = \<lparr>ml_enc_new = \<lambda>_ _. Some (), ml_enc = \<lambda>e pcm room. (e, if room = 0 then None else Some [0]),
     ml_dec_new = \<lambda>_. Some (), ml_dec = \<lambda>d bs buf. (d, replicate (length buf) 0, Some (length buf)),
     ml_bits = \<lambda>x. word_of_int \<lfloor>x\<rfloor>, ml_of_bits = \<lambda>w. real_of_int (sint w)\<rparr>"

lemma silent_lib_ok: "media_ok silent_lib"
  by (simp add: media_ok_def silent_lib_def)

lemma pcm_roundtrip_witness:
  "\<exists>bs out. encode silent_lib [1 / 2, - 3] 1024 \<lparr>en_codec = PcmS16, en_opus = None\<rparr>
       = (\<lparr>en_codec = PcmS16, en_opus = None\<rparr>, Ok bs)
     \<and> decode silent_lib (Some bs) [0, 0] \<lparr>de_codec = PcmS16, de_opus = None\<rparr>
       = (\<lparr>de_codec = PcmS16, de_opus = None\<rparr>, out, Ok ()) \<and> length out = 2"
  using pcm_roundtrip [of "\<lparr>en_codec = PcmS16, en_opus = None\<rparr>" PcmS16 "\<lparr>de_codec = PcmS16, de_opus = None\<rparr>" 2
      "[0, 0]" "[1 / 2, - 3]" 1024 silent_lib] by auto

section \<open>Decoding never fails badly\<close>

definition decoder_ok :: "'d audio_decoder \<Rightarrow> bool" where
  "decoder_ok de \<longleftrightarrow> (de_codec de = Opus \<longrightarrow> de_opus de \<noteq> None)"

definition encoder_ok :: "'e audio_encoder \<Rightarrow> bool" where
  "encoder_ok en \<longleftrightarrow> (en_codec en = Opus \<longrightarrow> en_opus en \<noteq> None)"

lemma decoder_new_ok: "decoder_new lib c rate = Some de \<Longrightarrow> decoder_ok de"
  by (auto simp: decoder_new_def decoder_ok_def split: codec.splits)

lemma encoder_new_ok: "encoder_new lib c rate bitrate = Some en \<Longrightarrow> encoder_ok en"
  by (auto simp: encoder_new_def encoder_ok_def split: codec.splits)

lemma decode_ok:
  assumes "media_ok lib" and "decoder_ok de" and "decode lib pl pcm de = (de', out, r)"
  shows "decoder_ok de' \<and> de_codec de' = de_codec de \<and> length out = length pcm \<and> r \<noteq> Panic"
proof (cases "de_codec de = Opus")
  case True
  then obtain d where d: "de_opus de = Some d" using assms(2) by (auto simp: decoder_ok_def)
  obtain d' buf n where r: "ml_dec lib d (case pl of None \<Rightarrow> [] | Some bs \<Rightarrow> bs) pcm = (d', buf, n)" by (metis prod_cases3)
  have "length buf = length pcm" using assms(1) r unfolding media_ok_def by (metis fst_conv snd_conv)
  with assms(3) True d r show ?thesis
    by (cases n) (auto simp: decode_def decoder_ok_def min_def)
next
  case False
  then show ?thesis
    using assms(3) by (cases "de_codec de")
      (auto simp: decode_def decode_pcm_def decoder_ok_def split: option.splits if_splits)
qed

lemma encode_ok:
  assumes "media_ok lib" and "encoder_ok en" and "encode lib pcm room en = (en', r)"
  shows "encoder_ok en' \<and> en_codec en' = en_codec en \<and> r \<noteq> Panic \<and> (\<forall>bs. r = Ok bs \<longrightarrow> length bs \<le> room)"
proof (cases "en_codec en = Opus")
  case True
  then obtain e where e: "en_opus en = Some e" using assms(2) by (auto simp: encoder_ok_def)
  obtain e' o' where r: "ml_enc lib e pcm room = (e', o')" by fastforce
  have "\<forall>bs. o' = Some bs \<longrightarrow> length bs \<le> room" using assms(1) r unfolding media_ok_def by (metis snd_conv)
  with assms(3) True e r show ?thesis
    by (cases o') (auto simp: encode_def encoder_ok_def)
next
  case False
  then show ?thesis using assms(3)
    by (cases "en_codec en") (auto simp: encode_def encoder_ok_def length_concat_le split: if_splits)
qed

text \<open>C39: no payload harms the decoder. A decoder that was constructed, and any it becomes, never
  panics and never changes the length of the sample buffer. A PCM decoder plays silence for a lost
  packet, and for a payload of the wrong length it reports an error and leaves the samples alone.\<close>

theorem decode_errors:
  assumes "media_ok lib" and "decoder_new lib c rate = Some de0"
    and "de = fold (\<lambda>(pl, buf) de. fst (decode lib pl buf de)) frames de0"
    and "decode lib pl pcm de = (de', out, r)"
  shows "length out = length pcm \<and> r \<noteq> Panic
    \<and> (c \<noteq> Opus \<longrightarrow>
         (r = Err BadPcmLength \<longleftrightarrow> (\<exists>bs. pl = Some bs \<and> length bs \<noteq> length pcm * (if c = PcmS16 then 2 else 4)))
       \<and> (r = Err BadPcmLength \<longrightarrow> out = pcm) \<and> (r \<noteq> Err BadPcmLength \<longrightarrow> r = Ok ())
       \<and> (pl = None \<longrightarrow> out = replicate (length pcm) 0))"
proof -
  have "decoder_ok d \<Longrightarrow> decoder_ok (fold (\<lambda>(pl, buf) de. fst (decode lib pl buf de)) frames d)
      \<and> de_codec (fold (\<lambda>(pl, buf) de. fst (decode lib pl buf de)) frames d) = de_codec d" for d
  proof (induction frames arbitrary: d)
    case (Cons f frames)
    obtain pl buf d' out r where f: "f = (pl, buf)" "decode lib pl buf d = (d', out, r)" by (metis prod_cases3 surj_pair)
    from decode_ok [OF assms(1) Cons.prems f(2)] Cons.IH [of d'] show ?case by (simp add: f)
  qed simp
  with decoder_new_ok [OF assms(2)] have ok: "decoder_ok de" "de_codec de = de_codec de0" by (simp_all add: assms(3))
  moreover have "de_codec de0 = c" using assms(2) by (auto simp: decoder_new_def split: codec.splits)
  ultimately have c: "de_codec de = c" by simp
  have "c \<noteq> Opus \<Longrightarrow> (out, r) = decode_pcm (if c = PcmS16 then 2 else 4)
      (if c = PcmS16 then s16_samples else f32_samples (ml_of_bits lib)) pl pcm"
    using assms(4) c by (cases c) (auto simp: decode_def)
  with decode_ok [OF assms(1) ok(1) assms(4)] show ?thesis
    by (cases pl) (auto simp: decode_pcm_def split: if_splits)
qed

lemma decode_errors_witness:
  "snd (snd (decode silent_lib (Some [1, 2, 3]) [5, 6] \<lparr>de_codec = PcmS16, de_opus = None\<rparr>)) = Err BadPcmLength"
  using decode_errors [OF silent_lib_ok, of PcmS16 48000 "\<lparr>de_codec = PcmS16, de_opus = None\<rparr>" _ "[]" "Some [1, 2, 3]" "[5, 6]"]
  by (simp add: decoder_new_def decode_def decode_pcm_def)

end
