(* ===== verification/Resampler.thy ===== *)
theory Resampler
  imports Complex_Main Jam_Prelude
begin

text \<open>
  Clock drift compensation, \<open>crates/jam-audio/src/resample.rs\<close>: the cubic Hermite resampler and
  the controller that steers its ratio. Samples, phases and ratios are exact reals. The inner
  loop of \<open>process\<close> is a partial function: \<open>None\<close> would be a loop that does not end.
\<close>

section \<open>The resampler\<close>

type_synonym history = "real \<times> real \<times> real \<times> real"

record resampler =
  rs_h :: history
  rs_phase :: real
  rs_ratio :: real
  rs_primed :: nat

definition resampler_new :: resampler where
  "resampler_new = \<lparr>rs_h = (0, 0, 0, 0), rs_phase = 0, rs_ratio = 1, rs_primed = 0\<rparr>"

definition f_clamp :: "real \<Rightarrow> real \<Rightarrow> real \<Rightarrow> real" where
  "f_clamp x lo hi = (if x < lo then lo else if hi < x then hi else x)"

definition set_ratio :: "real \<Rightarrow> resampler \<Rightarrow> resampler" where
  "set_ratio r s = s\<lparr>rs_ratio := f_clamp r (98 / 100) (102 / 100)\<rparr>"

definition interpolate :: "history \<Rightarrow> real \<Rightarrow> real" where
  "interpolate h t =
     (case h of (y0, y1, y2, y3) \<Rightarrow>
       let c0 = y1;
           c1 = 1 / 2 * (y2 - y0);
           c2 = y0 - 5 / 2 * y1 + 2 * y2 - 1 / 2 * y3;
           c3 = 1 / 2 * (y3 - y0) + 3 / 2 * (y1 - y2)
       in ((c3 * t + c2) * t + c1) * t + c0)"

text \<open>\<open>while self.phase < 1.0\<close>. \<open>out\<close> is the part of the output buffer written so far, of at most
  \<open>cap\<close> samples.\<close>

partial_function (option) emit_loop :: "real \<Rightarrow> nat \<Rightarrow> history \<Rightarrow> real \<Rightarrow> real list \<Rightarrow> (real \<times> real list) option" where
  "emit_loop step cap h phase out =
     (if phase < 1
      then emit_loop step cap h (phase + step) (if length out < cap then out @ [interpolate h phase] else out)
      else Some (phase, out))"

fun process_loop :: "real \<Rightarrow> nat \<Rightarrow> real list \<Rightarrow> resampler \<Rightarrow> real list \<Rightarrow> (resampler \<times> real list) option" where
  "process_loop step cap [] s out = Some (s, out)"
| "process_loop step cap (x # xs) s out =
     (case rs_h s of (_, h1, h2, h3) \<Rightarrow>
       let s = s\<lparr>rs_h := (h1, h2, h3, x)\<rparr> in
       if rs_primed s < 3 then process_loop step cap xs (s\<lparr>rs_primed := rs_primed s + 1\<rparr>) out
       else (case emit_loop step cap (rs_h s) (rs_phase s) out of
           None \<Rightarrow> None
         | Some (phase, out) \<Rightarrow> process_loop step cap xs (s\<lparr>rs_phase := phase - 1\<rparr>) out))"

text \<open>\<open>process(input, out)\<close> with \<open>cap = out.len()\<close>: the samples written, \<open>out[..produced]\<close>.\<close>

definition rs_process :: "real list \<Rightarrow> nat \<Rightarrow> resampler \<Rightarrow> (resampler \<times> real list) option" where
  "rs_process input cap s = process_loop (1 / rs_ratio s) cap input s []"

text \<open>What a stream does with its resampler: new ratios and blocks, in any order. The outputs of the blocks
  are put one after the other.\<close>

datatype rs_event = RsRatio real | RsBlock "real list" nat

fun rs_call :: "rs_event \<Rightarrow> resampler \<Rightarrow> (resampler \<times> real list) option" where
  "rs_call (RsRatio r) s = Some (set_ratio r s, [])"
| "rs_call (RsBlock xs cap) s = rs_process xs cap s"

fun rs_run :: "rs_event list \<Rightarrow> resampler \<Rightarrow> (resampler \<times> real list) option" where
  "rs_run [] s = Some (s, [])"
| "rs_run (c # cs) s = Option.bind (rs_call c s) (\<lambda>(s, out). map_option (\<lambda>(s, out'). (s, out @ out')) (rs_run cs s))"

section \<open>The drift controller\<close>

record drift_controller =
  dr_kp :: real
  dr_ki :: real
  dr_integral :: real
  dr_ppm :: real
  dr_slew :: real
  dr_max :: real

definition drift_new :: drift_controller where
  "drift_new = \<lparr>dr_kp = 450, dr_ki = 5 / 100, dr_integral = 0, dr_ppm = 0, dr_slew = 1 / 2, dr_max = 500\<rparr>"

definition drift_update :: "real \<Rightarrow> drift_controller \<Rightarrow> drift_controller \<times> real" where
  "drift_update err d =
     (let d = d\<lparr>dr_integral := f_clamp (dr_integral d + err * dr_ki d) (- dr_max d) (dr_max d)\<rparr>;
          want = - (err * dr_kp d + dr_integral d);
          want = f_clamp want (- dr_max d) (dr_max d);
          delta = f_clamp (want - dr_ppm d) (- dr_slew d) (dr_slew d);
          d = d\<lparr>dr_ppm := dr_ppm d + delta\<rparr>
      in (d, 1 + dr_ppm d * (1 / 1000000)))"

section \<open>The loops end\<close>

text \<open>\<open>k\<close> outputs, at the phases \<open>phase\<close>, \<open>phase + step\<close>, \<dots>, as far as there is room.\<close>

lemma emit_loop_steps:
  "\<lbrakk>\<forall>j < k. phase + real j * step < 1; 1 \<le> phase + real k * step\<rbrakk> \<Longrightarrow>
   emit_loop step cap h phase out = Some (phase + real k * step,
     out @ take (cap - length out) (map (\<lambda>j. interpolate h (phase + real j * step)) [0..<k]))"
proof (induction k arbitrary: phase out)
  case 0
  then show ?case by (simp add: emit_loop.simps)
next
  case (Suc k)
  let ?out = "if length out < cap then out @ [interpolate h phase] else out"
  have 0: "phase < 1" using Suc.prems(1) by force
  have "phase + step + real j * step < 1" if "j < k" for j
    using Suc.prems(1) that by (force simp: algebra_simps dest: spec [of _ "Suc j"])
  moreover have "1 \<le> phase + step + real k * step" using Suc.prems(2) by (simp add: algebra_simps)
  ultimately have "emit_loop step cap h (phase + step) ?out = Some (phase + step + real k * step,
     ?out @ take (cap - length ?out) (map (\<lambda>j. interpolate h (phase + step + real j * step)) [0..<k]))"
    using Suc.IH by blast
  moreover have "map (\<lambda>j. interpolate h (phase + real j * step)) [0..<Suc k]
     = interpolate h phase # map (\<lambda>j. interpolate h (phase + step + real j * step)) [0..<k]"
    by (simp add: upt_conv_Cons map_Suc_upt [symmetric] algebra_simps comp_def del: upt_Suc)
  ultimately show ?case
    using 0 by (subst emit_loop.simps) (simp add: take_Cons' algebra_simps Suc_diff_Suc)
qed

lemma emit_count:
  assumes "0 < step"
  shows "\<exists>k. (\<forall>j < k. phase + real j * step < 1) \<and> 1 \<le> phase + real k * step"
proof -
  define k where "k = (LEAST k. 1 \<le> phase + real k * step)"
  obtain n where "(1 - phase) / step < real n" using reals_Archimedean2 by blast
  then have "1 \<le> phase + real n * step" using assms by (simp add: field_simps)
  then have "1 \<le> phase + real k * step" unfolding k_def by (rule LeastI)
  moreover have "phase + real j * step < 1" if "j < k" for j
    using not_less_Least [of j "\<lambda>k. 1 \<le> phase + real k * step"] that by (simp add: k_def)
  ultimately show ?thesis by blast
qed

lemma emit_loop_returns:
  assumes "0 < step" and "0 \<le> phase" and "length out \<le> cap"
  shows "\<exists>k out'. emit_loop step cap h phase out = Some (phase + real k * step, out')
    \<and> length out' = min cap (length out + k) \<and> 1 \<le> phase + real k * step
    \<and> phase + real k * step - 1 \<le> max phase step"
proof -
  obtain k where k: "\<forall>j < k. phase + real j * step < 1" "1 \<le> phase + real k * step"
    using emit_count [OF assms(1)] by blast
  have "phase + real k * step - 1 \<le> max phase step"
  proof (cases k)
    case (Suc j)
    with k(1) have "phase + real j * step < 1" by blast
    then show ?thesis using Suc by (simp add: algebra_simps)
  qed (use assms(2) in simp)
  with emit_loop_steps [OF k, of cap h out] k(2) assms(3) show ?thesis by auto
qed

text \<open>The states a stream goes through.\<close>

definition rs_ok :: "resampler \<Rightarrow> bool" where
  "rs_ok s \<longleftrightarrow> 98 / 100 \<le> rs_ratio s \<and> rs_ratio s \<le> 102 / 100 \<and> 0 \<le> rs_phase s \<and> rs_phase s \<le> 100 / 98
     \<and> rs_primed s \<le> 3"

lemma rs_ok_new [simp]: "rs_ok resampler_new"
  by (simp add: rs_ok_def resampler_new_def)

lemma rs_ok_set_ratio [simp]: "rs_ok s \<Longrightarrow> rs_ok (set_ratio r s)"
  by (simp add: rs_ok_def set_ratio_def f_clamp_def)

lemma step_bounds: "rs_ok s \<Longrightarrow> 0 < 1 / rs_ratio s \<and> 1 / rs_ratio s \<le> 100 / 98"
  by (simp add: rs_ok_def field_simps)

text \<open>\<open>m\<close> steps are taken for the inputs that come after the first three: no sample of phase is lost.\<close>

lemma process_loop_returns:
  "\<lbrakk>rs_ok s; step = 1 / rs_ratio s; length out \<le> cap\<rbrakk> \<Longrightarrow>
   \<exists>s' out' m. process_loop step cap xs s out = Some (s', out') \<and> rs_ok s' \<and> rs_ratio s' = rs_ratio s
     \<and> rs_primed s' = min 3 (rs_primed s + length xs) \<and> length out' = min cap (length out + m)
     \<and> real m * step = rs_phase s' - rs_phase s + real (length xs - (3 - rs_primed s))"
proof (induction xs arbitrary: s out)
  case Nil
  then show ?case by (auto simp: rs_ok_def)
next
  case (Cons x xs)
  obtain h0 h1 h2 h3 where h: "rs_h s = (h0, h1, h2, h3)" by (cases "rs_h s")
  show ?case
  proof (cases "rs_primed s < 3")
    case True
    let ?s = "s\<lparr>rs_h := (h1, h2, h3, x), rs_primed := rs_primed s + 1\<rparr>"
    have "rs_ok ?s" using Cons.prems(1) True by (simp add: rs_ok_def)
    from Cons.IH [OF this _ Cons.prems(3)] Cons.prems(2) h True show ?thesis by (auto simp: Let_def min_def)
  next
    case False
    have p: "rs_primed s = 3" using False Cons.prems(1) by (simp add: rs_ok_def)
    have st: "0 < step" "step \<le> 100 / 98" using step_bounds [OF Cons.prems(1)] Cons.prems(2) by simp_all
    have ph: "0 \<le> rs_phase s" using Cons.prems(1) by (simp add: rs_ok_def)
    from emit_loop_returns [OF st(1) ph Cons.prems(3), of "(h1, h2, h3, x)"] obtain k out1 where
      e: "emit_loop step cap (h1, h2, h3, x) (rs_phase s) out = Some (rs_phase s + real k * step, out1)"
      "length out1 = min cap (length out + k)" "1 \<le> rs_phase s + real k * step"
      "rs_phase s + real k * step - 1 \<le> max (rs_phase s) step" by blast
    let ?s = "s\<lparr>rs_h := (h1, h2, h3, x), rs_phase := rs_phase s + real k * step - 1\<rparr>"
    have "rs_ok ?s" using Cons.prems(1) e(3,4) st(2) by (auto simp: rs_ok_def)
    from Cons.IH [of ?s out1, OF this] Cons.prems(2) e(2) obtain s' out' m where
      r: "process_loop step cap xs ?s out1 = Some (s', out')" "rs_ok s'" "rs_ratio s' = rs_ratio s"
      "rs_primed s' = min 3 (rs_primed s + length xs)" "length out' = min cap (length out1 + m)"
      "real m * step = rs_phase s' - (rs_phase s + real k * step - 1) + real (length xs - (3 - rs_primed s))" by auto
    have "process_loop step cap (x # xs) s out = Some (s', out')"
      using h p e(1) r(1) by (simp add: Let_def)
    moreover have "real (m + k) * step = rs_phase s' - rs_phase s + real (length (x # xs) - (3 - rs_primed s))"
      using r(6) p by (simp add: algebra_simps)
    moreover have "length out' = min cap (length out + (m + k))" using r(5) e(2) by auto
    ultimately show ?thesis using r(2-4) p by (intro exI [of _ s'] exI [of _ out'] exI [of _ "m + k"]) auto
  qed
qed

text \<open>A block's output has at most one sample more than the ratio times its length.\<close>

lemma rs_process_returns:
  assumes "rs_ok s" and "real (length xs) * rs_ratio s + 102 / 98 \<le> real cap"
  shows "\<exists>s' out. rs_process xs cap s = Some (s', out) \<and> rs_ok s' \<and> rs_ratio s' = rs_ratio s
    \<and> rs_primed s' = min 3 (rs_primed s + length xs)
    \<and> real (length out) = (rs_phase s' - rs_phase s + real (length xs - (3 - rs_primed s))) * rs_ratio s"
proof -
  have r: "0 < rs_ratio s" using assms(1) by (simp add: rs_ok_def)
  from process_loop_returns [OF assms(1) refl, of "[]" cap xs] obtain s' out m where
    p: "process_loop (1 / rs_ratio s) cap xs s [] = Some (s', out)" "rs_ok s'" "rs_ratio s' = rs_ratio s"
    "rs_primed s' = min 3 (rs_primed s + length xs)" "length out = min cap m"
    "real m * (1 / rs_ratio s) = rs_phase s' - rs_phase s + real (length xs - (3 - rs_primed s))" by auto
  have m: "real m = (rs_phase s' - rs_phase s + real (length xs - (3 - rs_primed s))) * rs_ratio s"
    using p(6) r by (simp add: field_simps)
  have "real (length xs - (3 - rs_primed s)) \<le> real (length xs)" by simp
  then have "rs_phase s' - rs_phase s + real (length xs - (3 - rs_primed s)) \<le> 100 / 98 + real (length xs)"
    using p(2) assms(1) unfolding rs_ok_def by linarith
  then have "real m \<le> (100 / 98 + real (length xs)) * rs_ratio s"
    unfolding m using r by (intro mult_right_mono) simp_all
  also have "\<dots> \<le> real cap" using assms by (simp add: algebra_simps rs_ok_def)
  finally have "length out = m" using p(5) by simp
  with p m show ?thesis unfolding rs_process_def by blast
qed

section \<open>What the resampler and its controller promise\<close>

text \<open>A block that its buffer has no room for loses outputs, but the call returns.\<close>

lemma rs_call_returns: "rs_ok s \<Longrightarrow> \<exists>s' out. rs_call c s = Some (s', out) \<and> rs_ok s'"
proof (cases c)
  case (RsBlock xs cap)
  assume "rs_ok s"
  from process_loop_returns [OF this refl, of "[]" cap xs] show ?thesis by (auto simp: RsBlock rs_process_def)
qed simp

lemma rs_run_returns: "rs_ok s \<Longrightarrow> \<exists>s' out. rs_run cs s = Some (s', out) \<and> rs_ok s'"
proof (induction cs arbitrary: s)
  case (Cons c cs)
  from rs_call_returns [OF Cons.prems, of c] obtain s1 o1 where 1: "rs_call c s = Some (s1, o1)" "rs_ok s1" by blast
  from Cons.IH [OF 1(2)] 1(1) show ?case by auto
qed simp

text \<open>The number of inputs of a run of blocks.\<close>

definition inputs :: "(real list \<times> nat) list \<Rightarrow> nat" where
  "inputs bs = sum_list (map (\<lambda>(xs, _). length xs) bs)"

text \<open>Over a run of blocks the fractional positions between the blocks cancel out.\<close>

lemma rs_blocks_return:
  "\<lbrakk>rs_ok s; \<forall>(xs, cap) \<in> set bs. real (length xs) * rs_ratio s + 102 / 98 \<le> real cap\<rbrakk> \<Longrightarrow>
   \<exists>s' out. rs_run (map (\<lambda>(xs, cap). RsBlock xs cap) bs) s = Some (s', out) \<and> rs_ok s' \<and> rs_ratio s' = rs_ratio s
     \<and> rs_primed s' = min 3 (rs_primed s + inputs bs)
     \<and> real (length out) = (rs_phase s' - rs_phase s + real (inputs bs - (3 - rs_primed s))) * rs_ratio s"
proof (induction bs arbitrary: s)
  case Nil
  then show ?case by (auto simp: inputs_def rs_ok_def)
next
  case (Cons b bs)
  obtain xs cap where b: "b = (xs, cap)" by fastforce
  from Cons.prems(2) b have "real (length xs) * rs_ratio s + 102 / 98 \<le> real cap" by simp
  from rs_process_returns [OF Cons.prems(1) this] obtain s1 o1 where 1: "rs_process xs cap s = Some (s1, o1)" "rs_ok s1"
    "rs_ratio s1 = rs_ratio s" "rs_primed s1 = min 3 (rs_primed s + length xs)"
    "real (length o1) = (rs_phase s1 - rs_phase s + real (length xs - (3 - rs_primed s))) * rs_ratio s" by blast
  from Cons.IH [OF 1(2)] Cons.prems(2) 1(3) obtain s' o2 where
    2: "rs_run (map (\<lambda>(xs, cap). RsBlock xs cap) bs) s1 = Some (s', o2)" "rs_ok s'" "rs_ratio s' = rs_ratio s"
    "rs_primed s' = min 3 (rs_primed s1 + inputs bs)"
    "real (length o2) = (rs_phase s' - rs_phase s1 + real (inputs bs - (3 - rs_primed s1))) * rs_ratio s" by auto
  have p: "rs_primed s \<le> 3" using Cons.prems(1) by (simp add: rs_ok_def)
  have n: "inputs (b # bs) = length xs + inputs bs" by (simp add: inputs_def b)
  have "inputs (b # bs) - (3 - rs_primed s) = (length xs - (3 - rs_primed s)) + (inputs bs - (3 - rs_primed s1))"
    using p 1(4) n by simp
  then have "real (inputs (b # bs) - (3 - rs_primed s))
      = real (length xs - (3 - rs_primed s)) + real (inputs bs - (3 - rs_primed s1))" by (simp only: of_nat_add)
  then have "real (length (o1 @ o2)) = (rs_phase s' - rs_phase s + real (inputs (b # bs) - (3 - rs_primed s))) * rs_ratio s"
    using 1(5) 2(5) by (simp add: algebra_simps)
  moreover have "rs_primed s' = min 3 (rs_primed s + inputs (b # bs))" using 1(4) 2(4) n by simp
  moreover have "rs_run (map (\<lambda>(xs, cap). RsBlock xs cap) (b # bs)) s = Some (s', o1 @ o2)" using 1(1) 2(1) b by simp
  ultimately show ?case using 2(2,3) by blast
qed

text \<open>C38: the resampler always returns and keeps pace. After every history of ratio changes and blocks, with or
  without room for their outputs, every run of blocks returns and leaves the ratio as it is. When the
  blocks have room for their outputs, the outputs of the whole run are the inputs that came
  after the first three, times the ratio, up to the change of the fractional position, which stays
  within one step of zero. So over any number of blocks at one ratio fewer than 1.05 samples
  are gained or lost.\<close>

theorem resampler_keeps_pace:
  "\<exists>s old. rs_run hist resampler_new = Some (s, old) \<and> 98 / 100 \<le> rs_ratio s \<and> rs_ratio s \<le> 102 / 100
    \<and> (\<exists>s' out. rs_run (map (\<lambda>(xs, cap). RsBlock xs cap) bs) s = Some (s', out)
      \<and> ((\<forall>(xs, cap) \<in> set bs. real (length xs) * rs_ratio s + 102 / 98 \<le> real cap) \<longrightarrow>
          rs_ratio s' = rs_ratio s \<and> rs_primed s' = min 3 (rs_primed s + inputs bs)
          \<and> 0 \<le> rs_phase s' \<and> rs_phase s' \<le> 100 / 98
          \<and> real (length out) = (real (inputs bs - (3 - rs_primed s)) + rs_phase s' - rs_phase s) * rs_ratio s
          \<and> \<bar>real (length out) - real (inputs bs - (3 - rs_primed s)) * rs_ratio s\<bar> < 105 / 100))"
proof -
  from rs_run_returns [OF rs_ok_new, of hist] obtain s old where s: "rs_run hist resampler_new = Some (s, old)" "rs_ok s"
    by blast
  let ?run = "rs_run (map (\<lambda>(xs, cap). RsBlock xs cap) bs) s" and ?n = "real (inputs bs - (3 - rs_primed s))"
  from rs_run_returns [OF s(2)] obtain s' out where run: "?run = Some (s', out)" by blast
  have ok: "rs_ratio s' = rs_ratio s \<and> rs_primed s' = min 3 (rs_primed s + inputs bs) \<and> 0 \<le> rs_phase s' \<and> rs_phase s' \<le> 100 / 98
      \<and> real (length out) = (?n + rs_phase s' - rs_phase s) * rs_ratio s
      \<and> \<bar>real (length out) - ?n * rs_ratio s\<bar> < 105 / 100"
    if room: "\<forall>(xs, cap) \<in> set bs. real (length xs) * rs_ratio s + 102 / 98 \<le> real cap"
  proof -
    from rs_blocks_return [OF s(2) room] run have r: "rs_ok s'" "rs_ratio s' = rs_ratio s"
      "rs_primed s' = min 3 (rs_primed s + inputs bs)"
      "real (length out) = (rs_phase s' - rs_phase s + ?n) * rs_ratio s" by auto
    have "\<bar>rs_phase s' - rs_phase s\<bar> \<le> 100 / 98" using s(2) r(1) unfolding rs_ok_def by linarith
    then have "\<bar>rs_phase s' - rs_phase s\<bar> * rs_ratio s \<le> 100 / 98 * (102 / 100)"
      using s(2) by (intro mult_mono) (simp_all add: rs_ok_def)
    then have "\<bar>(rs_phase s' - rs_phase s) * rs_ratio s\<bar> < 105 / 100"
      using s(2) by (simp add: abs_mult rs_ok_def)
    moreover have "real (length out) - ?n * rs_ratio s = (rs_phase s' - rs_phase s) * rs_ratio s"
      using r(4) by (simp add: algebra_simps)
    moreover have "real (length out) = (?n + rs_phase s' - rs_phase s) * rs_ratio s" using r(4) by (simp add: algebra_simps)
    ultimately show ?thesis using r(1-3) by (simp add: rs_ok_def)
  qed
  from s(2) have "98 / 100 \<le> rs_ratio s \<and> rs_ratio s \<le> 102 / 100" by (simp add: rs_ok_def)
  with s(1) run ok show ?thesis by blast
qed

lemma resampler_keeps_pace_witness:
  "\<exists>s old s' out. rs_run [RsRatio 2, RsBlock [0, 0] 0] resampler_new = Some (s, old) \<and> rs_primed s = 2
     \<and> rs_run [RsBlock (replicate 120 0) 248, RsBlock (replicate 81 0) 248] s = Some (s', out)
     \<and> \<bar>real (length out) - 200 * (102 / 100)\<bar> < 105 / 100"
proof -
  let ?hist = "[RsRatio 2, RsBlock [0, 0] 0]" and ?bs = "[(replicate 120 0, 248), (replicate 81 0, 248)] :: (real list \<times> nat) list"
  let ?s = "(set_ratio 2 resampler_new)\<lparr>rs_primed := 2\<rparr>"
  have h: "rs_run ?hist resampler_new = Some (?s, [])"
    by (simp add: rs_process_def resampler_new_def set_ratio_def f_clamp_def Let_def)
  have r: "rs_ratio ?s = 102 / 100" by (simp add: set_ratio_def f_clamp_def)
  have n: "inputs ?bs = 201" by (simp add: inputs_def)
  from resampler_keeps_pace [of ?hist ?bs] h r n obtain s' out where
    "rs_run (map (\<lambda>(xs, cap). RsBlock xs cap) ?bs) ?s = Some (s', out)" "\<bar>real (length out) - 200 * (102 / 100)\<bar> < 105 / 100"
    by (auto simp del: rs_run.simps)
  then have "rs_run [RsBlock (replicate 120 0) 248, RsBlock (replicate 81 0) 248] ?s = Some (s', out)"
    and "\<bar>real (length out) - 200 * (102 / 100)\<bar> < 105 / 100" by (simp_all only: list.map prod.case)
  moreover have "rs_primed ?s = 2" by simp
  ultimately show ?thesis using h by blast
qed

section \<open>Exactness\<close>

text \<open>A signal of degree two, sampled at the integers.\<close>

definition quad :: "real \<Rightarrow> real \<Rightarrow> real \<Rightarrow> real \<Rightarrow> real" where
  "quad a b c t = a * t * t + b * t + c"

lemma interpolate_quad:
  "interpolate (quad a b c (t - 1), quad a b c t, quad a b c (t + 1), quad a b c (t + 2)) u = quad a b c (t + u)"
  unfolding interpolate_def prod.case Let_def quad_def by (simp add: field_simps)

lemma process_loop_append:
  "process_loop step cap (xs @ ys) s out =
     Option.bind (process_loop step cap xs s out) (\<lambda>(s, out). process_loop step cap ys s out)"
  by (induction xs arbitrary: s out) (auto simp: Let_def split: prod.split option.split)

text \<open>The position in the signal after \<open>n\<close> inputs and \<open>k\<close> outputs.\<close>

definition tracks :: "(real \<Rightarrow> real) \<Rightarrow> real \<Rightarrow> nat \<Rightarrow> nat \<Rightarrow> resampler \<Rightarrow> real list \<Rightarrow> bool" where
  "tracks q step n k s out \<longleftrightarrow> rs_primed s = 3
     \<and> (\<exists>y. rs_h s = (y, q (real n - 3), q (real n - 2), q (real n - 1)))
     \<and> rs_phase s = real k * step - (real n - 3)
     \<and> (\<forall>j < k. real j * step < real n - 3) \<and> real n - 3 \<le> real k * step
     \<and> out = map (\<lambda>j. q (1 + real j * step)) [0..<k]"

lemma tracks_step:
  assumes t: "tracks (quad a b c) step n k s out" and st: "0 < step" and cap: "(real n - 2) / step + 1 \<le> real cap"
  shows "\<exists>s' k' out'. process_loop step cap [quad a b c (real n)] s out = Some (s', out')
    \<and> tracks (quad a b c) step (Suc n) k' s' out'"
proof -
  let ?q = "quad a b c"
  have p: "rs_primed s = 3" "rs_phase s = real k * step - (real n - 3)" "\<forall>j < k. real j * step < real n - 3"
    "real n - 3 \<le> real k * step" "out = map (\<lambda>j. ?q (1 + real j * step)) [0..<k]"
    and "\<exists>y. rs_h s = (y, ?q (real n - 3), ?q (real n - 2), ?q (real n - 1))"
    using t unfolding tracks_def by - (elim conjE, assumption)+
  then obtain y where h: "rs_h s = (y, ?q (real n - 3), ?q (real n - 2), ?q (real n - 1))" by blast
  let ?h = "(?q (real n - 3), ?q (real n - 2), ?q (real n - 1), ?q (real n))"
  obtain m where m: "\<forall>j < m. rs_phase s + real j * step < 1" "1 \<le> rs_phase s + real m * step"
    using emit_count [OF st] by blast
  have at: "interpolate ?h (rs_phase s + real j * step) = ?q (1 + real (k + j) * step)" for j
  proof -
    have "real n - 2 + (rs_phase s + real j * step) = 1 + real (k + j) * step"
      using p(2) by (simp add: algebra_simps)
    with interpolate_quad [of a b c "real n - 2" "rs_phase s + real j * step"] show ?thesis by simp
  qed
  have bound: "real j * step < real n - 2" if "j < k + m" for j
  proof (cases "j < k")
    case True
    with p(3) show ?thesis by force
  next
    case False
    then obtain i where i: "j = k + i" "i < m" using \<open>j < k + m\<close> by (metis add_less_cancel_left le_Suc_ex not_less)
    from m(1) i(2) have "rs_phase s + real i * step < 1" by blast
    then show ?thesis using p(2) by (simp add: i(1) algebra_simps)
  qed
  have room: "k + m \<le> cap"
  proof (cases "k + m")
    case (Suc j)
    then have "real j < (real n - 2) / step" using bound [of j] st by (simp add: pos_less_divide_eq)
    then have "real (k + m) < (real n - 2) / step + 1" by (simp add: Suc)
    then show ?thesis using cap by linarith
  qed simp
  have len: "length out = k" by (simp add: p(5))
  let ?new = "map (\<lambda>j. interpolate ?h (rs_phase s + real j * step)) [0..<m]"
  let ?out = "map (\<lambda>j. ?q (1 + real j * step)) [0..<k + m]"
  have upt: "[0..<k + m] = [0..<k] @ map (\<lambda>j. k + j) [0..<m]"
    using upt_add_eq_append [of 0 k m] map_add_upt [of k m] by (simp add: add.commute)
  have "?out = out @ ?new" unfolding upt map_append map_map comp_def at p(5) ..
  then have "emit_loop step cap ?h (rs_phase s) out = Some (rs_phase s + real m * step, ?out)"
    using emit_loop_steps [OF m, of cap ?h out] room by (simp add: len)
  then have "process_loop step cap [?q (real n)] s out
      = Some (s\<lparr>rs_h := ?h, rs_phase := rs_phase s + real m * step - 1\<rparr>, ?out)"
    using h p(1) by (simp add: Let_def)
  moreover have "tracks ?q step (Suc n) (k + m) (s\<lparr>rs_h := ?h, rs_phase := rs_phase s + real m * step - 1\<rparr>) ?out"
  proof -
    have "rs_phase s + real m * step - 1 = real (k + m) * step - (real (Suc n) - 3)"
      unfolding p(2) by (simp add: distrib_right)
    moreover from this m(2) have "real (Suc n) - 3 \<le> real (k + m) * step" by linarith
    moreover have "\<forall>j < k + m. real j * step < real (Suc n) - 3" using bound by force
    moreover have "real (Suc n) - 3 = real n - 2" "real (Suc n) - 2 = real n - 1" "real (Suc n) - 1 = real n" by simp_all
    ultimately show ?thesis using p(1) unfolding tracks_def by simp
  qed
  ultimately show ?thesis by blast
qed

lemma tracks_run:
  assumes st: "0 < step"
  shows "(real n + 1) / step + 1 \<le> real cap \<Longrightarrow>
    \<exists>s' k out. process_loop step cap (map (\<lambda>i. quad a b c (real i)) [0..<n + 3]) (set_ratio r resampler_new) [] = Some (s', out)
    \<and> tracks (quad a b c) step (n + 3) k s' out"
proof (induction n)
  case 0
  have "[0..<0 + 3 :: nat] = [0, 1, 2]" by (simp add: upt_rec)
  then show ?case
    by (auto simp: set_ratio_def resampler_new_def Let_def tracks_def intro!: exI [of _ 0])
next
  case (Suc n)
  have "(real n + 1) / step \<le> (real (Suc n) + 1) / step" using st by (intro divide_right_mono) simp_all
  with Suc obtain s k out where
    s: "process_loop step cap (map (\<lambda>i. quad a b c (real i)) [0..<n + 3]) (set_ratio r resampler_new) [] = Some (s, out)"
      "tracks (quad a b c) step (n + 3) k s out" by force
  have "(real (n + 3) - 2) / step + 1 \<le> real cap"
    using Suc.prems \<open>(real n + 1) / step \<le> _\<close> by (simp add: algebra_simps)
  from tracks_step [OF s(2) st this] obtain s' k' out' where
    "process_loop step cap [quad a b c (real (n + 3))] s out = Some (s', out')"
    "tracks (quad a b c) step (Suc n + 3) k' s' out'" by auto
  moreover have "[0..<Suc n + 3] = [0..<n + 3] @ [n + 3]" by (simp only: add_Suc upt_Suc_append le0)
  ultimately show ?case
    using s(1) by (auto simp: process_loop_append simp del: process_loop.simps upt_Suc)
qed

text \<open>The resampler is exact on every signal of degree two: fed with its samples at 0, 1, 2, \<dots> a
  new resampler returns its values at 1, 1 + 1/ratio, 1 + 2/ratio, \<dots>, all of those the samples
  so far determine (up to the last but one), with no sample dropped or repeated.\<close>

theorem resampler_exact_on_quadratics:
  assumes "98 / 100 \<le> r" and "r \<le> 102 / 100" and "3 \<le> n" and "real n * r + 1 \<le> real cap"
  shows "\<exists>s' out. rs_process (map (\<lambda>i. quad a b c (real i)) [0..<n]) cap (set_ratio r resampler_new) = Some (s', out)
    \<and> (\<forall>j < length out. out ! j = quad a b c (1 + real j / r) \<and> real j / r < real n - 3)
    \<and> real n - 3 \<le> real (length out) / r"
proof -
  have ratio: "rs_ratio (set_ratio r resampler_new) = r" using assms(1,2) by (simp add: set_ratio_def f_clamp_def)
  have r: "0 < r" using assms(1) by linarith
  have "(real (n - 3) + 1) / (1 / r) + 1 \<le> real cap"
  proof -
    have "(real (n - 3) + 1) * r \<le> real n * r" using assms(3) r by (intro mult_right_mono) simp_all
    with assms(4) show ?thesis by simp
  qed
  from tracks_run [OF _ this, of a b c r] r assms(3) obtain s' k out where
    "process_loop (1 / r) cap (map (\<lambda>i. quad a b c (real i)) [0..<n]) (set_ratio r resampler_new) [] = Some (s', out)"
    "tracks (quad a b c) (1 / r) n k s' out" by auto
  then show ?thesis by (auto simp: rs_process_def ratio tracks_def)
qed

lemma resampler_exact_on_quadratics_witness:
  "\<exists>s' out. rs_process (map (\<lambda>i. quad 1 0 0 (real i)) [0..<12]) 20 (set_ratio 1 resampler_new) = Some (s', out)
     \<and> 9 \<le> length out \<and> out ! 8 = 81"
proof -
  from resampler_exact_on_quadratics [of 1 12 20 1 0 0] obtain s' out where
    r: "rs_process (map (\<lambda>i. quad 1 0 0 (real i)) [0..<12]) 20 (set_ratio 1 resampler_new) = Some (s', out)"
    "\<forall>j < length out. out ! j = quad 1 0 0 (1 + real j / 1)" "9 \<le> length out" by auto
  then have "out ! 8 = 81" by (simp add: quad_def)
  with r show ?thesis by blast
qed

section \<open>The controller\<close>

definition drift_ok :: "drift_controller \<Rightarrow> bool" where
  "drift_ok d \<longleftrightarrow> dr_kp d = 450 \<and> dr_ki d = 5 / 100 \<and> dr_slew d = 1 / 2 \<and> dr_max d = 500
     \<and> \<bar>dr_integral d\<bar> \<le> 500 \<and> \<bar>dr_ppm d\<bar> \<le> 500"

lemma drift_ok_new [simp]: "drift_ok drift_new"
  by (simp add: drift_ok_def drift_new_def)

lemma f_clamp_abs: "0 \<le> m \<Longrightarrow> \<bar>f_clamp x (- m) m\<bar> \<le> m"
  by (auto simp: f_clamp_def)

text \<open>A limited step towards \<open>w\<close> does not overshoot.\<close>

lemma f_clamp_towards:
  "0 \<le> m \<Longrightarrow> min p w \<le> p + f_clamp (w - p) (- m) m \<and> p + f_clamp (w - p) (- m) m \<le> max p w"
  by (auto simp: f_clamp_def)

lemma drift_update_ok:
  assumes "drift_ok d" and "drift_update err d = (d', ratio)"
  shows "drift_ok d' \<and> \<bar>dr_ppm d' - dr_ppm d\<bar> \<le> 1 / 2 \<and> ratio = 1 + dr_ppm d' / 1000000"
proof -
  let ?i = "f_clamp (dr_integral d + err * dr_ki d) (- dr_max d) (dr_max d)"
  let ?w = "f_clamp (- (err * dr_kp d + ?i)) (- dr_max d) (dr_max d)"
  let ?x = "f_clamp (?w - dr_ppm d) (- dr_slew d) (dr_slew d)"
  have c: "dr_max d = 500" "dr_slew d = 1 / 2" "\<bar>dr_ppm d\<bar> \<le> 500" using assms(1) by (simp_all add: drift_ok_def)
  have d': "dr_integral d' = ?i" "dr_ppm d' = dr_ppm d + ?x" "ratio = 1 + dr_ppm d' / 1000000"
    "dr_kp d' = dr_kp d" "dr_ki d' = dr_ki d" "dr_slew d' = dr_slew d" "dr_max d' = dr_max d"
    using assms(2) by (auto simp: drift_update_def Let_def)
  have "\<bar>?i\<bar> \<le> 500" "\<bar>?w\<bar> \<le> 500" using f_clamp_abs [of "dr_max d"] c(1) by simp_all
  moreover have "\<bar>?x\<bar> \<le> 1 / 2" using f_clamp_abs [of "dr_slew d" "?w - dr_ppm d"] c(2) by linarith
  moreover have "\<bar>dr_ppm d + ?x\<bar> \<le> 500"
    using f_clamp_towards [of "dr_slew d" "dr_ppm d" ?w] c \<open>\<bar>?w\<bar> \<le> 500\<close> by linarith
  ultimately show ?thesis using assms(1) by (simp add: drift_ok_def d')
qed

text \<open>The drift correction is inaudible by construction: over every sequence of depth errors, of
  whatever size, the correction stays within 500 ppm, so the resampler's own limits never
  bite, and from one frame to the next it moves by at most half a ppm.\<close>

theorem drift_correction_bounds:
  assumes "d = fold (\<lambda>err d. fst (drift_update err d)) errs drift_new" and "drift_update err d = (d', ratio)"
  shows "\<bar>dr_ppm d'\<bar> \<le> 500 \<and> \<bar>dr_ppm d' - dr_ppm d\<bar> \<le> 1 / 2 \<and> \<bar>ratio - 1\<bar> \<le> 5 / 10000
    \<and> rs_ratio (set_ratio ratio s) = ratio"
proof -
  have "drift_ok d0 \<Longrightarrow> drift_ok (fold (\<lambda>err d. fst (drift_update err d)) errs d0)" for d0
    by (induction errs arbitrary: d0) (simp_all add: drift_update_ok [THEN conjunct1, OF _ surjective_pairing])
  then have "drift_ok d" by (simp add: assms(1))
  from drift_update_ok [OF this assms(2)] have d': "drift_ok d'" "\<bar>dr_ppm d' - dr_ppm d\<bar> \<le> 1 / 2"
    "ratio = 1 + dr_ppm d' / 1000000" by blast+
  then have ppm: "\<bar>dr_ppm d'\<bar> \<le> 500" by (simp add: drift_ok_def)
  then have "\<bar>ratio - 1\<bar> \<le> 5 / 10000" by (simp add: d'(3))
  moreover have "\<not> ratio < 98 / 100" "\<not> 102 / 100 < ratio" using \<open>\<bar>ratio - 1\<bar> \<le> _\<close> by linarith+
  then have "rs_ratio (set_ratio ratio s) = ratio" unfolding set_ratio_def f_clamp_def by simp
  ultimately show ?thesis using ppm d'(2) by blast
qed

lemma drift_correction_bounds_witness: "\<bar>dr_ppm (fst (drift_update 4 (fst (drift_update 3 drift_new))))\<bar> \<le> 500"
  using drift_correction_bounds [OF refl surjective_pairing, of 4 "[3]" resampler_new] by simp

end
