(* ===== verification/Sample_Fifo.thy ===== *)
theory Sample_Fifo
  imports Jam_Prelude
begin

text \<open>
  \<open>SampleFifo\<close> of \<open>crates/jam-audio/src/accum.rs\<close>: a ring of samples between hardware blocks
  and codec frames. A slice or a copy out of range is \<open>None\<close>. The abstract FIFO is the list of
  its samples, oldest first, that keeps the newest \<open>capacity\<close> ones. Samples are only moved, so
  their type is left open.
\<close>

record 'a sample_fifo =
  sf_buf :: "'a list"
  sf_head :: nat
  sf_len :: nat

definition fifo_new :: "nat \<Rightarrow> 'a::zero sample_fifo" where
  "fifo_new capacity = \<lparr>sf_buf = replicate capacity 0, sf_head = 0, sf_len = 0\<rparr>"

definition fifo_is_empty :: "'a sample_fifo \<Rightarrow> bool" where
  "fifo_is_empty f \<longleftrightarrow> sf_len f = 0"

definition fifo_capacity :: "'a sample_fifo \<Rightarrow> nat" where
  "fifo_capacity f = length (sf_buf f)"

definition fifo_push :: "'a list \<Rightarrow> 'a sample_fifo \<Rightarrow> ('a sample_fifo \<times> nat) option" where
  "fifo_push samples f =
     (let cap = length (sf_buf f) in
      if cap \<le> length samples then
        Some (f\<lparr>sf_head := 0, sf_len := cap, sf_buf := drop (length samples - cap) samples\<rparr>,
              sf_len f + length samples - cap)
      else
        let overflow = sf_len f + length samples - cap;
            f1 = (if 0 < overflow
                  then f\<lparr>sf_head := (sf_head f + overflow) mod cap, sf_len := sf_len f - overflow\<rparr>
                  else f);
            tail = (sf_head f1 + sf_len f1) mod cap;
            first = min (cap - tail) (length samples);
            rest = length samples - first
        in Option.bind (copy_at tail (take first samples) (sf_buf f1)) (\<lambda>b1.
           Option.bind (if 0 < rest then copy_at 0 (drop first samples) b1 else Some b1) (\<lambda>b2.
           Some (f1\<lparr>sf_buf := b2, sf_len := sf_len f1 + length samples\<rparr>, overflow))))"

text \<open>\<open>pop(out)\<close> with \<open>n = out.len()\<close>: the samples written into \<open>out\<close>, or \<open>None\<close> inside when
  there are too few and \<open>out\<close> is left alone.\<close>

definition fifo_pop :: "nat \<Rightarrow> 'a sample_fifo \<Rightarrow> ('a sample_fifo \<times> 'a list option) option" where
  "fifo_pop n f =
     (if sf_len f < n then Some (f, None)
      else
        let cap = length (sf_buf f);
            first = min (cap - sf_head f) n;
            rest = n - first
        in if length (sf_buf f) < sf_head f + first \<or> length (sf_buf f) < rest \<or> cap = 0 then None
           else Some (f\<lparr>sf_head := (sf_head f + n) mod cap, sf_len := sf_len f - n\<rparr>,
                  Some (take first (drop (sf_head f) (sf_buf f))
                        @ (if 0 < rest then take rest (sf_buf f) else []))))"

section \<open>The list the ring holds\<close>

definition fifo_wf :: "'a sample_fifo \<Rightarrow> bool" where
  "fifo_wf f \<longleftrightarrow> 0 < length (sf_buf f) \<and> sf_head f < length (sf_buf f) \<and> sf_len f \<le> length (sf_buf f)"

definition ring_at :: "'a list \<Rightarrow> nat \<Rightarrow> nat \<Rightarrow> 'a" where
  "ring_at buf h i = buf ! ((h + i) mod length buf)"

definition fifo_list :: "'a sample_fifo \<Rightarrow> 'a list" where
  "fifo_list f = map (ring_at (sf_buf f) (sf_head f)) [0..<sf_len f]"

definition keep_newest :: "nat \<Rightarrow> 'a list \<Rightarrow> 'a list" where
  "keep_newest cap xs = drop (length xs - cap) xs"

lemma length_fifo_list [simp]: "length (fifo_list f) = sf_len f"
  by (simp add: fifo_list_def)

lemma ring_mod:
  "\<lbrakk>h < c; i \<le> c\<rbrakk> \<Longrightarrow> (h + i) mod c = (if h + i < c then h + i else h + i - c)" for h i c :: nat
  by (auto simp: mod_if)

lemma ring_at_shift: "ring_at buf ((h + k) mod length buf) i = ring_at buf h (k + i)"
  by (simp add: ring_at_def add.assoc mod_add_left_eq)

text \<open>Writing a block at the tail, in one piece or in two around the end.\<close>

lemma ring_write:
  assumes "t < length buf" and "length xs < length buf" and "first = min (length buf - t) (length xs)"
  shows "\<exists>b1 b2. copy_at t (take first xs) buf = Some b1
    \<and> (if 0 < length xs - first then copy_at 0 (drop first xs) b1 else Some b1) = Some b2
    \<and> length b2 = length buf
    \<and> (\<forall>i < length xs. ring_at b2 t i = xs ! i)
    \<and> (\<forall>i. length xs \<le> i \<and> i < length buf \<longrightarrow> ring_at b2 t i = ring_at buf t i)"
proof -
  define b1 where "b1 = take t buf @ take first xs @ drop (t + first) buf"
  let ?b2 = "if 0 < length xs - first then drop first xs @ drop (length xs - first) b1 else b1"
  have f: "first \<le> length xs" "t + first \<le> length buf" using assms by auto
  have c1: "copy_at t (take first xs) buf = Some b1" using f by (simp add: b1_def copy_at_def min_def)
  have l1: "length b1 = length buf" using f assms(1) by (simp add: b1_def)
  have c2: "(if 0 < length xs - first then copy_at 0 (drop first xs) b1 else Some b1) = Some ?b2"
    using l1 assms(2) by (simp add: copy_at_fits)
  have l2: "length ?b2 = length buf" using l1 assms(2) by auto
  have n1: "b1 ! j = (if t \<le> j \<and> j < t + first then xs ! (j - t) else buf ! j)" if "j < length buf" for j
    using that f assms(1) by (auto simp: b1_def nth_append min_def)
  have n2: "?b2 ! j = (if j < length xs - first then xs ! (first + j) else b1 ! j)" if "j < length buf" for j
    using that l1 f assms(2) by (auto simp: nth_append)
  have at: "ring_at ?b2 t i = (if i < length xs then xs ! i else ring_at buf t i)" if "i < length buf" for i
  proof -
    define j where "j = (t + i) mod length buf"
    have j: "j = (if t + i < length buf then t + i else t + i - length buf)"
      unfolding j_def using assms(1) that by (intro ring_mod) auto
    have lt: "j < length buf" unfolding j_def using assms(1) by (intro mod_less_divisor) auto
    have "ring_at ?b2 t i = ?b2 ! j" by (simp only: ring_at_def l2 j_def)
    also have "\<dots> = (if j < length xs - first then xs ! (first + j)
        else if t \<le> j \<and> j < t + first then xs ! (j - t) else buf ! j)"
      by (simp only: n2 [OF lt] n1 [OF lt])
    also have "\<dots> = (if i < length xs then xs ! i else buf ! j)"
    proof (cases "t + i < length buf")
      case True
      with assms that f j show ?thesis by (auto simp: min_def split: if_splits)
    next
      case False
      with j have "first + j = i" if "first = length buf - t" using that \<open>i < length buf\<close> assms(1) by simp
      with False assms that f j show ?thesis by (auto simp: min_def split: if_splits)
    qed
    finally show ?thesis by (simp add: ring_at_def j_def)
  qed
  with c1 c2 l2 assms(2) show ?thesis by (intro exI [of _ b1] exI [of _ ?b2]) auto
qed

lemma ring_at_zero: "i < length buf \<Longrightarrow> ring_at buf 0 i = buf ! i"
  by (simp add: ring_at_def)

text \<open>Dropping the oldest samples moves the head.\<close>

lemma fifo_list_drop:
  "n \<le> sf_len f \<Longrightarrow>
   fifo_list (f\<lparr>sf_head := (sf_head f + n) mod length (sf_buf f), sf_len := sf_len f - n\<rparr>) = drop n (fifo_list f)"
  by (rule nth_equalityI) (auto simp: fifo_list_def ring_at_shift)

definition push_room :: "nat \<Rightarrow> 'a sample_fifo \<Rightarrow> 'a sample_fifo" where
  "push_room n f =
     (let cap = length (sf_buf f); overflow = sf_len f + n - cap
      in if 0 < overflow then f\<lparr>sf_head := (sf_head f + overflow) mod cap, sf_len := sf_len f - overflow\<rparr> else f)"

lemma push_room_spec:
  assumes "fifo_wf f" and "n < length (sf_buf f)"
  shows "fifo_wf (push_room n f) \<and> sf_buf (push_room n f) = sf_buf f
    \<and> sf_len (push_room n f) + n \<le> length (sf_buf f)
    \<and> fifo_list (push_room n f) = drop (sf_len f + n - length (sf_buf f)) (fifo_list f)"
  using assms fifo_list_drop [of "sf_len f + n - length (sf_buf f)" f]
  by (auto simp: push_room_def Let_def fifo_wf_def)

text \<open>A block written at the tail is appended to what the ring holds.\<close>

lemma fifo_list_written:
  assumes fits: "sf_len g + length xs \<le> length (sf_buf g)" and len: "length b = length (sf_buf g)"
    and t: "t = (sf_head g + sf_len g) mod length (sf_buf g)"
    and new: "\<forall>i < length xs. ring_at b t i = xs ! i"
    and old: "\<forall>i. length xs \<le> i \<and> i < length (sf_buf g) \<longrightarrow> ring_at b t i = ring_at (sf_buf g) t i"
  shows "fifo_list (g\<lparr>sf_buf := b, sf_len := sf_len g + length xs\<rparr>) = fifo_list g @ xs" (is "fifo_list ?f = _")
proof (rule nth_equalityI)
  fix i
  assume "i < length (fifo_list ?f)"
  then have i: "i < sf_len g + length xs" by simp
  show "fifo_list ?f ! i = (fifo_list g @ xs) ! i"
  proof (cases "i < sf_len g")
    case True
    let ?k = "length b - sf_len g + i"
    have "(t + ?k) mod length b = (sf_head g + sf_len g + ?k) mod length b"
      unfolding t len by (rule mod_add_left_eq)
    also have "sf_head g + sf_len g + ?k = sf_head g + i + length b" using fits len by simp
    finally have eq: "(sf_head g + i) mod length b = (t + ?k) mod length b" by simp
    have "ring_at b t ?k = ring_at (sf_buf g) t ?k"
      by (rule old [rule_format]) (use fits len True in arith)
    with True i eq len show ?thesis by (simp add: fifo_list_def nth_append ring_at_def)
  next
    case False
    with i new ring_at_shift [of b "sf_head g" "sf_len g" "i - sf_len g"] t len show ?thesis
      by (simp add: fifo_list_def nth_append)
  qed
qed simp

text \<open>A block as long as the ring replaces all it holds.\<close>

lemma fifo_push_whole:
  assumes wf: "fifo_wf f" and wide: "length (sf_buf f) \<le> length xs"
  shows "\<exists>f'. fifo_push xs f = Some (f', length (fifo_list f @ xs) - fifo_capacity f)
    \<and> fifo_wf f' \<and> fifo_capacity f' = fifo_capacity f
    \<and> fifo_list f' = keep_newest (fifo_capacity f) (fifo_list f @ xs)"
proof -
  let ?cap = "length (sf_buf f)"
  let ?f = "f\<lparr>sf_head := 0, sf_len := ?cap, sf_buf := drop (length xs - ?cap) xs\<rparr>"
  have "fifo_list ?f = drop (length xs - ?cap) xs"
    using wide by (intro nth_equalityI) (auto simp: fifo_list_def ring_at_zero)
  moreover have "drop (sf_len f + length xs - ?cap) (fifo_list f @ xs) = drop (length xs - ?cap) xs"
    using wide by simp
  moreover have "fifo_push xs f = Some (?f, sf_len f + length xs - ?cap)"
    using wide by (simp add: fifo_push_def Let_def)
  moreover have "fifo_wf ?f" "length (sf_buf ?f) = ?cap" using wide wf by (auto simp: fifo_wf_def)
  ultimately show ?thesis by (intro exI [of _ ?f]) (simp add: keep_newest_def fifo_capacity_def)
qed

lemma fifo_push_spec:
  assumes wf: "fifo_wf f"
  shows "\<exists>f'. fifo_push xs f = Some (f', length (fifo_list f @ xs) - fifo_capacity f)
    \<and> fifo_wf f' \<and> fifo_capacity f' = fifo_capacity f
    \<and> fifo_list f' = keep_newest (fifo_capacity f) (fifo_list f @ xs)"
proof (cases "length (sf_buf f) \<le> length xs")
  case True
  with wf show ?thesis by (rule fifo_push_whole)
next
  case False
  let ?cap = "length (sf_buf f)" and ?f1 = "push_room (length xs) f"
  let ?t = "(sf_head ?f1 + sf_len ?f1) mod ?cap"
  from wf False have cap: "0 < ?cap" "length xs < ?cap" by (auto simp: fifo_wf_def)
  then have t: "?t < ?cap" by simp
  obtain b1 b2 where w: "copy_at ?t (take (min (?cap - ?t) (length xs)) xs) (sf_buf f) = Some b1"
    "(if 0 < length xs - min (?cap - ?t) (length xs)
      then copy_at 0 (drop (min (?cap - ?t) (length xs)) xs) b1 else Some b1) = Some b2"
    "length b2 = ?cap" "\<forall>i < length xs. ring_at b2 ?t i = xs ! i"
    "\<forall>i. length xs \<le> i \<and> i < ?cap \<longrightarrow> ring_at b2 ?t i = ring_at (sf_buf f) ?t i"
    using ring_write [OF t cap(2) refl] by blast
  let ?f = "?f1\<lparr>sf_buf := b2, sf_len := sf_len ?f1 + length xs\<rparr>"
  have f1: "sf_buf ?f1 = sf_buf f" "sf_len ?f1 + length xs \<le> ?cap" "fifo_wf ?f1"
    "fifo_list ?f1 = drop (sf_len f + length xs - ?cap) (fifo_list f)"
    using push_room_spec [OF wf, of "length xs"] cap by auto
  have pr: "push_room (length xs) f = (if 0 < sf_len f + length xs - ?cap
      then f\<lparr>sf_head := (sf_head f + (sf_len f + length xs - ?cap)) mod ?cap,
             sf_len := sf_len f - (sf_len f + length xs - ?cap)\<rparr> else f)"
    by (simp only: push_room_def Let_def)
  have push: "fifo_push xs f = Some (?f, sf_len f + length xs - ?cap)"
    unfolding fifo_push_def Let_def if_not_P [OF False] pr [symmetric] f1(1) w(1) bind.simps(2) w(2)
    by (rule refl)
  have "fifo_list ?f = fifo_list ?f1 @ xs"
    by (rule fifo_list_written [where t = ?t]) (use f1(1,2) w(3-5) in simp_all)
  moreover have "sf_len f + length xs - ?cap \<le> sf_len f" using cap by simp
  ultimately have "fifo_list ?f = keep_newest ?cap (fifo_list f @ xs)"
    by (simp add: f1(4) keep_newest_def)
  moreover have "fifo_wf ?f" using f1 w(3) by (simp add: fifo_wf_def)
  ultimately show ?thesis using push w(3) by (simp add: fifo_capacity_def)
qed

lemma fifo_pop_spec:
  assumes wf: "fifo_wf f"
  shows "if n \<le> sf_len f
    then \<exists>f'. fifo_pop n f = Some (f', Some (take n (fifo_list f))) \<and> fifo_wf f'
      \<and> fifo_capacity f' = fifo_capacity f \<and> fifo_list f' = drop n (fifo_list f)
    else fifo_pop n f = Some (f, None)"
proof (cases "n \<le> sf_len f")
  case True
  let ?cap = "length (sf_buf f)" and ?h = "sf_head f"
  let ?first = "min (?cap - ?h) n"
  let ?out = "take ?first (drop ?h (sf_buf f)) @ (if 0 < n - ?first then take (n - ?first) (sf_buf f) else [])"
  let ?f = "f\<lparr>sf_head := (?h + n) mod ?cap, sf_len := sf_len f - n\<rparr>"
  have pop: "fifo_pop n f = Some (?f, Some ?out)"
    using True wf by (auto simp: fifo_pop_def Let_def fifo_wf_def)
  have "?out = take n (fifo_list f)"
  proof (rule nth_equalityI)
    show "length ?out = length (take n (fifo_list f))" using True wf by (auto simp: fifo_wf_def)
    fix i
    assume "i < length ?out"
    then have i: "i < n" using True wf by (auto simp: fifo_wf_def split: if_splits)
    have m: "(?h + i) mod ?cap = (if ?h + i < ?cap then ?h + i else ?h + i - ?cap)"
      using wf i True by (intro ring_mod) (auto simp: fifo_wf_def)
    show "?out ! i = take n (fifo_list f) ! i"
      using i True wf
      by (auto simp: fifo_list_def ring_at_def m nth_append fifo_wf_def min_def
          intro!: arg_cong [of _ _ "(!) (sf_buf f)"])
  qed
  moreover have "fifo_wf ?f" using wf by (auto simp: fifo_wf_def)
  ultimately show ?thesis using True pop fifo_list_drop [OF True] by (simp add: fifo_capacity_def)
qed (simp add: fifo_pop_def)

section \<open>The ring is a bounded queue\<close>

datatype 'a fifo_event = FPush "'a list" | FPop nat

datatype 'a fifo_output = Dropped nat | Popped "'a list option" | FPanic

fun fifo_step :: "'a fifo_event \<Rightarrow> 'a sample_fifo \<Rightarrow> 'a sample_fifo \<times> 'a fifo_output list" where
  "fifo_step (FPush xs) f = (case fifo_push xs f of None \<Rightarrow> (f, [FPanic]) | Some (f', d) \<Rightarrow> (f', [Dropped d]))"
| "fifo_step (FPop n) f = (case fifo_pop n f of None \<Rightarrow> (f, [FPanic]) | Some (f', r) \<Rightarrow> (f', [Popped r]))"

text \<open>The specification: a list, oldest first, that keeps its newest \<open>cap\<close> elements.\<close>

fun queue_step :: "nat \<Rightarrow> 'a fifo_event \<Rightarrow> 'a list \<Rightarrow> 'a list \<times> 'a fifo_output list" where
  "queue_step cap (FPush xs) q = (keep_newest cap (q @ xs), [Dropped (length (q @ xs) - cap)])"
| "queue_step cap (FPop n) q = (if n \<le> length q then (drop n q, [Popped (Some (take n q))]) else (q, [Popped None]))"

definition fifo_rel :: "nat \<Rightarrow> 'a sample_fifo \<Rightarrow> 'a list \<Rightarrow> bool" where
  "fifo_rel cap f q \<longleftrightarrow> fifo_wf f \<and> fifo_capacity f = cap \<and> fifo_list f = q"

lemma fifo_step_sim:
  assumes "fifo_rel cap f q"
  shows "fifo_rel cap (fst (fifo_step e f)) (fst (queue_step cap e q))
    \<and> snd (fifo_step e f) = snd (queue_step cap e q)"
proof -
  have wf: "fifo_wf f" "fifo_capacity f = cap" "fifo_list f = q" using assms by (simp_all add: fifo_rel_def)
  then have len: "sf_len f = length q" using length_fifo_list [of f] by simp
  show ?thesis
  proof (cases e)
    case (FPush xs)
    obtain f' where "fifo_push xs f = Some (f', length (q @ xs) - cap)" "fifo_wf f'"
      "fifo_capacity f' = cap" "fifo_list f' = keep_newest cap (q @ xs)"
      using fifo_push_spec [OF wf(1), of xs] unfolding wf(2,3) by blast
    then show ?thesis by (simp add: FPush fifo_rel_def)
  next
    case (FPop n)
    note spec = fifo_pop_spec [OF wf(1), of n, unfolded wf(2,3) len]
    show ?thesis
    proof (cases "n \<le> length q")
      case True
      with spec obtain f' where "fifo_pop n f = Some (f', Some (take n q))" "fifo_wf f'"
        "fifo_capacity f' = cap" "fifo_list f' = drop n q"
        by auto
      with True show ?thesis by (simp add: FPop fifo_rel_def)
    next
      case False
      with spec assms show ?thesis by (simp add: FPop)
    qed
  qed
qed

interpretation fifo: simulation fifo_step "queue_step cap" "\<lambda>e. e" "fifo_rel cap" "\<lambda>_ _. True"
  by unfold_locales (simp_all add: fifo_step_sim)

lemma fifo_new_rel: "0 < cap \<Longrightarrow> fifo_rel cap (fifo_new cap) []"
  by (auto simp: fifo_rel_def fifo_new_def fifo_wf_def fifo_capacity_def fifo_list_def)

lemma allowed_True: "allowed (\<lambda>_ _. True) st es a"
  by (induction es arbitrary: a) auto

text \<open>C36: the sample FIFO of any positive capacity is a bounded queue: over every sequence of
  blocks pushed and popped, of whatever sizes, it never panics, pops the samples in the order
  they came in, drops exactly the oldest ones when it overflows and reports how many, and
  leaves a queue with too few samples untouched.\<close>

theorem sample_fifo_is_bounded_queue:
  assumes "0 < cap"
  shows "snd (run fifo_step es (fifo_new cap)) = snd (run (queue_step cap) es [])"
  using fifo.run_sim [OF fifo_new_rel [OF assms] allowed_True, of es] by simp

theorem sample_fifo_is_bounded_queue_witness:
  "snd (run fifo_step [FPush [1, 2, 3], FPop 2, FPush [4, 5, 6], FPop 4, FPop 1] (fifo_new 4))
    = [Dropped 0, Popped (Some [1, 2]), Dropped 0, Popped (Some [3, 4, 5, 6 :: int]), Popped None]"
proof -
  have "snd (run (queue_step 4) [FPush [1, 2, 3], FPop 2, FPush [4, 5, 6 :: int], FPop 4, FPop 1] [])
    = [Dropped 0, Popped (Some [1, 2]), Dropped 0, Popped (Some [3, 4, 5, 6]), Popped None]"
    by code_simp
  then show ?thesis
    by (simp only: sample_fifo_is_bounded_queue [of 4, simplified])
qed

end
