(* ===== verification/Stream_Playout.thy ===== *)
theory Stream_Playout
  imports Audio_Codec Resampler Sample_Fifo Playout_Policy Jitter_Buffer Mixer_Meter Shared_State
begin

text \<open>
  The receive chain of one stream, \<open>crates/jam-core/src/playout.rs\<close>: jitter buffer, decoder with
  concealment, and drift correction by the resampler and a staging FIFO. The jitter buffer is
  passed beside the stream, because the receive thread shares it. A panic is \<open>None\<close>, and so is a
  loop that does not end. The scratch buffer \<open>resample_buf\<close> is only read where it has just been
  written; what is written is the value of \<open>rs_process\<close>.
\<close>

section \<open>State\<close>

definition RESAMPLE_SLACK :: nat where "RESAMPLE_SLACK = 8"
definition MAX_FRAME_SAMPLES :: nat where "MAX_FRAME_SAMPLES = 240"

record 'd stream_playout =
  sp_decoder :: "'d audio_decoder"
  sp_controller :: playout_controller
  sp_pkt_buf :: "u8 list"
  sp_insert :: bool
  sp_frame :: nat
  sp_drift_enabled :: bool
  sp_resampler :: resampler
  sp_drift :: drift_controller
  sp_staging :: "real sample_fifo"
  sp_decode_buf :: "real list"

definition playout_new :: "('e, 'd) media_lib \<Rightarrow> engine_params \<Rightarrow> 'd stream_playout option" where
  "playout_new lib p =
     (let c = controller_new (ep_frame_samples p) (ep_sample_rate p);
          c = (case jitter_fixed p of Some n \<Rightarrow> set_fixed n c | None \<Rightarrow> c);
          c = (if drift_correction p then set_deadband 3 c else c)
      in map_option (\<lambda>d. \<lparr>sp_decoder = d, sp_controller = c, sp_pkt_buf = replicate MAX_FRAME_BYTES 0,
           sp_insert = False, sp_frame = ep_frame_samples p, sp_drift_enabled = drift_correction p,
           sp_resampler = resampler_new, sp_drift = drift_new,
           sp_staging = fifo_new (ep_frame_samples p * 4 + 2 * RESAMPLE_SLACK),
           sp_decode_buf = replicate MAX_FRAME_SAMPLES 0\<rparr>)
         (decoder_new lib (ep_codec p) (ep_sample_rate p)))"

section \<open>Decoding one frame\<close>

text \<open>\<open>self.decoder.decode(payload, dst)\<close> on \<open>dst = decode_buf[offset..offset + frame]\<close>, and whether
  it was an error.\<close>

definition sp_decode :: "('e, 'd) media_lib \<Rightarrow> u8 list option \<Rightarrow> nat \<Rightarrow> 'd stream_playout
    \<Rightarrow> ('d stream_playout \<times> bool) option" where
  "sp_decode lib pl offset s =
     (if length (sp_decode_buf s) < offset + sp_frame s then None
      else (case decode lib pl (take (sp_frame s) (drop offset (sp_decode_buf s))) (sp_decoder s) of
          (de, dst, r) \<Rightarrow>
            (case r of
               Panic \<Rightarrow> None
             | _ \<Rightarrow> Some (s\<lparr>sp_decoder := de, sp_decode_buf := take offset (sp_decode_buf s) @ dst
                              @ drop (offset + sp_frame s) (sp_decode_buf s)\<rparr>, r \<noteq> Ok ()))))"

definition sp_conceal :: "('e, 'd) media_lib \<Rightarrow> nat \<Rightarrow> 'd stream_playout \<Rightarrow> 'd stream_playout option" where
  "sp_conceal lib offset s = map_option fst (sp_decode lib None offset s)"

text \<open>The frame that is due: a packet, or concealment for an insertion, a bad or a missing packet.\<close>

definition pull_frame :: "('e, 'd) media_lib \<Rightarrow> nat \<Rightarrow> 'd stream_playout \<Rightarrow> jitter_buffer
    \<Rightarrow> ('d stream_playout \<times> jitter_buffer \<times> bool) option" where
  "pull_frame lib offset s b =
     (if sp_insert s
      then map_option (\<lambda>s. (s, b, False)) (sp_conceal lib offset (s\<lparr>sp_insert := False\<rparr>))
      else (case jb_pop_next (sp_pkt_buf s) b of
          None \<Rightarrow> None
        | Some (b, pkt, Missing) \<Rightarrow>
            map_option (\<lambda>s. (s, b, False)) (sp_conceal lib offset (s\<lparr>sp_pkt_buf := pkt\<rparr>))
        | Some (b, pkt, Frame len ts) \<Rightarrow>
            (case sp_decode lib (Some (take len pkt)) offset (s\<lparr>sp_pkt_buf := pkt\<rparr>) of
               None \<Rightarrow> None
             | Some (s, err) \<Rightarrow>
                 if err then map_option (\<lambda>s. (s, b, False)) (sp_conceal lib offset s)
                 else Some (s, b, True))))"

text \<open>\<open>pull_decoded_into\<close>: \<open>None\<close> inside is the prolonged outage.\<close>

definition pull_decoded_into :: "('e, 'd) media_lib \<Rightarrow> nat \<Rightarrow> 'd stream_playout \<Rightarrow> jitter_buffer
    \<Rightarrow> ('d stream_playout \<times> jitter_buffer \<times> bool option) option" where
  "pull_decoded_into lib offset s b =
     (case pull_frame lib offset s b of
        None \<Rightarrow> None
      | Some (s, b, hit) \<Rightarrow>
          (case post_pop hit (st_jitter_us_bits (jstats b)) (sp_controller s) of
             (c, True) \<Rightarrow> Some (s\<lparr>sp_controller := c\<rparr>, jb_reset b, None)
           | (c, False) \<Rightarrow> Some (s\<lparr>sp_controller := observe_depth (jb_depth b) c\<rparr>, b, Some hit)))"

section \<open>Resetting\<close>

partial_function (option) drain :: "real sample_fifo \<Rightarrow> real sample_fifo option" where
  "drain f =
     (if fifo_is_empty f then Some f
      else (case fifo_pop (min (sf_len f) MAX_FRAME_SAMPLES) f of
          None \<Rightarrow> None
        | Some (f, _) \<Rightarrow> drain f))"

definition reset_stream :: "'d stream_playout \<Rightarrow> 'd stream_playout option" where
  "reset_stream s =
     (case drain (sp_staging s) of
        None \<Rightarrow> None
      | Some f \<Rightarrow> Some (s\<lparr>sp_controller := controller_reset (sp_controller s), sp_insert := False,
          sp_staging := f,
          sp_resampler := set_ratio (1 + dr_ppm (sp_drift s) * (1 / 1000000)) resampler_new\<rparr>))"

section \<open>One tick\<close>

definition apply_step_adjustment :: "real list \<Rightarrow> 'd stream_playout \<Rightarrow> jitter_buffer
    \<Rightarrow> 'd stream_playout \<times> jitter_buffer" where
  "apply_step_adjustment out s b =
     (if frame_rms out < LOW_ENERGY_RMS
      then (case take_adjustment (sp_controller s) of
          (c, NoAdjust) \<Rightarrow> (s\<lparr>sp_controller := c\<rparr>, b)
        | (c, DropOne) \<Rightarrow> (s\<lparr>sp_controller := c\<rparr>, fst (jb_skip_next b))
        | (c, InsertOne) \<Rightarrow> (s\<lparr>sp_controller := c, sp_insert := True\<rparr>, b))
      else (s, b))"

type_synonym 'd ticked = "'d stream_playout \<times> jitter_buffer \<times> real list \<times> bool"

definition tick_stepped :: "('e, 'd) media_lib \<Rightarrow> 'd stream_playout \<Rightarrow> jitter_buffer \<Rightarrow> 'd ticked option" where
  "tick_stepped lib s b =
     (case pull_decoded_into lib 0 s b of
        None \<Rightarrow> None
      | Some (s, b, None) \<Rightarrow> Some (s, b, replicate (sp_frame s) 0, False)
      | Some (s, b, Some hit) \<Rightarrow>
          (let out = take (sp_frame s) (sp_decode_buf s) in
           case apply_step_adjustment out s b of (s, b) \<Rightarrow> Some (s, b, out, True)))"

text \<open>\<open>while self.staging.len() < self.frame\<close>; \<open>False\<close> when an outage ended it.\<close>

partial_function (option) fill_staging :: "('e, 'd) media_lib \<Rightarrow> 'd stream_playout \<Rightarrow> jitter_buffer
    \<Rightarrow> ('d stream_playout \<times> jitter_buffer \<times> bool) option" where
  "fill_staging lib s b =
     (if sp_frame s \<le> sf_len (sp_staging s) then Some (s, b, True)
      else (case pull_decoded_into lib 0 s b of
          None \<Rightarrow> None
        | Some (s, b, None) \<Rightarrow> Some (s, b, False)
        | Some (s, b, Some hit) \<Rightarrow>
            (case rs_process (take (sp_frame s) (sp_decode_buf s)) (MAX_FRAME_SAMPLES + RESAMPLE_SLACK)
                    (sp_resampler s) of
               None \<Rightarrow> None
             | Some (rs, smp) \<Rightarrow>
                 (case fifo_push smp (sp_staging s) of
                    None \<Rightarrow> None
                  | Some (f, dropped) \<Rightarrow>
                      fill_staging lib (s\<lparr>sp_resampler := rs, sp_staging := f\<rparr>) b))))"

definition tick_resampled :: "('e, 'd) media_lib \<Rightarrow> 'd stream_playout \<Rightarrow> jitter_buffer \<Rightarrow> 'd ticked option" where
  "tick_resampled lib s b =
     (case drift_update (real_of_int (i32_sub (jb_depth b) (pc_target (sp_controller s)))) (sp_drift s) of
        (d, ratio) \<Rightarrow>
          (case fill_staging lib (s\<lparr>sp_drift := d, sp_resampler := set_ratio ratio (sp_resampler s)\<rparr>) b of
             None \<Rightarrow> None
           | Some (s, b, False) \<Rightarrow>
               map_option (\<lambda>s. (s, b, replicate (sp_frame s) 0, False)) (reset_stream s)
           | Some (s, b, True) \<Rightarrow>
               (case fifo_pop (sp_frame s) (sp_staging s) of
                  Some (f, Some out) \<Rightarrow>
                    (case apply_step_adjustment out (s\<lparr>sp_staging := f\<rparr>) b of (s, b) \<Rightarrow> Some (s, b, out, True))
                | _ \<Rightarrow> None)))"

definition sp_tick :: "('e, 'd) media_lib \<Rightarrow> 'd stream_playout \<Rightarrow> jitter_buffer \<Rightarrow> 'd ticked option" where
  "sp_tick lib s b =
     (case pre_pop (jb_depth b) (started b) (sp_controller s) of
        (c, False) \<Rightarrow> Some (s\<lparr>sp_controller := c\<rparr>, b, replicate (sp_frame s) 0, False)
      | (c, True) \<Rightarrow>
          if sp_drift_enabled s then tick_resampled lib (s\<lparr>sp_controller := c\<rparr>) b
          else tick_stepped lib (s\<lparr>sp_controller := c\<rparr>) b)"

definition target_depth :: "'d stream_playout \<Rightarrow> int" where
  "target_depth s = pc_target (sp_controller s)"

definition drift_ppm :: "'d stream_playout \<Rightarrow> real" where
  "drift_ppm s = (if sp_drift_enabled s then dr_ppm (sp_drift s) else 0)"

section \<open>Every tick returns\<close>

definition sp_ok :: "'d stream_playout \<Rightarrow> bool" where
  "sp_ok s \<longleftrightarrow> decoder_ok (sp_decoder s) \<and> length (sp_pkt_buf s) = MAX_FRAME_BYTES
     \<and> 5 \<le> sp_frame s \<and> sp_frame s \<le> MAX_FRAME_SAMPLES \<and> length (sp_decode_buf s) = MAX_FRAME_SAMPLES
     \<and> rs_ok (sp_resampler s) \<and> drift_ok (sp_drift s) \<and> fifo_wf (sp_staging s)
     \<and> fifo_capacity (sp_staging s) = sp_frame s * 4 + 2 * RESAMPLE_SLACK"

lemma sp_ok_simps [simp]:
  "sp_ok (s\<lparr>sp_insert := x\<rparr>) = sp_ok s" "sp_ok (s\<lparr>sp_controller := c\<rparr>) = sp_ok s"
  by (simp_all add: sp_ok_def)

text \<open>What decoding leaves alone.\<close>

definition same_path :: "'d stream_playout \<Rightarrow> 'd stream_playout \<Rightarrow> bool" where
  "same_path s' s \<longleftrightarrow> sp_frame s' = sp_frame s \<and> sp_staging s' = sp_staging s \<and> sp_resampler s' = sp_resampler s
     \<and> sp_drift s' = sp_drift s \<and> sp_drift_enabled s' = sp_drift_enabled s"

lemma sp_decode_ok:
  assumes "media_ok lib" and "sp_ok s"
  shows "\<exists>s' err. sp_decode lib pl 0 s = Some (s', err) \<and> sp_ok s' \<and> same_path s' s"
proof -
  obtain de out r where d: "decode lib pl (take (sp_frame s) (sp_decode_buf s)) (sp_decoder s) = (de, out, r)"
    by (metis prod_cases3)
  from decode_ok [OF assms(1) _ d] assms(2) have "decoder_ok de" "length out = sp_frame s" "r \<noteq> Panic"
    by (auto simp: sp_ok_def)
  with assms(2) d show ?thesis
    by (cases r) (auto simp: sp_decode_def sp_ok_def same_path_def)
qed

lemma sp_conceal_ok:
  assumes "media_ok lib" and "sp_ok s"
  shows "\<exists>s'. sp_conceal lib 0 s = Some s' \<and> sp_ok s' \<and> same_path s' s"
  using sp_decode_ok [OF assms, of None] by (auto simp: sp_conceal_def)

lemma jb_pop_next_ok:
  assumes "jb_wf b" and "length buf = MAX_FRAME_BYTES"
  shows "\<exists>b' out oc. jb_pop_next buf b = Some (b', out, oc) \<and> jb_wf b' \<and> length out = MAX_FRAME_BYTES"
  using clear_wf [OF jb_nth_wf [OF assms(1), of "next_seq b"]] jb_nth_wf [OF assms(1), of "next_seq b"] assms
  by (auto simp: jb_pop_next_def jb_take_def Let_def slot_wf_def [of "jslots b ! slot_index (next_seq b)"]
      length_zip_store)

lemma pull_frame_ok:
  assumes lib: "media_ok lib" and ok: "sp_ok s" and b: "jb_wf b"
  shows "\<exists>s' b' hit. pull_frame lib 0 s b = Some (s', b', hit) \<and> sp_ok s' \<and> same_path s' s \<and> jb_wf b'"
proof (cases "sp_insert s")
  case True
  have "sp_ok (s\<lparr>sp_insert := False\<rparr>)" using ok by simp
  from sp_conceal_ok [OF lib this] True b show ?thesis by (auto simp: pull_frame_def same_path_def)
next
  case False
  from jb_pop_next_ok [OF b, of "sp_pkt_buf s"] ok obtain b' pkt oc where
    p: "jb_pop_next (sp_pkt_buf s) b = Some (b', pkt, oc)" "jb_wf b'" "length pkt = MAX_FRAME_BYTES"
    by (auto simp: sp_ok_def)
  let ?s = "s\<lparr>sp_pkt_buf := pkt\<rparr>"
  have s: "sp_ok ?s" using ok p(3) by (simp add: sp_ok_def)
  show ?thesis
  proof (cases oc)
    case Missing
    from sp_conceal_ok [OF lib s] False p Missing show ?thesis by (auto simp: pull_frame_def same_path_def)
  next
    case (Frame len ts)
    from sp_decode_ok [OF lib s, of "Some (take len pkt)"] obtain s1 err where
      d: "sp_decode lib (Some (take len pkt)) 0 ?s = Some (s1, err)" "sp_ok s1" "same_path s1 ?s" by blast
    from sp_conceal_ok [OF lib d(2)] d(3) obtain s2 where "sp_conceal lib 0 s1 = Some s2" "sp_ok s2" "same_path s2 ?s"
      by (auto simp: same_path_def)
    with False p Frame d show ?thesis by (cases err) (auto simp: pull_frame_def same_path_def)
  qed
qed

lemma pull_decoded_ok:
  assumes "media_ok lib" and "sp_ok s" and "jb_wf b"
  shows "\<exists>s' b' r. pull_decoded_into lib 0 s b = Some (s', b', r) \<and> sp_ok s' \<and> same_path s' s \<and> jb_wf b'"
  using pull_frame_ok [OF assms] jb_reset_wf
  by (fastforce simp: pull_decoded_into_def same_path_def split: prod.split bool.split)

text \<open>One block goes through the resampler into the staging FIFO: it grows, and drops nothing.\<close>

lemma stage_block:
  assumes ok: "sp_ok s" and room: "sf_len (sp_staging s) < sp_frame s"
  shows "\<exists>rs smp f. rs_process (take (sp_frame s) (sp_decode_buf s)) (MAX_FRAME_SAMPLES + RESAMPLE_SLACK) (sp_resampler s) = Some (rs, smp)
    \<and> fifo_push smp (sp_staging s) = Some (f, 0) \<and> fifo_list f = fifo_list (sp_staging s) @ smp
    \<and> sf_len (sp_staging s) < sf_len f \<and> sp_ok (s\<lparr>sp_resampler := rs, sp_staging := f\<rparr>)"
proof -
  let ?xs = "take (sp_frame s) (sp_decode_buf s)" and ?cap = "MAX_FRAME_SAMPLES + RESAMPLE_SLACK"
  have rs: "rs_ok (sp_resampler s)" and n: "5 \<le> sp_frame s" "sp_frame s \<le> MAX_FRAME_SAMPLES" "length ?xs = sp_frame s"
    using ok by (simp_all add: sp_ok_def)
  have r: "98 / 100 \<le> rs_ratio (sp_resampler s)" "rs_ratio (sp_resampler s) \<le> 102 / 100"
    using rs by (simp_all add: rs_ok_def)
  have "real (sp_frame s) * rs_ratio (sp_resampler s) \<le> 240 * (102 / 100)"
    using n(2) r by (intro mult_mono) (simp_all add: MAX_FRAME_SAMPLES_def)
  then have "real (length ?xs) * rs_ratio (sp_resampler s) + 102 / 98 \<le> real ?cap"
    unfolding n(3) by (simp add: MAX_FRAME_SAMPLES_def RESAMPLE_SLACK_def)
  from rs_process_returns [OF rs this] obtain s' smp where p: "rs_process ?xs ?cap (sp_resampler s) = Some (s', smp)"
    "rs_ok s'" "real (length smp) = (rs_phase s' - rs_phase (sp_resampler s)
       + real (length ?xs - (3 - rs_primed (sp_resampler s)))) * rs_ratio (sp_resampler s)" by blast
  define taken where "taken = sp_frame s - (3 - rs_primed (sp_resampler s))"
  define move where "move = rs_phase s' - rs_phase (sp_resampler s)"
  have t: "sp_frame s - 3 \<le> taken" "taken \<le> sp_frame s" by (simp_all add: taken_def)
  have mv: "- (100 / 98) \<le> move" "move \<le> 100 / 98" using p(2) rs unfolding move_def rs_ok_def by linarith+
  have smp: "real (length smp) = (move + real taken) * rs_ratio (sp_resampler s)"
    using p(3) n(3) by (simp add: taken_def move_def)
  have "0 < move + real taken" using mv(1) t(1) n(1) by linarith
  then have "0 < real (length smp)" using r(1) by (simp add: smp)
  then have pos: "0 < length smp" by simp
  have "real (length smp) \<le> (100 / 98 + real (sp_frame s)) * (102 / 100)"
    unfolding smp using mv(2) t r by (intro mult_mono) simp_all
  moreover have "5 \<le> real (sp_frame s)" using n(1) by simp
  ultimately have "real (length smp) \<le> real (2 * sp_frame s)" by (simp add: algebra_simps)
  then have few: "length smp \<le> 2 * sp_frame s" by (simp only: of_nat_le_iff)
  have fw: "fifo_wf (sp_staging s)" and cap: "fifo_capacity (sp_staging s) = sp_frame s * 4 + 2 * RESAMPLE_SLACK"
    using ok by (simp_all add: sp_ok_def)
  from fifo_push_spec [OF fw, of smp] few room cap obtain f where f: "fifo_push smp (sp_staging s) = Some (f, 0)"
    "fifo_wf f" "fifo_capacity f = fifo_capacity (sp_staging s)" "fifo_list f = fifo_list (sp_staging s) @ smp"
    by (auto simp: keep_newest_def)
  have "sf_len f = sf_len (sp_staging s) + length smp"
    using arg_cong [OF f(4), of length] by simp
  with p f pos ok show ?thesis by (auto simp: sp_ok_def)
qed

lemma fill_staging_ok:
  "\<lbrakk>media_ok lib; sp_ok s; jb_wf b\<rbrakk> \<Longrightarrow>
   \<exists>s' b' full. fill_staging lib s b = Some (s', b', full) \<and> sp_ok s' \<and> jb_wf b' \<and> sp_frame s' = sp_frame s
     \<and> sp_drift_enabled s' = sp_drift_enabled s \<and> (full \<longrightarrow> sp_frame s \<le> sf_len (sp_staging s'))"
proof (induction "sp_frame s - sf_len (sp_staging s)" arbitrary: s b rule: less_induct)
  case less
  show ?case
  proof (cases "sp_frame s \<le> sf_len (sp_staging s)")
    case True
    then have "fill_staging lib s b = Some (s, b, True)" by (subst fill_staging.simps) simp
    with less.prems True show ?thesis by blast
  next
    case False
    from pull_decoded_ok [OF less.prems] obtain s1 b1 r where
      p: "pull_decoded_into lib 0 s b = Some (s1, b1, r)" "sp_ok s1" "same_path s1 s" "jb_wf b1" by blast
    show ?thesis
    proof (cases r)
      case None
      with p(1) False have "fill_staging lib s b = Some (s1, b1, False)" by (subst fill_staging.simps) simp
      with p show ?thesis by (simp add: same_path_def) metis
    next
      case (Some hit)
      have "sf_len (sp_staging s1) < sp_frame s1" using False p(3) by (simp add: same_path_def)
      from stage_block [OF p(2) this] obtain rs smp f where st:
        "rs_process (take (sp_frame s1) (sp_decode_buf s1)) (MAX_FRAME_SAMPLES + RESAMPLE_SLACK) (sp_resampler s1) = Some (rs, smp)"
        "fifo_push smp (sp_staging s1) = Some (f, 0)" "sf_len (sp_staging s1) < sf_len f"
        "sp_ok (s1\<lparr>sp_resampler := rs, sp_staging := f\<rparr>)" by blast
      let ?s = "s1\<lparr>sp_resampler := rs, sp_staging := f\<rparr>"
      have "sp_frame ?s - sf_len (sp_staging ?s) < sp_frame s - sf_len (sp_staging s)"
        using st(3) False p(3) by (simp add: same_path_def)
      from less.hyps [OF this less.prems(1) st(4) p(4)] obtain s' b' full where
        "fill_staging lib ?s b1 = Some (s', b', full)" "sp_ok s'" "jb_wf b'" "sp_frame s' = sp_frame ?s"
        "sp_drift_enabled s' = sp_drift_enabled ?s" "full \<longrightarrow> sp_frame ?s \<le> sf_len (sp_staging s')" by blast
      with False p Some st show ?thesis by (subst fill_staging.simps) (simp add: same_path_def)
    qed
  qed
qed

lemma drain_ok: "fifo_wf f \<Longrightarrow> \<exists>f'. drain f = Some f' \<and> fifo_wf f' \<and> fifo_capacity f' = fifo_capacity f \<and> fifo_list f' = []"
proof (induction "sf_len f" arbitrary: f rule: less_induct)
  case less
  show ?case
  proof (cases "sf_len f = 0")
    case True
    then have "drain f = Some f" by (subst drain.simps) (simp add: fifo_is_empty_def)
    moreover have "fifo_list f = []" using True by (simp add: fifo_list_def)
    ultimately show ?thesis using less.prems by blast
  next
    case False
    let ?n = "min (sf_len f) MAX_FRAME_SAMPLES"
    from fifo_pop_spec [OF less.prems, of ?n] obtain f1 where
      f1: "fifo_pop ?n f = Some (f1, Some (take ?n (fifo_list f)))" "fifo_wf f1" "fifo_capacity f1 = fifo_capacity f"
      "fifo_list f1 = drop ?n (fifo_list f)" by auto
    have "sf_len f1 = sf_len f - ?n" using arg_cong [OF f1(4), of length] by simp
    then have "sf_len f1 < sf_len f" using False by (simp add: MAX_FRAME_SAMPLES_def)
    from less.hyps [OF this f1(2)] f1(1,3) False show ?thesis
      by (subst drain.simps) (simp add: fifo_is_empty_def)
  qed
qed

lemma reset_stream_ok:
  assumes "sp_ok s"
  shows "\<exists>s'. reset_stream s = Some s' \<and> sp_ok s' \<and> sp_frame s' = sp_frame s \<and> sp_drift_enabled s' = sp_drift_enabled s
    \<and> \<not> primed (sp_controller s') \<and> fifo_list (sp_staging s') = [] \<and> \<not> sp_insert s' \<and> sp_drift s' = sp_drift s"
  using drain_ok [of "sp_staging s"] assms
  by (auto simp: reset_stream_def sp_ok_def controller_reset_def)

lemma adjust_ok:
  assumes "sp_ok s" and "jb_wf b" and "apply_step_adjustment out s b = (s', b')"
  shows "sp_ok s' \<and> jb_wf b' \<and> sp_frame s' = sp_frame s"
  using assms jb_skip_wf [OF assms(2)]
  by (auto simp: apply_step_adjustment_def split: if_splits prod.splits adjust.splits)

definition tick_ok :: "nat \<Rightarrow> 'd ticked option \<Rightarrow> bool" where
  "tick_ok n r \<longleftrightarrow> (case r of None \<Rightarrow> False | Some (s, b, out, live) \<Rightarrow> sp_ok s \<and> jb_wf b
     \<and> sp_frame s = n \<and> length out = n \<and> (\<not> live \<longrightarrow> out = replicate n 0))"

lemma tick_stepped_ok: "\<lbrakk>media_ok lib; sp_ok s; jb_wf b\<rbrakk> \<Longrightarrow> tick_ok (sp_frame s) (tick_stepped lib s b)"
proof -
  assume a: "media_ok lib" "sp_ok s" "jb_wf b"
  from pull_decoded_ok [OF a] obtain s1 b1 r where
    p: "pull_decoded_into lib 0 s b = Some (s1, b1, r)" "sp_ok s1" "same_path s1 s" "jb_wf b1" by blast
  have f: "sp_frame s1 = sp_frame s" "sp_frame s1 \<le> length (sp_decode_buf s1)"
    using p(2,3) by (simp_all add: sp_ok_def same_path_def)
  show ?thesis
  proof (cases r)
    case None
    with p f show ?thesis by (simp add: tick_stepped_def tick_ok_def)
  next
    case (Some hit)
    obtain s2 b2 where ad: "apply_step_adjustment (take (sp_frame s1) (sp_decode_buf s1)) s1 b1 = (s2, b2)" by fastforce
    from adjust_ok [OF p(2,4) ad] p Some f ad show ?thesis by (simp add: tick_stepped_def tick_ok_def)
  qed
qed

lemma tick_resampled_ok: "\<lbrakk>media_ok lib; sp_ok s; jb_wf b\<rbrakk> \<Longrightarrow> tick_ok (sp_frame s) (tick_resampled lib s b)"
proof -
  assume a: "media_ok lib" "sp_ok s" "jb_wf b"
  obtain d ratio where d: "drift_update (real_of_int (i32_sub (jb_depth b) (pc_target (sp_controller s)))) (sp_drift s)
      = (d, ratio)" by fastforce
  let ?s = "s\<lparr>sp_drift := d, sp_resampler := set_ratio ratio (sp_resampler s)\<rparr>"
  have "sp_ok ?s" using a(2) drift_update_ok [OF _ d] by (simp add: sp_ok_def)
  from fill_staging_ok [OF a(1) this a(3)] obtain s1 b1 full where
    p: "fill_staging lib ?s b = Some (s1, b1, full)" "sp_ok s1" "jb_wf b1" "sp_frame s1 = sp_frame s"
    "full \<longrightarrow> sp_frame s \<le> sf_len (sp_staging s1)" by auto
  show ?thesis
  proof (cases full)
    case False
    from reset_stream_ok [OF p(2)] p d False show ?thesis by (auto simp: tick_resampled_def tick_ok_def)
  next
    case True
    have fw: "fifo_wf (sp_staging s1)" using p(2) by (simp add: sp_ok_def)
    from fifo_pop_spec [OF fw, of "sp_frame s1"] p(4,5) True obtain f where
      f: "fifo_pop (sp_frame s1) (sp_staging s1) = Some (f, Some (take (sp_frame s1) (fifo_list (sp_staging s1))))"
      "fifo_wf f" "fifo_capacity f = fifo_capacity (sp_staging s1)" by auto
    let ?out = "take (sp_frame s1) (fifo_list (sp_staging s1))"
    have len: "length ?out = sp_frame s" using p(4,5) True by simp
    have s1': "sp_ok (s1\<lparr>sp_staging := f\<rparr>)" using p(2) f(2,3) by (simp add: sp_ok_def)
    obtain s2 b2 where ad: "apply_step_adjustment ?out (s1\<lparr>sp_staging := f\<rparr>) b1 = (s2, b2)" by fastforce
    from adjust_ok [OF s1' p(3) ad] p(1,4) d True f(1) ad len show ?thesis by (simp add: tick_resampled_def tick_ok_def)
  qed
qed

lemma sp_tick_ok: "\<lbrakk>media_ok lib; sp_ok s; jb_wf b\<rbrakk> \<Longrightarrow> tick_ok (sp_frame s) (sp_tick lib s b)"
proof -
  assume a: "media_ok lib" "sp_ok s" "jb_wf b"
  obtain c live where c: "pre_pop (jb_depth b) (started b) (sp_controller s) = (c, live)" by fastforce
  have "sp_ok (s\<lparr>sp_controller := c\<rparr>)" using a(2) by simp
  from tick_resampled_ok [OF a(1) this a(3)] tick_stepped_ok [OF a(1) this a(3)] a(2,3) c show ?thesis
    by (cases live) (simp_all add: sp_tick_def, simp add: tick_ok_def)
qed

lemma playout_new_ok:
  assumes "playout_new lib p = Some s" and "5 \<le> ep_frame_samples p" and "ep_frame_samples p \<le> MAX_FRAME_SAMPLES"
  shows "sp_ok s"
  using assms decoder_new_ok [of lib "ep_codec p" "ep_sample_rate p"]
  by (auto simp: playout_new_def Let_def sp_ok_def fifo_new_def fifo_wf_def fifo_capacity_def)

section \<open>What a stream promises\<close>

text \<open>A stream in use: ticks of the audio callback, packets of the receive thread, and resets.\<close>

datatype sp_event = SpTick | SpPush u16 u32 "u8 list" | SpJitter real | SpReset

fun sp_step :: "('e, 'd) media_lib \<Rightarrow> sp_event \<Rightarrow> 'd stream_playout \<times> jitter_buffer
    \<Rightarrow> ('d stream_playout \<times> jitter_buffer) \<times> (real list \<times> bool) option list" where
  "sp_step lib SpTick (s, b) =
     (case sp_tick lib s b of None \<Rightarrow> ((s, b), [None]) | Some (s, b, out, live) \<Rightarrow> ((s, b), [Some (out, live)]))"
| "sp_step lib (SpPush sq ts pl) (s, b) = ((s, fst (jb_push sq ts pl b)), [])"
| "sp_step lib (SpJitter j) (s, b) = ((s, publish_jitter_us j b), [])"
| "sp_step lib SpReset (s, b) =
     (case reset_stream s of None \<Rightarrow> ((s, b), [None]) | Some s \<Rightarrow> ((s, b), []))"

definition sp_inv :: "('e, 'd) media_lib \<Rightarrow> nat \<Rightarrow> 'd stream_playout \<times> jitter_buffer \<Rightarrow> bool" where
  "sp_inv lib n sb \<longleftrightarrow> media_ok lib \<and> sp_ok (fst sb) \<and> jb_wf (snd sb) \<and> sp_frame (fst sb) = n"

definition frame_out_ok :: "nat \<Rightarrow> (real list \<times> bool) option \<Rightarrow> bool" where
  "frame_out_ok n o' = (case o' of None \<Rightarrow> False | Some (out, live) \<Rightarrow> length out = n \<and> (\<not> live \<longrightarrow> out = replicate n 0))"

interpretation playout: event_machine "sp_step lib" "\<lambda>_. True" "sp_inv lib n" "frame_out_ok n"
proof unfold_locales
  fix e sb a
  assume inv: "sp_inv lib n sb"
  obtain s b where sb: "sb = (s, b)" by fastforce
  have a: "media_ok lib" "sp_ok s" "jb_wf b" "sp_frame s = n" using inv by (simp_all add: sp_inv_def sb)
  have "sp_inv lib n (fst (sp_step lib e sb)) \<and> (\<forall>a \<in> set (snd (sp_step lib e sb)). frame_out_ok n a)"
  proof (cases e)
    case SpTick
    with sp_tick_ok [OF a(1-3)] a show ?thesis by (auto simp: sb tick_ok_def sp_inv_def frame_out_ok_def split: option.splits prod.splits)
  next
    case SpReset
    with reset_stream_ok [OF a(2)] a show ?thesis by (auto simp: sb sp_inv_def)
  next
    case (SpPush sq ts pl)
    with jb_push_wf [OF a(3)] a show ?thesis by (simp add: sb sp_inv_def)
  next
    case (SpJitter j)
    with a show ?thesis by (simp add: sb sp_inv_def publish_jitter_us_def)
  qed
  then show "sp_inv lib n (fst (sp_step lib e sb))" "a \<in> set (snd (sp_step lib e sb)) \<Longrightarrow> frame_out_ok n a" by blast+
qed

text \<open>C40: every tick of a stream returns. For frames of 5 to 240 samples and a decoder that keeps to its
  contract, the loop that fills the staging FIFO ends, whatever packets arrive, are lost or are
  malformed, with and without drift correction; nothing panics, the staging FIFO is never too
  short, and each tick yields one frame, which is silence when the stream is not live.\<close>

theorem playout_tick_returns:
  assumes "media_ok lib" and "playout_new lib p = Some s" and "5 \<le> ep_frame_samples p"
    and "ep_frame_samples p \<le> MAX_FRAME_SAMPLES"
    and "o' \<in> set (snd (run (sp_step lib) es (s, jb_new)))"
  shows "\<exists>out live. o' = Some (out, live) \<and> length out = ep_frame_samples p
    \<and> (\<not> live \<longrightarrow> out = replicate (ep_frame_samples p) 0)"
proof -
  have "sp_frame s = ep_frame_samples p" using assms(2) by (auto simp: playout_new_def Let_def)
  then have "sp_inv lib (ep_frame_samples p) (s, jb_new)"
    using assms(1) playout_new_ok [OF assms(2-4)] jb_new_rel by (simp add: sp_inv_def jb_rel_def)
  from playout.run_out [OF _ this assms(5)] show ?thesis by (auto simp: frame_out_ok_def split: option.splits)
qed

lemma playout_tick_returns_witness:
  "\<exists>s. playout_new silent_lib engine_params_default = Some s
     \<and> list_all (\<lambda>o'. o' \<noteq> None) (snd (run (sp_step silent_lib)
          [SpPush 0 0 [1], SpPush 1 120 [1], SpTick, SpTick, SpTick, SpReset, SpTick] (s, jb_new)))"
proof -
  obtain s where s: "playout_new silent_lib engine_params_default = Some s"
    by (simp add: playout_new_def Let_def decoder_new_def silent_lib_def engine_params_default_def)
  have p: "5 \<le> ep_frame_samples engine_params_default" "ep_frame_samples engine_params_default \<le> MAX_FRAME_SAMPLES"
    by (simp_all add: engine_params_default_def MAX_FRAME_SAMPLES_def)
  from playout_tick_returns [OF silent_lib_ok s p] s show ?thesis
    unfolding list_all_iff by (metis option.distinct(1))
qed

end
