(* ===== verification/Pipeline.thy ===== *)
theory Pipeline
  imports Stream_Playout Net_Threads
begin

text \<open>
  The audio callback, \<open>crates/jam-core/src/pipeline.rs\<close>: what the host and a client compute for one
  frame. The buffers that every frame overwrites before it reads them (\<open>scaled\<close>, \<open>scaled_local\<close>,
  \<open>mix\<close>, \<open>client_out\<close>, \<open>enc_buf\<close>) are values here, and of \<open>decoded\<close> the first \<open>n\<close> samples are
  kept, the part the code uses; \<open>emit\<close> is the list of datagrams. \<open>None\<close> is a panic.
\<close>

definition MASTER_TRIM :: real where "MASTER_TRIM = 5 / 10"

section \<open>One datagram\<close>

definition write_audio_datagram :: "u8 list \<Rightarrow> u16 \<Rightarrow> u16 \<Rightarrow> u16 \<Rightarrow> u32 \<Rightarrow> engine_params \<Rightarrow> u8 list \<Rightarrow> u8 list option
    \<Rightarrow> (u8 list \<times> nat) option" where
  "write_audio_datagram dgram sid sender sq ts p pl red =
     audio_write \<lparr>timestamp = ts, acodec = ep_codec p, payload = pl, redundant = red\<rparr>
       \<lparr>ptype = PT_Audio, session_id = sid, sender_id = sender, hseq = sq\<rparr> dgram"

record prev_frame =
  pf_buf :: "u8 list"
  pf_len :: nat

definition prev_new :: prev_frame where
  "prev_new = \<lparr>pf_buf = replicate MAX_FRAME_BYTES 0, pf_len = 0\<rparr>"

definition prev_store :: "u8 list \<Rightarrow> prev_frame \<Rightarrow> prev_frame option" where
  "prev_store bs f = map_option (\<lambda>b. \<lparr>pf_buf = b, pf_len = length bs\<rparr>) (copy_at 0 bs (pf_buf f))"

definition prev_get :: "prev_frame \<Rightarrow> u8 list option" where
  "prev_get f = (if 0 < pf_len f then Some (take (pf_len f) (pf_buf f)) else None)"

text \<open>\<open>for (d, s) in dst.iter_mut().zip(src) { *d += *s }\<close>\<close>

fun add_buf :: "real list \<Rightarrow> real list \<Rightarrow> real list" where
  "add_buf (d # dst) (s # src) = (d + s) # add_buf dst src"
| "add_buf dst _ = dst"

section \<open>Host\<close>

record ('e, 'd) host_pipeline =
  hp_frame :: nat
  hp_params :: engine_params
  hp_playouts :: "'d stream_playout list"
  hp_encoders :: "'e audio_encoder list"
  hp_seqs :: "seq_gen list"
  hp_prev :: "prev_frame list"
  hp_smoothers :: "smoothed_gain list"
  hp_monitor_smoother :: smoothed_gain
  hp_meters :: "meter list"
  hp_local_meter :: meter
  hp_decoded :: "real list list"
  hp_dgram :: "u8 list"
  hp_last_active :: "bool list"
  hp_clock :: u32

definition host_pipeline_new :: "('e, 'd) media_lib \<Rightarrow> engine_params \<Rightarrow> ('e, 'd) host_pipeline option" where
  "host_pipeline_new lib p =
     (let gain = smoothed_gain_new 1 (ep_frame_samples p) (ep_sample_rate p) in
      case (playout_new lib p, encoder_new lib (ep_codec p) (ep_sample_rate p) (bitrate_bps p)) of
        (Some s, Some en) \<Rightarrow>
          Some \<lparr>hp_frame = ep_frame_samples p, hp_params = p, hp_playouts = replicate MAX_CLIENTS s,
            hp_encoders = replicate MAX_CLIENTS en, hp_seqs = replicate MAX_CLIENTS seq_new,
            hp_prev = replicate MAX_CLIENTS prev_new, hp_smoothers = replicate (MAX_CLIENTS + 1) gain,
            hp_monitor_smoother = gain, hp_meters = replicate MAX_CLIENTS meter_new,
            hp_local_meter = meter_new, hp_decoded = replicate MAX_CLIENTS (replicate (ep_frame_samples p) 0),
            hp_dgram = replicate MAX_DATAGRAM 0, hp_last_active = replicate MAX_CLIENTS False, hp_clock = 0\<rparr>
      | _ \<Rightarrow> None)"

text \<open>1. One frame per active client.\<close>

definition hp_pull :: "('e, 'd) media_lib \<Rightarrow> nat \<Rightarrow> ('e, 'd) host_pipeline \<times> host_shared
    \<Rightarrow> (('e, 'd) host_pipeline \<times> host_shared) option" where
  "hp_pull lib c st =
     (case st of (hp, sh) \<Rightarrow>
       let on = active (clients sh ! c) in
       Option.bind (if on \<and> \<not> hp_last_active hp ! c then reset_stream (hp_playouts hp ! c)
                    else Some (hp_playouts hp ! c)) (\<lambda>s.
       let hp = hp\<lparr>hp_playouts := (hp_playouts hp)[c := s], hp_last_active := (hp_last_active hp)[c := on]\<rparr> in
       if on then
         Option.bind (sp_tick lib (hp_playouts hp ! c) (jb (clients sh ! c))) (\<lambda>(s, b, buf, live).
         let m = meter_update buf (hp_meters hp ! c) in
         Some (hp\<lparr>hp_playouts := (hp_playouts hp)[c := s], hp_meters := (hp_meters hp)[c := m],
                  hp_decoded := (hp_decoded hp)[c := buf]\<rparr>,
               upd_client c (\<lambda>st. st\<lparr>jb := b, level := meter_publish m (level st)\<rparr>) sh))
       else Some (hp\<lparr>hp_decoded := (hp_decoded hp)[c := replicate (hp_frame hp) 0]\<rparr>, sh)))"

text \<open>2. The mix: smoothed gains with mute and solo folded in.\<close>

definition hp_gain :: "host_shared \<Rightarrow> bool \<Rightarrow> nat \<Rightarrow> ('e, 'd) host_pipeline \<Rightarrow> ('e, 'd) host_pipeline \<times> real" where
  "hp_gain sh solo p hp =
     (case sg_next (gains sh ! p * (if in_mix sh p solo then 1 else 0)) (hp_smoothers hp ! p) of
        (g, v) \<Rightarrow> (hp\<lparr>hp_smoothers := (hp_smoothers hp)[p := g]\<rparr>, v * MASTER_TRIM))"

definition hp_mix_local :: "host_shared \<Rightarrow> real list \<Rightarrow> ('e, 'd) host_pipeline
    \<Rightarrow> ('e, 'd) host_pipeline \<times> real list \<times> real list" where
  "hp_mix_local sh local_in hp =
     (case hp_gain sh (any_solo sh) 0 hp of (hp, g) \<Rightarrow>
       let scaled = map (\<lambda>s. s * g) local_in
       in (hp, scaled, add_buf (replicate (hp_frame hp) 0) scaled))"

fun hp_mix_clients :: "host_shared \<Rightarrow> nat list \<Rightarrow> ('e, 'd) host_pipeline \<Rightarrow> real list \<Rightarrow> real list list
    \<Rightarrow> ('e, 'd) host_pipeline \<times> real list \<times> real list list" where
  "hp_mix_clients sh [] hp bus scaled = (hp, bus, scaled)"
| "hp_mix_clients sh (c # cs) hp bus scaled =
     (case hp_gain sh (any_solo sh) (c + 1) hp of (hp, g) \<Rightarrow>
       let dst = map (\<lambda>s. s * g) (hp_decoded hp ! c)
       in hp_mix_clients sh cs hp (if hp_last_active hp ! c then add_buf bus dst else bus) (scaled @ [dst]))"

text \<open>3. What client \<open>c\<close> is sent.\<close>

definition hp_client_out :: "real list \<Rightarrow> real list list \<Rightarrow> nat \<Rightarrow> ('e, 'd) host_pipeline \<Rightarrow> real list" where
  "hp_client_out bus scaled c hp =
     soft_clip_buf (if echo (hp_params hp) then hp_decoded hp ! c else unmix_scaled bus (scaled ! c) 1)"

definition hp_send :: "('e, 'd) media_lib \<Rightarrow> u16 \<Rightarrow> real list \<Rightarrow> real list list \<Rightarrow> nat
    \<Rightarrow> ('e, 'd) host_pipeline \<times> (u8 \<times> u8 list) list \<Rightarrow> (('e, 'd) host_pipeline \<times> (u8 \<times> u8 list) list) option" where
  "hp_send lib sid bus scaled c st =
     (case st of (hp, emitted) \<Rightarrow>
       if \<not> hp_last_active hp ! c then Some (hp, emitted)
       else
         (case encode lib (hp_client_out bus scaled c hp) MAX_FRAME_BYTES (hp_encoders hp ! c) of (en, r) \<Rightarrow>
           let hp = hp\<lparr>hp_encoders := (hp_encoders hp)[c := en]\<rparr> in
           (case r of
              Panic \<Rightarrow> None
            | Err _ \<Rightarrow> Some (hp, emitted)
            | Ok pl \<Rightarrow>
                let red = (if redundancy (hp_params hp) then prev_get (hp_prev hp ! c) else None) in
                (case seq_next (hp_seqs hp ! c) of (sq, g) \<Rightarrow>
                  let hp = hp\<lparr>hp_seqs := (hp_seqs hp)[c := g]\<rparr> in
                  Option.bind (write_audio_datagram (hp_dgram hp) sid HOST_SENDER_ID sq (hp_clock hp)
                      (hp_params hp) pl red) (\<lambda>(d, n).
                  Option.bind (prev_store pl (hp_prev hp ! c)) (\<lambda>pf.
                  Some (hp\<lparr>hp_dgram := d, hp_prev := (hp_prev hp)[c := pf]\<rparr>,
                        emitted @ [(of_nat c, take n d)])))))))"

text \<open>4. What the host hears.\<close>

definition hp_hear :: "host_shared \<Rightarrow> real list \<Rightarrow> real list \<Rightarrow> real list \<Rightarrow> ('e, 'd) host_pipeline
    \<Rightarrow> ('e, 'd) host_pipeline \<times> real list" where
  "hp_hear sh local_in scaled_local bus hp =
     (case monitor (hp_params hp) of
        ThroughMix \<Rightarrow> (hp, soft_clip_buf bus)
      | MonitorOff \<Rightarrow> (hp, soft_clip_buf (unmix_scaled bus scaled_local 1))
      | Direct \<Rightarrow>
          (case sg_next (hs_monitor_gain sh) (hp_monitor_smoother hp) of (g, v) \<Rightarrow>
            (hp\<lparr>hp_monitor_smoother := g\<rparr>,
             soft_clip_buf (mix_scaled (unmix_scaled bus scaled_local 1) local_in v))))"

definition host_process_frame :: "('e, 'd) media_lib \<Rightarrow> real list \<Rightarrow> ('e, 'd) host_pipeline \<Rightarrow> host_shared
    \<Rightarrow> (('e, 'd) host_pipeline \<times> host_shared \<times> real list \<times> (u8 \<times> u8 list) list) option" where
  "host_process_frame lib local_in hp sh =
     Option.bind (for_each (hp_pull lib) [0..<MAX_CLIENTS] (hp, sh)) (\<lambda>(hp, sh).
     case hp_mix_local sh local_in hp of (hp, scaled_local, bus) \<Rightarrow>
     case hp_mix_clients sh [0..<MAX_CLIENTS] hp bus [] of (hp, bus, scaled) \<Rightarrow>
     Option.bind (for_each (hp_send lib (hs_session_id sh) bus scaled) [0..<MAX_CLIENTS] (hp, [])) (\<lambda>(hp, emitted).
     case hp_hear sh local_in scaled_local bus hp of (hp, out) \<Rightarrow>
     let m = meter_update local_in (hp_local_meter hp) in
     Some (hp\<lparr>hp_local_meter := m, hp_clock := hp_clock hp + of_nat (hp_frame hp)\<rparr>,
           sh\<lparr>hs_local_level := meter_publish m (hs_local_level sh)\<rparr>, out, emitted)))"

section \<open>Client\<close>

record ('e, 'd) client_pipeline =
  cp_frame :: nat
  cp_params :: engine_params
  cp_encoder :: "'e audio_encoder"
  cp_seq :: seq_gen
  cp_prev :: prev_frame
  cp_playout :: "'d stream_playout"
  cp_mix_meter :: meter
  cp_local_meter :: meter
  cp_master_smoother :: smoothed_gain
  cp_monitor_smoother :: smoothed_gain
  cp_dgram :: "u8 list"
  cp_was_joined :: bool
  cp_clock :: u32

definition client_pipeline_new :: "('e, 'd) media_lib \<Rightarrow> engine_params \<Rightarrow> ('e, 'd) client_pipeline option" where
  "client_pipeline_new lib p =
     (let gain = smoothed_gain_new 1 (ep_frame_samples p) (ep_sample_rate p) in
      case (encoder_new lib (ep_codec p) (ep_sample_rate p) (bitrate_bps p), playout_new lib p) of
        (Some en, Some s) \<Rightarrow>
          Some \<lparr>cp_frame = ep_frame_samples p, cp_params = p, cp_encoder = en, cp_seq = seq_new,
            cp_prev = prev_new, cp_playout = s, cp_mix_meter = meter_new, cp_local_meter = meter_new,
            cp_master_smoother = gain, cp_monitor_smoother = gain, cp_dgram = replicate MAX_DATAGRAM 0,
            cp_was_joined = False, cp_clock = 0\<rparr>
      | _ \<Rightarrow> None)"

text \<open>1. Upstream.\<close>

definition cp_send :: "('e, 'd) media_lib \<Rightarrow> client_shared \<Rightarrow> real list \<Rightarrow> ('e, 'd) client_pipeline
    \<Rightarrow> (('e, 'd) client_pipeline \<times> (u8 \<times> u8 list) list) option" where
  "cp_send lib sh local_in cp =
     (case encode lib local_in MAX_FRAME_BYTES (cp_encoder cp) of (en, r) \<Rightarrow>
       let cp = cp\<lparr>cp_encoder := en\<rparr> in
       (case r of
          Panic \<Rightarrow> None
        | Err _ \<Rightarrow> Some (cp, [])
        | Ok pl \<Rightarrow>
            let red = (if redundancy (cp_params cp) then prev_get (cp_prev cp) else None) in
            (case seq_next (cp_seq cp) of (sq, g) \<Rightarrow>
              Option.bind (write_audio_datagram (cp_dgram cp) (cs_session_id sh) (cs_sender_id sh) sq (cp_clock cp)
                  (cp_params cp) pl red) (\<lambda>(d, n).
              Option.bind (prev_store pl (cp_prev cp)) (\<lambda>pf.
              Some (cp\<lparr>cp_seq := g, cp_dgram := d, cp_prev := pf\<rparr>, [(DEST_PEER, take n d)]))))))"

text \<open>3. What this player hears.\<close>

definition cp_hear :: "client_shared \<Rightarrow> real list \<Rightarrow> real list \<Rightarrow> ('e, 'd) client_pipeline
    \<Rightarrow> ('e, 'd) client_pipeline \<times> real list" where
  "cp_hear sh local_in decoded cp =
     (case sg_next (master_gain sh) (cp_master_smoother cp) of (g, v) \<Rightarrow>
       let cp = cp\<lparr>cp_master_smoother := g\<rparr>; out = map (\<lambda>s. s * v) decoded in
       (case monitor (cp_params cp) of
          Direct \<Rightarrow>
            (case sg_next (cs_monitor_gain sh) (cp_monitor_smoother cp) of (g, v) \<Rightarrow>
              (cp\<lparr>cp_monitor_smoother := g\<rparr>, soft_clip_buf (mix_scaled out local_in v)))
        | _ \<Rightarrow> (cp, soft_clip_buf out)))"

definition client_process_frame :: "('e, 'd) media_lib \<Rightarrow> real list \<Rightarrow> ('e, 'd) client_pipeline \<Rightarrow> client_shared
    \<Rightarrow> (('e, 'd) client_pipeline \<times> client_shared \<times> real list \<times> (u8 \<times> u8 list) list) option" where
  "client_process_frame lib local_in cp sh =
     Option.bind (if joined sh \<and> \<not> cp_was_joined cp then reset_stream (cp_playout cp) else Some (cp_playout cp)) (\<lambda>s.
     let cp = cp\<lparr>cp_playout := s, cp_was_joined := joined sh\<rparr> in
     Option.bind (if joined sh then cp_send lib sh local_in cp else Some (cp, [])) (\<lambda>(cp, emitted).
     Option.bind (if joined sh then sp_tick lib (cp_playout cp) (jb (from_host sh))
                  else Some (cp_playout cp, jb (from_host sh), replicate (cp_frame cp) 0, False)) (\<lambda>(s, b, decoded, live).
     let m = meter_update decoded (cp_mix_meter cp);
         st = from_host sh;
         sh = sh\<lparr>from_host := st\<lparr>jb := b, level := meter_publish m (level st)\<rparr>\<rparr>;
         cp = cp\<lparr>cp_playout := s, cp_mix_meter := m\<rparr> in
     case cp_hear sh local_in decoded cp of (cp, out) \<Rightarrow>
     let lm = meter_update local_in (cp_local_meter cp) in
     Some (cp\<lparr>cp_local_meter := lm, cp_clock := cp_clock cp + of_nat (cp_frame cp)\<rparr>,
           sh\<lparr>cs_local_level := meter_publish lm (cs_local_level sh)\<rparr>, out, emitted))))"

section \<open>One packet\<close>

text \<open>Two Opus packets of at most 1015 bytes and the headers make one datagram of at most 2048; a
  PCM frame of 240 samples has at most 960. The \<open>MAX_FRAME_BYTES\<close> of room alone would allow 1024.\<close>

definition MAX_PAYLOAD :: nat where "MAX_PAYLOAD = 1015"

lemma MAX_PAYLOAD_le: "MAX_PAYLOAD \<le> MAX_FRAME_BYTES"
  by (simp add: MAX_PAYLOAD_def MAX_FRAME_BYTES_def)

definition packets_small :: "('e, 'd) media_lib \<Rightarrow> bool" where
  "packets_small lib \<longleftrightarrow> (\<forall>e pcm room bs. snd (ml_enc lib e pcm room) = Some bs \<longrightarrow> length bs \<le> MAX_PAYLOAD)"

lemma encode_small:
  assumes "packets_small lib" and "length pcm \<le> MAX_FRAME_SAMPLES" and "encode lib pcm room en = (en', Ok bs)"
  shows "length bs \<le> MAX_PAYLOAD"
proof (cases "en_codec en = Opus")
  case True
  with assms(3) obtain e where e: "en_opus en = Some e" by (auto simp: encode_def split: option.splits)
  obtain e' o' where r: "ml_enc lib e pcm room = (e', o')" by fastforce
  with assms(3) True e have "snd (ml_enc lib e pcm room) = Some bs" by (auto simp: encode_def split: option.splits)
  with assms(1) show ?thesis unfolding packets_small_def by blast
next
  case False
  then show ?thesis using assms(2,3)
    by (cases "en_codec en")
      (auto simp: encode_def length_concat_le MAX_PAYLOAD_def MAX_FRAME_SAMPLES_def split: if_splits)
qed

definition packet_bytes :: "u16 \<Rightarrow> u16 \<Rightarrow> u16 \<Rightarrow> u32 \<Rightarrow> codec \<Rightarrow> u8 list \<Rightarrow> u8 list option \<Rightarrow> u8 list" where
  "packet_bytes sid sender sq ts c pl red =
     enc_header \<lparr>ptype = PT_Audio, session_id = sid, sender_id = sender, hseq = sq\<rparr>
     @ enc_audio \<lparr>timestamp = ts, acodec = c, payload = pl, redundant = red\<rparr>"

definition small :: "u8 list option \<Rightarrow> bool" where
  "small o' \<longleftrightarrow> (\<forall>bs. o' = Some bs \<longrightarrow> length bs \<le> MAX_PAYLOAD)"

lemma small_simps [simp]: "small None" "small (Some bs) \<longleftrightarrow> length bs \<le> MAX_PAYLOAD"
  by (simp_all add: small_def)

lemma length_packet_bytes:
  "\<lbrakk>length pl \<le> MAX_PAYLOAD; small red\<rbrakk> \<Longrightarrow> length (packet_bytes sid sender sq ts c pl red) \<le> MAX_DATAGRAM"
  by (cases red) (simp_all add: packet_bytes_def length_enc_audio MAX_PAYLOAD_def MAX_DATAGRAM_def)

lemma parse_packet_bytes:
  "\<lbrakk>length pl \<le> MAX_PAYLOAD; small red\<rbrakk> \<Longrightarrow>
   parse_datagram (packet_bytes sid sender sq ts c pl red) =
     Ok (\<lparr>ptype = PT_Audio, session_id = sid, sender_id = sender, hseq = sq\<rparr>,
         PAudio \<lparr>timestamp = ts, acodec = c, payload = pl, redundant = red\<rparr>)"
  unfolding packet_bytes_def
  by (rule parse_enc_audio) (cases red, simp_all add: audio_fits_def MAX_PAYLOAD_def)

lemma write_audio_ok:
  assumes "length d = MAX_DATAGRAM" and "length pl \<le> MAX_PAYLOAD" and "small red"
  shows "\<exists>d'. write_audio_datagram d sid sender sq ts p pl red
      = Some (d', length (packet_bytes sid sender sq ts (ep_codec p) pl red))
    \<and> length d' = MAX_DATAGRAM
    \<and> take (length (packet_bytes sid sender sq ts (ep_codec p) pl red)) d' = packet_bytes sid sender sq ts (ep_codec p) pl red"
  using length_packet_bytes [OF assms(2,3), of sid sender sq ts "ep_codec p"] assms(1)
  by (simp add: write_audio_datagram_def audio_write_eq copy_at_fits packet_bytes_def)

definition prev_ok :: "prev_frame \<Rightarrow> bool" where
  "prev_ok f \<longleftrightarrow> length (pf_buf f) = MAX_FRAME_BYTES \<and> pf_len f \<le> MAX_PAYLOAD"

lemma prev_new_ok [simp]: "prev_ok prev_new" by (simp add: prev_ok_def prev_new_def)

lemma prev_get_small: "prev_ok f \<Longrightarrow> small (prev_get f)"
  by (simp add: prev_get_def prev_ok_def min_le_iff_disj)

lemma prev_store_ok:
  assumes "prev_ok f" and "length pl \<le> MAX_PAYLOAD"
  shows "\<exists>f'. prev_store pl f = Some f' \<and> prev_ok f' \<and> prev_get f' = (if pl = [] then None else Some pl)"
  using assms by (auto simp: prev_ok_def prev_store_def copy_at_fits MAX_PAYLOAD_def MAX_FRAME_BYTES_def prev_get_def)

section \<open>Loops over the slots\<close>

lemma length_add_buf [simp]: "length (add_buf d s) = length d"
  by (induction d s rule: add_buf.induct) simp_all

lemma nth_add_buf: "\<lbrakk>i < length d; i < length s\<rbrakk> \<Longrightarrow> add_buf d s ! i = d ! i + s ! i"
  by (induction d s arbitrary: i rule: add_buf.induct) (auto simp: nth_Cons split: nat.split)

lemma length_unmix [simp]: "length (unmix_scaled d s g) = length d"
  by (induction d s g rule: unmix_scaled.induct) simp_all

lemma nth_unmix: "\<lbrakk>i < length d; i < length s\<rbrakk> \<Longrightarrow> unmix_scaled d s g ! i = d ! i - s ! i * g"
  by (induction d s g arbitrary: i rule: unmix_scaled.induct) (auto simp: nth_Cons split: nat.split)

lemma nth_mix: "\<lbrakk>i < length d; i < length s\<rbrakk> \<Longrightarrow> mix_scaled d s g ! i = d ! i + s ! i * g"
  by (induction d s g arbitrary: i rule: mix_scaled.induct) (auto simp: nth_Cons split: nat.split)

section \<open>The host frame\<close>

definition hp_ok :: "nat \<Rightarrow> ('e, 'd) host_pipeline \<Rightarrow> bool" where
  "hp_ok n hp \<longleftrightarrow> hp_frame hp = n \<and> n \<le> MAX_FRAME_SAMPLES \<and> length (hp_playouts hp) = MAX_CLIENTS
     \<and> length (hp_encoders hp) = MAX_CLIENTS \<and> length (hp_seqs hp) = MAX_CLIENTS \<and> length (hp_prev hp) = MAX_CLIENTS
     \<and> length (hp_smoothers hp) = MAX_CLIENTS + 1 \<and> length (hp_meters hp) = MAX_CLIENTS
     \<and> length (hp_decoded hp) = MAX_CLIENTS \<and> length (hp_last_active hp) = MAX_CLIENTS
     \<and> length (hp_dgram hp) = MAX_DATAGRAM
     \<and> list_all (\<lambda>s. sp_ok s \<and> sp_frame s = n) (hp_playouts hp) \<and> list_all (\<lambda>en. encoder_ok en \<and> en_codec en = ep_codec (hp_params hp)) (hp_encoders hp)
     \<and> list_all prev_ok (hp_prev hp) \<and> list_all (\<lambda>d. length d = n) (hp_decoded hp)"

lemma list_all_update: "\<lbrakk>list_all P xs; P x\<rbrakk> \<Longrightarrow> list_all P (xs[i := x])"
  by (auto simp: list_all_iff dest: set_update_subset_insert [THEN subsetD])

lemma list_all_at: "\<lbrakk>list_all P xs; i < length xs\<rbrakk> \<Longrightarrow> P (xs ! i)"
  by (simp add: list_all_length)

definition streams_ok :: "host_shared \<Rightarrow> bool" where
  "streams_ok sh \<longleftrightarrow> shared_ok sh \<and> list_all (\<lambda>st. jb_wf (jb st)) (clients sh)"

text \<open>What the first stage leaves alone.\<close>

definition same_sends :: "('e, 'd) host_pipeline \<Rightarrow> ('e, 'd) host_pipeline \<Rightarrow> bool" where
  "same_sends hp' hp \<longleftrightarrow> hp_params hp' = hp_params hp \<and> hp_encoders hp' = hp_encoders hp \<and> hp_seqs hp' = hp_seqs hp
     \<and> hp_prev hp' = hp_prev hp \<and> hp_clock hp' = hp_clock hp \<and> hp_smoothers hp' = hp_smoothers hp
     \<and> hp_monitor_smoother hp' = hp_monitor_smoother hp"

definition same_controls :: "host_shared \<Rightarrow> host_shared \<Rightarrow> bool" where
  "same_controls sh' sh \<longleftrightarrow> hs_session_id sh' = hs_session_id sh \<and> gains sh' = gains sh \<and> muted sh' = muted sh
     \<and> soloed sh' = soloed sh \<and> hs_monitor_gain sh' = hs_monitor_gain sh \<and> hs_shutdown sh' = hs_shutdown sh
     \<and> map active (clients sh') = map active (clients sh) \<and> map last_rx_us (clients sh') = map last_rx_us (clients sh)"

lemma same_sends_trans: "\<lbrakk>same_sends a b; same_sends b c\<rbrakk> \<Longrightarrow> same_sends a c"
  by (simp add: same_sends_def)

lemma same_controls_trans: "\<lbrakk>same_controls a b; same_controls b c\<rbrakk> \<Longrightarrow> same_controls a c"
  by (simp add: same_controls_def)

lemma hp_pull_ok:
  assumes "media_ok lib" and "hp_ok n hp" and "streams_ok sh" and "c < MAX_CLIENTS"
  shows "\<exists>hp' sh'. hp_pull lib c (hp, sh) = Some (hp', sh') \<and> hp_ok n hp' \<and> streams_ok sh' \<and> same_sends hp' hp
    \<and> same_controls sh' sh \<and> hp_last_active hp' = (hp_last_active hp)[c := active (clients sh ! c)]"
proof -
  let ?on = "active (clients sh ! c)"
  have len: "c < length (hp_playouts hp)" "c < length (clients sh)" "c < length (hp_last_active hp)"
    using assms(2-4) by (simp_all add: hp_ok_def streams_ok_def shared_ok_def)
  have s0: "sp_ok (hp_playouts hp ! c)" "sp_frame (hp_playouts hp ! c) = n" and b0: "jb_wf (jb (clients sh ! c))"
    using assms(2,3) len list_all_at by (fastforce simp: hp_ok_def streams_ok_def)+
  obtain s1 where s1: "(if ?on \<and> \<not> hp_last_active hp ! c then reset_stream (hp_playouts hp ! c)
      else Some (hp_playouts hp ! c)) = Some s1" "sp_ok s1" "sp_frame s1 = n"
    using reset_stream_ok [OF s0(1)] s0 by (cases "?on \<and> \<not> hp_last_active hp ! c") auto
  let ?hp = "hp\<lparr>hp_playouts := (hp_playouts hp)[c := s1], hp_last_active := (hp_last_active hp)[c := ?on]\<rparr>"
  have hp: "hp_ok n ?hp" using assms(2) s1(2,3) by (simp add: hp_ok_def list_all_update)
  show ?thesis
  proof (cases ?on)
    case False
    with hp s1(1) assms(2,3) show ?thesis
      by (simp add: hp_pull_def hp_ok_def list_all_update same_sends_def same_controls_def)
  next
    case True
    from sp_tick_ok [OF assms(1) s1(2) b0] s1(3) obtain s2 b out live where
      t: "sp_tick lib s1 (jb (clients sh ! c)) = Some (s2, b, out, live)" "sp_ok s2" "jb_wf b" "sp_frame s2 = n" "length out = n"
      by (auto simp: tick_ok_def split: option.splits)
    have "map active ((clients sh)[c := (clients sh ! c)\<lparr>jb := b, level := l\<rparr>]) = map active (clients sh)"
      "map last_rx_us ((clients sh)[c := (clients sh ! c)\<lparr>jb := b, level := l\<rparr>]) = map last_rx_us (clients sh)" for l
      using len(2) by (simp_all add: list_eq_iff_nth_eq nth_list_update)
    with True hp s1(1) t assms(2,3) len show ?thesis
      by (simp add: hp_pull_def hp_ok_def list_all_update same_sends_def same_controls_def streams_ok_def
          upd_client_def shared_ok_def Let_def)
  qed
qed

lemma hp_pull_all:
  assumes "media_ok lib" and "hp_ok n hp" and "streams_ok sh"
  shows "k \<le> MAX_CLIENTS \<Longrightarrow> \<exists>hp' sh'. for_each (hp_pull lib) [0..<k] (hp, sh) = Some (hp', sh') \<and> hp_ok n hp'
    \<and> streams_ok sh' \<and> same_sends hp' hp \<and> same_controls sh' sh
    \<and> (\<forall>c < k. hp_last_active hp' ! c = active (clients sh ! c))"
proof (induction k)
  case 0
  with assms show ?case by (simp add: same_sends_def same_controls_def)
next
  case (Suc k)
  then obtain hp1 sh1 where p: "for_each (hp_pull lib) [0..<k] (hp, sh) = Some (hp1, sh1)" "hp_ok n hp1"
    "streams_ok sh1" "same_sends hp1 hp" "same_controls sh1 sh" "\<forall>c < k. hp_last_active hp1 ! c = active (clients sh ! c)"
    by auto
  from hp_pull_ok [OF assms(1) p(2,3), of k] Suc.prems obtain hp2 sh2 where
    q: "hp_pull lib k (hp1, sh1) = Some (hp2, sh2)" "hp_ok n hp2" "streams_ok sh2" "same_sends hp2 hp1"
    "same_controls sh2 sh1" "hp_last_active hp2 = (hp_last_active hp1)[k := active (clients sh1 ! k)]" by auto
  have "active (clients sh1 ! k) = active (clients sh ! k)"
  proof -
    have "k < length (clients sh1)" "k < length (clients sh)" using Suc.prems p(3) assms(3)
      by (simp_all add: streams_ok_def shared_ok_def)
    then show ?thesis using p(5) unfolding same_controls_def by (metis nth_map)
  qed
  moreover have "k < length (hp_last_active hp1)" using p(2) Suc.prems by (simp add: hp_ok_def)
  ultimately have "\<forall>c < Suc k. hp_last_active hp2 ! c = active (clients sh ! c)"
    using p(6) q(6) by (simp add: less_Suc_eq)
  moreover have "same_sends hp2 hp" "same_controls sh2 sh"
    by (rule same_sends_trans [OF q(4) p(4)], rule same_controls_trans [OF q(5) p(5)])
  ultimately show ?case using p(1) q(1-3) by (simp add: for_each_snoc del: upt_Suc)
qed

text \<open>The mix: the gain of a player in this frame, and the sum of some players.\<close>

definition player_gain :: "host_shared \<Rightarrow> nat \<Rightarrow> ('e, 'd) host_pipeline \<Rightarrow> real" where
  "player_gain sh p hp =
     snd (sg_next (gains sh ! p * (if in_mix sh p (any_solo sh) then 1 else 0)) (hp_smoothers hp ! p)) * MASTER_TRIM"

lemma hp_gain_eq:
  "\<exists>s. hp_gain sh (any_solo sh) p hp = (hp\<lparr>hp_smoothers := (hp_smoothers hp)[p := s]\<rparr>, player_gain sh p hp)"
  unfolding hp_gain_def player_gain_def case_prod_unfold by blast

definition mix_of :: "nat \<Rightarrow> (nat \<Rightarrow> real) \<Rightarrow> (nat \<Rightarrow> real list) \<Rightarrow> nat set \<Rightarrow> real list" where
  "mix_of n g f S = map (\<lambda>i. \<Sum>p\<in>S. f p ! i * g p) [0..<n]"

lemma length_mix_of [simp]: "length (mix_of n g f S) = n"
  by (simp add: mix_of_def)

lemma mix_of_insert:
  assumes "finite S" and "p \<notin> S" and "length (f p) = n"
  shows "add_buf (mix_of n g f S) (map (\<lambda>s. s * g p) (f p)) = mix_of n g f (insert p S)"
  using assms by (intro nth_equalityI) (simp_all add: mix_of_def nth_add_buf)

lemma mix_of_remove:
  assumes "finite S" and "p \<in> S" and "length (f p) = n"
  shows "unmix_scaled (mix_of n g f S) (map (\<lambda>s. s * g p) (f p)) 1 = mix_of n g f (S - {p})"
  using assms by (intro nth_equalityI) (simp_all add: mix_of_def nth_unmix sum_diff1)

lemma hp_mix_clients_spec:
  "\<lbrakk>k \<le> MAX_CLIENTS; hp_ok n hp; finite S; \<forall>c \<in> {k..<MAX_CLIENTS}. c + 1 \<notin> S \<and> g (c + 1) = player_gain sh (c + 1) hp
      \<and> f (c + 1) = hp_decoded hp ! c\<rbrakk> \<Longrightarrow>
   \<exists>sm. hp_mix_clients sh [k..<MAX_CLIENTS] hp (mix_of n g f S) scaled =
     (hp\<lparr>hp_smoothers := sm\<rparr>, mix_of n g f (S \<union> {c + 1 | c. k \<le> c \<and> c < MAX_CLIENTS \<and> hp_last_active hp ! c}),
      scaled @ map (\<lambda>c. map (\<lambda>s. s * g (c + 1)) (f (c + 1))) [k..<MAX_CLIENTS]) \<and> hp_ok n (hp\<lparr>hp_smoothers := sm\<rparr>)"
proof (induction "MAX_CLIENTS - k" arbitrary: k hp S scaled)
  case 0
  then have k: "k = MAX_CLIENTS" by simp
  have e: "S \<union> {c + 1 | c. k \<le> c \<and> c < MAX_CLIENTS \<and> hp_last_active hp ! c} = S" using k by auto
  show ?case unfolding e using 0 k by (intro exI [of _ "hp_smoothers hp"]) simp
next
  case (Suc m)
  then have k: "k < MAX_CLIENTS" by simp
  obtain sm1 where g: "hp_gain sh (any_solo sh) (k + 1) hp
      = (hp\<lparr>hp_smoothers := (hp_smoothers hp)[k + 1 := sm1]\<rparr>, player_gain sh (k + 1) hp)"
    using hp_gain_eq by blast
  define hp1 where "hp1 = hp\<lparr>hp_smoothers := (hp_smoothers hp)[k + 1 := sm1]\<rparr>"
  define S' where "S' = (if hp_last_active hp ! k then insert (k + 1) S else S)"
  define dst where "dst = map (\<lambda>s. s * g (k + 1)) (hp_decoded hp ! k)"
  have f: "f (k + 1) = hp_decoded hp ! k" "k + 1 \<notin> S" "player_gain sh (k + 1) hp = g (k + 1)" using Suc.prems(4) k by auto
  then have len: "length (f (k + 1)) = n" using Suc.prems(2) k list_all_at [of _ "hp_decoded hp" k]
    by (fastforce simp: hp_ok_def)
  have bus: "(if hp_last_active hp ! k then add_buf (mix_of n g f S) dst else mix_of n g f S) = mix_of n g f S'"
    using mix_of_insert [where p = "k + 1" and f = f and g = g, OF Suc.prems(3) f(2) len] f(1) by (simp add: S'_def dst_def)
  have m: "m = MAX_CLIENTS - Suc k" and fin: "finite S'" using Suc.hyps(2) Suc.prems(3) by (simp_all add: S'_def)
  have ok: "hp_ok n hp1" using Suc.prems(2) by (simp add: hp_ok_def hp1_def)
  have rest: "\<forall>c \<in> {Suc k..<MAX_CLIENTS}. c + 1 \<notin> S' \<and> g (c + 1) = player_gain sh (c + 1) hp1
      \<and> f (c + 1) = hp_decoded hp1 ! c"
    using Suc.prems(4) by (auto simp: player_gain_def S'_def hp1_def)
  from Suc.hyps(1) [OF m _ ok fin rest, of "scaled @ [dst]"] k obtain sm where
    r: "hp_mix_clients sh [Suc k..<MAX_CLIENTS] hp1 (mix_of n g f S') (scaled @ [dst]) =
     (hp1\<lparr>hp_smoothers := sm\<rparr>, mix_of n g f (S' \<union> {c + 1 | c. Suc k \<le> c \<and> c < MAX_CLIENTS \<and> hp_last_active hp1 ! c}),
      (scaled @ [dst]) @ map (\<lambda>c. map (\<lambda>s. s * g (c + 1)) (f (c + 1))) [Suc k..<MAX_CLIENTS])" "hp_ok n (hp1\<lparr>hp_smoothers := sm\<rparr>)"
    by auto
  have S: "S' \<union> {c + 1 | c. Suc k \<le> c \<and> c < MAX_CLIENTS \<and> hp_last_active hp1 ! c}
      = S \<union> {c + 1 | c. k \<le> c \<and> c < MAX_CLIENTS \<and> hp_last_active hp ! c}"
    using k by (auto simp: le_less Suc_le_eq S'_def hp1_def)
  have "[k..<MAX_CLIENTS] = k # [Suc k..<MAX_CLIENTS]" using k by (rule upt_conv_Cons)
  then have "hp_mix_clients sh [k..<MAX_CLIENTS] hp (mix_of n g f S) scaled
      = hp_mix_clients sh [Suc k..<MAX_CLIENTS] hp1 (mix_of n g f S') (scaled @ [dst])"
    using g bus [unfolded dst_def] f(3)
    by (cases "hp_last_active hp ! k") (simp_all add: hp1_def dst_def Let_def)
  moreover have "hp1\<lparr>hp_smoothers := sm\<rparr> = hp\<lparr>hp_smoothers := sm\<rparr>" by (simp add: hp1_def)
  moreover have "dst # map (\<lambda>c. map (\<lambda>s. s * g (c + 1)) (f (c + 1))) [Suc k..<MAX_CLIENTS]
      = map (\<lambda>c. map (\<lambda>s. s * g (c + 1)) (f (c + 1))) [k..<MAX_CLIENTS]"
    using k f(1) by (simp add: upt_conv_Cons dst_def)
  ultimately show ?case using r unfolding S by (intro exI [of _ sm]) simp
qed

text \<open>The sends. What goes out for slot \<open>c\<close> when the pipeline before the frame is \<open>hp\<close>.\<close>

definition slot_packet :: "('e, 'd) media_lib \<Rightarrow> u16 \<Rightarrow> real list \<Rightarrow> nat \<Rightarrow> ('e, 'd) host_pipeline \<Rightarrow> (u8 \<times> u8 list) list" where
  "slot_packet lib sid out c hp =
     (case snd (encode lib out MAX_FRAME_BYTES (hp_encoders hp ! c)) of
        Ok pl \<Rightarrow> [(of_nat c, packet_bytes sid HOST_SENDER_ID (fst (seq_next (hp_seqs hp ! c))) (hp_clock hp)
                    (ep_codec (hp_params hp)) pl (if redundancy (hp_params hp) then prev_get (hp_prev hp ! c) else None))]
      | _ \<Rightarrow> [])"

definition same_mix :: "('e, 'd) host_pipeline \<Rightarrow> ('e, 'd) host_pipeline \<Rightarrow> bool" where
  "same_mix hp' hp \<longleftrightarrow> hp_params hp' = hp_params hp \<and> hp_decoded hp' = hp_decoded hp \<and> hp_clock hp' = hp_clock hp
     \<and> hp_last_active hp' = hp_last_active hp \<and> hp_monitor_smoother hp' = hp_monitor_smoother hp"

definition same_sender :: "nat \<Rightarrow> ('e, 'd) host_pipeline \<Rightarrow> ('e, 'd) host_pipeline \<Rightarrow> bool" where
  "same_sender c hp' hp \<longleftrightarrow> hp_encoders hp' ! c = hp_encoders hp ! c \<and> hp_seqs hp' ! c = hp_seqs hp ! c
     \<and> hp_prev hp' ! c = hp_prev hp ! c"

lemma hp_send_ok:
  assumes "media_ok lib" and "packets_small lib" and "hp_ok n hp" and "c < MAX_CLIENTS" and "length bus = n"
  shows "\<exists>hp'. hp_send lib sid bus scaled c (hp, em) = Some (hp', em @
      (if hp_last_active hp ! c then slot_packet lib sid (hp_client_out bus scaled c hp) c hp else []))
    \<and> hp_ok n hp' \<and> same_mix hp' hp \<and> (\<forall>d. d \<noteq> c \<longrightarrow> same_sender d hp' hp)"
proof (cases "hp_last_active hp ! c")
  case False
  with assms(3) show ?thesis by (simp add: hp_send_def same_mix_def same_sender_def)
next
  case True
  let ?out = "hp_client_out bus scaled c hp"
  have idx: "c < length (hp_encoders hp)" "c < length (hp_decoded hp)" "c < length (hp_prev hp)" "c < length (hp_seqs hp)"
    using assms(3,4) by (simp_all add: hp_ok_def)
  have en: "encoder_ok (hp_encoders hp ! c)" "en_codec (hp_encoders hp ! c) = ep_codec (hp_params hp)" "length (hp_decoded hp ! c) = n" "prev_ok (hp_prev hp ! c)"
    using assms(3) idx list_all_at by (fastforce simp: hp_ok_def)+
  have len: "length ?out \<le> MAX_FRAME_SAMPLES"
    using assms(3,5) en(3) by (simp add: hp_client_out_def soft_clip_buf_def hp_ok_def)
  obtain e r where e: "encode lib ?out MAX_FRAME_BYTES (hp_encoders hp ! c) = (e, r)" by fastforce
  from encode_ok [OF assms(1) en(1) e] have eo: "encoder_ok e" "r \<noteq> Panic" "en_codec e = ep_codec (hp_params hp)" using en(2) by simp_all
  show ?thesis
  proof (cases r)
    case (Ok pl)
    have pl: "length pl \<le> MAX_PAYLOAD" by (rule encode_small [OF assms(2) len e [unfolded Ok]])
    let ?red = "if redundancy (hp_params hp) then prev_get (hp_prev hp ! c) else None"
    have red: "small ?red" using prev_get_small [OF en(4)] by simp
    obtain sq g where sq: "seq_next (hp_seqs hp ! c) = (sq, g)" by fastforce
    have "length (hp_dgram hp) = MAX_DATAGRAM" using assms(3) by (simp add: hp_ok_def)
    from write_audio_ok [OF this pl red, of sid HOST_SENDER_ID sq "hp_clock hp" "hp_params hp"] obtain d n' where
      d: "write_audio_datagram (hp_dgram hp) sid HOST_SENDER_ID sq (hp_clock hp) (hp_params hp) pl ?red = Some (d, n')"
      "length d = MAX_DATAGRAM" "take n' d = packet_bytes sid HOST_SENDER_ID sq (hp_clock hp) (ep_codec (hp_params hp)) pl ?red"
      by blast
    from prev_store_ok [OF en(4) pl] obtain pf where pf: "prev_store pl (hp_prev hp ! c) = Some pf" "prev_ok pf" by blast
    let ?hp = "hp\<lparr>hp_encoders := (hp_encoders hp)[c := e], hp_seqs := (hp_seqs hp)[c := g], hp_dgram := d,
      hp_prev := (hp_prev hp)[c := pf]\<rparr>"
    have "hp_send lib sid bus scaled c (hp, em) = Some (?hp, em @ [(of_nat c, take n' d)])"
      using True e Ok sq d(1) pf(1)
      by (cases "redundancy (hp_params hp)") (simp_all add: hp_send_def Let_def)
    moreover have "slot_packet lib sid ?out c hp = [(of_nat c, take n' d)]" using e Ok sq d(3) by (simp add: slot_packet_def)
    moreover have "hp_ok n ?hp" using assms(3) eo(1,3) d(2) pf(2) by (simp add: hp_ok_def list_all_update)
    ultimately show ?thesis using True by (simp add: same_mix_def same_sender_def)
  next
    case (Err err)
    with True e eo(1,3) assms(3) show ?thesis
      by (simp add: hp_send_def slot_packet_def hp_ok_def list_all_update same_mix_def same_sender_def)
  qed (use eo(2) in simp)
qed

lemma same_mix_trans: "\<lbrakk>same_mix a b; same_mix b c\<rbrakk> \<Longrightarrow> same_mix a c"
  by (simp add: same_mix_def)

lemma same_sender_trans: "\<lbrakk>same_sender d a b; same_sender d b c\<rbrakk> \<Longrightarrow> same_sender d a c"
  by (simp add: same_sender_def)

lemma hp_client_out_cong: "same_mix hp' hp \<Longrightarrow> hp_client_out bus scaled c hp' = hp_client_out bus scaled c hp"
  by (simp add: hp_client_out_def same_mix_def)

lemma slot_packet_cong: "\<lbrakk>same_mix hp' hp; same_sender c hp' hp\<rbrakk> \<Longrightarrow> slot_packet lib sid out c hp' = slot_packet lib sid out c hp"
  by (simp add: slot_packet_def same_mix_def same_sender_def cong: outcome.case_cong)

lemma hp_send_all:
  assumes "media_ok lib" and "packets_small lib" and "hp_ok n hp" and "length bus = n"
  shows "k \<le> MAX_CLIENTS \<Longrightarrow> \<exists>hp'. for_each (hp_send lib sid bus scaled) [0..<k] (hp, []) = Some (hp', concat
      (map (\<lambda>c. if hp_last_active hp ! c then slot_packet lib sid (hp_client_out bus scaled c hp) c hp else []) [0..<k]))
    \<and> hp_ok n hp' \<and> same_mix hp' hp \<and> (\<forall>d \<ge> k. same_sender d hp' hp)"
proof (induction k)
  case 0
  with assms show ?case by (simp add: same_mix_def same_sender_def)
next
  case (Suc k)
  let ?p = "\<lambda>hp c. if hp_last_active hp ! c then slot_packet lib sid (hp_client_out bus scaled c hp) c hp else []"
  from Suc obtain hp1 where p: "for_each (hp_send lib sid bus scaled) [0..<k] (hp, []) = Some (hp1, concat (map (?p hp) [0..<k]))"
    "hp_ok n hp1" "same_mix hp1 hp" "\<forall>d \<ge> k. same_sender d hp1 hp" by auto
  from hp_send_ok [OF assms(1,2) p(2) _ assms(4), of k sid scaled "concat (map (?p hp) [0..<k])"] Suc.prems obtain hp2 where
    q: "hp_send lib sid bus scaled k (hp1, concat (map (?p hp) [0..<k])) = Some (hp2, concat (map (?p hp) [0..<k]) @ ?p hp1 k)"
    "hp_ok n hp2" "same_mix hp2 hp1" "\<forall>d. d \<noteq> k \<longrightarrow> same_sender d hp2 hp1" by auto
  have "?p hp1 k = ?p hp k"
    using p(3,4) by (simp add: hp_client_out_cong slot_packet_cong) (simp add: same_mix_def)
  moreover have "same_mix hp2 hp" by (rule same_mix_trans [OF q(3) p(3)])
  moreover have "\<forall>d \<ge> Suc k. same_sender d hp2 hp"
  proof (intro allI impI)
    fix d assume "Suc k \<le> d"
    then show "same_sender d hp2 hp" using same_sender_trans [of d hp2 hp1 hp] q(4) p(4) by simp
  qed
  moreover have "for_each (hp_send lib sid bus scaled) [0..<Suc k] (hp, []) =
      Some (hp2, concat (map (?p hp) [0..<k]) @ ?p hp1 k)"
    unfolding for_each_snoc p(1) using q(1) by simp
  ultimately show ?case using q(2) by (intro exI [of _ hp2]) simp
qed

text \<open>The room: who is there, what they play and how loud.\<close>

definition room :: "host_shared \<Rightarrow> nat set" where
  "room sh = {p. p \<le> MAX_CLIENTS \<and> present sh p}"

definition player_frame :: "real list \<Rightarrow> ('e, 'd) host_pipeline \<Rightarrow> nat \<Rightarrow> real list" where
  "player_frame local_in hp p = (if p = 0 then local_in else hp_decoded hp ! (p - 1))"

lemma player_frame_cong: "hp_decoded hp' = hp_decoded hp \<Longrightarrow> player_frame local_in hp' = player_frame local_in hp"
  by (simp add: player_frame_def fun_eq_iff)

lemma room_eq:
  "\<forall>c < MAX_CLIENTS. la ! c = active (clients sh ! c) \<Longrightarrow>
   {0} \<union> {c + 1 | c. 0 \<le> c \<and> c < MAX_CLIENTS \<and> la ! c} = room sh"
proof -
  assume a: "\<forall>c < MAX_CLIENTS. la ! c = active (clients sh ! c)"
  have "p \<in> {0} \<union> {c + 1 | c. 0 \<le> c \<and> c < MAX_CLIENTS \<and> la ! c} \<longleftrightarrow> p \<in> room sh" for p
    using a by (cases p) (auto simp: room_def present_def)
  then show ?thesis by blast
qed

lemma finite_room [simp]: "finite (room sh)" and zero_in_room [simp]: "0 \<in> room sh"
  by (simp_all add: room_def present_def)

lemma same_controls_solo:
  assumes "same_controls sh' sh" and "shared_ok sh" and "shared_ok sh'"
  shows "any_solo sh' = any_solo sh \<and> in_mix sh' p b = in_mix sh p b"
proof -
  have act: "active (clients sh' ! i) = active (clients sh ! i)" if "i < MAX_CLIENTS" for i
    using assms that unfolding same_controls_def shared_ok_def by (metis nth_map)
  have l: "length (soloed sh) = Suc MAX_CLIENTS" "soloed sh' = soloed sh" "muted sh' = muted sh"
    using assms(1,2) by (simp_all add: shared_ok_def same_controls_def)
  have "present sh' q = present sh q" if "q \<le> MAX_CLIENTS" for q
    using act [of "q - 1"] that by (auto simp: present_def MAX_CLIENTS_def)
  then have "any_solo sh' = any_solo sh" unfolding any_solo_iff [OF assms(2)] any_solo_iff [OF assms(3)] l by blast
  with l show ?thesis by (simp add: in_mix_def)
qed

definition host_ear :: "host_shared \<Rightarrow> real list \<Rightarrow> nat \<Rightarrow> (nat \<Rightarrow> real) \<Rightarrow> (nat \<Rightarrow> real list) \<Rightarrow> ('e, 'd) host_pipeline \<Rightarrow> real list" where
  "host_ear sh local_in n g f hp =
     soft_clip_buf (case monitor (hp_params hp) of
         ThroughMix \<Rightarrow> mix_of n g f (room sh)
       | MonitorOff \<Rightarrow> mix_of n g f (room sh - {0})
       | Direct \<Rightarrow> mix_scaled (mix_of n g f (room sh - {0})) local_in
           (snd (sg_next (hs_monitor_gain sh) (hp_monitor_smoother hp))))"

lemma hp_hear_ok:
  assumes "hp_hear sh local_in scaled bus hp = (hp', out)" and "hp_ok n hp"
  shows "hp_ok n hp' \<and> hp_params hp' = hp_params hp \<and> hp_clock hp' = hp_clock hp \<and> hp_decoded hp' = hp_decoded hp
    \<and> hp_last_active hp' = hp_last_active hp \<and> hp_encoders hp' = hp_encoders hp \<and> hp_seqs hp' = hp_seqs hp \<and> hp_prev hp' = hp_prev hp"
  using assms by (auto simp: hp_hear_def hp_ok_def split: monitor_mode.splits prod.splits)

lemma hp_hear_out:
  assumes "hp_hear sh' local_in (map (\<lambda>s. s * g 0) (f 0)) (mix_of n g f (room sh)) hp' = (hp2, out)"
    and "length (f 0) = n" and "hp_params hp' = hp_params hp" and "hp_monitor_smoother hp' = hp_monitor_smoother hp"
    and "hs_monitor_gain sh' = hs_monitor_gain sh"
  shows "out = host_ear sh local_in n g f hp"
  using assms(1,3-5) mix_of_remove [where S = "room sh" and p = 0 and f = f and n = n and g = g] assms(2)
  by (auto simp: hp_hear_def host_ear_def split: monitor_mode.splits prod.splits)

lemma length_host_ear [simp]: "length (host_ear sh local_in n g f hp) = n"
  by (simp add: host_ear_def soft_clip_buf_def split: monitor_mode.split)

text \<open>The frame in three stages: the player's own bus, the room's bus, and what each slot is sent from it.\<close>

lemma hp_mix_local_spec:
  assumes "length local_in = n" and "hp_frame hp = n" and "player_gain sh 0 hp = g 0"
  obtains sm where "hp_mix_local sh local_in hp = (hp\<lparr>hp_smoothers := (hp_smoothers hp)[0 := sm]\<rparr>,
    map (\<lambda>s. s * g 0) local_in, mix_of n g (player_frame local_in hp) {0})"
proof -
  have "mix_of n g (player_frame local_in hp) {} = replicate n 0" by (simp add: mix_of_def map_replicate_const)
  then have "add_buf (replicate n 0) (map (\<lambda>s. s * g 0) local_in) = mix_of n g (player_frame local_in hp) {0}"
    using mix_of_insert [of "{}" 0 "player_frame local_in hp" n g] assms(1) by (simp add: player_frame_def)
  moreover obtain sm where "hp_gain sh (any_solo sh) 0 hp = (hp\<lparr>hp_smoothers := (hp_smoothers hp)[0 := sm]\<rparr>, player_gain sh 0 hp)"
    using hp_gain_eq by blast
  ultimately show ?thesis using that assms(2,3) by (simp add: hp_mix_local_def Let_def)
qed

lemma player_gain_other [simp]:
  "player_gain sh (Suc c) (hp\<lparr>hp_smoothers := (hp_smoothers hp)[0 := sm]\<rparr>) = player_gain sh (Suc c) hp"
  by (simp add: player_gain_def)

lemma hp_mix_room:
  assumes "hp_ok n hp" and "length local_in = n" and "\<forall>c < MAX_CLIENTS. hp_last_active hp ! c = active (clients sh ! c)"
    and "\<And>p. player_gain sh' p hp = g p"
  obtains hp' sm where
    "hp_mix_local sh' local_in hp = (hp', map (\<lambda>s. s * g 0) local_in, mix_of n g (player_frame local_in hp) {0})"
    "hp_mix_clients sh' [0..<MAX_CLIENTS] hp' (mix_of n g (player_frame local_in hp) {0}) [] =
      (hp\<lparr>hp_smoothers := sm\<rparr>, mix_of n g (player_frame local_in hp) (room sh),
       map (\<lambda>c. map (\<lambda>s. s * g (c + 1)) (hp_decoded hp ! c)) [0..<MAX_CLIENTS])"
    "hp_ok n (hp\<lparr>hp_smoothers := sm\<rparr>)"
proof -
  let ?f = "player_frame local_in hp"
  have fr: "hp_frame hp = n" using assms(1) by (simp add: hp_ok_def)
  obtain sm where m: "hp_mix_local sh' local_in hp = (hp\<lparr>hp_smoothers := (hp_smoothers hp)[0 := sm]\<rparr>,
      map (\<lambda>s. s * g 0) local_in, mix_of n g ?f {0})"
    using hp_mix_local_spec [OF assms(2) fr, of sh' g] assms(4) by blast
  let ?hp = "hp\<lparr>hp_smoothers := (hp_smoothers hp)[0 := sm]\<rparr>"
  have "hp_ok n ?hp" using assms(1) by (simp add: hp_ok_def)
  then obtain sm' where "hp_mix_clients sh' [0..<MAX_CLIENTS] ?hp (mix_of n g ?f {0}) [] =
      (?hp\<lparr>hp_smoothers := sm'\<rparr>, mix_of n g ?f (room sh),
       map (\<lambda>c. map (\<lambda>s. s * g (c + 1)) (?f (c + 1))) [0..<MAX_CLIENTS])" "hp_ok n (?hp\<lparr>hp_smoothers := sm'\<rparr>)"
    using hp_mix_clients_spec [of 0 n ?hp "{0}" g sh' ?f "[]"] room_eq [of "hp_last_active hp" sh, OF assms(3)] assms(4)
    by (auto simp: player_frame_def)
  with m that show ?thesis by (simp add: player_frame_def)
qed

text \<open>Mix-minus: a slot is sent the room without its own player (or its own voice, echoed).\<close>

lemma hp_client_out_spec:
  assumes "hp_ok n hp" and "c < MAX_CLIENTS" and "active (clients sh ! c)"
  shows "hp_client_out (mix_of n g (player_frame local_in hp) (room sh))
      (map (\<lambda>c. map (\<lambda>s. s * g (c + 1)) (hp_decoded hp ! c)) [0..<MAX_CLIENTS]) c hp =
    soft_clip_buf (if echo (hp_params hp) then hp_decoded hp ! c else mix_of n g (player_frame local_in hp) (room sh - {c + 1}))"
proof -
  have "length (player_frame local_in hp (c + 1)) = n" using assms(1,2) list_all_at [of _ "hp_decoded hp" c]
    by (fastforce simp: hp_ok_def player_frame_def)
  moreover have "c + 1 \<in> room sh" using assms(2,3) by (simp add: room_def present_def)
  ultimately show ?thesis
    using mix_of_remove [where S = "room sh" and p = "c + 1" and f = "player_frame local_in hp" and n = n and g = g] assms(2)
    by (simp add: hp_client_out_def player_frame_def)
qed

lemma host_frame_spec:
  assumes "media_ok lib" and "packets_small lib" and "hp_ok n hp" and "streams_ok sh" and "length local_in = n"
  shows "\<exists>hp' sh' out em. host_process_frame lib local_in hp sh = Some (hp', sh', out, em)
    \<and> hp_ok n hp' \<and> streams_ok sh' \<and> same_controls sh' sh \<and> hp_params hp' = hp_params hp
    \<and> hp_clock hp' = hp_clock hp + of_nat n
    \<and> out = host_ear sh local_in n (\<lambda>p. player_gain sh p hp) (player_frame local_in hp') hp
    \<and> em = concat (map (\<lambda>c. if active (clients sh ! c) then slot_packet lib (hs_session_id sh)
        (soft_clip_buf (if echo (hp_params hp) then hp_decoded hp' ! c
           else mix_of n (\<lambda>p. player_gain sh p hp) (player_frame local_in hp') (room sh - {c + 1}))) c hp else [])
        [0..<MAX_CLIENTS])"
proof -
  let ?g = "\<lambda>p. player_gain sh p hp"
  from hp_pull_all [OF assms(1,3,4), of MAX_CLIENTS] obtain hp1 sh1 where
    p: "for_each (hp_pull lib) [0..<MAX_CLIENTS] (hp, sh) = Some (hp1, sh1)" "hp_ok n hp1" "streams_ok sh1"
    "same_sends hp1 hp" "same_controls sh1 sh" "\<forall>c < MAX_CLIENTS. hp_last_active hp1 ! c = active (clients sh ! c)"
    by auto
  let ?bus = "mix_of n ?g (player_frame local_in hp1) (room sh)"
  let ?sc = "map (\<lambda>c. map (\<lambda>s. s * ?g (c + 1)) (hp_decoded hp1 ! c)) [0..<MAX_CLIENTS]"
  have sok: "shared_ok sh" "shared_ok sh1" using assms(4) p(3) by (simp_all add: streams_ok_def)
  have "player_gain sh1 q hp1 = ?g q" for q
    using same_controls_solo [OF p(5) sok] p(4,5) by (simp add: player_gain_def same_sends_def same_controls_def)
  from hp_mix_room [OF p(2) assms(5) p(6), of sh1 ?g, OF this] obtain hpl sm where
    m: "hp_mix_local sh1 local_in hp1 = (hpl, map (\<lambda>s. s * ?g 0) local_in, mix_of n ?g (player_frame local_in hp1) {0})"
    and c: "hp_mix_clients sh1 [0..<MAX_CLIENTS] hpl (mix_of n ?g (player_frame local_in hp1) {0}) [] =
      (hp1\<lparr>hp_smoothers := sm\<rparr>, ?bus, ?sc)" "hp_ok n (hp1\<lparr>hp_smoothers := sm\<rparr>)" by blast
  let ?hp2 = "hp1\<lparr>hp_smoothers := sm\<rparr>"
  let ?em = "map (\<lambda>c. if hp_last_active ?hp2 ! c then slot_packet lib (hs_session_id sh1)
        (hp_client_out ?bus ?sc c ?hp2) c ?hp2 else []) [0..<MAX_CLIENTS]"
  from hp_send_all [OF assms(1,2) c(2), where k = MAX_CLIENTS and bus = ?bus and sid = "hs_session_id sh1" and scaled = ?sc]
  obtain hp3 where s: "for_each (hp_send lib (hs_session_id sh1) ?bus ?sc) [0..<MAX_CLIENTS] (?hp2, []) = Some (hp3, concat ?em)"
    "hp_ok n hp3" "same_mix hp3 ?hp2" by auto
  obtain hp4 out where h: "hp_hear sh1 local_in (map (\<lambda>s. s * ?g 0) local_in) ?bus hp3 = (hp4, out)" by fastforce
  have h1: "hp_ok n hp4" "hp_params hp4 = hp_params hp" "hp_clock hp4 = hp_clock hp" "hp_decoded hp4 = hp_decoded hp1"
    using hp_hear_ok [OF h s(2)] s(3) p(4) by (simp_all add: same_mix_def same_sends_def)
  have out: "out = host_ear sh local_in n ?g (player_frame local_in hp1) hp"
    by (rule hp_hear_out [where f = "player_frame local_in hp1" and sh' = sh1 and hp' = hp3])
      (use h s(3) p(4,5) assms(5) in \<open>simp_all add: same_mix_def same_sends_def same_controls_def player_frame_def\<close>)
  have em: "?em = map (\<lambda>c. if active (clients sh ! c) then slot_packet lib (hs_session_id sh)
        (soft_clip_buf (if echo (hp_params hp) then hp_decoded hp1 ! c
           else mix_of n ?g (player_frame local_in hp1) (room sh - {c + 1}))) c hp else []) [0..<MAX_CLIENTS]"
  proof (rule map_cong [OF refl])
    fix c assume c': "c \<in> set [0..<MAX_CLIENTS]"
    have "hp_client_out ?bus ?sc c ?hp2 = soft_clip_buf (if echo (hp_params hp) then hp_decoded hp1 ! c
        else mix_of n ?g (player_frame local_in hp1) (room sh - {c + 1}))" if "active (clients sh ! c)"
      using hp_client_out_spec [OF c(2), of c sh ?g local_in] c' that p(4)
        player_frame_cong [of ?hp2 hp1 local_in] by (simp add: same_sends_def)
    with c' p(4-6) show "(if hp_last_active ?hp2 ! c then slot_packet lib (hs_session_id sh1) (hp_client_out ?bus ?sc c ?hp2) c ?hp2 else []) =
        (if active (clients sh ! c) then slot_packet lib (hs_session_id sh)
          (soft_clip_buf (if echo (hp_params hp) then hp_decoded hp1 ! c
             else mix_of n ?g (player_frame local_in hp1) (room sh - {c + 1}))) c hp else [])"
      by (simp add: slot_packet_def same_sends_def same_controls_def cong: outcome.case_cong)
  qed
  have fin: "host_process_frame lib local_in hp sh = Some (hp4\<lparr>hp_local_meter := meter_update local_in (hp_local_meter hp4),
      hp_clock := hp_clock hp4 + of_nat (hp_frame hp4)\<rparr>,
      sh1\<lparr>hs_local_level := meter_publish (meter_update local_in (hp_local_meter hp4)) (hs_local_level sh1)\<rparr>, out, concat ?em)"
    unfolding host_process_frame_def p(1) bind.simps prod.case m c(1) s(1) h by (simp add: Let_def)
  have pf: "player_frame local_in (hp4\<lparr>hp_local_meter := x, hp_clock := y\<rparr>) = player_frame local_in hp1" for x y
    by (rule player_frame_cong) (simp add: h1(4))
  have "streams_ok (sh1\<lparr>hs_local_level := x\<rparr>)" "same_controls (sh1\<lparr>hs_local_level := x\<rparr>) sh" for x
    using p(3,5) by (simp_all add: streams_ok_def shared_ok_def same_controls_def)
  moreover have "hp_ok n (hp4\<lparr>hp_local_meter := x, hp_clock := y\<rparr>)" "hp_frame hp4 = n" for x y
    using h1(1) by (simp_all add: hp_ok_def)
  ultimately show ?thesis unfolding fin em pf out using h1
    by (intro exI conjI) (rule refl, simp_all add: pf cong: if_cong)
qed

section \<open>The client frame\<close>

definition cp_ok :: "nat \<Rightarrow> ('e, 'd) client_pipeline \<Rightarrow> bool" where
  "cp_ok n cp \<longleftrightarrow> cp_frame cp = n \<and> n \<le> MAX_FRAME_SAMPLES \<and> sp_ok (cp_playout cp) \<and> sp_frame (cp_playout cp) = n
     \<and> encoder_ok (cp_encoder cp) \<and> en_codec (cp_encoder cp) = ep_codec (cp_params cp) \<and> prev_ok (cp_prev cp) \<and> length (cp_dgram cp) = MAX_DATAGRAM"

text \<open>What goes out when the pipeline before the frame is \<open>cp\<close>.\<close>

definition client_packet :: "('e, 'd) media_lib \<Rightarrow> client_shared \<Rightarrow> real list \<Rightarrow> ('e, 'd) client_pipeline \<Rightarrow> (u8 \<times> u8 list) list" where
  "client_packet lib sh local_in cp =
     (case snd (encode lib local_in MAX_FRAME_BYTES (cp_encoder cp)) of
        Ok pl \<Rightarrow> [(DEST_PEER, packet_bytes (cs_session_id sh) (cs_sender_id sh) (fst (seq_next (cp_seq cp))) (cp_clock cp)
                    (ep_codec (cp_params cp)) pl (if redundancy (cp_params cp) then prev_get (cp_prev cp) else None))]
      | _ \<Rightarrow> [])"

text \<open>The sequence number moves and the copy is kept exactly when a frame was encoded.\<close>

definition cp_sent :: "('e, 'd) media_lib \<Rightarrow> real list \<Rightarrow> ('e, 'd) client_pipeline \<Rightarrow> ('e, 'd) client_pipeline \<Rightarrow> bool" where
  "cp_sent lib local_in cp' cp \<longleftrightarrow>
     (case snd (encode lib local_in MAX_FRAME_BYTES (cp_encoder cp)) of
        Ok pl \<Rightarrow> cp_seq cp' = snd (seq_next (cp_seq cp)) \<and> prev_get (cp_prev cp') = (if pl = [] then None else Some pl)
      | _ \<Rightarrow> cp_seq cp' = cp_seq cp \<and> cp_prev cp' = cp_prev cp)"

definition same_path_of :: "('e, 'd) client_pipeline \<Rightarrow> ('e, 'd) client_pipeline \<Rightarrow> bool" where
  "same_path_of cp' cp \<longleftrightarrow> cp_params cp' = cp_params cp \<and> cp_clock cp' = cp_clock cp \<and> cp_playout cp' = cp_playout cp
     \<and> cp_master_smoother cp' = cp_master_smoother cp \<and> cp_monitor_smoother cp' = cp_monitor_smoother cp
     \<and> cp_was_joined cp' = cp_was_joined cp"

lemma cp_send_ok:
  assumes "media_ok lib" and "packets_small lib" and "cp_ok n cp" and "length local_in = n"
  shows "\<exists>cp'. cp_send lib sh local_in cp = Some (cp', client_packet lib sh local_in cp) \<and> cp_ok n cp'
    \<and> same_path_of cp' cp \<and> cp_sent lib local_in cp' cp"
proof -
  have en: "encoder_ok (cp_encoder cp)" "prev_ok (cp_prev cp)" "length local_in \<le> MAX_FRAME_SAMPLES"
    "en_codec (cp_encoder cp) = ep_codec (cp_params cp)"
    using assms(3,4) by (simp_all add: cp_ok_def)
  obtain e r where e: "encode lib local_in MAX_FRAME_BYTES (cp_encoder cp) = (e, r)" by fastforce
  from encode_ok [OF assms(1) en(1) e] have eo: "encoder_ok e" "r \<noteq> Panic" "en_codec e = ep_codec (cp_params cp)" using en(4) by simp_all
  show ?thesis
  proof (cases r)
    case (Ok pl)
    have pl: "length pl \<le> MAX_PAYLOAD" by (rule encode_small [OF assms(2) en(3) e [unfolded Ok]])
    let ?red = "if redundancy (cp_params cp) then prev_get (cp_prev cp) else None"
    have red: "small ?red" using prev_get_small [OF en(2)] by simp
    obtain sq g where sq: "seq_next (cp_seq cp) = (sq, g)" by fastforce
    have "length (cp_dgram cp) = MAX_DATAGRAM" using assms(3) by (simp add: cp_ok_def)
    from write_audio_ok [OF this pl red, of "cs_session_id sh" "cs_sender_id sh" sq "cp_clock cp" "cp_params cp"]
    obtain d n' where d: "write_audio_datagram (cp_dgram cp) (cs_session_id sh) (cs_sender_id sh) sq (cp_clock cp)
        (cp_params cp) pl ?red = Some (d, n')" "length d = MAX_DATAGRAM"
      "take n' d = packet_bytes (cs_session_id sh) (cs_sender_id sh) sq (cp_clock cp) (ep_codec (cp_params cp)) pl ?red"
      by blast
    from prev_store_ok [OF en(2) pl] obtain pf where pf: "prev_store pl (cp_prev cp) = Some pf" "prev_ok pf"
      "prev_get pf = (if pl = [] then None else Some pl)" by blast
    have "cp_send lib sh local_in cp = Some (cp\<lparr>cp_encoder := e, cp_seq := g, cp_dgram := d, cp_prev := pf\<rparr>,
        [(DEST_PEER, take n' d)])"
      using e Ok sq d(1) pf(1) by (cases "redundancy (cp_params cp)") (simp_all add: cp_send_def Let_def)
    moreover have "client_packet lib sh local_in cp = [(DEST_PEER, take n' d)]"
      using e Ok sq d(3) by (simp add: client_packet_def)
    ultimately show ?thesis using assms(3) eo(1,3) d(2) pf(2,3) e Ok sq by (simp add: cp_ok_def same_path_of_def cp_sent_def)
  next
    case (Err err)
    with e eo(1,3) assms(3) show ?thesis
      by (simp add: cp_send_def client_packet_def cp_ok_def same_path_of_def cp_sent_def)
  qed (use eo(2) in simp)
qed

lemma cp_hear_ok:
  assumes "cp_hear sh local_in decoded cp = (cp', out)" and "cp_ok n cp" and "length decoded = n"
  shows "cp_ok n cp' \<and> length out = n \<and> cp_params cp' = cp_params cp \<and> cp_clock cp' = cp_clock cp \<and> cp_seq cp' = cp_seq cp
    \<and> cp_prev cp' = cp_prev cp \<and> cp_was_joined cp' = cp_was_joined cp
    \<and> out = soft_clip_buf (let v = snd (sg_next (master_gain sh) (cp_master_smoother cp)); mix = map (\<lambda>s. s * v) decoded in
        if monitor (cp_params cp) = Direct
        then mix_scaled mix local_in (snd (sg_next (cs_monitor_gain sh) (cp_monitor_smoother cp))) else mix)"
  using assms by (auto simp: cp_hear_def cp_ok_def soft_clip_buf_def Let_def split: monitor_mode.splits prod.splits)

text \<open>What the player hears, given the frame that came back from the host.\<close>

definition client_ear :: "client_shared \<Rightarrow> real list \<Rightarrow> real list \<Rightarrow> ('e, 'd) client_pipeline \<Rightarrow> real list" where
  "client_ear sh local_in decoded cp =
     soft_clip_buf (let v = snd (sg_next (master_gain sh) (cp_master_smoother cp)); mix = map (\<lambda>s. s * v) decoded in
        if monitor (cp_params cp) = Direct
        then mix_scaled mix local_in (snd (sg_next (cs_monitor_gain sh) (cp_monitor_smoother cp))) else mix)"

lemma client_frame_spec:
  assumes "media_ok lib" and "packets_small lib" and "cp_ok n cp" and "jb_wf (jb (from_host sh))" and "length local_in = n"
  shows "\<exists>cp' sh' out em decoded. client_process_frame lib local_in cp sh = Some (cp', sh', out, em)
    \<and> cp_ok n cp' \<and> jb_wf (jb (from_host sh')) \<and> cp_params cp' = cp_params cp \<and> cp_clock cp' = cp_clock cp + of_nat n
    \<and> joined sh' = joined sh \<and> cs_session_id sh' = cs_session_id sh \<and> cs_sender_id sh' = cs_sender_id sh
    \<and> length decoded = n \<and> out = client_ear sh local_in decoded cp
    \<and> (if joined sh then em = client_packet lib sh local_in cp \<and> cp_sent lib local_in cp' cp
       else em = [] \<and> decoded = replicate n 0 \<and> cp_seq cp' = cp_seq cp \<and> cp_prev cp' = cp_prev cp
         \<and> jb (from_host sh') = jb (from_host sh))"
proof -
  have s0: "sp_ok (cp_playout cp)" "sp_frame (cp_playout cp) = n" using assms(3) by (simp_all add: cp_ok_def)
  obtain s1 where s1: "(if joined sh \<and> \<not> cp_was_joined cp then reset_stream (cp_playout cp) else Some (cp_playout cp)) = Some s1"
    "sp_ok s1" "sp_frame s1 = n"
    using reset_stream_ok [OF s0(1)] s0 by (cases "joined sh \<and> \<not> cp_was_joined cp") auto
  define cp1 where "cp1 = cp\<lparr>cp_playout := s1, cp_was_joined := joined sh\<rparr>"
  have cp1: "cp_ok n cp1" "client_packet lib sh local_in cp1 = client_packet lib sh local_in cp"
    "cp_sent lib local_in x cp1 = cp_sent lib local_in x cp" for x
    using assms(3) s1(2,3) by (simp_all add: cp1_def cp_ok_def client_packet_def cp_sent_def cong: outcome.case_cong)
  obtain cp2 em where c2: "(if joined sh then cp_send lib sh local_in cp1 else Some (cp1, [])) = Some (cp2, em)"
    "cp_ok n cp2" "same_path_of cp2 cp1"
    "if joined sh then em = client_packet lib sh local_in cp \<and> cp_sent lib local_in cp2 cp else em = [] \<and> cp2 = cp1"
    using cp_send_ok [OF assms(1,2) cp1(1) assms(5), of sh] cp1 by (cases "joined sh") (auto simp: same_path_of_def)
  have s2: "cp_playout cp2 = s1" "cp_frame cp2 = n" using c2(2,3) by (simp_all add: same_path_of_def cp1_def cp_ok_def)
  obtain s3 b decoded live where t: "(if joined sh then sp_tick lib (cp_playout cp2) (jb (from_host sh))
      else Some (cp_playout cp2, jb (from_host sh), replicate (cp_frame cp2) 0, False)) = Some (s3, b, decoded, live)"
    "sp_ok s3" "sp_frame s3 = n" "jb_wf b" "length decoded = n"
    "\<not> joined sh \<longrightarrow> decoded = replicate n 0 \<and> b = jb (from_host sh)"
    using sp_tick_ok [OF assms(1) s1(2) assms(4)] s1(2,3) s2 assms(4)
    by (cases "joined sh") (auto simp: tick_ok_def split: option.splits)
  define m where "m = meter_update decoded (cp_mix_meter cp2)"
  define sh2 where "sh2 = sh\<lparr>from_host := (from_host sh)\<lparr>jb := b, level := meter_publish m (level (from_host sh))\<rparr>\<rparr>"
  define cp3 where "cp3 = cp2\<lparr>cp_playout := s3, cp_mix_meter := m\<rparr>"
  have cp3: "cp_ok n cp3" using c2(2) t(2,3) by (simp add: cp3_def cp_ok_def)
  obtain cp4 out where h: "cp_hear sh2 local_in decoded cp3 = (cp4, out)" by fastforce
  note h1 = cp_hear_ok [OF h cp3 t(5)]
  have out: "out = client_ear sh local_in decoded cp"
    using h1 c2(3) by (simp add: client_ear_def sh2_def cp3_def same_path_of_def cp1_def Let_def cong: if_cong)
  have fin: "client_process_frame lib local_in cp sh = Some (cp4\<lparr>cp_local_meter := meter_update local_in (cp_local_meter cp4),
      cp_clock := cp_clock cp4 + of_nat (cp_frame cp4)\<rparr>,
      sh2\<lparr>cs_local_level := meter_publish (meter_update local_in (cp_local_meter cp4)) (cs_local_level sh2)\<rparr>, out, em)"
    unfolding client_process_frame_def s1(1) bind.simps cp1_def [symmetric] Let_def c2(1) prod.case t(1)
      m_def [symmetric] sh2_def [symmetric] cp3_def [symmetric] h by simp
  have "cp_sent lib local_in (cp4\<lparr>cp_local_meter := x, cp_clock := y\<rparr>) cp = cp_sent lib local_in cp2 cp" for x y
    using h1 by (simp add: cp_sent_def cp3_def cong: outcome.case_cong)
  note sent = this
  let ?cp = "cp4\<lparr>cp_local_meter := meter_update local_in (cp_local_meter cp4), cp_clock := cp_clock cp4 + of_nat (cp_frame cp4)\<rparr>"
  let ?sh = "sh2\<lparr>cs_local_level := meter_publish (meter_update local_in (cp_local_meter cp4)) (cs_local_level sh2)\<rparr>"
  have ok: "cp_ok n cp4" using h1 by blast
  then have fr: "cp_frame cp4 = n" by (simp add: cp_ok_def)
  from ok have "cp_ok n ?cp" by (simp add: cp_ok_def)
  with fr have cp: "cp_ok n ?cp" "cp_params ?cp = cp_params cp" "cp_clock ?cp = cp_clock cp + of_nat n"
    "cp_seq ?cp = cp_seq cp2" "cp_prev ?cp = cp_prev cp2"
    using h1 c2(3) by (simp_all add: cp3_def same_path_of_def cp1_def)
  have shr: "jb (from_host ?sh) = b" "joined ?sh = joined sh" "cs_session_id ?sh = cs_session_id sh"
    "cs_sender_id ?sh = cs_sender_id sh" by (simp_all add: sh2_def)
  show ?thesis
  proof (cases "joined sh")
    case True
    then show ?thesis unfolding fin using cp(1-3) shr t(4,5) out c2(4) sent
      by (intro exI [of _ ?cp] exI [of _ ?sh] exI [of _ out] exI [of _ em] exI [of _ decoded] conjI) simp_all
  next
    case False
    then have "cp_seq cp2 = cp_seq cp" "cp_prev cp2 = cp_prev cp" using c2(4) by (simp_all add: cp1_def)
    then show ?thesis unfolding fin using False cp shr t(4-6) out c2(4)
      by (intro exI [of _ ?cp] exI [of _ ?sh] exI [of _ out] exI [of _ em] exI [of _ decoded] conjI) simp_all
  qed
qed

section \<open>Frame after frame\<close>

text \<open>A pipeline in use: frames of the audio callback, and between them whatever the other threads
  make of the shared state.\<close>

datatype 'sh frame_event = Frame_In "real list" | Shared_Now 'sh

fun hp_step :: "('e, 'd) media_lib \<Rightarrow> host_shared frame_event \<Rightarrow> ('e, 'd) host_pipeline \<times> host_shared
    \<Rightarrow> (('e, 'd) host_pipeline \<times> host_shared) \<times> (real list \<times> (u8 \<times> u8 list) list) option list" where
  "hp_step lib (Frame_In local_in) (hp, sh) =
     (case host_process_frame lib local_in hp sh of
        None \<Rightarrow> ((hp, sh), [None])
      | Some (hp, sh, out, em) \<Rightarrow> ((hp, sh), [Some (out, em)]))"
| "hp_step lib (Shared_Now sh') (hp, sh) = ((hp, sh'), [])"

fun cp_step :: "('e, 'd) media_lib \<Rightarrow> client_shared frame_event \<Rightarrow> ('e, 'd) client_pipeline \<times> client_shared
    \<Rightarrow> (('e, 'd) client_pipeline \<times> client_shared) \<times> (real list \<times> (u8 \<times> u8 list) list) option list" where
  "cp_step lib (Frame_In local_in) (cp, sh) =
     (case client_process_frame lib local_in cp sh of
        None \<Rightarrow> ((cp, sh), [None])
      | Some (cp, sh, out, em) \<Rightarrow> ((cp, sh), [Some (out, em)]))"
| "cp_step lib (Shared_Now sh') (cp, sh) = ((cp, sh'), [])"

definition host_event_ok :: "nat \<Rightarrow> u16 \<Rightarrow> host_shared frame_event \<Rightarrow> bool" where
  "host_event_ok n sid e = (case e of Frame_In xs \<Rightarrow> length xs = n | Shared_Now sh \<Rightarrow> streams_ok sh \<and> hs_session_id sh = sid)"

definition client_event_ok :: "nat \<Rightarrow> client_shared frame_event \<Rightarrow> bool" where
  "client_event_ok n e = (case e of Frame_In xs \<Rightarrow> length xs = n | Shared_Now sh \<Rightarrow> jb_wf (jb (from_host sh)))"

definition host_frames :: "('e, 'd) media_lib \<Rightarrow> nat \<Rightarrow> u16 \<Rightarrow> ('e, 'd) host_pipeline \<times> host_shared \<Rightarrow> bool" where
  "host_frames lib n sid st \<longleftrightarrow> media_ok lib \<and> packets_small lib \<and> hp_ok n (fst st) \<and> streams_ok (snd st)
     \<and> hs_session_id (snd st) = sid"

definition client_frames :: "('e, 'd) media_lib \<Rightarrow> nat \<Rightarrow> ('e, 'd) client_pipeline \<times> client_shared \<Rightarrow> bool" where
  "client_frames lib n st \<longleftrightarrow> media_ok lib \<and> packets_small lib \<and> cp_ok n (fst st) \<and> jb_wf (jb (from_host (snd st)))"

text \<open>A frame that was played and sent: of the right length, within the clipper's range, every packet
  for a destination in \<open>D\<close>, small enough for the wire and read back as audio from a sender in \<open>H\<close>.\<close>

definition audio_from :: "(header \<Rightarrow> bool) \<Rightarrow> u8 list \<Rightarrow> bool" where
  "audio_from H bytes \<longleftrightarrow> length bytes \<le> MAX_DATAGRAM
     \<and> (case parse_datagram bytes of Ok (h, PAudio a) \<Rightarrow> ptype h = PT_Audio \<and> H h | _ \<Rightarrow> False)"

definition frame_done :: "nat \<Rightarrow> (u8 \<Rightarrow> bool) \<Rightarrow> (header \<Rightarrow> bool) \<Rightarrow> (real list \<times> (u8 \<times> u8 list) list) option \<Rightarrow> bool" where
  "frame_done n D H o' = (case o' of
       None \<Rightarrow> False
     | Some (out, em) \<Rightarrow> length out = n \<and> (\<forall>y \<in> set out. \<bar>y\<bar> \<le> 2 / 3) \<and> distinct (map fst em)
         \<and> (\<forall>(d, bytes) \<in> set em. D d \<and> audio_from H bytes))"

lemma clipped: "y \<in> set (soft_clip_buf xs) \<Longrightarrow> \<bar>y\<bar> \<le> 2 / 3"
proof -
  have "\<bar>soft_clip x\<bar> \<le> 2 / 3" for x using soft_clip_range [of x] by linarith
  then show "y \<in> set (soft_clip_buf xs) \<Longrightarrow> \<bar>y\<bar> \<le> 2 / 3" by (auto simp: soft_clip_buf_def)
qed

lemma audio_from_packet:
  "\<lbrakk>length pl \<le> MAX_PAYLOAD; small red; H \<lparr>ptype = PT_Audio, session_id = sid, sender_id = sender, hseq = sq\<rparr>\<rbrakk> \<Longrightarrow>
   audio_from H (packet_bytes sid sender sq ts c pl red)"
  by (simp add: audio_from_def length_packet_bytes parse_packet_bytes)

lemma slot_packet_ok:
  assumes "packets_small lib" and "hp_ok n hp" and "c < MAX_CLIENTS" and "length out = n"
    and "(d, bytes) \<in> set (slot_packet lib sid out c hp)"
  shows "d = of_nat c \<and> audio_from (\<lambda>h. session_id h = sid \<and> sender_id h = HOST_SENDER_ID) bytes"
proof -
  from assms(5) obtain pl where pl: "snd (encode lib out MAX_FRAME_BYTES (hp_encoders hp ! c)) = Ok pl"
    and b: "d = of_nat c" "bytes = packet_bytes sid HOST_SENDER_ID (fst (seq_next (hp_seqs hp ! c))) (hp_clock hp)
      (ep_codec (hp_params hp)) pl (if redundancy (hp_params hp) then prev_get (hp_prev hp ! c) else None)"
    by (cases "snd (encode lib out MAX_FRAME_BYTES (hp_encoders hp ! c))") (auto simp: slot_packet_def)
  have "length out \<le> MAX_FRAME_SAMPLES" "c < length (hp_prev hp)" using assms(2-4) by (simp_all add: hp_ok_def)
  moreover have "prev_ok (hp_prev hp ! c)" using assms(2) calculation(2) list_all_at by (fastforce simp: hp_ok_def)
  ultimately have "length pl \<le> MAX_PAYLOAD" "small (if redundancy (hp_params hp) then prev_get (hp_prev hp ! c) else None)"
    using encode_small [OF assms(1), of out MAX_FRAME_BYTES "hp_encoders hp ! c"] pl prev_get_small
    by (metis prod.collapse, simp)
  then show ?thesis unfolding b by (simp add: audio_from_packet)
qed

lemma client_packet_ok:
  assumes "packets_small lib" and "cp_ok n cp" and "length local_in = n"
    and "(d, bytes) \<in> set (client_packet lib sh local_in cp)"
  shows "d = DEST_PEER \<and> audio_from (\<lambda>h. True) bytes"
proof -
  from assms(4) obtain pl where pl: "snd (encode lib local_in MAX_FRAME_BYTES (cp_encoder cp)) = Ok pl"
    and b: "d = DEST_PEER" "bytes = packet_bytes (cs_session_id sh) (cs_sender_id sh) (fst (seq_next (cp_seq cp))) (cp_clock cp)
      (ep_codec (cp_params cp)) pl (if redundancy (cp_params cp) then prev_get (cp_prev cp) else None)"
    by (cases "snd (encode lib local_in MAX_FRAME_BYTES (cp_encoder cp))") (auto simp: client_packet_def)
  have "length local_in \<le> MAX_FRAME_SAMPLES" "prev_ok (cp_prev cp)" using assms(2,3) by (simp_all add: cp_ok_def)
  then have "length pl \<le> MAX_PAYLOAD" "small (if redundancy (cp_params cp) then prev_get (cp_prev cp) else None)"
    using encode_small [OF assms(1), of local_in MAX_FRAME_BYTES "cp_encoder cp"] pl prev_get_small
    by (metis prod.collapse, simp)
  then show ?thesis unfolding b by (simp add: audio_from_packet)
qed

lemma of_nat_slot: "\<lbrakk>c < MAX_CLIENTS; d < MAX_CLIENTS; (of_nat c :: u8) = of_nat d\<rbrakk> \<Longrightarrow> c = d"
  by (simp add: MAX_CLIENTS_def word_eq_iff_unsigned unat_of_nat word_unat_eq_iff)

text \<open>The destinations of one frame are the slots in order, each at most once.\<close>

lemma distinct_slots:
  assumes "\<And>c. c < MAX_CLIENTS \<Longrightarrow> map fst (F c) \<in> {[], [of_nat c :: u8]}"
  shows "k \<le> MAX_CLIENTS \<Longrightarrow> distinct (map fst (concat (map F [0..<k])))
    \<and> fst ` set (concat (map F [0..<k])) \<subseteq> of_nat ` {..<k}"
proof (induction k)
  case (Suc k)
  define X where "X = concat (map F [0..<k])"
  have ih: "distinct (map fst X)" "fst ` set X \<subseteq> of_nat ` {..<k}" using Suc by (simp_all add: X_def)
  have k: "k < MAX_CLIENTS" using Suc.prems by simp
  have "(of_nat k :: u8) \<notin> of_nat ` {..<k}"
  proof
    assume "(of_nat k :: u8) \<in> of_nat ` {..<k}"
    then obtain j where "j < k" "(of_nat k :: u8) = of_nat j" by blast
    with of_nat_slot [OF k, of j] k show False by simp
  qed
  with ih(2) have new: "(of_nat k :: u8) \<notin> fst ` set X" by blast
  have e: "concat (map F [0..<Suc k]) = X @ F k" by (simp add: X_def)
  have up: "(of_nat ` {..<Suc k} :: u8 set) = insert (of_nat k) (of_nat ` {..<k})" by (simp add: lessThan_Suc)
  from assms [OF k] consider "F k = []" | x where "F k = [x]" "fst x = of_nat k" by auto
  then show ?case
  proof cases
    case 1
    then show ?thesis unfolding e up using ih by (simp add: subset_insertI2)
  next
    case 2
    then show ?thesis unfolding e up using ih new by (simp add: subset_insertI2)
  qed
qed simp

lemma slot_packet_dest: "map fst (slot_packet lib sid out c hp) \<in> {[], [of_nat c]}"
  by (cases "snd (encode lib out MAX_FRAME_BYTES (hp_encoders hp ! c))") (simp_all add: slot_packet_def)

definition from_host_in :: "u16 \<Rightarrow> header \<Rightarrow> bool" where
  "from_host_in sid h \<longleftrightarrow> session_id h = sid \<and> sender_id h = HOST_SENDER_ID"

lemma host_frame_done:
  fixes lib :: "('e, 'd) media_lib"
  assumes "host_frames lib n sid (hp, sh)" and "length local_in = n"
  shows "\<exists>hp' sh' out em. host_process_frame lib local_in hp sh = Some (hp', sh', out, em)
    \<and> host_frames lib n sid (hp', sh') \<and> frame_done n (\<lambda>d. unat d < MAX_CLIENTS) (from_host_in sid) (Some (out, em))"
proof -
  have a: "media_ok lib" "packets_small lib" "hp_ok n hp" "streams_ok sh" "hs_session_id sh = sid"
    using assms(1) by (simp_all add: host_frames_def)
  define F where "F = (\<lambda>(hp' :: ('e, 'd) host_pipeline) c. if active (clients sh ! c) then slot_packet lib sid
        (soft_clip_buf (if echo (hp_params hp) then hp_decoded hp' ! c
           else mix_of n (\<lambda>p. player_gain sh p hp) (player_frame local_in hp') (room sh - {c + 1}))) c hp else [])"
  from host_frame_spec [OF a(1-4) assms(2)] obtain hp' sh' out em where
    f: "host_process_frame lib local_in hp sh = Some (hp', sh', out, em)" "hp_ok n hp'" "streams_ok sh'" "same_controls sh' sh"
    "out = host_ear sh local_in n (\<lambda>p. player_gain sh p hp) (player_frame local_in hp') hp"
    "em = concat (map (F hp') [0..<MAX_CLIENTS])"
    unfolding F_def a(5) by blast
  have len: "length (soft_clip_buf (if echo (hp_params hp) then hp_decoded hp' ! c
      else mix_of n (\<lambda>p. player_gain sh p hp) (player_frame local_in hp') (room sh - {c + 1}))) = n" if "c < MAX_CLIENTS" for c
    using f(2) that list_all_at [of _ "hp_decoded hp'" c] by (fastforce simp: soft_clip_buf_def hp_ok_def)
  have dest: "map fst (F hp' c) \<in> {[], [of_nat c]}" for c
    unfolding F_def by (cases "active (clients sh ! c)") (simp only: if_True slot_packet_dest, simp)
  have "unat d < MAX_CLIENTS \<and> audio_from (from_host_in sid) bytes" if "(d, bytes) \<in> set em" for d bytes
  proof -
    from that f(6) obtain c where c: "c < MAX_CLIENTS" "(d, bytes) \<in> set (F hp' c)" by auto
    then have m: "(d, bytes) \<in> set (slot_packet lib sid (soft_clip_buf (if echo (hp_params hp) then hp_decoded hp' ! c
        else mix_of n (\<lambda>p. player_gain sh p hp) (player_frame local_in hp') (room sh - {c + 1}))) c hp)"
      by (simp add: F_def split: if_splits)
    from slot_packet_ok [OF a(2,3) c(1) len [OF c(1)] m] c(1) show ?thesis
      by (auto simp: from_host_in_def [abs_def] MAX_CLIENTS_def unat_of_nat)
  qed
  moreover have ear: "length out = n" "\<forall>y \<in> set out. \<bar>y\<bar> \<le> 2 / 3"
    unfolding f(5) by simp (unfold host_ear_def, use clipped in blast)
  ultimately have "frame_done n (\<lambda>d. unat d < MAX_CLIENTS) (from_host_in sid) (Some (out, em))"
    using distinct_slots [of "F hp'" MAX_CLIENTS, OF dest] f(6) ear by (auto simp: frame_done_def)
  moreover have "host_frames lib n sid (hp', sh')" using a f(2-4) by (simp add: host_frames_def same_controls_def)
  ultimately show ?thesis using f(1) by blast
qed

lemma client_frame_done:
  assumes "client_frames lib n (cp, sh)" and "length local_in = n"
  shows "\<exists>cp' sh' out em. client_process_frame lib local_in cp sh = Some (cp', sh', out, em)
    \<and> client_frames lib n (cp', sh') \<and> frame_done n (\<lambda>d. d = DEST_PEER) (\<lambda>h. True) (Some (out, em))"
proof -
  have a: "media_ok lib" "packets_small lib" "cp_ok n cp" "jb_wf (jb (from_host sh))"
    using assms(1) by (simp_all add: client_frames_def)
  from client_frame_spec [OF a assms(2)] obtain cp' sh' out em decoded where
    f: "client_process_frame lib local_in cp sh = Some (cp', sh', out, em)" "cp_ok n cp'" "jb_wf (jb (from_host sh'))"
    "length decoded = n" "out = client_ear sh local_in decoded cp"
    "em = client_packet lib sh local_in cp \<or> em = []" by metis
  have "distinct (map fst em)" using f(6)
    by (cases "snd (encode lib local_in MAX_FRAME_BYTES (cp_encoder cp))") (auto simp: client_packet_def)
  moreover have "\<forall>(d, bytes) \<in> set em. d = DEST_PEER \<and> audio_from (\<lambda>h. True) bytes"
    using f(6) client_packet_ok [OF a(2,3) assms(2)] by fastforce
  moreover have "length out = n \<and> (\<forall>y \<in> set out. \<bar>y\<bar> \<le> 2 / 3)"
    using f(4,5) clipped by (auto simp: client_ear_def soft_clip_buf_def Let_def)
  ultimately show ?thesis using f(1-3) a by (simp add: frame_done_def client_frames_def)
qed

interpretation host_audio: event_machine "hp_step lib" "host_event_ok n sid" "host_frames lib n sid"
  "frame_done n (\<lambda>d. unat d < MAX_CLIENTS) (from_host_in sid)"
proof unfold_locales
  fix e st a
  assume ok: "host_event_ok n sid e" and inv: "host_frames lib n sid st"
  obtain hp sh where st: "st = (hp, sh)" by fastforce
  have "host_frames lib n sid (fst (hp_step lib e st))
    \<and> (\<forall>a \<in> set (snd (hp_step lib e st)). frame_done n (\<lambda>d. unat d < MAX_CLIENTS) (from_host_in sid) a)"
  proof (cases e)
    case (Frame_In xs)
    with ok have "length xs = n" by (simp add: host_event_ok_def)
    from host_frame_done [OF inv [unfolded st] this] Frame_In show ?thesis by (auto simp: st)
  next
    case (Shared_Now sh')
    with ok inv show ?thesis by (simp add: st host_event_ok_def host_frames_def)
  qed
  then show "host_frames lib n sid (fst (hp_step lib e st))"
    "a \<in> set (snd (hp_step lib e st)) \<Longrightarrow> frame_done n (\<lambda>d. unat d < MAX_CLIENTS) (from_host_in sid) a" by blast+
qed

interpretation client_audio: event_machine "cp_step lib" "client_event_ok n" "client_frames lib n"
  "frame_done n (\<lambda>d. d = DEST_PEER) (\<lambda>h. True)"
proof unfold_locales
  fix e st a
  assume ok: "client_event_ok n e" and inv: "client_frames lib n st"
  obtain cp sh where st: "st = (cp, sh)" by fastforce
  have "client_frames lib n (fst (cp_step lib e st))
    \<and> (\<forall>a \<in> set (snd (cp_step lib e st)). frame_done n (\<lambda>d. d = DEST_PEER) (\<lambda>h. True) a)"
  proof (cases e)
    case (Frame_In xs)
    with ok have "length xs = n" by (simp add: client_event_ok_def)
    from client_frame_done [OF inv [unfolded st] this] Frame_In show ?thesis by (auto simp: st)
  next
    case (Shared_Now sh')
    with ok inv show ?thesis by (simp add: st client_event_ok_def client_frames_def)
  qed
  then show "client_frames lib n (fst (cp_step lib e st))"
    "a \<in> set (snd (cp_step lib e st)) \<Longrightarrow> frame_done n (\<lambda>d. d = DEST_PEER) (\<lambda>h. True) a" by blast+
qed

text \<open>What construction gives.\<close>

lemma host_new_ok:
  assumes "host_pipeline_new lib p = Some hp" and "5 \<le> ep_frame_samples p" and "ep_frame_samples p \<le> MAX_FRAME_SAMPLES"
  shows "hp_ok (ep_frame_samples p) hp"
proof -
  obtain s en where s: "playout_new lib p = Some s" "encoder_new lib (ep_codec p) (ep_sample_rate p) (bitrate_bps p) = Some en"
    using assms(1) by (auto simp: host_pipeline_new_def Let_def split: option.splits)
  have "sp_ok s" "sp_frame s = ep_frame_samples p" "encoder_ok en" "en_codec en = ep_codec p"
    using playout_new_ok [OF s(1) assms(2,3)] s(1) encoder_new_ok [OF s(2)] s(2)
    by (auto simp: playout_new_def Let_def encoder_new_def split: codec.splits)
  with assms s show ?thesis
    by (auto simp: host_pipeline_new_def Let_def hp_ok_def list_all_length)
qed

lemma client_new_ok:
  assumes "client_pipeline_new lib p = Some cp" and "5 \<le> ep_frame_samples p" and "ep_frame_samples p \<le> MAX_FRAME_SAMPLES"
  shows "cp_ok (ep_frame_samples p) cp"
proof -
  obtain s en where s: "playout_new lib p = Some s" "encoder_new lib (ep_codec p) (ep_sample_rate p) (bitrate_bps p) = Some en"
    using assms(1) by (auto simp: client_pipeline_new_def Let_def split: option.splits)
  have "sp_ok s" "sp_frame s = ep_frame_samples p" "encoder_ok en" "en_codec en = ep_codec p"
    using playout_new_ok [OF s(1) assms(2,3)] s(1) encoder_new_ok [OF s(2)] s(2)
    by (auto simp: playout_new_def Let_def encoder_new_def split: codec.splits)
  with assms s show ?thesis
    by (auto simp: client_pipeline_new_def Let_def cp_ok_def)
qed

text \<open>The premises the properties share: a codec that keeps to its contract, frames the engine accepts.\<close>

definition audio_setup :: "('e, 'd) media_lib \<Rightarrow> engine_params \<Rightarrow> bool" where
  "audio_setup lib p \<longleftrightarrow> media_ok lib \<and> packets_small lib \<and> 5 \<le> ep_frame_samples p \<and> ep_frame_samples p \<le> MAX_FRAME_SAMPLES"

lemma silent_setup: "audio_setup silent_lib (engine_params_default\<lparr>redundancy := r, ep_codec := c, echo := e\<rparr>)"
  using silent_lib_ok
  by (simp add: audio_setup_def packets_small_def silent_lib_def MAX_PAYLOAD_def engine_params_default_def MAX_FRAME_SAMPLES_def)

text \<open>C9: the audio callback never fails. On the host and on a client, over any run of captured frames
  and of changes the other threads make to the shared state, no frame panics or hangs; each
  yields one frame of the right length within the clipper's range, and every packet it emits,
  at most one for each active slot or for the host, fits a datagram and is read back by the parser as
  audio (from the host, in its session).\<close>

theorem audio_callback_safe:
  assumes "audio_setup lib p" and "host_pipeline_new lib p = Some hp" and "client_pipeline_new lib p = Some cp"
    and "\<forall>e \<in> set hes. host_event_ok (ep_frame_samples p) sid e"
    and "\<forall>e \<in> set ces. client_event_ok (ep_frame_samples p) e"
  shows "(\<forall>o' \<in> set (snd (run (hp_step lib) hes (hp, host_shared_new sid))).
       frame_done (ep_frame_samples p) (\<lambda>d. unat d < MAX_CLIENTS) (from_host_in sid) o')
    \<and> (\<forall>o' \<in> set (snd (run (cp_step lib) ces (cp, client_shared_default))).
       frame_done (ep_frame_samples p) (\<lambda>d. d = DEST_PEER) (\<lambda>h. True) o')"
proof -
  note a = assms(1) [unfolded audio_setup_def]
  have jb: "jb_wf jb_new" using jb_new_rel by (simp add: jb_rel_def)
  have "host_frames lib (ep_frame_samples p) sid (hp, host_shared_new sid)"
    using a host_new_ok [OF assms(2)] jb
    by (simp add: host_frames_def streams_ok_def) (simp add: host_shared_new_def list_all_length stream_default_def)
  moreover have "client_frames lib (ep_frame_samples p) (cp, client_shared_default)"
    using a client_new_ok [OF assms(3)] jb by (simp add: client_frames_def client_shared_default_def stream_default_def)
  ultimately show ?thesis
    using host_audio.run_out [OF assms(4)] client_audio.run_out [OF assms(5)] by blast
qed

lemma silent_pipelines:
  "\<exists>hp cp. host_pipeline_new silent_lib (engine_params_default\<lparr>redundancy := r, ep_codec := c, echo := e\<rparr>) = Some hp
     \<and> client_pipeline_new silent_lib (engine_params_default\<lparr>redundancy := r, ep_codec := c, echo := e\<rparr>) = Some cp"
  by (cases c) (simp_all add: host_pipeline_new_def client_pipeline_new_def Let_def playout_new_def decoder_new_def
      encoder_new_def silent_lib_def engine_params_default_def)

definition ex_params :: engine_params where
  "ex_params = engine_params_default\<lparr>redundancy := True, ep_codec := PcmS16, echo := False\<rparr>"

lemma ex_params_simps [simp]:
  "ep_frame_samples ex_params = 120" "ep_codec ex_params = PcmS16" "redundancy ex_params" "\<not> echo ex_params"
  by (simp_all add: ex_params_def engine_params_default_def)

definition ex_jam :: host_shared where
  "ex_jam = upd_client 2 (\<lambda>st. st\<lparr>active := True\<rparr>) (upd_client 0 (\<lambda>st. st\<lparr>active := True\<rparr>) (host_shared_new 7))"

lemma ex_jam_ok: "streams_ok ex_jam \<and> hs_session_id ex_jam = 7"
proof -
  have "jb_wf jb_new" using jb_new_rel by (simp add: jb_rel_def)
  then show ?thesis
    by (simp add: ex_jam_def streams_ok_def upd_client_def host_shared_new_def stream_default_def MAX_CLIENTS_def
        eval_nat_numeral shared_ok_def)
qed

lemma audio_callback_safe_witness:
  "\<exists>hp cp. host_pipeline_new silent_lib ex_params = Some hp \<and> client_pipeline_new silent_lib ex_params = Some cp
     \<and> list_all (\<lambda>o'. o' \<noteq> None) (snd (run (hp_step silent_lib)
          [Frame_In (replicate 120 1), Shared_Now ex_jam, Frame_In (replicate 120 (1 / 2))] (hp, host_shared_new 7)))
     \<and> list_all (\<lambda>o'. o' \<noteq> None) (snd (run (cp_step silent_lib)
          [Frame_In (replicate 120 1), Shared_Now (client_shared_default\<lparr>joined := True\<rparr>), Frame_In (replicate 120 0)]
          (cp, client_shared_default)))"
proof -
  obtain hp cp where n: "host_pipeline_new silent_lib ex_params = Some hp" "client_pipeline_new silent_lib ex_params = Some cp"
    using silent_pipelines [where r = True and c = PcmS16 and e = False] unfolding ex_params_def by blast
  have s: "audio_setup silent_lib ex_params" unfolding ex_params_def by (rule silent_setup)
  have "jb_wf jb_new" using jb_new_rel by (simp add: jb_rel_def)
  then have e: "\<forall>e \<in> set [Frame_In (replicate 120 1), Shared_Now ex_jam, Frame_In (replicate 120 (1 / 2))].
      host_event_ok (ep_frame_samples ex_params) 7 e"
    "\<forall>e \<in> set [Frame_In (replicate 120 1), Shared_Now (client_shared_default\<lparr>joined := True\<rparr>), Frame_In (replicate 120 0)].
      client_event_ok (ep_frame_samples ex_params) e"
    using ex_jam_ok by (simp_all add: host_event_ok_def client_event_ok_def client_shared_default_def stream_default_def)
  have "frame_done k D H o' \<Longrightarrow> o' \<noteq> None" for k D H o' by (cases o') (simp_all add: frame_done_def)
  with audio_callback_safe [OF s n e] n show ?thesis unfolding list_all_iff by blast
qed

text \<open>C3: mix minus self. Whatever happened before, the host hears and sends in one frame: to the client in
  an active slot, when it encodes, one packet whose samples are the clipped sum of every other player
  who is there, each at his gain, and never his own (or, in echo mode, his own samples alone);
  to itself the sum with or without its own input, as the monitor mode says. No other slot is sent
  anything. The packet carries the session, the next sequence number of that slot, the sample clock,
  and with redundancy the frame sent before.\<close>

theorem host_mix_minus_self:
  assumes "audio_setup lib p" and "host_pipeline_new lib p = Some hp0" and "n = ep_frame_samples p"
    and "\<forall>e \<in> set es. host_event_ok n sid e" and "fst (run (hp_step lib) es (hp0, host_shared_new sid)) = (hp, sh)"
    and "length local_in = n"
    and "host_process_frame lib local_in hp sh = Some (hp', sh', out, em)"
  shows "out = host_ear sh local_in n (\<lambda>p. player_gain sh p hp) (player_frame local_in hp') hp
    \<and> em = concat (map (\<lambda>c. if active (clients sh ! c) then slot_packet lib sid
        (soft_clip_buf (if echo (hp_params hp) then hp_decoded hp' ! c
           else mix_of n (\<lambda>p. player_gain sh p hp) (player_frame local_in hp') (room sh - {c + 1}))) c hp else [])
        [0..<MAX_CLIENTS])"
proof -
  note a = assms(1) [unfolded audio_setup_def]
  have jb: "jb_wf jb_new" using jb_new_rel by (simp add: jb_rel_def)
  have "host_frames lib n sid (hp0, host_shared_new sid)"
    using a host_new_ok [OF assms(2)] jb assms(3)
    by (simp add: host_frames_def streams_ok_def) (simp add: host_shared_new_def list_all_length stream_default_def)
  from host_audio.run_inv [OF assms(4) this] have "host_frames lib n sid (hp, sh)" unfolding assms(5) .
  then have f: "media_ok lib" "packets_small lib" "hp_ok n hp" "streams_ok sh" "hs_session_id sh = sid"
    by (simp_all add: host_frames_def)
  from host_frame_spec [OF f(1-4) assms(6)] assms(7) f(5) show ?thesis by auto
qed

lemma ex_host_encoders:
  "host_pipeline_new silent_lib ex_params = Some hp \<Longrightarrow> hp_ok 120 hp \<and> hp_params hp = ex_params
     \<and> (\<forall>c < MAX_CLIENTS. hp_encoders hp ! c = \<lparr>en_codec = PcmS16, en_opus = None\<rparr>)"
  using host_new_ok [of silent_lib ex_params hp]
  by (auto simp: host_pipeline_new_def Let_def encoder_new_def MAX_FRAME_SAMPLES_def split: option.splits)

lemma host_mix_minus_self_witness:
  "\<exists>hp hp' sh' out em. host_pipeline_new silent_lib ex_params = Some hp
     \<and> host_process_frame silent_lib (replicate 120 (1 / 2)) hp ex_jam = Some (hp', sh', out, em)
     \<and> map fst em = [0, 2]
     \<and> out = host_ear ex_jam (replicate 120 (1 / 2)) 120 (\<lambda>p. player_gain ex_jam p hp)
         (player_frame (replicate 120 (1 / 2)) hp') hp"
proof -
  obtain hp where n: "host_pipeline_new silent_lib ex_params = Some hp"
    using silent_pipelines [where r = True and c = PcmS16 and e = False] unfolding ex_params_def by blast
  note en = ex_host_encoders [OF n]
  have s: "audio_setup silent_lib ex_params" unfolding ex_params_def by (rule silent_setup)
  let ?x = "replicate 120 (1 / 2) :: real list"
  have fr: "host_frames silent_lib 120 7 (hp, ex_jam)"
    using s en ex_jam_ok by (simp add: host_frames_def audio_setup_def)
  from host_frame_done [OF this, of ?x] obtain hp' sh' out em where
    r: "host_process_frame silent_lib ?x hp ex_jam = Some (hp', sh', out, em)" "host_frames silent_lib 120 7 (hp', sh')" by auto
  have e: "\<forall>e \<in> set [Shared_Now ex_jam]. host_event_ok 120 7 e"
    "fst (run (hp_step silent_lib) [Shared_Now ex_jam] (hp, host_shared_new 7)) = (hp, ex_jam)"
    using ex_jam_ok by (simp_all add: host_event_ok_def)
  from host_mix_minus_self [OF s n _ e _ r(1)] have out: "out = host_ear ex_jam ?x 120
      (\<lambda>p. player_gain ex_jam p hp) (player_frame ?x hp') hp"
    and em: "em = concat (map (\<lambda>c. if active (clients ex_jam ! c) then slot_packet silent_lib 7
        (soft_clip_buf (if echo (hp_params hp) then hp_decoded hp' ! c
           else mix_of 120 (\<lambda>p. player_gain ex_jam p hp) (player_frame ?x hp') (room ex_jam - {c + 1}))) c hp else [])
        [0..<MAX_CLIENTS])" by simp_all
  have "map fst (slot_packet silent_lib 7 (soft_clip_buf (mix_of 120 g f S)) c hp) = [of_nat c]" if "c < MAX_CLIENTS" for c g f S
    using en that by (simp add: slot_packet_def encode_def soft_clip_buf_def MAX_FRAME_BYTES_def)
  then have m: "map fst em = [0, 2]" unfolding em using en
    by (simp add: ex_jam_def upd_client_def host_shared_new_def stream_default_def MAX_CLIENTS_def upt_rec
        eval_nat_numeral)
  show ?thesis by (intro exI conjI) (rule n, rule r(1), rule m, rule out)
qed

section \<open>What a client sends\<close>

lemma client_packet_parse:
  assumes "packets_small lib" and "cp_ok n cp" and "length local_in = n" and "client_packet lib sh local_in cp = [(d, bytes)]"
    and "parse_datagram bytes = Ok (h, PAudio a)"
  shows "h = \<lparr>ptype = PT_Audio, session_id = cs_session_id sh, sender_id = cs_sender_id sh, hseq = fst (seq_next (cp_seq cp))\<rparr>
    \<and> snd (encode lib local_in MAX_FRAME_BYTES (cp_encoder cp)) = Ok (payload a) \<and> d = DEST_PEER
    \<and> a = \<lparr>timestamp = cp_clock cp, acodec = ep_codec (cp_params cp), payload = payload a,
           redundant = (if redundancy (cp_params cp) then prev_get (cp_prev cp) else None)\<rparr>"
proof -
  from assms(4) obtain pl where pl: "snd (encode lib local_in MAX_FRAME_BYTES (cp_encoder cp)) = Ok pl"
    and b: "d = DEST_PEER" "bytes = packet_bytes (cs_session_id sh) (cs_sender_id sh) (fst (seq_next (cp_seq cp))) (cp_clock cp)
      (ep_codec (cp_params cp)) pl (if redundancy (cp_params cp) then prev_get (cp_prev cp) else None)"
    by (cases "snd (encode lib local_in MAX_FRAME_BYTES (cp_encoder cp))") (auto simp: client_packet_def)
  have "length local_in \<le> MAX_FRAME_SAMPLES" "prev_ok (cp_prev cp)" using assms(2,3) by (simp_all add: cp_ok_def)
  then have "length pl \<le> MAX_PAYLOAD" "small (if redundancy (cp_params cp) then prev_get (cp_prev cp) else None)"
    using encode_small [OF assms(1), of local_in MAX_FRAME_BYTES "cp_encoder cp"] pl prev_get_small
    by (metis prod.collapse, simp)
  with assms(5) pl show ?thesis unfolding b by (auto simp: parse_packet_bytes)
qed

lemma seq_next_next: "fst (seq_next (snd (seq_next g))) = fst (seq_next g) + 1"
  by (cases g) simp_all

text \<open>The redundant copy is the packet before it. When a client sends two frames in a row with
  redundancy on, the receiver that pushes the second packet and its copy pushes exactly the
  sequence number, the timestamp and the bytes of the first packet again.\<close>

theorem redundant_copy_is_previous_packet:
  assumes "media_ok lib" and "packets_small lib" and "cp_ok n cp" and "jb_wf (jb (from_host sh))" and "jb_wf (jb (from_host sh2))"
    and "length x = n" and "length y = n" and "redundancy (cp_params cp)"
    and "client_process_frame lib x cp sh = Some (cp1, sh1, out1, [(d1, bytes1)])"
    and "client_process_frame lib y cp1 sh2 = Some (cp2, sh3, out2, [(d2, bytes2)])"
    and "parse_datagram bytes1 = Ok (h1, PAudio a1)" and "parse_datagram bytes2 = Ok (h2, PAudio a2)"
    and "payload a1 \<noteq> []"
  shows "push_audio n h2 a2 b
    = fst (jb_push (hseq h1) (timestamp a1) (payload a1) (fst (jb_push (hseq h2) (timestamp a2) (payload a2) b)))"
proof -
  from client_frame_spec [OF assms(1-4,6)] assms(9) have
    f1: "cp_ok n cp1" "cp_params cp1 = cp_params cp" "cp_clock cp1 = cp_clock cp + of_nat n"
    "client_packet lib sh x cp = [(d1, bytes1)]" "cp_sent lib x cp1 cp"
    by (auto split: if_splits)
  from client_frame_spec [OF assms(1,2) f1(1) assms(5,7)] assms(10) have f2: "client_packet lib sh2 y cp1 = [(d2, bytes2)]"
    by (auto split: if_splits)
  note p1 = client_packet_parse [OF assms(2,3,6) f1(4) assms(11)]
  note p2 = client_packet_parse [OF assms(2) f1(1) assms(7) f2 assms(12)]
  have sent: "cp_seq cp1 = snd (seq_next (cp_seq cp))" "prev_get (cp_prev cp1) = Some (payload a1)"
    using f1(5) p1 assms(13) by (simp_all add: cp_sent_def)
  have "hseq h1 = fst (seq_next (cp_seq cp))" "timestamp a1 = cp_clock cp" using p1 by (metis header.select_convs(4), metis audio_packet.select_convs(1))
  moreover have "hseq h2 = fst (seq_next (cp_seq cp1))" "timestamp a2 = cp_clock cp1" "redundant a2 = prev_get (cp_prev cp1)"
    using p2 assms(8) f1(2) by (metis header.select_convs(4), metis audio_packet.select_convs(1), metis audio_packet.select_convs(4))
  ultimately show ?thesis using sent f1(3) by (simp add: push_audio_def Let_def seq_next_next)
qed

lemma redundant_copy_is_previous_packet_witness:
  "\<exists>cp cp1 cp2 sh1 sh3 out1 out2 bytes1 bytes2 h1 h2 a1 a2. client_pipeline_new silent_lib ex_params = Some cp
     \<and> client_process_frame silent_lib (replicate 120 0) cp (client_shared_default\<lparr>joined := True\<rparr>)
         = Some (cp1, sh1, out1, [(DEST_PEER, bytes1)])
     \<and> client_process_frame silent_lib (replicate 120 0) cp1 (client_shared_default\<lparr>joined := True\<rparr>)
         = Some (cp2, sh3, out2, [(DEST_PEER, bytes2)])
     \<and> parse_datagram bytes1 = Ok (h1, PAudio a1) \<and> parse_datagram bytes2 = Ok (h2, PAudio a2)
     \<and> push_audio 120 h2 a2 jb_new
         = fst (jb_push (hseq h1) (timestamp a1) (payload a1) (fst (jb_push (hseq h2) (timestamp a2) (payload a2) jb_new)))"
proof -
  obtain cp where n: "client_pipeline_new silent_lib ex_params = Some cp"
    using silent_pipelines [where r = True and c = PcmS16 and e = False] unfolding ex_params_def by blast
  let ?x = "replicate 120 0 :: real list" and ?sh = "client_shared_default\<lparr>joined := True\<rparr>"
  have s: "audio_setup silent_lib ex_params" unfolding ex_params_def by (rule silent_setup)
  then have lib: "media_ok silent_lib" "packets_small silent_lib" by (simp_all add: audio_setup_def)
  have cp: "cp_ok 120 cp" "cp_params cp = ex_params"
    using client_new_ok [OF n] n by (auto simp: MAX_FRAME_SAMPLES_def client_pipeline_new_def Let_def split: option.splits)
  have "jb_wf jb_new" using jb_new_rel by (simp add: jb_rel_def)
  then have b: "jb_wf (jb (from_host ?sh))" by (simp add: client_shared_default_def stream_default_def)
  have packet: "\<exists>bytes h a. client_packet silent_lib ?sh ?x c = [(DEST_PEER, bytes)] \<and> parse_datagram bytes = Ok (h, PAudio a)
      \<and> payload a \<noteq> []" if "cp_ok 120 c" "cp_params c = ex_params" for c
  proof -
    have "en_codec (cp_encoder c) = PcmS16" using that by (simp add: cp_ok_def)
    then obtain pl where pl: "snd (encode silent_lib ?x MAX_FRAME_BYTES (cp_encoder c)) = Ok pl" "length pl = 240"
      by (simp add: encode_def MAX_FRAME_BYTES_def length_concat_le del: map_replicate)
    moreover have "small (if redundancy ex_params then prev_get (cp_prev c) else None)" "length pl \<le> MAX_PAYLOAD"
      using that prev_get_small pl(2) by (simp_all add: cp_ok_def MAX_PAYLOAD_def)
    ultimately show ?thesis using that(2) by (auto simp: client_packet_def parse_packet_bytes)
  qed
  obtain cp1 sh1 out1 bytes1 h1 a1 where f1: "client_process_frame silent_lib ?x cp ?sh = Some (cp1, sh1, out1, [(DEST_PEER, bytes1)])"
    "parse_datagram bytes1 = Ok (h1, PAudio a1)" "payload a1 \<noteq> []" "cp_ok 120 cp1" "cp_params cp1 = ex_params"
    using client_frame_spec [OF lib cp(1) b, of ?x] packet [OF cp] cp(2) by auto
  obtain cp2 sh3 out2 bytes2 h2 a2 where f2: "client_process_frame silent_lib ?x cp1 ?sh = Some (cp2, sh3, out2, [(DEST_PEER, bytes2)])"
    "parse_datagram bytes2 = Ok (h2, PAudio a2)"
    using client_frame_spec [OF lib f1(4) b, of ?x] packet [OF f1(4,5)] by auto
  have red: "redundancy (cp_params cp)" using cp(2) by simp
  note r = redundant_copy_is_previous_packet [OF lib cp(1) b b _ _ red f1(1) f2(1) f1(2) f2(2) f1(3), of jb_new]
  show ?thesis
    by (intro exI conjI) (rule n, rule f1(1), rule f2(1), rule f1(2), rule f2(2), rule r, simp_all)
qed

section \<open>The packet that is due\<close>

lemma due_pops:
  assumes rel: "jb_rel b (Some st)" and miss: "s_frames st (s_next st) = None"
    and win: "\<bar>s_newest st - s_next st\<bar> \<le> 32000" and h: "hseq h = word_of_int (s_next st)"
    and len: "length (payload a) \<le> MAX_FRAME_BYTES"
  shows "snd (run jb_step [EvPop] (push_audio frame h a b)) = [OPopped (Some (payload a, timestamp a))]"
proof (cases "redundant a")
  case None
  let ?es = "[EvPush (s_next st) (timestamp a) (payload a), EvPop]"
  have "snd (run stream_step ?es (Some st)) = [OPushed Stored, OPopped (Some (payload a, timestamp a))]
      \<and> allowed in_window stream_step ?es (Some st)"
    using miss len win by (auto simp: not_less put_frame_def abs_le_iff)
  then have "snd (run jb_step (map (map_jb_event word_of_int) ?es) b) = [OPushed Stored, OPopped (Some (payload a, timestamp a))]"
    using jitter.run_sim [OF rel, of ?es] by (simp only: simp_thms)
  then show ?thesis using None by (simp add: push_audio_def h case_prod_unfold)
next
  case (Some red)
  let ?es = "[EvPush (s_next st) (timestamp a) (payload a), EvPush (s_next st - 1) (timestamp a - of_nat frame) red, EvPop]"
  have "\<exists>o'. snd (run stream_step ?es (Some st)) = [OPushed Stored, o', OPopped (Some (payload a, timestamp a))]
      \<and> allowed in_window stream_step ?es (Some st)"
    using miss len win by (auto simp: not_less put_frame_def abs_le_iff)
  then obtain o' where "snd (run jb_step (map (map_jb_event word_of_int) ?es) b)
      = [OPushed Stored, o', OPopped (Some (payload a, timestamp a))]"
    using jitter.run_sim [OF rel, of ?es] by auto
  then show ?thesis using Some by (simp add: push_audio_def h case_prod_unfold Let_def)
qed

end
