(* ===== verification/Engine_Audio.thy ===== *)
theory Engine_Audio
  imports Pipeline
begin

text \<open>
  The sound card callbacks of \<open>crates/jam-core/src/engine.rs\<close>: the input callback puts channel 0 into
  the capture ring, the output callback asks the pipeline for frames until it can fill the block the
  device wants and copies each sample to every channel. The lock-free rings (\<open>rtrb\<close>) and the
  conversion between \<open>f32\<close> and the device's sample format are parameters.
\<close>

section \<open>Rings between threads\<close>

record ('a, 'r) ring_lib =
  rb_new :: "nat \<Rightarrow> 'r"
  rb_push :: "'a \<Rightarrow> 'r \<Rightarrow> 'r \<times> bool"
  rb_pop :: "'r \<Rightarrow> 'r \<times> 'a option"
  rb_slots :: "'r \<Rightarrow> nat"

text \<open>The documented behaviour of \<open>rtrb\<close>: a FIFO queue of fixed capacity that refuses an element when it
  is full; \<open>els\<close> reads the elements of a ring, oldest first, and \<open>room_of\<close> its capacity.\<close>

definition ring_ok :: "('a, 'r) ring_lib \<Rightarrow> ('r \<Rightarrow> 'a list) \<Rightarrow> ('r \<Rightarrow> nat) \<Rightarrow> bool" where
  "ring_ok R els room_of \<longleftrightarrow>
     (\<forall>n. els (rb_new R n) = [] \<and> room_of (rb_new R n) = n)
     \<and> (\<forall>x r. els (fst (rb_push R x r)) = (if length (els r) < room_of r then els r @ [x] else els r)
          \<and> room_of (fst (rb_push R x r)) = room_of r)
     \<and> (\<forall>r. els (fst (rb_pop R r)) = tl (els r) \<and> room_of (fst (rb_pop R r)) = room_of r
          \<and> snd (rb_pop R r) = (if els r = [] then None else Some (hd (els r))))
     \<and> (\<forall>r. rb_slots R r = length (els r))"

section \<open>The input callback\<close>

text \<open>\<open>data.chunks_exact(n)\<close> for a positive \<open>n\<close>: an incomplete last chunk is left out.\<close>

function chunks_exact :: "nat \<Rightarrow> 'a list \<Rightarrow> 'a list list" where
  "chunks_exact n xs = (if n = 0 \<or> length xs < n then [] else take n xs # chunks_exact n (drop n xs))"
  by pat_completeness auto

termination by (relation "measure (\<lambda>(n, xs). length xs)") auto

declare chunks_exact.simps [simp del]

definition capture_callback :: "('a, 'r) ring_lib \<Rightarrow> ('t \<Rightarrow> 'a) \<Rightarrow> nat \<Rightarrow> 't list \<Rightarrow> 'r \<Rightarrow> 'r option" where
  "capture_callback R from_sample channels data r =
     (if channels = 0 then None
      else Some (fold (\<lambda>frame r. fst (rb_push R (from_sample (frame ! 0)) r)) (chunks_exact channels data) r))"

section \<open>The output callback\<close>

text \<open>\<open>process\<close> makes the next frame, or panics; \<open>'p\<close> is what the closure owns.\<close>

record ('a, 'p) out_state =
  oc_pending :: "'a sample_fifo"
  oc_frame_buf :: "'a list"
  oc_process :: 'p

definition out_new :: "nat \<Rightarrow> 'p \<Rightarrow> ('a::zero, 'p) out_state" where
  "out_new n p = \<lparr>oc_pending = fifo_new (n * 16 + 65536),
     oc_frame_buf = replicate n 0, oc_process = p\<rparr>"

text \<open>\<open>while pending.len() < needed\<close>\<close>

partial_function (option) fill_pending :: "('p \<Rightarrow> ('p \<times> 'a list) option) \<Rightarrow> nat \<Rightarrow> ('a, 'p) out_state
    \<Rightarrow> ('a, 'p) out_state option" where
  "fill_pending process needed s =
     (if sf_len (oc_pending s) < needed
      then Option.bind (process (oc_process s)) (\<lambda>r.
           Option.bind (fifo_push (snd r) (oc_pending s)) (\<lambda>q.
           fill_pending process needed (s\<lparr>oc_process := fst r, oc_frame_buf := snd r, oc_pending := fst q\<rparr>)))
      else Some s)"

text \<open>Each sample goes to all channels of its place in the block.\<close>

definition fan_out :: "nat \<Rightarrow> ('a \<Rightarrow> 't) \<Rightarrow> nat \<Rightarrow> 'a list \<Rightarrow> 't list \<Rightarrow> 't list option" where
  "fan_out channels to_sample written samples data =
     for_each (\<lambda>(k, smp) data.
         let base = (written + k) * channels; v = to_sample smp
         in for_each (\<lambda>ch data. set_at (base + ch) v data) [0..<channels] data)
       (enumerate 0 samples) data"

text \<open>\<open>while written < needed\<close>\<close>

partial_function (option) drain_out :: "nat \<Rightarrow> ('a \<Rightarrow> 't) \<Rightarrow> nat \<Rightarrow> nat \<Rightarrow> ('a, 'p) out_state \<times> 't list
    \<Rightarrow> (('a, 'p) out_state \<times> 't list) option" where
  "drain_out channels to_sample needed written sd =
     (if written < needed
      then let s = fst sd; n = min (needed - written) (length (oc_frame_buf s)) in
           Option.bind (fifo_pop n (oc_pending s)) (\<lambda>q.
           let buf = (case snd q of Some xs \<Rightarrow> xs @ drop n (oc_frame_buf s) | None \<Rightarrow> oc_frame_buf s) in
           Option.bind (fan_out channels to_sample written (take n buf) (snd sd)) (\<lambda>data.
           drain_out channels to_sample needed (written + n) (s\<lparr>oc_pending := fst q, oc_frame_buf := buf\<rparr>, data)))
      else Some sd)"

definition output_callback :: "('p \<Rightarrow> ('p \<times> 'a list) option) \<Rightarrow> nat \<Rightarrow> ('a \<Rightarrow> 't) \<Rightarrow> 't list \<Rightarrow> ('a, 'p) out_state
    \<Rightarrow> (('a, 'p) out_state \<times> 't list) option" where
  "output_callback process channels to_sample data s =
     (if channels = 0 then None
      else let needed = length data div channels
           in Option.bind (fill_pending process needed s) (\<lambda>s. drain_out channels to_sample needed 0 (s, data)))"

section \<open>What the closures do for one frame\<close>

text \<open>\<open>while cap_cons.slots() > drift_cap\<close>\<close>

partial_function (option) drop_oldest :: "('a, 'r) ring_lib \<Rightarrow> nat \<Rightarrow> 'r \<Rightarrow> 'r option" where
  "drop_oldest R drift_cap r =
     (if drift_cap < rb_slots R r then drop_oldest R drift_cap (fst (rb_pop R r)) else Some r)"

text \<open>\<open>for x in local_in.iter_mut()\<close>: one \<open>pop().unwrap_or(0.0)\<close> for each sample.\<close>

fun pop_samples :: "('a::zero, 'r) ring_lib \<Rightarrow> nat \<Rightarrow> 'r \<Rightarrow> 'a list \<times> 'r" where
  "pop_samples R 0 r = ([], r)"
| "pop_samples R (Suc n) r =
     (case rb_pop R r of (r, x) \<Rightarrow> case pop_samples R n r of (xs, r) \<Rightarrow> ((case x of Some v \<Rightarrow> v | None \<Rightarrow> 0) # xs, r))"

text \<open>The captured frame, or \<open>None\<close> when the ring holds too few samples.\<close>

definition capture_frame :: "('a::zero, 'r) ring_lib \<Rightarrow> nat \<Rightarrow> nat \<Rightarrow> 'r \<Rightarrow> ('a list option \<times> 'r) option" where
  "capture_frame R frame drift_cap r =
     Option.bind (drop_oldest R drift_cap r) (\<lambda>r.
     if frame \<le> rb_slots R r then (case pop_samples R frame r of (xs, r) \<Rightarrow> Some (Some xs, r))
     else Some (None, r))"

text \<open>\<open>let _ = tx.push(TxItem::new(dest, bytes))\<close>\<close>

definition tx_enqueue :: "(tx_item, 'q) ring_lib \<Rightarrow> u8 \<times> u8 list \<Rightarrow> 'q \<Rightarrow> 'q option" where
  "tx_enqueue Q packet q =
     Option.bind (tx_item_new (fst packet) (snd packet)) (\<lambda>item. Some (fst (rb_push Q item q)))"

record ('pl, 'sh, 'r, 'q) jam_audio =
  ja_pipeline :: 'pl
  ja_shared :: 'sh
  ja_capture :: 'r
  ja_tx :: 'q

definition drift_cap_of :: "nat \<Rightarrow> u32 \<Rightarrow> nat" where
  "drift_cap_of frame hw_buffer = max (frame * 4) (unat hw_buffer * 2)"

definition host_frame :: "('e, 'd) media_lib \<Rightarrow> (real, 'r) ring_lib \<Rightarrow> (tx_item, 'q) ring_lib \<Rightarrow> nat \<Rightarrow> u32
    \<Rightarrow> (('e, 'd) host_pipeline, host_shared, 'r, 'q) jam_audio
    \<Rightarrow> ((('e, 'd) host_pipeline, host_shared, 'r, 'q) jam_audio \<times> real list) option" where
  "host_frame lib R Q frame hw_buffer s =
     Option.bind (capture_frame R frame (drift_cap_of frame hw_buffer) (ja_capture s)) (\<lambda>(captured, r).
     let local_in = (case captured of Some xs \<Rightarrow> xs | None \<Rightarrow> replicate frame 0);
         sh = (case captured of Some _ \<Rightarrow> ja_shared s
               | None \<Rightarrow> (ja_shared s)\<lparr>hs_capture_starved := hs_capture_starved (ja_shared s) + 1\<rparr>) in
     Option.bind (host_process_frame lib local_in (ja_pipeline s) sh) (\<lambda>(hp, sh, out, emitted).
     Option.bind (for_each (tx_enqueue Q) emitted (ja_tx s)) (\<lambda>q.
     Some (\<lparr>ja_pipeline = hp, ja_shared = sh, ja_capture = r, ja_tx = q\<rparr>, out))))"

definition client_frame :: "('e, 'd) media_lib \<Rightarrow> (real, 'r) ring_lib \<Rightarrow> (tx_item, 'q) ring_lib \<Rightarrow> nat \<Rightarrow> u32
    \<Rightarrow> (('e, 'd) client_pipeline, client_shared, 'r, 'q) jam_audio
    \<Rightarrow> ((('e, 'd) client_pipeline, client_shared, 'r, 'q) jam_audio \<times> real list) option" where
  "client_frame lib R Q frame hw_buffer s =
     Option.bind (capture_frame R frame (drift_cap_of frame hw_buffer) (ja_capture s)) (\<lambda>(captured, r).
     let local_in = (case captured of Some xs \<Rightarrow> xs | None \<Rightarrow> replicate frame 0);
         sh = (case captured of Some _ \<Rightarrow> ja_shared s
               | None \<Rightarrow> (ja_shared s)\<lparr>cs_capture_starved := cs_capture_starved (ja_shared s) + 1\<rparr>) in
     Option.bind (client_process_frame lib local_in (ja_pipeline s) sh) (\<lambda>(cp, sh, out, emitted).
     Option.bind (for_each (tx_enqueue Q) emitted (ja_tx s)) (\<lambda>q.
     Some (\<lparr>ja_pipeline = cp, ja_shared = sh, ja_capture = r, ja_tx = q\<rparr>, out))))"

text \<open>\<open>start_host_audio\<close> and \<open>start_client_audio\<close>: what the output closure starts with. An encoder or
  decoder that libopus refuses is \<open>None\<close>.\<close>

definition host_audio_new :: "('e, 'd) media_lib \<Rightarrow> (real, 'r) ring_lib \<Rightarrow> engine_params \<Rightarrow> host_shared \<Rightarrow> 'q
    \<Rightarrow> (('e, 'd) host_pipeline, host_shared, 'r, 'q) jam_audio option" where
  "host_audio_new lib R p sh tx =
     Option.bind (host_pipeline_new lib p) (\<lambda>hp.
     Some \<lparr>ja_pipeline = hp, ja_shared = sh, ja_capture = rb_new R (unat (ep_sample_rate p) div 4), ja_tx = tx\<rparr>)"

definition client_audio_new :: "('e, 'd) media_lib \<Rightarrow> (real, 'r) ring_lib \<Rightarrow> engine_params \<Rightarrow> client_shared \<Rightarrow> 'q
    \<Rightarrow> (('e, 'd) client_pipeline, client_shared, 'r, 'q) jam_audio option" where
  "client_audio_new lib R p sh tx =
     Option.bind (client_pipeline_new lib p) (\<lambda>cp.
     Some \<lparr>ja_pipeline = cp, ja_shared = sh, ja_capture = rb_new R (unat (ep_sample_rate p) div 4), ja_tx = tx\<rparr>)"

section \<open>The block is filled\<close>

lemma fan_sample:
  "base + channels \<le> length data \<Longrightarrow>
   for_each (\<lambda>ch data. set_at (base + ch) v data) [0..<channels] data = copy_at base (replicate channels v) data"
proof (induction channels)
  case 0
  then show ?case by (simp add: copy_at_def)
next
  case (Suc k)
  then show ?case
    using copy_at_append [of base "replicate k v" data "[v]"]
    by (simp add: for_each_snoc set_at_copy_at replicate_append_same del: upt_Suc replicate_Suc)
      (simp add: replicate_app_Cons_same)
qed

definition spread :: "nat \<Rightarrow> ('a \<Rightarrow> 't) \<Rightarrow> 'a list \<Rightarrow> 't list" where
  "spread channels f smps = concat (map (\<lambda>x. replicate channels (f x)) smps)"

lemma length_spread [simp]: "length (spread channels f smps) = length smps * channels"
  by (simp add: spread_def length_concat sum_list_triv o_def)

lemma spread_append: "spread channels f (xs @ ys) = spread channels f xs @ spread channels f ys"
  by (simp add: spread_def)

lemma for_each_one: "for_each f [x] = f x"
  by (rule ext) (simp add: bind_option_cong)

lemma fan_out_copies:
  "(w + length smps) * channels \<le> length data \<Longrightarrow>
   fan_out channels f w smps data = copy_at (w * channels) (spread channels f smps) data"
proof (induction smps rule: rev_induct)
  case Nil
  then show ?case by (simp add: fan_out_def spread_def copy_at_def)
next
  case (snoc x xs)
  let ?u = "spread channels f xs"
  have fits: "(w + length xs) * channels + channels \<le> length data" using snoc.prems by (simp add: algebra_simps)
  then have le: "(w + length xs) * channels \<le> length data" by simp
  from snoc.IH [OF le] have ih: "fan_out channels f w xs data = copy_at (w * channels) ?u data" .
  have "fan_out channels f w (xs @ [x]) data
      = Option.bind (fan_out channels f w xs data) (\<lambda>d. for_each (\<lambda>ch d. set_at ((w + length xs) * channels + ch) (f x) d) [0..<channels] d)"
    by (simp add: fan_out_def for_each_append for_each_one enumerate_append_eq Let_def)
  also have "\<dots> = Option.bind (copy_at (w * channels) ?u data) (copy_at (w * channels + length ?u) (replicate channels (f x)))"
  proof (cases "copy_at (w * channels) ?u data")
    case (Some d)
    then have "(w + length xs) * channels + channels \<le> length d" using fits copy_at_length by metis
    from fan_sample [OF this] show ?thesis by (simp add: ih Some distrib_right)
  qed (simp add: ih)
  also have "\<dots> = copy_at (w * channels) (?u @ replicate channels (f x)) data" by (rule copy_at_append)
  finally show ?case by (simp add: spread_def)
qed

fun made :: "('p \<Rightarrow> ('p \<times> 'a list) option) \<Rightarrow> nat \<Rightarrow> 'p \<Rightarrow> ('p \<times> 'a list list) option" where
  "made process 0 p = Some (p, [])"
| "made process (Suc k) p =
     Option.bind (process p) (\<lambda>(p, fr). Option.bind (made process k p) (\<lambda>(p, frs). Some (p, fr # frs)))"

lemma made_append:
  "made process (j + k) p = Option.bind (made process j p) (\<lambda>(p, frs).
     Option.bind (made process k p) (\<lambda>(p, frs'). Some (p, frs @ frs')))"
proof (induction j arbitrary: p)
  case (Suc j)
  show ?case
    by (cases "process p") (auto simp: Suc split: option.splits bind_splits)
qed (auto split: bind_splits option.splits simp: case_prod_unfold)


lemma drop_past: "\<lbrakk>length u = k; k \<le> j\<rbrakk> \<Longrightarrow> drop j (u @ drop k xs) = drop j xs"
  by simp

section \<open>A source of frames\<close>

definition out_ready :: "('p \<Rightarrow> bool) \<Rightarrow> ('a \<Rightarrow> bool) \<Rightarrow> nat \<Rightarrow> ('a, 'p) out_state \<Rightarrow> bool" where
  "out_ready ok fine n s \<longleftrightarrow> ok (oc_process s) \<and> fifo_wf (oc_pending s) \<and> length (oc_frame_buf s) = n
     \<and> list_all fine (fifo_list (oc_pending s))"

text \<open>Block after block.\<close>

fun play_blocks :: "('p \<Rightarrow> ('p \<times> 'a list) option) \<Rightarrow> nat \<Rightarrow> ('a \<Rightarrow> 't) \<Rightarrow> 't list list \<Rightarrow> ('a, 'p) out_state
    \<Rightarrow> (('a, 'p) out_state \<times> 't list list) option" where
  "play_blocks process channels f [] s = Some (s, [])"
| "play_blocks process channels f (d # ds) s =
     Option.bind (output_callback process channels f d s) (\<lambda>(s, d).
     Option.bind (play_blocks process channels f ds s) (\<lambda>(s, ds). Some (s, d # ds)))"

text \<open>A block in which each sample of \<open>smps\<close> is on every channel; what is left of \<open>d\<close> is untouched.\<close>

definition laid_out :: "nat \<Rightarrow> ('a \<Rightarrow> 't) \<Rightarrow> 'a list \<Rightarrow> 't list \<Rightarrow> 't list" where
  "laid_out channels f smps d = spread channels f smps @ drop (length smps * channels) d"

text \<open>What the callback needs of its closure: it never panics and gives frames of one size.\<close>

locale frame_source =
  fixes process :: "'p \<Rightarrow> ('p \<times> 'a list) option" and n :: nat and ok :: "'p \<Rightarrow> bool" and fine :: "'a \<Rightarrow> bool"
  assumes process_ok: "ok p \<Longrightarrow> 0 < n \<and> (\<exists>p' fr. process p = Some (p', fr) \<and> length fr = n \<and> list_all fine fr \<and> ok p')"
begin

lemma fill_pending_fills:
  assumes "out_ready ok fine n s" and "needed + n \<le> fifo_capacity (oc_pending s) + 1"
  shows "\<exists>s' frs. fill_pending process needed s = Some s' \<and> out_ready ok fine n s' \<and> needed \<le> sf_len (oc_pending s')
    \<and> made process (length frs) (oc_process s) = Some (oc_process s', frs)
    \<and> fifo_list (oc_pending s') = fifo_list (oc_pending s) @ concat frs
    \<and> (frs = [] \<or> sf_len (oc_pending s') < needed + n) \<and> fifo_capacity (oc_pending s') = fifo_capacity (oc_pending s)"
  using assms
proof (induction "needed - sf_len (oc_pending s)" arbitrary: s rule: less_induct)
  case less
  show ?case
  proof (cases "sf_len (oc_pending s) < needed")
    case False
    then have "fill_pending process needed s = Some s" by (simp add: fill_pending.simps)
    with less.prems False show ?thesis by (intro exI [of _ s] exI [of _ "[]"]) simp
  next
    case True
    let ?q = "oc_pending s"
    from less.prems(1) have ok: "ok (oc_process s)" and wf: "fifo_wf ?q" by (simp_all add: out_ready_def)
    from process_ok [OF ok] obtain p fr where p: "0 < n" "process (oc_process s) = Some (p, fr)" "length fr = n" "list_all fine fr" "ok p"
      by blast
    from fifo_push_spec [OF wf, of fr] obtain q d where q: "fifo_push fr ?q = Some (q, d)" "fifo_wf q"
      "fifo_capacity q = fifo_capacity ?q" "fifo_list q = keep_newest (fifo_capacity ?q) (fifo_list ?q @ fr)" by blast
    from True less.prems(2) p(3) have "length (fifo_list ?q @ fr) \<le> fifo_capacity ?q" by simp
    with q(4) have l: "fifo_list q = fifo_list ?q @ fr" by (simp add: keep_newest_def)
    then have len: "sf_len q = sf_len ?q + n" using p(3) length_fifo_list [of q] by simp
    let ?s = "s\<lparr>oc_process := p, oc_frame_buf := fr, oc_pending := q\<rparr>"
    have unf: "fill_pending process needed s = fill_pending process needed ?s"
      using True p(2) q(1) by (simp add: fill_pending.simps [of process needed s])
    have "needed - sf_len (oc_pending ?s) < needed - sf_len ?q" using len p(1) True by simp
    moreover have "out_ready ok fine n ?s" using less.prems(1) p q l by (simp add: out_ready_def)
    moreover have "needed + n \<le> fifo_capacity (oc_pending ?s) + 1" using less.prems(2) q(3) by simp
    ultimately obtain s' frs where s': "fill_pending process needed ?s = Some s'" "out_ready ok fine n s'" "needed \<le> sf_len (oc_pending s')"
      "made process (length frs) p = Some (oc_process s', frs)"
      "fifo_list (oc_pending s') = fifo_list q @ concat frs" "frs = [] \<or> sf_len (oc_pending s') < needed + n"
      "fifo_capacity (oc_pending s') = fifo_capacity q"
      using less.hyps [of ?s] by auto
    have "sf_len (oc_pending s') < needed + n"
      using s'(6) True len s'(5) length_fifo_list [of "oc_pending s'"] l p(3) by auto
    then show ?thesis using unf s' p(2) q(3) l
      by (intro exI [of _ s'] exI [of _ "fr # frs"]) simp
  qed
qed


lemma made_length:
  "\<lbrakk>ok p; made process k p = Some (p', frs)\<rbrakk> \<Longrightarrow> list_all (\<lambda>fr. length fr = n) frs"
proof (induction k arbitrary: p frs)
  case (Suc k)
  from process_ok [OF Suc.prems(1)] Suc.prems(2) Suc.IH show ?case by (auto split: bind_splits)
qed simp

text \<open>One pass of the loop: a run of pending samples is spread over the channels.\<close>

lemma drain_out_step:
  assumes "out_ready ok fine n s" and "written < needed" and "needed - written \<le> sf_len (oc_pending s)"
    and "needed * channels \<le> length data"
  obtains s' data' m where "0 < m" "written + m \<le> needed" "out_ready ok fine n s'" "oc_process s' = oc_process s"
    "fifo_capacity (oc_pending s') = fifo_capacity (oc_pending s)"
    "fifo_list (oc_pending s') = drop m (fifo_list (oc_pending s))"
    "drain_out channels f needed written (s, data) = drain_out channels f needed (written + m) (s', data')"
    "length data' = length data"
    "take ((written + m) * channels) data' = take (written * channels) data @ spread channels f (take m (fifo_list (oc_pending s)))"
    "drop (needed * channels) data' = drop (needed * channels) data"
proof -
  let ?q = "oc_pending s"
  define m where "m = min (needed - written) n"
  from assms(1) have ok: "ok (oc_process s)" and wf: "fifo_wf ?q" and buf: "length (oc_frame_buf s) = n"
    and fine: "list_all fine (fifo_list ?q)" by (simp_all add: out_ready_def)
  have n: "0 < m" using process_ok [OF ok] assms(2) by (simp add: m_def)
  have mle: "m \<le> needed - written" "m \<le> n" by (simp_all add: m_def)
  have le: "m \<le> sf_len ?q" using assms(3) mle by simp
  from fifo_pop_spec [OF wf, of m] le obtain q where q: "fifo_pop m ?q = Some (q, Some (take m (fifo_list ?q)))"
    "fifo_wf q" "fifo_capacity q = fifo_capacity ?q" "fifo_list q = drop m (fifo_list ?q)" by auto
  let ?buf = "take m (fifo_list ?q) @ drop m (oc_frame_buf s)"
  let ?s = "s\<lparr>oc_pending := q, oc_frame_buf := ?buf\<rparr>"
  have lt: "length (take m (fifo_list ?q)) = m" using le by simp
  then have tk: "take m ?buf = take m (fifo_list ?q)" by simp
  have wle: "written + m \<le> needed" using assms(2) mle by simp
  then have wn: "(written + m) * channels \<le> length data" by (rule le_trans [OF mult_le_mono1 assms(4)])
  let ?d = "take (written * channels) data @ spread channels f (take m (fifo_list ?q)) @ drop ((written + m) * channels) data"
  have fan: "fan_out channels f written (take m ?buf) data = Some ?d"
    unfolding tk using fan_out_copies [of written "take m (fifo_list ?q)" channels data f] wn lt
    by (simp add: copy_at_def distrib_right)
  have unf: "drain_out channels f needed written (s, data) = drain_out channels f needed (written + m) (?s, ?d)"
    using assms(2) buf q(1) fan by (simp add: drain_out.simps [of channels f needed written] Let_def m_def del: take_append)
  have r: "out_ready ok fine n ?s" using ok q(2) buf fine le mle(2)
    by (auto simp: out_ready_def q(4) list_all_iff dest: in_set_dropD)
  have h: "length (take (written * channels) data @ spread channels f (take m (fifo_list ?q))) = (written + m) * channels"
    using wn lt by (simp add: distrib_right)
  show ?thesis
  proof (rule that [OF n wle r _ _ _ unf])
    show "take ((written + m) * channels) ?d = take (written * channels) data @ spread channels f (take m (fifo_list ?q))"
      using h by (metis append_assoc append_eq_conv_conj)
    show "drop (needed * channels) ?d = drop (needed * channels) data"
      using drop_past [OF h mult_le_mono1 [OF wle, of channels], of data] by (simp only: append_assoc)
    show "length ?d = length data" using wn lt by (simp add: distrib_right)
  qed (simp_all add: q)
qed

lemma drain_out_plays:
  assumes "out_ready ok fine n s" and "written \<le> needed" and "needed - written \<le> sf_len (oc_pending s)"
    and "needed * channels \<le> length data"
  shows "\<exists>s'. drain_out channels f needed written (s, data) = Some (s',
      take (written * channels) data @ spread channels f (take (needed - written) (fifo_list (oc_pending s)))
        @ drop (needed * channels) data)
    \<and> out_ready ok fine n s' \<and> oc_process s' = oc_process s \<and> fifo_capacity (oc_pending s') = fifo_capacity (oc_pending s)
    \<and> fifo_list (oc_pending s') = drop (needed - written) (fifo_list (oc_pending s))"
  using assms
proof (induction "needed - written" arbitrary: written s data rule: less_induct)
  case less
  show ?case
  proof (cases "written < needed")
    case False
    with less.prems(2) have "written = needed" by simp
    with less.prems show ?thesis by (intro exI [of _ s]) (simp add: drain_out.simps spread_def)
  next
    case True
    let ?L = "fifo_list (oc_pending s)"
    from drain_out_step [OF less.prems(1) True less.prems(3,4)] obtain s1 d m where
      m: "0 < m" "written + m \<le> needed" and r: "out_ready ok fine n s1" and p: "oc_process s1 = oc_process s"
      "fifo_capacity (oc_pending s1) = fifo_capacity (oc_pending s)" "fifo_list (oc_pending s1) = drop m ?L"
      and unf: "drain_out channels f needed written (s, data) = drain_out channels f needed (written + m) (s1, d)"
      and d: "length d = length data" "take ((written + m) * channels) d = take (written * channels) data @ spread channels f (take m ?L)"
      "drop (needed * channels) d = drop (needed * channels) data" .
    have rest: "needed - (written + m) < needed - written" using m(1) True by simp
    have "needed - (written + m) \<le> sf_len (oc_pending s1)"
      using less.prems(3) length_fifo_list [of "oc_pending s1"] p(3) by simp
    moreover have "needed * channels \<le> length d" using less.prems(4) d(1) by simp
    ultimately obtain s' where
      s': "drain_out channels f needed (written + m) (s1, d) = Some (s', take ((written + m) * channels) d
          @ spread channels f (take (needed - (written + m)) (drop m ?L)) @ drop (needed * channels) d)"
        "out_ready ok fine n s'" "oc_process s' = oc_process s" "fifo_capacity (oc_pending s') = fifo_capacity (oc_pending s)"
        "fifo_list (oc_pending s') = drop (needed - (written + m)) (drop m ?L)"
      using less.hyps [OF rest r m(2), unfolded p] by blast
    have split: "needed - written = m + (needed - (written + m))" using m(2) by simp
    have "spread channels f (take m ?L) @ spread channels f (take (needed - (written + m)) (drop m ?L))
        = spread channels f (take (needed - written) ?L)"
      unfolding split take_add spread_append ..
    moreover have "drop (needed - (written + m)) (drop m ?L) = drop (needed - written) ?L"
      unfolding drop_drop split by (simp only: add.commute)
    ultimately show ?thesis using s' d(2,3) unfolding unf by (intro exI [of _ s']) simp
  qed
qed

lemma output_callback_plays:
  assumes "out_ready ok fine n s" and "0 < channels" and "length data div channels + n \<le> fifo_capacity (oc_pending s) + 1"
  shows "\<exists>s' frs smps. output_callback process channels f data s = Some (s', laid_out channels f smps data)
    \<and> length smps = length data div channels \<and> list_all fine smps \<and> out_ready ok fine n s'
    \<and> fifo_capacity (oc_pending s') = fifo_capacity (oc_pending s)
    \<and> made process (length frs) (oc_process s) = Some (oc_process s', frs)
    \<and> fifo_list (oc_pending s) @ concat frs = smps @ fifo_list (oc_pending s')
    \<and> (frs = [] \<or> sf_len (oc_pending s') < n)"
proof -
  let ?needed = "length data div channels"
  from fill_pending_fills [OF assms(1,3)] obtain s1 frs where s1: "fill_pending process ?needed s = Some s1"
    "out_ready ok fine n s1" "?needed \<le> sf_len (oc_pending s1)" "made process (length frs) (oc_process s) = Some (oc_process s1, frs)"
    "fifo_list (oc_pending s1) = fifo_list (oc_pending s) @ concat frs" "frs = [] \<or> sf_len (oc_pending s1) < ?needed + n"
    "fifo_capacity (oc_pending s1) = fifo_capacity (oc_pending s)" by blast
  let ?smps = "take ?needed (fifo_list (oc_pending s1))"
  have len: "length ?smps = ?needed" using s1(3) by simp
  from drain_out_plays [OF s1(2), of 0 ?needed channels data f] s1(3) obtain s2 where s2:
    "drain_out channels f ?needed 0 (s1, data) = Some (s2, laid_out channels f ?smps data)" "out_ready ok fine n s2"
    "oc_process s2 = oc_process s1" "fifo_capacity (oc_pending s2) = fifo_capacity (oc_pending s1)"
    "fifo_list (oc_pending s2) = drop ?needed (fifo_list (oc_pending s1))"
    by (auto simp: laid_out_def)
  have "output_callback process channels f data s = Some (s2, laid_out channels f ?smps data)"
    using assms(2) s1(1) s2(1) by (simp add: output_callback_def Let_def)
  moreover have "list_all fine ?smps" using s1(2) by (auto simp: out_ready_def list_all_iff dest: in_set_takeD)
  moreover have "frs = [] \<or> sf_len (oc_pending s2) < n"
    using s1(3,6) arg_cong [OF s2(5), of length] by auto
  moreover have "fifo_list (oc_pending s) @ concat frs = ?smps @ fifo_list (oc_pending s2)"
    unfolding s2(5) append_take_drop_id s1(5) ..
  moreover have "made process (length frs) (oc_process s) = Some (oc_process s2, frs)" using s1(4) s2(3) by simp
  moreover have "fifo_capacity (oc_pending s2) = fifo_capacity (oc_pending s)" using s1(7) s2(4) by simp
  ultimately show ?thesis using s2(2) len by blast
qed

lemma blocks_play:
  assumes "0 < channels"
  shows "\<lbrakk>out_ready ok fine n s; \<forall>d \<in> set ds. length d div channels + n \<le> fifo_capacity (oc_pending s) + 1\<rbrakk> \<Longrightarrow>
   \<exists>s' frs takes. play_blocks process channels f ds s = Some (s', map2 (laid_out channels f) takes ds)
     \<and> map length takes = map (\<lambda>d. length d div channels) ds \<and> list_all (list_all fine) takes \<and> out_ready ok fine n s'
     \<and> made process (length frs) (oc_process s) = Some (oc_process s', frs)
     \<and> fifo_list (oc_pending s) @ concat frs = concat takes @ fifo_list (oc_pending s')"
proof (induction ds arbitrary: s)
  case Nil
  then show ?case by (intro exI [of _ s] exI [of _ "[]"]) simp
next
  case (Cons d ds)
  have cap: "length d div channels + n \<le> fifo_capacity (oc_pending s) + 1" using Cons.prems(2) by simp
  from output_callback_plays [OF Cons.prems(1) assms cap] obtain s1 frs smps where
    s1: "output_callback process channels f d s = Some (s1, laid_out channels f smps d)"
    "length smps = length d div channels" "list_all fine smps" "out_ready ok fine n s1"
    "fifo_capacity (oc_pending s1) = fifo_capacity (oc_pending s)"
    "made process (length frs) (oc_process s) = Some (oc_process s1, frs)"
    "fifo_list (oc_pending s) @ concat frs = smps @ fifo_list (oc_pending s1)" by blast
  from Cons.IH [OF s1(4)] Cons.prems(2) s1(5) obtain s2 frs2 takes where
    s2: "play_blocks process channels f ds s1 = Some (s2, map2 (laid_out channels f) takes ds)"
    "map length takes = map (\<lambda>d. length d div channels) ds" "list_all (list_all fine) takes" "out_ready ok fine n s2"
    "made process (length frs2) (oc_process s1) = Some (oc_process s2, frs2)"
    "fifo_list (oc_pending s1) @ concat frs2 = concat takes @ fifo_list (oc_pending s2)" by auto
  have "made process (length (frs @ frs2)) (oc_process s) = Some (oc_process s2, frs @ frs2)"
    using s1(6) s2(5) by (simp add: made_append)
  moreover have "fifo_list (oc_pending s) @ concat (frs @ frs2) = concat (smps # takes) @ fifo_list (oc_pending s2)"
    using s1(7) s2(6) by (metis append.assoc concat.simps(2) concat_append)
  ultimately show ?case using s1(1,2,3) s2(1,2,3,4)
    by (intro exI [of _ s2] exI [of _ "frs @ frs2"] exI [of _ "smps # takes"]) simp
qed

end

lemma out_new_ready:
  fixes fine :: "'a::zero \<Rightarrow> bool"
  assumes "ok p" and "0 < n"
  shows "out_ready ok fine n (out_new n p) \<and> fifo_capacity (oc_pending (out_new n p :: ('a, _) out_state)) = n * 16 + 65536
     \<and> fifo_list (oc_pending (out_new n p :: ('a, _) out_state)) = [] \<and> oc_process (out_new n p :: ('a, _) out_state) = p"
  using fifo_new_rel [of "n * 16 + 65536", where ?'a = 'a] assms by (simp add: out_new_def out_ready_def fifo_rel_def)


section \<open>The capture ring\<close>

lemma ring_okD:
  assumes "ring_ok R els room_of"
  shows "els (rb_new R k) = []" "room_of (rb_new R k) = k"
    "els (fst (rb_push R x r)) = (if length (els r) < room_of r then els r @ [x] else els r)"
    "room_of (fst (rb_push R x r)) = room_of r" "els (fst (rb_pop R r)) = tl (els r)" "room_of (fst (rb_pop R r)) = room_of r"
    "snd (rb_pop R r) = (if els r = [] then None else Some (hd (els r)))" "rb_slots R r = length (els r)"
  using assms by (simp_all add: ring_ok_def)

lemma chunks_exact_heads:
  "0 < k \<Longrightarrow> map (\<lambda>c. c ! 0) (chunks_exact k xs) = map (\<lambda>i. xs ! (i * k)) [0..<length xs div k]"
proof (induction k xs rule: chunks_exact.induct)
  case (1 k xs)
  show ?case
  proof (cases "length xs < k")
    case True
    then show ?thesis by (simp add: chunks_exact.simps [of k xs])
  next
    case False
    with 1 have ih: "map (\<lambda>c. c ! 0) (chunks_exact k (drop k xs)) = map (\<lambda>i. drop k xs ! (i * k)) [0..<length (drop k xs) div k]"
      by auto
    have "length xs div k = Suc ((length xs - k) div k)" using False 1(2) by (simp add: le_div_geq)
    then have "[0..<length xs div k] = 0 # map Suc [0..<(length xs - k) div k]" by (simp add: map_Suc_upt upt_conv_Cons)
    moreover have "map (\<lambda>i. drop k xs ! (i * k)) [0..<length (drop k xs) div k] = map (\<lambda>i. xs ! (Suc i * k)) [0..<(length xs - k) div k]"
      using False by simp
    ultimately show ?thesis using ih False 1(2) by (simp add: chunks_exact.simps [of k xs] o_def)
  qed
qed

lemma push_all:
  assumes "ring_ok R els room_of"
  shows "length (els r) \<le> room_of r \<Longrightarrow> els (fold (\<lambda>x r. fst (rb_push R (g x) r)) xs r) = take (room_of r) (els r @ map g xs)
    \<and> room_of (fold (\<lambda>x r. fst (rb_push R (g x) r)) xs r) = room_of r"
proof (induction xs arbitrary: r)
  case (Cons x xs)
  then show ?case using Cons.IH [of "fst (rb_push R (g x) r)"]
    by (auto simp: ring_okD [OF assms] take_Cons' not_less le_antisym)
qed simp

text \<open>The input callback appends channel 0 of the block, as much of it as the ring has room for.\<close>

lemma capture_callback_records:
  assumes "ring_ok R els room_of" and "0 < channels" and "length (els r) \<le> room_of r"
  shows "\<exists>r'. capture_callback R g channels data r = Some r' \<and> room_of r' = room_of r
    \<and> els r' = take (room_of r) (els r @ map (\<lambda>i. g (data ! (i * channels))) [0..<length data div channels])"
  using push_all [OF assms(1,3), of "\<lambda>c. g (c ! 0)" "chunks_exact channels data"] assms(2)
    arg_cong [OF chunks_exact_heads [OF assms(2), of data], of "map g"]
  by (simp add: capture_callback_def o_def)

lemma drop_oldest_keeps_newest:
  assumes "ring_ok R els room_of"
  shows "\<exists>r'. drop_oldest R cap r = Some r' \<and> els r' = keep_newest cap (els r) \<and> room_of r' = room_of r"
proof (induction "length (els r)" arbitrary: r rule: less_induct)
  case less
  note ring = ring_okD [OF assms]
  show ?case
  proof (cases "cap < length (els r)")
    case False
    then show ?thesis by (simp add: drop_oldest.simps [of R cap r] ring keep_newest_def)
  next
    case True
    then have "length (els (fst (rb_pop R r))) < length (els r)" by (cases "els r") (simp_all add: ring)
    from less [OF this] obtain r' where "drop_oldest R cap (fst (rb_pop R r)) = Some r'"
      "els r' = keep_newest cap (tl (els r))" "room_of r' = room_of r" by (auto simp: ring)
    moreover have "keep_newest cap (tl (els r)) = keep_newest cap (els r)"
      using True by (cases "els r") (simp_all add: keep_newest_def Suc_diff_le)
    ultimately show ?thesis using True by (simp add: drop_oldest.simps [of R cap r] ring)
  qed
qed

lemma pop_samples_take:
  assumes "ring_ok R els room_of"
  shows "k \<le> length (els r) \<Longrightarrow> \<exists>r'. pop_samples R k r = (take k (els r), r') \<and> els r' = drop k (els r) \<and> room_of r' = room_of r"
proof (induction k arbitrary: r)
  case (Suc k)
  note ring = ring_okD [OF assms]
  obtain x xs where x: "els r = x # xs" using Suc.prems by (cases "els r") simp_all
  obtain r1 v where r1: "rb_pop R r = (r1, v)" by fastforce
  have "els r1 = xs" "room_of r1 = room_of r" "v = Some x" using ring(5,6,7) [of r] x r1 by simp_all
  with Suc.IH [of r1] Suc.prems x r1 show ?case by auto
qed simp

lemma capture_frame_spec:
  assumes "ring_ok R els room_of"
  shows "\<exists>r'. capture_frame R k cap r = Some (if k \<le> min (length (els r)) cap then Some (take k (keep_newest cap (els r))) else None, r')
    \<and> els r' = (if k \<le> min (length (els r)) cap then drop k (keep_newest cap (els r)) else keep_newest cap (els r))
    \<and> room_of r' = room_of r"
proof -
  note ring = ring_okD [OF assms]
  from drop_oldest_keeps_newest [OF assms] obtain r1 where r1: "drop_oldest R cap r = Some r1"
    "els r1 = keep_newest cap (els r)" "room_of r1 = room_of r" by blast
  have len: "length (keep_newest cap (els r)) = min (length (els r)) cap" by (simp add: keep_newest_def min_def)
  show ?thesis
  proof (cases "k \<le> min (length (els r)) cap")
    case True
    then have "k \<le> length (els r1)" using r1(2) len by simp
    from pop_samples_take [OF assms this] obtain r2 where "pop_samples R k r1 = (take k (els r1), r2)"
      "els r2 = drop k (els r1)" "room_of r2 = room_of r1" by blast
    with True r1 len show ?thesis by (intro exI [of _ r2]) (simp add: capture_frame_def ring)
  next
    case False
    with r1 len show ?thesis by (intro exI [of _ r1]) (auto simp: capture_frame_def ring)
  qed
qed


section \<open>The frames of host and client\<close>

lemma for_each_same:
  assumes "\<And>x s s'. f x s = Some s' \<Longrightarrow> g s' = g s"
  shows "for_each f xs s = Some s' \<Longrightarrow> g s' = g s"
proof (induction xs arbitrary: s)
  case (Cons x xs)
  then show ?case using assms by (cases "f x s") auto
qed simp

lemma hp_pull_starved: "hp_pull lib c st = Some st' \<Longrightarrow> hs_capture_starved (snd st') = hs_capture_starved (snd st)"
  by (cases st) (auto simp: hp_pull_def Let_def upd_client_def bind_eq_Some_conv split: if_splits)

lemma host_frame_starved:
  assumes "host_process_frame lib local_in hp sh = Some (hp', sh', out, em)"
  shows "hs_capture_starved sh' = hs_capture_starved sh"
proof -
  from assms obtain hp1 sh1 where p: "for_each (hp_pull lib) [0..<MAX_CLIENTS] (hp, sh) = Some (hp1, sh1)"
    and r: "hs_capture_starved sh' = hs_capture_starved sh1"
    by (auto simp: host_process_frame_def Let_def bind_eq_Some_conv case_prod_unfold)
  show ?thesis using for_each_same [of "hp_pull lib" "\<lambda>s. hs_capture_starved (snd s)", OF hp_pull_starved p] r by simp
qed

lemma client_frame_starved:
  "client_process_frame lib local_in cp sh = Some (cp', sh', out, em) \<Longrightarrow> cs_capture_starved sh' = cs_capture_starved sh"
  by (auto simp: client_process_frame_def Let_def bind_eq_Some_conv case_prod_unfold)

lemma enqueue_all:
  "\<forall>(d, bytes) \<in> set em. length bytes \<le> MAX_DATAGRAM \<Longrightarrow> \<exists>q'. for_each (tx_enqueue Q) em q = Some q'"
proof (induction em arbitrary: q)
  case (Cons x em)
  obtain d bytes where x: "x = (d, bytes)" by fastforce
  from Cons.prems tx_item_new_ok [of bytes d] x obtain item where "tx_item_new d bytes = Some item" by auto
  with Cons x show ?case by (simp add: tx_enqueue_def)
qed simp

lemma frame_doneD:
  assumes "frame_done n D H (Some (out, em))"
  shows "length out = n" "\<forall>y \<in> set out. \<bar>y\<bar> \<le> 2 / 3" "\<forall>(d, bytes) \<in> set em. length bytes \<le> MAX_DATAGRAM"
  using assms by (auto simp: frame_done_def audio_from_def)

definition host_ready :: "('e, 'd) media_lib \<Rightarrow> (real, 'r) ring_lib \<Rightarrow> ('r \<Rightarrow> real list) \<Rightarrow> ('r \<Rightarrow> nat) \<Rightarrow> nat \<Rightarrow> u16
    \<Rightarrow> (('e, 'd) host_pipeline, host_shared, 'r, 'q) jam_audio \<Rightarrow> bool" where
  "host_ready lib R els room_of n sid s \<longleftrightarrow> 0 < n \<and> ring_ok R els room_of \<and> host_frames lib n sid (ja_pipeline s, ja_shared s)"

definition client_ready :: "('e, 'd) media_lib \<Rightarrow> (real, 'r) ring_lib \<Rightarrow> ('r \<Rightarrow> real list) \<Rightarrow> ('r \<Rightarrow> nat) \<Rightarrow> nat
    \<Rightarrow> (('e, 'd) client_pipeline, client_shared, 'r, 'q) jam_audio \<Rightarrow> bool" where
  "client_ready lib R els room_of n s \<longleftrightarrow> 0 < n \<and> ring_ok R els room_of \<and> client_frames lib n (ja_pipeline s, ja_shared s)"

text \<open>The ring loses its oldest samples beyond \<open>cap\<close>, then a frame, or it counts a starved frame.\<close>

definition drawn :: "nat \<Rightarrow> nat \<Rightarrow> ('r \<Rightarrow> real list) \<Rightarrow> ('r \<Rightarrow> nat) \<Rightarrow> 'r \<Rightarrow> 'r \<Rightarrow> u64 \<Rightarrow> u64 \<Rightarrow> bool" where
  "drawn n cap els room_of r r' c c' \<longleftrightarrow> room_of r' = room_of r
     \<and> (if n \<le> min (length (els r)) cap then els r' = drop n (keep_newest cap (els r)) \<and> c' = c
        else els r' = keep_newest cap (els r) \<and> c' = c + 1)"

lemma capture_drawn:
  assumes "ring_ok R els room_of"
  obtains c r' where "capture_frame R n cap r = Some (c, r')" "length (case c of Some xs \<Rightarrow> xs | None \<Rightarrow> replicate n (0 :: real)) = n"
    "\<And>k. drawn n cap els room_of r r' k (case c of Some _ \<Rightarrow> k | None \<Rightarrow> k + 1)"
proof -
  from capture_frame_spec [OF assms, of n cap r] obtain r' where
    "capture_frame R n cap r = Some (if n \<le> min (length (els r)) cap then Some (take n (keep_newest cap (els r))) else None, r')"
    "els r' = (if n \<le> min (length (els r)) cap then drop n (keep_newest cap (els r)) else keep_newest cap (els r))"
    "room_of r' = room_of r" by blast
  then show ?thesis
    by (intro that [of "if n \<le> min (length (els r)) cap then Some (take n (keep_newest cap (els r))) else None" r'])
      (auto simp: drawn_def keep_newest_def)
qed

lemma host_frame_ready:
  assumes "host_ready lib R els room_of n sid s"
  shows "\<exists>s' out. host_frame lib R Q n hw s = Some (s', out) \<and> length out = n \<and> list_all (\<lambda>y. \<bar>y\<bar> \<le> 2 / 3) out
    \<and> host_ready lib R els room_of n sid s' \<and> drawn n (drift_cap_of n hw) els room_of (ja_capture s) (ja_capture s')
         (hs_capture_starved (ja_shared s)) (hs_capture_starved (ja_shared s'))"
proof -
  let ?cap = "drift_cap_of n hw" and ?r = "ja_capture s"
  from assms have ring: "ring_ok R els room_of" and fr: "host_frames lib n sid (ja_pipeline s, ja_shared s)" and n: "0 < n"
    by (simp_all add: host_ready_def)
  from capture_drawn [OF ring, of n ?cap ?r] obtain c r where c: "capture_frame R n ?cap ?r = Some (c, r)"
    "length (case c of Some xs \<Rightarrow> xs | None \<Rightarrow> replicate n 0) = n"
    "\<And>k. drawn n ?cap els room_of ?r r k (case c of Some _ \<Rightarrow> k | None \<Rightarrow> k + 1)" by blast
  define x where "x = (case c of Some xs \<Rightarrow> xs | None \<Rightarrow> replicate n 0)"
  define sh where "sh = (case c of Some _ \<Rightarrow> ja_shared s
      | None \<Rightarrow> (ja_shared s)\<lparr>hs_capture_starved := hs_capture_starved (ja_shared s) + 1\<rparr>)"
  have len: "length x = n" using c(2) by (simp add: x_def)
  have "host_frames lib n sid (ja_pipeline s, sh)"
    using fr by (auto simp: sh_def host_frames_def streams_ok_def shared_ok_def split: option.split)
  from host_frame_done [OF this len] obtain hp' sh' out em where
    f0: "host_process_frame lib x (ja_pipeline s) sh = Some (hp', sh', out, em)" "host_frames lib n sid (hp', sh')"
    "frame_done n (\<lambda>d. unat d < MAX_CLIENTS) (from_host_in sid) (Some (out, em))" by blast
  note f = f0(1,2) frame_doneD [OF f0(3)]
  from enqueue_all [OF f(5), of Q "ja_tx s"] obtain q where q: "for_each (tx_enqueue Q) em (ja_tx s) = Some q" by (rule exE)
  let ?s = "\<lparr>ja_pipeline = hp', ja_shared = sh', ja_capture = r, ja_tx = q\<rparr>"
  have "host_frame lib R Q n hw s = Some (?s, out)"
    using c(1) f(1) q by (simp add: host_frame_def x_def [symmetric] sh_def [symmetric])
  moreover have "hs_capture_starved sh' = (case c of Some _ \<Rightarrow> hs_capture_starved (ja_shared s) | None \<Rightarrow> hs_capture_starved (ja_shared s) + 1)"
    using host_frame_starved [OF f(1)] by (simp add: sh_def split: option.split)
  ultimately show ?thesis using n ring f(2,3,4) c(3)
    by (intro exI [of _ ?s] exI [of _ out]) (simp add: host_ready_def list_all_iff)
qed

lemma client_frame_ready:
  assumes "client_ready lib R els room_of n s"
  shows "\<exists>s' out. client_frame lib R Q n hw s = Some (s', out) \<and> length out = n \<and> list_all (\<lambda>y. \<bar>y\<bar> \<le> 2 / 3) out
    \<and> client_ready lib R els room_of n s' \<and> drawn n (drift_cap_of n hw) els room_of (ja_capture s) (ja_capture s')
         (cs_capture_starved (ja_shared s)) (cs_capture_starved (ja_shared s'))"
proof -
  let ?cap = "drift_cap_of n hw" and ?r = "ja_capture s"
  from assms have ring: "ring_ok R els room_of" and fr: "client_frames lib n (ja_pipeline s, ja_shared s)" and n: "0 < n"
    by (simp_all add: client_ready_def)
  from capture_drawn [OF ring, of n ?cap ?r] obtain c r where c: "capture_frame R n ?cap ?r = Some (c, r)"
    "length (case c of Some xs \<Rightarrow> xs | None \<Rightarrow> replicate n 0) = n"
    "\<And>k. drawn n ?cap els room_of ?r r k (case c of Some _ \<Rightarrow> k | None \<Rightarrow> k + 1)" by blast
  define x where "x = (case c of Some xs \<Rightarrow> xs | None \<Rightarrow> replicate n 0)"
  define sh where "sh = (case c of Some _ \<Rightarrow> ja_shared s
      | None \<Rightarrow> (ja_shared s)\<lparr>cs_capture_starved := cs_capture_starved (ja_shared s) + 1\<rparr>)"
  have len: "length x = n" using c(2) by (simp add: x_def)
  have "client_frames lib n (ja_pipeline s, sh)"
    using fr by (auto simp: sh_def client_frames_def split: option.split)
  from client_frame_done [OF this len] obtain cp' sh' out em where
    f0: "client_process_frame lib x (ja_pipeline s) sh = Some (cp', sh', out, em)" "client_frames lib n (cp', sh')"
    "frame_done n (\<lambda>d. d = DEST_PEER) (\<lambda>h. True) (Some (out, em))" by blast
  note f = f0(1,2) frame_doneD [OF f0(3)]
  from enqueue_all [OF f(5), of Q "ja_tx s"] obtain q where q: "for_each (tx_enqueue Q) em (ja_tx s) = Some q" by (rule exE)
  let ?s = "\<lparr>ja_pipeline = cp', ja_shared = sh', ja_capture = r, ja_tx = q\<rparr>"
  have "client_frame lib R Q n hw s = Some (?s, out)"
    using c(1) f(1) q by (simp add: client_frame_def x_def [symmetric] sh_def [symmetric])
  moreover have "cs_capture_starved sh' = (case c of Some _ \<Rightarrow> cs_capture_starved (ja_shared s) | None \<Rightarrow> cs_capture_starved (ja_shared s) + 1)"
    using client_frame_starved [OF f(1)] by (simp add: sh_def split: option.split)
  ultimately show ?thesis using n ring f(2,3,4) c(3)
    by (intro exI [of _ ?s] exI [of _ out]) (simp add: client_ready_def list_all_iff)
qed


text \<open>Between two frames the other threads do what they like, \<open>env k\<close> before frame \<open>k\<close>.\<close>

definition interleaved :: "(nat \<Rightarrow> 's \<Rightarrow> 's) \<Rightarrow> ('s \<Rightarrow> ('s \<times> 'a list) option) \<Rightarrow> nat \<times> 's \<Rightarrow> ((nat \<times> 's) \<times> 'a list) option" where
  "interleaved env process p =
     Option.bind (process (env (fst p) (snd p))) (\<lambda>(s, fr). Some ((Suc (fst p), s), fr))"

definition env_keeps :: "('s \<Rightarrow> bool) \<Rightarrow> (nat \<Rightarrow> 's \<Rightarrow> 's) \<Rightarrow> bool" where
  "env_keeps good env \<longleftrightarrow> (\<forall>k s. good s \<longrightarrow> good (env k s))"

lemma host_step:
  fixes env :: "nat \<Rightarrow> (('e, 'd) host_pipeline, host_shared, 'r, 'q) jam_audio \<Rightarrow> (('e, 'd) host_pipeline, host_shared, 'r, 'q) jam_audio"
  assumes "env_keeps (host_ready lib R els room_of n sid) env" and "host_ready lib R els room_of n sid (snd p)"
  shows "\<exists>s' out. interleaved env (host_frame lib R Q n hw) p = Some ((Suc (fst p), s'), out) \<and> length out = n
    \<and> list_all (\<lambda>y. \<bar>y\<bar> \<le> 2 / 3) out \<and> 0 < n \<and> host_ready lib R els room_of n sid s'
    \<and> drawn n (drift_cap_of n hw) els room_of (ja_capture (env (fst p) (snd p))) (ja_capture s')
        (hs_capture_starved (ja_shared (env (fst p) (snd p)))) (hs_capture_starved (ja_shared s'))"
proof -
  from assms have r: "host_ready lib R els room_of n sid (env (fst p) (snd p))" by (simp add: env_keeps_def)
  then have "0 < n" by (simp add: host_ready_def)
  with host_frame_ready [OF r, of Q hw] show ?thesis by (auto simp: interleaved_def)
qed

interpretation host_source: frame_source "interleaved env (host_frame lib R Q n hw)" n
  "\<lambda>p. env_keeps (host_ready lib R els room_of n sid) env \<and> host_ready lib R els room_of n sid (snd p)" "\<lambda>y. \<bar>y\<bar> \<le> 2 / 3"
  by unfold_locales (use host_step in fastforce)

lemma client_step:
  fixes env :: "nat \<Rightarrow> (('e, 'd) client_pipeline, client_shared, 'r, 'q) jam_audio \<Rightarrow> (('e, 'd) client_pipeline, client_shared, 'r, 'q) jam_audio"
  assumes "env_keeps (client_ready lib R els room_of n) env" and "client_ready lib R els room_of n (snd p)"
  shows "\<exists>s' out. interleaved env (client_frame lib R Q n hw) p = Some ((Suc (fst p), s'), out) \<and> length out = n
    \<and> list_all (\<lambda>y. \<bar>y\<bar> \<le> 2 / 3) out \<and> 0 < n \<and> client_ready lib R els room_of n s'
    \<and> drawn n (drift_cap_of n hw) els room_of (ja_capture (env (fst p) (snd p))) (ja_capture s')
        (cs_capture_starved (ja_shared (env (fst p) (snd p)))) (cs_capture_starved (ja_shared s'))"
proof -
  from assms have r: "client_ready lib R els room_of n (env (fst p) (snd p))" by (simp add: env_keeps_def)
  then have "0 < n" by (simp add: client_ready_def)
  with client_frame_ready [OF r, of Q hw] show ?thesis by (auto simp: interleaved_def)
qed

interpretation client_source: frame_source "interleaved env (client_frame lib R Q n hw)" n
  "\<lambda>p. env_keeps (client_ready lib R els room_of n) env \<and> client_ready lib R els room_of n (snd p)" "\<lambda>y. \<bar>y\<bar> \<le> 2 / 3"
  by unfold_locales (use client_step in fastforce)

section \<open>What the sound card plays\<close>

text \<open>Over the blocks \<open>ds\<close> the card is given, on every channel, the frames \<open>process\<close> makes one after the
  other, within the clipper's range; what is left over waits in the FIFO.\<close>

definition plays_all :: "('p \<Rightarrow> ('p \<times> real list) option) \<Rightarrow> nat \<Rightarrow> (real \<Rightarrow> 't) \<Rightarrow> nat \<Rightarrow> 't list list \<Rightarrow> 'p \<Rightarrow> bool" where
  "plays_all process channels f n ds p \<longleftrightarrow>
     (\<exists>s' frs takes. play_blocks process channels f ds (out_new n p) = Some (s', map2 (laid_out channels f) takes ds)
       \<and> map length takes = map (\<lambda>d. length d div channels) ds \<and> (\<forall>y \<in> set (concat takes). \<bar>y\<bar> \<le> 2 / 3)
       \<and> made process (length frs) p = Some (oc_process s', frs) \<and> concat frs = concat takes @ fifo_list (oc_pending s'))"

lemma plays_allI:
  assumes src: "frame_source process n ok (\<lambda>y. \<bar>y\<bar> \<le> 2 / 3)" and "ok p" and "0 < channels"
    and "\<forall>d \<in> set ds. length d div channels \<le> 65536"
  shows "plays_all (process :: 'a \<Rightarrow> _) channels f n ds p"
proof -
  have n: "0 < n" using frame_source.process_ok [OF src assms(2)] by blast
  let ?s = "out_new n p :: (real, 'a) out_state"
  have s: "out_ready ok (\<lambda>y. \<bar>y\<bar> \<le> 2 / 3) n ?s" "fifo_capacity (oc_pending ?s) = n * 16 + 65536"
    "fifo_list (oc_pending ?s) = []" "oc_process ?s = p"
    using out_new_ready [of ok p n "\<lambda>y :: real. \<bar>y\<bar> \<le> 2 / 3", OF assms(2) n] by simp_all
  have "\<forall>d \<in> set ds. length d div channels + n \<le> fifo_capacity (oc_pending ?s) + 1"
    using assms(4) n unfolding s(2) by fastforce
  from frame_source.blocks_play [OF src assms(3) s(1) this, of f, unfolded s(3,4)] obtain s' frs takes where
    "play_blocks process channels f ds ?s = Some (s', map2 (laid_out channels f) takes ds)"
    "map length takes = map (\<lambda>d. length d div channels) ds" "list_all (list_all (\<lambda>y. \<bar>y\<bar> \<le> 2 / 3)) takes"
    "made process (length frs) p = Some (oc_process s', frs)" "[] @ concat frs = concat takes @ fifo_list (oc_pending s')" by blast
  then show ?thesis unfolding plays_all_def list_all_iff
    by (intro exI [of _ s'] exI [of _ frs] exI [of _ takes]) auto
qed

definition in_room :: "('r \<Rightarrow> 'a list) \<Rightarrow> ('r \<Rightarrow> nat) \<Rightarrow> nat \<Rightarrow> nat \<times> ('pl, 'sh, 'r, 'q) jam_audio \<Rightarrow> bool" where
  "in_room els room_of rm p \<longleftrightarrow> room_of (ja_capture (snd p)) = rm \<and> length (els (ja_capture (snd p))) \<le> rm"

lemma host_audio_ready:
  assumes "audio_setup lib p" and "ring_ok R els room_of" and "host_audio_new lib R p (host_shared_new sid) q = Some h"
  shows "host_ready lib R els room_of (ep_frame_samples p) sid h \<and> ja_shared h = host_shared_new sid
    \<and> in_room els room_of (unat (ep_sample_rate p) div 4) (k, h)"
proof -
  from assms(3) obtain hp where hp: "host_pipeline_new lib p = Some hp" "h = \<lparr>ja_pipeline = hp, ja_shared = host_shared_new sid,
      ja_capture = rb_new R (unat (ep_sample_rate p) div 4), ja_tx = q\<rparr>"
    by (auto simp: host_audio_new_def bind_eq_Some_conv)
  note a = assms(1) [unfolded audio_setup_def]
  have "jb_wf jb_new" using jb_new_rel by (simp add: jb_rel_def)
  then have "host_frames lib (ep_frame_samples p) sid (hp, host_shared_new sid)"
    using a host_new_ok [OF hp(1)]
    by (simp add: host_frames_def streams_ok_def) (simp add: host_shared_new_def list_all_length stream_default_def)
  with a assms(2) show ?thesis by (simp add: hp(2) host_ready_def in_room_def ring_okD [OF assms(2)])
qed

lemma client_audio_ready:
  assumes "audio_setup lib p" and "ring_ok R els room_of" and "client_audio_new lib R p client_shared_default q = Some c"
  shows "client_ready lib R els room_of (ep_frame_samples p) c \<and> ja_shared c = client_shared_default
    \<and> in_room els room_of (unat (ep_sample_rate p) div 4) (k, c)"
proof -
  from assms(3) obtain cp where cp: "client_pipeline_new lib p = Some cp" "c = \<lparr>ja_pipeline = cp, ja_shared = client_shared_default,
      ja_capture = rb_new R (unat (ep_sample_rate p) div 4), ja_tx = q\<rparr>"
    by (auto simp: client_audio_new_def bind_eq_Some_conv)
  note a = assms(1) [unfolded audio_setup_def]
  have "jb_wf jb_new" using jb_new_rel by (simp add: jb_rel_def)
  then have "client_frames lib (ep_frame_samples p) (cp, client_shared_default)"
    using a client_new_ok [OF cp(1)] by (simp add: client_frames_def client_shared_default_def stream_default_def)
  with a assms(2) show ?thesis by (simp add: cp(2) client_ready_def in_room_def ring_okD [OF assms(2)])
qed

text \<open>C10: the sound card plays every frame once. On host and client, whatever blocks of up to 65536 samples
  the card asks for and whatever the other threads do between two frames, the output callback returns
  and never panics; the blocks it fills are, on every channel, the frames the pipeline makes in
  order, none lost or repeated across block boundaries, every sample within the clipper's
  range.\<close>

theorem sound_card_plays_every_frame:
  assumes "audio_setup lib p" and "ring_ok R els room_of" and "0 < channels" and "\<forall>d \<in> set ds. length d div channels \<le> 65536"
    and "host_audio_new lib R p (host_shared_new sid) q = Some h" and "client_audio_new lib R p client_shared_default q = Some c"
    and "env_keeps (host_ready lib R els room_of (ep_frame_samples p) sid) henv"
    and "env_keeps (client_ready lib R els room_of (ep_frame_samples p)) cenv"
  shows "plays_all (interleaved henv (host_frame lib R Q (ep_frame_samples p) hw)) channels f (ep_frame_samples p) ds (0, h)
    \<and> plays_all (interleaved cenv (client_frame lib R Q (ep_frame_samples p) hw)) channels f (ep_frame_samples p) ds (0, c)"
proof -
  note h = host_audio_ready [OF assms(1,2,5)] and c = client_audio_ready [OF assms(1,2,6)]
  show ?thesis
    by (intro conjI plays_allI [OF host_source.frame_source_axioms [where els = els and room_of = room_of and sid = sid and R = R] _ assms(3,4)]
        plays_allI [OF client_source.frame_source_axioms [where els = els and room_of = room_of and R = R] _ assms(3,4)])
      (use h c assms(7,8) in simp_all)
qed

text \<open>For the examples: a ring that is a list with its capacity.\<close>

definition list_ring :: "('a, 'a list \<times> nat) ring_lib" where
  "list_ring = \<lparr>rb_new = (\<lambda>n. ([], n)),
     rb_push = (\<lambda>x (xs, n). if length xs < n then ((xs @ [x], n), True) else ((xs, n), False)),
     rb_pop = (\<lambda>(xs, n). case xs of [] \<Rightarrow> (([], n), None) | x # xs \<Rightarrow> ((xs, n), Some x)),
     rb_slots = (\<lambda>(xs, n). length xs)\<rparr>"

definition tx_ring :: "tx_item list \<times> nat" where "tx_ring = ([], 256)"

lemma list_ring_ok: "ring_ok list_ring fst snd"
  by (auto simp: ring_ok_def list_ring_def split: list.split)

lemma audio_starts:
  "\<exists>h c. host_audio_new silent_lib list_ring ex_params (host_shared_new 7) tx_ring = Some h
     \<and> client_audio_new silent_lib list_ring ex_params client_shared_default tx_ring = Some c"
  using silent_pipelines [where r = True and c = PcmS16 and e = False]
  by (auto simp: host_audio_new_def client_audio_new_def ex_params_def)

lemma ex_setup: "audio_setup silent_lib ex_params"
  unfolding ex_params_def by (rule silent_setup)

lemma sound_card_plays_every_frame_witness:
  "\<exists>h c. host_audio_new silent_lib list_ring ex_params (host_shared_new 7) tx_ring = Some h
     \<and> client_audio_new silent_lib list_ring ex_params client_shared_default tx_ring = Some c
     \<and> plays_all (interleaved (\<lambda>_ s. s) (host_frame silent_lib list_ring list_ring 120 64)) 2 (\<lambda>y. y) 120 [replicate 300 0, replicate 7 1] (0, h)
     \<and> plays_all (interleaved (\<lambda>_ s. s) (client_frame silent_lib list_ring list_ring 120 64)) 2 (\<lambda>y. y) 120 [replicate 300 0, replicate 7 1] (0, c)"
proof -
  obtain h c where hc: "host_audio_new silent_lib list_ring ex_params (host_shared_new 7) tx_ring = Some h"
    "client_audio_new silent_lib list_ring ex_params client_shared_default tx_ring = Some c"
    using audio_starts by blast
  have "\<forall>d \<in> set [replicate 300 0, replicate 7 1 :: real list]. length d div 2 \<le> 65536" by simp
  from sound_card_plays_every_frame [OF ex_setup list_ring_ok _ this hc, of "\<lambda>_ s. s" "\<lambda>_ s. s" list_ring 64 "\<lambda>y. y"] hc
  show ?thesis by (simp add: env_keeps_def)
qed

end
