(* ===== verification/Duplex_Audio.thy ===== *)
theory Duplex_Audio
  imports Engine_Audio
begin

text \<open>
  The two callbacks of the sound card in step (\<open>crates/jam-core/src/engine.rs\<close>): the card captures a block
  and plays a block of the same length, turn after turn. The cap on the capture ring
  (\<open>drift_cap\<close>) decides whether frames are starved of captured samples.
\<close>

section \<open>Capture and playback in step\<close>

text \<open>A source that draws its input from a ring of \<open>stock\<close> samples, of which it keeps at most \<open>cap\<close>, and
  counts the frames for which there are too few.\<close>

locale drawing_source = frame_source process n ok fine
  for process :: "'p \<Rightarrow> ('p \<times> 'a list) option" and n :: nat and ok :: "'p \<Rightarrow> bool" and fine :: "'a \<Rightarrow> bool" +
  fixes stock :: "'p \<Rightarrow> nat" and starved :: "'p \<Rightarrow> u64" and cap :: nat
  assumes draws: "\<lbrakk>ok p; process p = Some (p', fr)\<rbrakk> \<Longrightarrow>
      starved p' = starved p \<and> n \<le> stock p \<and> stock p' + n = min (stock p) cap
      \<or> starved p' = starved p + 1 \<and> stock p < n \<and> stock p' = stock p"
begin

text \<open>Over \<open>k\<close> frames the cap bounds what can be drawn; the others are starved.\<close>

lemma made_starves:
  "\<lbrakk>ok p; made process k p = Some (p', frs)\<rbrakk> \<Longrightarrow> \<exists>j \<le> k. starved p' = starved p + of_nat j \<and> k * n \<le> min (stock p) cap + j * n"
proof (induction k arbitrary: p frs)
  case 0
  then show ?case by simp
next
  case (Suc k)
  from process_ok [OF Suc.prems(1)] obtain p1 fr frs1 where p1: "process p = Some (p1, fr)" "ok p1"
    "made process k p1 = Some (p', frs1)"
    using Suc.prems(2) by (auto split: bind_splits)
  from Suc.IH [OF p1(2,3)] obtain j where j: "j \<le> k" "starved p' = starved p1 + of_nat j" "k * n \<le> min (stock p1) cap + j * n" by blast
  from draws [OF Suc.prems(1) p1(1)] show ?case
  proof
    assume "starved p1 = starved p \<and> n \<le> stock p \<and> stock p1 + n = min (stock p) cap"
    with j show ?thesis by (intro exI [of _ j]) auto
  next
    assume "starved p1 = starved p + 1 \<and> stock p < n \<and> stock p1 = stock p"
    with j show ?thesis by (intro exI [of _ "Suc j"]) auto
  qed
qed

end

text \<open>\<open>feed\<close> puts a block of \<open>blk\<close> samples into the ring, which has room for \<open>rm\<close>.\<close>

locale fed_source = drawing_source process n ok fine stock starved cap
  for process :: "'p \<Rightarrow> ('p \<times> 'a list) option" and n :: nat and ok :: "'p \<Rightarrow> bool" and fine :: "'a \<Rightarrow> bool"
    and stock :: "'p \<Rightarrow> nat" and starved :: "'p \<Rightarrow> u64" and cap :: nat +
  fixes feed :: "'i \<Rightarrow> 'p \<Rightarrow> 'p option" and inp_ok :: "'i \<Rightarrow> bool" and blk :: nat and rm :: nat
  assumes feeds: "\<lbrakk>ok p; inp_ok i\<rbrakk> \<Longrightarrow> \<exists>p'. feed i p = Some p' \<and> ok p' \<and> starved p' = starved p \<and> min (stock p + blk) rm \<le> stock p'"
begin

text \<open>One capture block, then one playback block of the same number of samples.\<close>

lemma turn:
  assumes "out_ready ok fine n s" and "inp_ok i" and "0 < channels" and "length d div channels = blk"
    and "blk + n \<le> fifo_capacity (oc_pending s) + 1"
  shows "\<exists>p s' d' frs. feed i (oc_process s) = Some p \<and> ok p \<and> starved p = starved (oc_process s)
    \<and> min (stock (oc_process s) + blk) rm \<le> stock p
    \<and> output_callback process channels f d (s\<lparr>oc_process := p\<rparr>) = Some (s', d') \<and> out_ready ok fine n s'
    \<and> fifo_capacity (oc_pending s') = fifo_capacity (oc_pending s) \<and> made process (length frs) p = Some (oc_process s', frs)
    \<and> sf_len (oc_pending s) + length frs * n = blk + sf_len (oc_pending s') \<and> (frs = [] \<or> sf_len (oc_pending s') < n)"
proof -
  from assms(1) have ok: "ok (oc_process s)" by (simp add: out_ready_def)
  from feeds [OF ok assms(2)] obtain p where p: "feed i (oc_process s) = Some p" "ok p"
    "starved p = starved (oc_process s)" "min (stock (oc_process s) + blk) rm \<le> stock p" by blast
  have r: "out_ready ok fine n (s\<lparr>oc_process := p\<rparr>)" using assms(1) p(2) by (simp add: out_ready_def)
  from output_callback_plays [OF r assms(3), of d f] assms(4,5) obtain s' frs smps where
    s': "output_callback process channels f d (s\<lparr>oc_process := p\<rparr>) = Some (s', laid_out channels f smps d)"
    "length smps = blk" "out_ready ok fine n s'" "fifo_capacity (oc_pending s') = fifo_capacity (oc_pending s)"
    "made process (length frs) p = Some (oc_process s', frs)"
    "fifo_list (oc_pending s) @ concat frs = smps @ fifo_list (oc_pending s')" "frs = [] \<or> sf_len (oc_pending s') < n"
    by auto
  have "sf_len (oc_pending s) + length (concat frs) = blk + sf_len (oc_pending s')"
    using arg_cong [OF s'(6), of length] s'(2) by simp
  moreover have "length (concat frs) = length frs * n" using made_length [OF p(2) s'(5)] by (induction frs) simp_all
  ultimately show ?thesis using p s'(1,3,4,5,7) by (intro exI [of _ p] exI [of _ s'] exI [of _ frs] exI) simp
qed

text \<open>Turn after turn.\<close>

lemma turns_ready:
  assumes "0 < channels"
  shows "\<lbrakk>out_ready ok fine n s; \<forall>(i, d) \<in> set xs. inp_ok i \<and> length d div channels = blk;
     blk + n \<le> fifo_capacity (oc_pending s) + 1; sf_len (oc_pending s) < n\<rbrakk> \<Longrightarrow>
   \<exists>s'. for_each (\<lambda>(i, d) s. Option.bind (feed i (oc_process s)) (\<lambda>p.
          map_option fst (output_callback process channels f d (s\<lparr>oc_process := p\<rparr>)))) xs s = Some s'
     \<and> out_ready ok fine n s' \<and> fifo_capacity (oc_pending s') = fifo_capacity (oc_pending s) \<and> sf_len (oc_pending s') < n"
proof (induction xs arbitrary: s)
  case (Cons x xs)
  obtain i d where x: "x = (i, d)" by fastforce
  with Cons.prems(2) have i: "inp_ok i" "length d div channels = blk" by auto
  from turn [OF Cons.prems(1) i(1) assms i(2) Cons.prems(3), of f] obtain p s1 d' frs where
    s1: "feed i (oc_process s) = Some p" "output_callback process channels f d (s\<lparr>oc_process := p\<rparr>) = Some (s1, d')"
    "out_ready ok fine n s1" "fifo_capacity (oc_pending s1) = fifo_capacity (oc_pending s)"
    "made process (length frs) p = Some (oc_process s1, frs)" "sf_len (oc_pending s) + length frs * n = blk + sf_len (oc_pending s1)" "frs = [] \<or> sf_len (oc_pending s1) < n" by blast
  have "\<forall>(i, d) \<in> set xs. inp_ok i \<and> length d div channels = blk" using Cons.prems(2) by simp
  moreover have "sf_len (oc_pending s1) < n" using s1(6,7) Cons.prems(4) by auto
  ultimately show ?case using Cons.IH [OF s1(3)] Cons.prems(3) s1(1,2,4) x by auto
qed simp

text \<open>A cap too small for the block starves a frame in every turn.\<close>

lemma turn_starves:
  assumes "out_ready ok fine n s" and "inp_ok i" and "0 < channels" and "length d div channels = blk"
    and "blk + n \<le> fifo_capacity (oc_pending s) + 1" and "sf_len (oc_pending s) < n" and "cap + n \<le> blk" and "blk + n < 2 ^ 64"
  shows "\<exists>p s' d'. feed i (oc_process s) = Some p \<and> output_callback process channels f d (s\<lparr>oc_process := p\<rparr>) = Some (s', d')
    \<and> starved (oc_process s') \<noteq> starved (oc_process s)"
proof -
  from turn [OF assms(1-5), of f] obtain p s' d' frs where t: "feed i (oc_process s) = Some p" "ok p" "starved p = starved (oc_process s)"
    "output_callback process channels f d (s\<lparr>oc_process := p\<rparr>) = Some (s', d')"
    "made process (length frs) p = Some (oc_process s', frs)"
    "sf_len (oc_pending s) + length frs * n = blk + sf_len (oc_pending s')" "frs = [] \<or> sf_len (oc_pending s') < n" by blast
  from made_starves [OF t(2,5)] obtain j where j: "j \<le> length frs" "starved (oc_process s') = starved p + of_nat j"
    "length frs * n \<le> min (stock p) cap + j * n" by blast
  have "cap < length frs * n" using t(6) assms(6,7) by linarith
  with j(3) have "0 < j" by (cases j) auto
  have "length frs \<le> length frs * n" using assms(6) by (cases n) auto
  also have "\<dots> < blk + n" using t(6,7) assms(6,7) by (cases "frs = []") auto
  finally have "j < 2 ^ 64" using j(1) assms(8) by linarith
  with \<open>0 < j\<close> have "(of_nat j :: u64) \<noteq> 0" by (simp add: word_of_nat_eq_0_iff) (metis nat_dvd_not_less)
  then show ?thesis using t(1,3,4) j(2) by auto
qed

end

text \<open>Ring and cap have room for a block and a frame.\<close>

locale duplex_source = fed_source process n ok fine stock starved cap feed inp_ok blk rm
  for process :: "'p \<Rightarrow> ('p \<times> 'a list) option" and n :: nat and ok :: "'p \<Rightarrow> bool" and fine :: "'a \<Rightarrow> bool"
    and stock :: "'p \<Rightarrow> nat" and starved :: "'p \<Rightarrow> u64" and cap :: nat and feed :: "'i \<Rightarrow> 'p \<Rightarrow> 'p option"
    and inp_ok :: "'i \<Rightarrow> bool" and blk :: nat and rm :: nat +
  assumes sizes: "ok p \<Longrightarrow> blk + n \<le> cap + 1 \<and> blk + n \<le> rm + 1"
begin

lemma made_stock:
  "\<lbrakk>ok p; made process (length frs) p = Some (p', frs); frs \<noteq> [] \<longrightarrow> h + (length frs - 1) * n < blk; blk \<le> stock p + h\<rbrakk> \<Longrightarrow>
   (starved p' = starved p \<and> blk \<le> stock p' + h + length frs * n
      \<and> (blk + n \<le> stock p + h + 1 \<longrightarrow> blk + n \<le> stock p' + h + length frs * n + 1))
   \<or> starved p' = starved p + 1 \<and> \<not> blk + n \<le> stock p + h + 1 \<and> blk + n \<le> stock p' + h + length frs * n + 1"
proof (induction frs arbitrary: p h)
  case Nil
  then show ?case by simp
next
  case (Cons fr frs)
  from process_ok [OF Cons.prems(1)] obtain p1 where p1: "process p = Some (p1, fr)" "ok p1"
    "made process (length frs) p1 = Some (p', frs)" and n: "0 < n"
    using Cons.prems(2) by (auto split: bind_splits)
  note sz = sizes [OF Cons.prems(1)]
  have lt: "h < blk" using Cons.prems(3) by simp
  have next_lt: "frs \<noteq> [] \<longrightarrow> h + n + (length frs - 1) * n < blk"
    using Cons.prems(3) by (cases frs) (auto simp: algebra_simps)
  from draws [OF Cons.prems(1) p1(1)] show ?case
  proof
    assume "starved p1 = starved p \<and> n \<le> stock p \<and> stock p1 + n = min (stock p) cap"
    then have d: "starved p1 = starved p \<and> min (stock p) cap \<le> stock p1 + n" by simp
    then have k: "blk \<le> stock p1 + (h + n)" using Cons.prems(4) sz n by (auto simp: min_def split: if_splits)
    from Cons.IH [OF p1(2,3) next_lt k] d sz Cons.prems(4) show ?thesis
      by (auto simp: min_def algebra_simps split: if_splits)
  next
    assume "starved p1 = starved p + 1 \<and> stock p < n \<and> stock p1 = stock p"
    then have d: "starved p1 = starved p + 1 \<and> stock p < n \<and> stock p \<le> stock p1" by simp
    then have k: "blk \<le> stock p1 + (h + n)" and j: "blk + n \<le> stock p1 + (h + n) + 1" "\<not> blk + n \<le> stock p + h + 1"
      using Cons.prems(4) lt by auto
    from Cons.IH [OF p1(2,3) next_lt k] j d show ?thesis by (auto simp: algebra_simps)
  qed
qed

lemma duplex_cycle:
  assumes "out_ready ok fine n s" and "inp_ok i" and "0 < channels" and "length d div channels = blk"
    and "blk + n \<le> fifo_capacity (oc_pending s) + 1"
  shows "\<exists>p s' d'. feed i (oc_process s) = Some p \<and> output_callback process channels f d (s\<lparr>oc_process := p\<rparr>) = Some (s', d')
    \<and> out_ready ok fine n s' \<and> fifo_capacity (oc_pending s') = fifo_capacity (oc_pending s)
    \<and> (starved (oc_process s') = starved (oc_process s)
         \<and> (n \<le> stock (oc_process s) + sf_len (oc_pending s) + 1 \<longrightarrow> n \<le> stock (oc_process s') + sf_len (oc_pending s') + 1)
       \<or> starved (oc_process s') = starved (oc_process s) + 1 \<and> \<not> n \<le> stock (oc_process s) + sf_len (oc_pending s) + 1
         \<and> n \<le> stock (oc_process s') + sf_len (oc_pending s') + 1)"
proof -
  let ?h = "sf_len (oc_pending s)"
  from turn [OF assms, of f] obtain p s' d' frs where p: "feed i (oc_process s) = Some p" "ok p" "starved p = starved (oc_process s)"
    "min (stock (oc_process s) + blk) rm \<le> stock p"
    and s': "output_callback process channels f d (s\<lparr>oc_process := p\<rparr>) = Some (s', d')" "out_ready ok fine n s'"
    "fifo_capacity (oc_pending s') = fifo_capacity (oc_pending s)" "made process (length frs) p = Some (oc_process s', frs)"
    and len: "?h + length frs * n = blk + sf_len (oc_pending s')" and short: "frs = [] \<or> sf_len (oc_pending s') < n" by blast
  note sz = sizes [OF p(2)]
  from process_ok [OF p(2)] have n: "0 < n" by blast
  have few: "frs \<noteq> [] \<longrightarrow> ?h + (length frs - 1) * n < blk"
    using len short by (cases frs) auto
  have k: "blk \<le> stock p + ?h" using p(4) sz n by (auto simp: min_def split: if_splits)
  have j: "n \<le> stock (oc_process s) + ?h + 1 \<Longrightarrow> blk + n \<le> stock p + ?h + 1"
    using p(4) sz by (auto simp: min_def split: if_splits)
  have j': "blk + n \<le> stock (oc_process s') + ?h + length frs * n + 1 \<longleftrightarrow> n \<le> stock (oc_process s') + sf_len (oc_pending s') + 1"
    using len by auto
  from made_stock [OF p(2) s'(4) few k] show ?thesis unfolding j' p(3) using p(1) s'(1,2,3) j by blast
qed

lemma duplex_run:
  assumes "0 < channels"
  shows "\<lbrakk>out_ready ok fine n s; \<forall>(i, d) \<in> set xs. inp_ok i \<and> length d div channels = blk;
     blk + n \<le> fifo_capacity (oc_pending s) + 1\<rbrakk> \<Longrightarrow>
   \<exists>s'. for_each (\<lambda>(i, d) s. Option.bind (feed i (oc_process s)) (\<lambda>p.
          map_option fst (output_callback process channels f d (s\<lparr>oc_process := p\<rparr>)))) xs s = Some s'
     \<and> (starved (oc_process s') = starved (oc_process s)
        \<or> starved (oc_process s') = starved (oc_process s) + 1 \<and> \<not> n \<le> stock (oc_process s) + sf_len (oc_pending s) + 1)"
proof (induction xs arbitrary: s)
  case (Cons x xs)
  obtain i d where x: "x = (i, d)" by fastforce
  with Cons.prems(2) have i: "inp_ok i" "length d div channels = blk" by auto
  from duplex_cycle [OF Cons.prems(1) i(1) assms i(2) Cons.prems(3), of f] obtain p s1 d' where
    s1: "feed i (oc_process s) = Some p" "output_callback process channels f d (s\<lparr>oc_process := p\<rparr>) = Some (s1, d')"
    "out_ready ok fine n s1" "fifo_capacity (oc_pending s1) = fifo_capacity (oc_pending s)"
    "starved (oc_process s1) = starved (oc_process s)
       \<and> (n \<le> stock (oc_process s) + sf_len (oc_pending s) + 1 \<longrightarrow> n \<le> stock (oc_process s1) + sf_len (oc_pending s1) + 1)
     \<or> starved (oc_process s1) = starved (oc_process s) + 1 \<and> \<not> n \<le> stock (oc_process s) + sf_len (oc_pending s) + 1
       \<and> n \<le> stock (oc_process s1) + sf_len (oc_pending s1) + 1" by blast
  have "\<forall>(i, d) \<in> set xs. inp_ok i \<and> length d div channels = blk" using Cons.prems(2) by simp
  from Cons.IH [OF s1(3) this] Cons.prems(3) s1(4) obtain s2 where
    "for_each (\<lambda>(i, d) s. Option.bind (feed i (oc_process s)) (\<lambda>p.
       map_option fst (output_callback process channels f d (s\<lparr>oc_process := p\<rparr>)))) xs s1 = Some s2"
    "starved (oc_process s2) = starved (oc_process s1)
        \<or> starved (oc_process s2) = starved (oc_process s1) + 1 \<and> \<not> n \<le> stock (oc_process s1) + sf_len (oc_pending s1) + 1" by auto
  with s1(1,2,5) x show ?case by auto
qed simp

end

definition env_quiet :: "('sh \<Rightarrow> u64) \<Rightarrow> (nat \<Rightarrow> ('pl, 'sh, 'r, 'q) jam_audio \<Rightarrow> ('pl, 'sh, 'r, 'q) jam_audio) \<Rightarrow> bool" where
  "env_quiet count env \<longleftrightarrow> (\<forall>k s. ja_capture (env k s) = ja_capture s \<and> count (ja_shared (env k s)) = count (ja_shared s))"

definition feed_capture :: "('a, 'r) ring_lib \<Rightarrow> ('t \<Rightarrow> 'a) \<Rightarrow> nat \<Rightarrow> 't list \<Rightarrow> nat \<times> ('pl, 'sh, 'r, 'q) jam_audio
    \<Rightarrow> (nat \<times> ('pl, 'sh, 'r, 'q) jam_audio) option" where
  "feed_capture R g channels data p =
     map_option (\<lambda>r. (fst p, (snd p)\<lparr>ja_capture := r\<rparr>)) (capture_callback R g channels data (ja_capture (snd p)))"

lemma feed_capture_feeds:
  assumes "ring_ok R els room_of" and "0 < channels" and "in_room els room_of rm p"
  shows "\<exists>r. feed_capture R g channels data p = Some (fst p, (snd p)\<lparr>ja_capture := r\<rparr>)
    \<and> in_room els room_of rm (fst p, (snd p)\<lparr>ja_capture := r\<rparr>)
    \<and> min (length (els (ja_capture (snd p))) + length data div channels) rm \<le> length (els r)"
proof -
  from assms(3) have "length (els (ja_capture (snd p))) \<le> room_of (ja_capture (snd p))" by (simp add: in_room_def)
  from capture_callback_records [OF assms(1,2) this, of g data] assms(3) show ?thesis
    by (auto simp: feed_capture_def in_room_def)
qed

lemma n_le_drift_cap: "n \<le> drift_cap_of n hw"
  by (simp add: drift_cap_of_def)

lemma drawn_fits:
  assumes "drawn n cap els room_of r r' c c'"
  shows "room_of r' = room_of r \<and> length (els r') \<le> length (els r)"
  using assms by (auto simp: drawn_def keep_newest_def split: if_splits)

lemma drawn_stock:
  assumes "drawn n cap els room_of r r' c c'" and "n \<le> cap"
  shows "c' = c \<and> n \<le> length (els r) \<and> length (els r') + n = min (length (els r)) cap
    \<or> c' = c + 1 \<and> length (els r) < n \<and> length (els r') = length (els r)"
  using assms by (auto simp: drawn_def keep_newest_def split: if_splits)

interpretation host_fed: fed_source "interleaved env (host_frame lib R Q n hw)" n
  "\<lambda>p. env_keeps (host_ready lib R els room_of n sid) env \<and> host_ready lib R els room_of n sid (snd p) \<and> env_quiet hs_capture_starved env
     \<and> in_room els room_of rm p \<and> 0 < channels"
  "\<lambda>y. \<bar>y\<bar> \<le> 2 / 3" "\<lambda>p. length (els (ja_capture (snd p)))" "\<lambda>p. hs_capture_starved (ja_shared (snd p))" "drift_cap_of n hw"
  "feed_capture R g channels" "\<lambda>i. length i div channels = blk" blk rm
proof (unfold_locales, goal_cases)
  case (1 p)
  then have e: "ja_capture (env (fst p) (snd p)) = ja_capture (snd p)" by (simp add: env_quiet_def)
  from 1 host_step [where p = p and env = env and Q = Q and hw = hw] obtain s' out where
    "interleaved env (host_frame lib R Q n hw) p = Some ((Suc (fst p), s'), out)" "length out = n" "list_all (\<lambda>y. \<bar>y\<bar> \<le> 2 / 3) out"
    "0 < n" "host_ready lib R els room_of n sid s'" "room_of (ja_capture s') = room_of (ja_capture (snd p))"
    "length (els (ja_capture s')) \<le> length (els (ja_capture (snd p)))"
    using drawn_fits [where els = els and room_of = room_of] unfolding e [symmetric] by blast
  with 1 show ?case by (auto simp: in_room_def)
next
  case (2 p p' fr)
  then have e: "ja_capture (env (fst p) (snd p)) = ja_capture (snd p)"
    "hs_capture_starved (ja_shared (env (fst p) (snd p))) = hs_capture_starved (ja_shared (snd p))" by (simp_all add: env_quiet_def)
  from 2 host_step [where p = p and env = env and Q = Q and hw = hw] have
    "drawn n (drift_cap_of n hw) els room_of (ja_capture (snd p)) (ja_capture (snd p'))
       (hs_capture_starved (ja_shared (snd p))) (hs_capture_starved (ja_shared (snd p')))" unfolding e [symmetric] by fastforce
  from drawn_stock [OF this n_le_drift_cap] show ?case .
next
  case (3 p i)
  then have ring: "ring_ok R els room_of" by (simp add: host_ready_def)
  from feed_capture_feeds [OF ring, where channels = channels and rm = rm and p = p and data = i and g = g] 3 obtain r where
    "feed_capture R g channels i p = Some (fst p, (snd p)\<lparr>ja_capture := r\<rparr>)"
    "in_room els room_of rm (fst p, (snd p)\<lparr>ja_capture := r\<rparr>)" "min (length (els (ja_capture (snd p))) + blk) rm \<le> length (els r)" by auto
  with 3 show ?case by (auto simp: host_ready_def)
qed

interpretation host_duplex: duplex_source "interleaved env (host_frame lib R Q n hw)" n
  "\<lambda>p. (env_keeps (host_ready lib R els room_of n sid) env \<and> host_ready lib R els room_of n sid (snd p) \<and> env_quiet hs_capture_starved env
     \<and> in_room els room_of rm p \<and> 0 < channels) \<and> blk + n \<le> drift_cap_of n hw + 1 \<and> blk + n \<le> rm + 1"
  "\<lambda>y. \<bar>y\<bar> \<le> 2 / 3" "\<lambda>p. length (els (ja_capture (snd p)))" "\<lambda>p. hs_capture_starved (ja_shared (snd p))" "drift_cap_of n hw"
  "feed_capture R g channels" "\<lambda>i. length i div channels = blk" blk rm
proof (unfold_locales, goal_cases)
  case (1 p)
  with host_fed.process_ok [where els = els and room_of = room_of and env = env and rm = rm and channels = channels and p = p and lib = lib and R = R and Q = Q and n = n and hw = hw and sid = sid] show ?case by blast
next
  case (2 p p' fr)
  with host_fed.draws [where els = els and room_of = room_of and env = env and rm = rm and channels = channels and p = p and lib = lib and R = R and Q = Q and n = n and hw = hw and sid = sid and p' = p' and fr = fr] show ?case by blast
next
  case (3 p i)
  with host_fed.feeds [where els = els and room_of = room_of and env = env and rm = rm and channels = channels and p = p and lib = lib and R = R and n = n and sid = sid and i = i and blk = blk and g = g] show ?case by blast
next
  case (4 p)
  then show ?case by simp
qed

interpretation client_fed: fed_source "interleaved env (client_frame lib R Q n hw)" n
  "\<lambda>p. env_keeps (client_ready lib R els room_of n) env \<and> client_ready lib R els room_of n (snd p) \<and> env_quiet cs_capture_starved env
     \<and> in_room els room_of rm p \<and> 0 < channels"
  "\<lambda>y. \<bar>y\<bar> \<le> 2 / 3" "\<lambda>p. length (els (ja_capture (snd p)))" "\<lambda>p. cs_capture_starved (ja_shared (snd p))" "drift_cap_of n hw"
  "feed_capture R g channels" "\<lambda>i. length i div channels = blk" blk rm
proof (unfold_locales, goal_cases)
  case (1 p)
  then have e: "ja_capture (env (fst p) (snd p)) = ja_capture (snd p)" by (simp add: env_quiet_def)
  from 1 client_step [where p = p and env = env and Q = Q and hw = hw] obtain s' out where
    "interleaved env (client_frame lib R Q n hw) p = Some ((Suc (fst p), s'), out)" "length out = n" "list_all (\<lambda>y. \<bar>y\<bar> \<le> 2 / 3) out"
    "0 < n" "client_ready lib R els room_of n s'" "room_of (ja_capture s') = room_of (ja_capture (snd p))"
    "length (els (ja_capture s')) \<le> length (els (ja_capture (snd p)))"
    using drawn_fits [where els = els and room_of = room_of] unfolding e [symmetric] by blast
  with 1 show ?case by (auto simp: in_room_def)
next
  case (2 p p' fr)
  then have e: "ja_capture (env (fst p) (snd p)) = ja_capture (snd p)"
    "cs_capture_starved (ja_shared (env (fst p) (snd p))) = cs_capture_starved (ja_shared (snd p))" by (simp_all add: env_quiet_def)
  from 2 client_step [where p = p and env = env and Q = Q and hw = hw] have
    "drawn n (drift_cap_of n hw) els room_of (ja_capture (snd p)) (ja_capture (snd p'))
       (cs_capture_starved (ja_shared (snd p))) (cs_capture_starved (ja_shared (snd p')))" unfolding e [symmetric] by fastforce
  from drawn_stock [OF this n_le_drift_cap] show ?case .
next
  case (3 p i)
  then have ring: "ring_ok R els room_of" by (simp add: client_ready_def)
  from feed_capture_feeds [OF ring, where channels = channels and rm = rm and p = p and data = i and g = g] 3 obtain r where
    "feed_capture R g channels i p = Some (fst p, (snd p)\<lparr>ja_capture := r\<rparr>)"
    "in_room els room_of rm (fst p, (snd p)\<lparr>ja_capture := r\<rparr>)" "min (length (els (ja_capture (snd p))) + blk) rm \<le> length (els r)" by auto
  with 3 show ?case by (auto simp: client_ready_def)
qed

interpretation client_duplex: duplex_source "interleaved env (client_frame lib R Q n hw)" n
  "\<lambda>p. (env_keeps (client_ready lib R els room_of n) env \<and> client_ready lib R els room_of n (snd p) \<and> env_quiet cs_capture_starved env
     \<and> in_room els room_of rm p \<and> 0 < channels) \<and> blk + n \<le> drift_cap_of n hw + 1 \<and> blk + n \<le> rm + 1"
  "\<lambda>y. \<bar>y\<bar> \<le> 2 / 3" "\<lambda>p. length (els (ja_capture (snd p)))" "\<lambda>p. cs_capture_starved (ja_shared (snd p))" "drift_cap_of n hw"
  "feed_capture R g channels" "\<lambda>i. length i div channels = blk" blk rm
proof (unfold_locales, goal_cases)
  case (1 p)
  with client_fed.process_ok [where els = els and room_of = room_of and env = env and rm = rm and channels = channels and p = p and lib = lib and R = R and Q = Q and n = n and hw = hw] show ?case by blast
next
  case (2 p p' fr)
  with client_fed.draws [where els = els and room_of = room_of and env = env and rm = rm and channels = channels and p = p and lib = lib and R = R and Q = Q and n = n and hw = hw and p' = p' and fr = fr] show ?case by blast
next
  case (3 p i)
  with client_fed.feeds [where els = els and room_of = room_of and env = env and rm = rm and channels = channels and p = p and lib = lib and R = R and n = n and i = i and blk = blk and g = g] show ?case by blast
next
  case (4 p)
  then show ?case by simp
qed


section \<open>One starved frame at most\<close>

text \<open>A card that captures and plays blocks in step: \<open>x = (i, d)\<close> are the two blocks of a turn.\<close>

definition duplex_turn :: "('a, 'r) ring_lib \<Rightarrow> ('t \<Rightarrow> 'a) \<Rightarrow> nat \<Rightarrow> (nat \<times> ('pl, 'sh, 'r, 'q) jam_audio \<Rightarrow> ((nat \<times> ('pl, 'sh, 'r, 'q) jam_audio) \<times> 'a list) option)
    \<Rightarrow> nat \<Rightarrow> ('a \<Rightarrow> 't) \<Rightarrow> 't list \<times> 't list \<Rightarrow> ('a, nat \<times> ('pl, 'sh, 'r, 'q) jam_audio) out_state
    \<Rightarrow> ('a, nat \<times> ('pl, 'sh, 'r, 'q) jam_audio) out_state option" where
  "duplex_turn R g cin process channels f = (\<lambda>(i, d) s. Option.bind (feed_capture R g cin i (oc_process s)) (\<lambda>p.
     map_option fst (output_callback process channels f d (s\<lparr>oc_process := p\<rparr>))))"

definition run_duplex :: "('a, 'r) ring_lib \<Rightarrow> ('t \<Rightarrow> 'a) \<Rightarrow> nat \<Rightarrow> (nat \<times> ('pl, 'sh, 'r, 'q) jam_audio \<Rightarrow> ((nat \<times> ('pl, 'sh, 'r, 'q) jam_audio) \<times> 'a list) option)
    \<Rightarrow> nat \<Rightarrow> ('a \<Rightarrow> 't) \<Rightarrow> ('t list \<times> 't list) list \<Rightarrow> ('a, nat \<times> ('pl, 'sh, 'r, 'q) jam_audio) out_state
    \<Rightarrow> ('a, nat \<times> ('pl, 'sh, 'r, 'q) jam_audio) out_state option" where
  "run_duplex R g cin process channels f = for_each (duplex_turn R g cin process channels f)"

lemma run_duplexI:
  assumes src: "duplex_source process n ok (\<lambda>y :: real. \<bar>y\<bar> \<le> 2 / 3) stock starved cap (feed_capture R g cin) (\<lambda>i. length i div cin = blk) blk rm"
    and "ok p" and "0 < channels" and "blk \<le> 65536" and "\<forall>(i, d) \<in> set xs. length i div cin = blk \<and> length d div channels = blk"
  shows "\<exists>s'. run_duplex R g cin process channels f xs (out_new n p) = Some s' \<and> starved (oc_process s') \<in> {starved p, starved p + 1}"
proof -
  have fs: "frame_source process n ok (\<lambda>y :: real. \<bar>y\<bar> \<le> 2 / 3)" using src by (simp add: duplex_source_def fed_source_def drawing_source_def)
  have n: "0 < n" using frame_source.process_ok [OF fs assms(2)] by blast
  have s: "out_ready ok (\<lambda>y :: real. \<bar>y\<bar> \<le> 2 / 3) n (out_new n p)" "fifo_capacity (oc_pending (out_new n p :: (real, _) out_state)) = n * 16 + 65536"
    "oc_process (out_new n p :: (real, _) out_state) = p"
    using out_new_ready [of ok p n "\<lambda>y :: real. \<bar>y\<bar> \<le> 2 / 3", OF assms(2) n] by simp_all
  have "blk + n \<le> fifo_capacity (oc_pending (out_new n p :: (real, _) out_state)) + 1"
    unfolding s(2) using assms(4) n by linarith
  from duplex_source.duplex_run [OF src assms(3) s(1) assms(5) this, of f] show ?thesis
    unfolding run_duplex_def duplex_turn_def s(3) by blast
qed

lemma drift_cap_suffices: "blk \<le> unat hw \<Longrightarrow> blk + n \<le> drift_cap_of n hw + 1"
  by (auto simp: drift_cap_of_def max_def)

text \<open>C32: capture keeps up. When the card captures and plays blocks of the same size, no larger than the
  hardware buffer asked for, then however many blocks there are and whatever their size
  has to do with the frame, at most one frame is ever starved of captured samples: the cap on the
  capture ring never takes samples that the next callback needs.\<close>

theorem capture_keeps_up:
  assumes "audio_setup lib p" and "ring_ok R els room_of" and "0 < cin" and "0 < channels"
    and "blk \<le> unat hw" and "blk \<le> 65536" and "blk + ep_frame_samples p \<le> unat (ep_sample_rate p) div 4 + 1"
    and "\<forall>(i, d) \<in> set xs. length i div cin = blk \<and> length d div channels = blk"
    and "host_audio_new lib R p (host_shared_new sid) q = Some h" and "client_audio_new lib R p client_shared_default q = Some c"
    and "env_keeps (host_ready lib R els room_of (ep_frame_samples p) sid) henv" and "env_quiet hs_capture_starved henv"
    and "env_keeps (client_ready lib R els room_of (ep_frame_samples p)) cenv" and "env_quiet cs_capture_starved cenv"
  shows "(\<exists>s'. run_duplex R g cin (interleaved henv (host_frame lib R Q (ep_frame_samples p) hw)) channels f xs
       (out_new (ep_frame_samples p) (0, h)) = Some s' \<and> hs_capture_starved (ja_shared (snd (oc_process s'))) \<in> {0, 1})
    \<and> (\<exists>s'. run_duplex R g cin (interleaved cenv (client_frame lib R Q (ep_frame_samples p) hw)) channels f xs
       (out_new (ep_frame_samples p) (0, c)) = Some s' \<and> cs_capture_starved (ja_shared (snd (oc_process s'))) \<in> {0, 1})"
proof -
  note h = host_audio_ready [OF assms(1,2,9)] and c = client_audio_ready [OF assms(1,2,10)]
  note size = drift_cap_suffices [OF assms(5)]
  have "hs_capture_starved (ja_shared (snd (0 :: nat, h))) = 0" "cs_capture_starved (ja_shared (snd (0 :: nat, c))) = 0"
    using h c by (simp_all add: host_shared_new_def client_shared_default_def)
  with run_duplexI [OF host_duplex.duplex_source_axioms [where els = els and room_of = room_of and sid = sid and R = R and env = henv
        and lib = lib and Q = Q and n = "ep_frame_samples p" and hw = hw and rm = "unat (ep_sample_rate p) div 4"
        and channels = cin and g = g and blk = blk] _ assms(4,6,8), of "(0, h)" f]
    run_duplexI [OF client_duplex.duplex_source_axioms [where els = els and room_of = room_of and R = R and env = cenv
        and lib = lib and Q = Q and n = "ep_frame_samples p" and hw = hw and rm = "unat (ep_sample_rate p) div 4"
        and channels = cin and g = g and blk = blk] _ assms(4,6,8), of "(0, c)" f]
    h c assms(3,7,11-14) size
  show ?thesis by simp
qed

lemma capture_keeps_up_witness:
  "\<exists>h c. host_audio_new silent_lib list_ring ex_params (host_shared_new 7) tx_ring = Some h
     \<and> client_audio_new silent_lib list_ring ex_params client_shared_default tx_ring = Some c
     \<and> (\<exists>s'. run_duplex list_ring (\<lambda>y. y) 1 (interleaved (\<lambda>_ s. s) (host_frame silent_lib list_ring list_ring 120 512)) 2 (\<lambda>y. y)
          (replicate 9 (replicate 512 0, replicate 1024 0)) (out_new 120 (0, h)) = Some s'
        \<and> hs_capture_starved (ja_shared (snd (oc_process s'))) \<in> {0, 1})
     \<and> (\<exists>s'. run_duplex list_ring (\<lambda>y. y) 1 (interleaved (\<lambda>_ s. s) (client_frame silent_lib list_ring list_ring 120 512)) 2 (\<lambda>y. y)
          (replicate 9 (replicate 512 0, replicate 1024 0)) (out_new 120 (0, c)) = Some s'
        \<and> cs_capture_starved (ja_shared (snd (oc_process s'))) \<in> {0, 1})"
proof -
  obtain h c where hc: "host_audio_new silent_lib list_ring ex_params (host_shared_new 7) tx_ring = Some h"
    "client_audio_new silent_lib list_ring ex_params client_shared_default tx_ring = Some c"
    using audio_starts by blast
  have x: "(0 :: nat) < 1" "(0 :: nat) < 2" "512 \<le> unat (512 :: u32)" "512 \<le> (65536 :: nat)"
    "512 + ep_frame_samples ex_params \<le> unat (ep_sample_rate ex_params) div 4 + 1"
    "\<forall>(i, d) \<in> set (replicate 9 (replicate 512 0, replicate 1024 (0 :: real))). length (i :: real list) div 1 = 512 \<and> length d div 2 = 512"
    by (simp_all add: ex_params_def engine_params_default_def)
  have e: "env_quiet hs_capture_starved (\<lambda>_ s. s)" "env_quiet cs_capture_starved (\<lambda>_ s. s)" "env_keeps good (\<lambda>_ s. s)" for good
    by (simp_all add: env_quiet_def env_keeps_def)
  from capture_keeps_up [OF ex_setup list_ring_ok x hc e(3) e(1) e(3) e(2), of "\<lambda>y. y" list_ring "\<lambda>y. y"] hc
  show ?thesis unfolding ex_params_simps by blast
qed

text \<open>The cap follows the buffer the user asked for; the block is the one the card settled on.\<close>

definition starves_each_turn :: "('sh \<Rightarrow> u64) \<Rightarrow> ('t list \<times> 't list \<Rightarrow> (real, nat \<times> ('pl, 'sh, 'r, 'q) jam_audio) out_state
    \<Rightarrow> (real, nat \<times> ('pl, 'sh, 'r, 'q) jam_audio) out_state option) \<Rightarrow> ('t list \<times> 't list) list
    \<Rightarrow> (real, nat \<times> ('pl, 'sh, 'r, 'q) jam_audio) out_state \<Rightarrow> bool" where
  "starves_each_turn count step xs s \<longleftrightarrow>
     (\<forall>k < length xs. \<exists>s1 s2. for_each step (take k xs) s = Some s1 \<and> step (xs ! k) s1 = Some s2
        \<and> count (ja_shared (snd (oc_process s2))) \<noteq> count (ja_shared (snd (oc_process s1))))"

lemma starves_each_turnI:
  assumes src: "fed_source process n ok (\<lambda>y :: real. \<bar>y\<bar> \<le> 2 / 3) stock (\<lambda>p. count (ja_shared (snd p))) cap (feed_capture R g cin)
      (\<lambda>i. length i div cin = blk) blk rm"
    and "ok p" and "0 < channels" and "blk \<le> 65536" and "cap + n \<le> blk"
    and "\<forall>(i, d) \<in> set xs. length i div cin = blk \<and> length d div channels = blk"
  shows "starves_each_turn count (duplex_turn R g cin process channels f) xs (out_new n p)"
  unfolding starves_each_turn_def
proof (intro allI impI)
  fix k
  assume k: "k < length xs"
  obtain i d where x: "xs ! k = (i, d)" by fastforce
  with assms(6) nth_mem [OF k] have xk: "length i div cin = blk" "length d div channels = blk" by fastforce+
  have xs: "\<forall>(i, d) \<in> set (take k xs). length i div cin = blk \<and> length d div channels = blk"
    using assms(6) by (meson in_set_takeD)
  have fs: "frame_source process n ok (\<lambda>y. \<bar>y\<bar> \<le> 2 / 3)" using src by (simp add: fed_source_def drawing_source_def)
  have n: "0 < n" using frame_source.process_ok [OF fs assms(2)] by blast
  let ?s = "out_new n p :: (real, _) out_state"
  have s: "out_ready ok (\<lambda>y. \<bar>y\<bar> \<le> 2 / 3) n ?s" "fifo_capacity (oc_pending ?s) = n * 16 + 65536" "sf_len (oc_pending ?s) < n"
    using out_new_ready [of ok p n "\<lambda>y :: real. \<bar>y\<bar> \<le> 2 / 3", OF assms(2) n] n by (simp_all add: out_new_def fifo_new_def)
  have cap: "blk + n \<le> fifo_capacity (oc_pending ?s) + 1" unfolding s(2) using assms(4) n by linarith
  from fed_source.turns_ready [OF src assms(3) s(1) xs cap s(3), of f] obtain s1 where
    s1: "for_each (duplex_turn R g cin process channels f) (take k xs) ?s = Some s1"
    "out_ready ok (\<lambda>y. \<bar>y\<bar> \<le> 2 / 3) n s1" "fifo_capacity (oc_pending s1) = fifo_capacity (oc_pending ?s)" "sf_len (oc_pending s1) < n"
    unfolding duplex_turn_def by blast
  have "blk + n < 2 ^ 64" using assms(4,5) by simp
  with fed_source.turn_starves [OF src s1(2) xk(1) assms(3) xk(2) _ s1(4) assms(5), of f] cap s1(3)
  obtain p' s2 d' where "feed_capture R g cin i (oc_process s1) = Some p'"
    "output_callback process channels f d (s1\<lparr>oc_process := p'\<rparr>) = Some (s2, d')"
    "count (ja_shared (snd (oc_process s2))) \<noteq> count (ja_shared (snd (oc_process s1)))" by auto
  with s1(1) x show "\<exists>s1 s2. for_each (duplex_turn R g cin process channels f) (take k xs) ?s = Some s1
      \<and> duplex_turn R g cin process channels f (xs ! k) s1 = Some s2
      \<and> count (ja_shared (snd (oc_process s2))) \<noteq> count (ja_shared (snd (oc_process s1)))"
    by (intro exI [of _ s1] exI [of _ s2]) (simp add: duplex_turn_def)
qed

text \<open>C33: a card that does not accept the small buffer starves. When the block the card settled on exceeds the
  cap computed from the buffer that was asked for by a frame or more, every single turn starves a
  frame, on the host and on a client, with no drift between the clocks at all.\<close>

theorem undersized_cap_starves:
  assumes "audio_setup lib p" and "ring_ok R els room_of" and "0 < cin" and "0 < channels"
    and "drift_cap_of (ep_frame_samples p) hw + ep_frame_samples p \<le> blk" and "blk \<le> 65536"
    and "\<forall>(i, d) \<in> set xs. length i div cin = blk \<and> length d div channels = blk"
    and "host_audio_new lib R p (host_shared_new sid) q = Some h" and "client_audio_new lib R p client_shared_default q = Some c"
    and "env_keeps (host_ready lib R els room_of (ep_frame_samples p) sid) henv" and "env_quiet hs_capture_starved henv"
    and "env_keeps (client_ready lib R els room_of (ep_frame_samples p)) cenv" and "env_quiet cs_capture_starved cenv"
  shows "starves_each_turn hs_capture_starved (duplex_turn R g cin (interleaved henv (host_frame lib R Q (ep_frame_samples p) hw)) channels f)
       xs (out_new (ep_frame_samples p) (0, h))
    \<and> starves_each_turn cs_capture_starved (duplex_turn R g cin (interleaved cenv (client_frame lib R Q (ep_frame_samples p) hw)) channels f)
       xs (out_new (ep_frame_samples p) (0, c))"
proof -
  note h = host_audio_ready [OF assms(1,2,8)] and c = client_audio_ready [OF assms(1,2,9)]
  show ?thesis
    using starves_each_turnI [OF host_fed.fed_source_axioms [where els = els and room_of = room_of and sid = sid and R = R and env = henv
        and lib = lib and Q = Q and n = "ep_frame_samples p" and hw = hw and rm = "unat (ep_sample_rate p) div 4"
        and channels = cin and g = g and blk = blk] _ assms(4,6,5,7), of "(0, h)" f]
      starves_each_turnI [OF client_fed.fed_source_axioms [where els = els and room_of = room_of and R = R and env = cenv
        and lib = lib and Q = Q and n = "ep_frame_samples p" and hw = hw and rm = "unat (ep_sample_rate p) div 4"
        and channels = cin and g = g and blk = blk] _ assms(4,6,5,7), of "(0, c)" f]
      h c assms(3,10-13) by simp
qed

lemma undersized_cap_starves_witness:
  "\<exists>h c. host_audio_new silent_lib list_ring ex_params (host_shared_new 7) tx_ring = Some h
     \<and> client_audio_new silent_lib list_ring ex_params client_shared_default tx_ring = Some c
     \<and> starves_each_turn hs_capture_starved (duplex_turn list_ring (\<lambda>y. y) 1
          (interleaved (\<lambda>_ s. s) (host_frame silent_lib list_ring list_ring 120 128)) 2 (\<lambda>y. y))
          (replicate 5 (replicate 1024 0, replicate 2048 0)) (out_new 120 (0, h))
     \<and> starves_each_turn cs_capture_starved (duplex_turn list_ring (\<lambda>y. y) 1
          (interleaved (\<lambda>_ s. s) (client_frame silent_lib list_ring list_ring 120 128)) 2 (\<lambda>y. y))
          (replicate 5 (replicate 1024 0, replicate 2048 0)) (out_new 120 (0, c))"
proof -
  obtain h c where hc: "host_audio_new silent_lib list_ring ex_params (host_shared_new 7) tx_ring = Some h"
    "client_audio_new silent_lib list_ring ex_params client_shared_default tx_ring = Some c"
    using audio_starts by blast
  have x: "(0 :: nat) < 1" "(0 :: nat) < 2" "drift_cap_of (ep_frame_samples ex_params) 128 + ep_frame_samples ex_params \<le> 1024"
    "1024 \<le> (65536 :: nat)"
    "\<forall>(i, d) \<in> set (replicate 5 (replicate 1024 0, replicate 2048 (0 :: real))). length (i :: real list) div 1 = 1024 \<and> length d div 2 = 1024"
    by (simp_all add: drift_cap_of_def)
  have e: "env_quiet hs_capture_starved (\<lambda>_ s. s)" "env_quiet cs_capture_starved (\<lambda>_ s. s)" "env_keeps good (\<lambda>_ s. s)" for good
    by (simp_all add: env_quiet_def env_keeps_def)
  from undersized_cap_starves [OF ex_setup list_ring_ok x hc e(3) e(1) e(3) e(2), of "\<lambda>y. y" list_ring "\<lambda>y. y"] hc
  show ?thesis unfolding ex_params_simps by blast
qed

end
