(* ===== verification/Device_Negotiation.thy ===== *)
theory Device_Negotiation
  imports Wire_Types "HOL-Library.Sublist"
begin

text \<open>
  Choosing a sound card and its format (\<open>crates/jam-audio/src/device.rs\<close>). What the operating system offers
  (\<open>cpal\<close>) is data: the devices with their names and the formats they report, \<open>None\<close> where
  the query fails. Lower case of a name (Unicode tables) is the parameter \<open>lower\<close>.
\<close>

section \<open>What a device offers\<close>

definition SAMPLE_RATE :: u32 where "SAMPLE_RATE = 48000"

text \<open>\<open>OtherFormat\<close> is any format \<open>cpal\<close> may add.\<close>

datatype sample_format = F32 | I32 | I16 | U16 | F64 | U32 | I8 | U8 | I64 | U64 | OtherFormat

datatype buffer_support = BufferRange u32 u32 | BufferUnknown

record supported_config =
  sc_min_rate :: u32
  sc_max_rate :: u32
  sc_format :: sample_format
  sc_channels :: u16
  sc_buffer :: buffer_support

record cpal_device =
  cd_name :: "rust_string option"
  cd_inputs :: "supported_config list option"
  cd_outputs :: "supported_config list option"

record cpal_host =
  ch_default_input :: "cpal_device option"
  ch_default_output :: "cpal_device option"
  ch_devices :: "cpal_device list option"

datatype device_error =
    NotFound bool "rust_string option"
  | Unsupported rust_string bool "sample_format list option"
  | Cpal

section \<open>Listing and finding devices\<close>

record device_info =
  di_name :: rust_string
  di_is_input :: bool
  di_is_output :: bool
  di_default_input :: bool
  di_default_output :: bool

definition UNKNOWN :: rust_string where
  "UNKNOWN = [60, 117, 110, 107, 110, 111, 119, 110, 62]"

definition usable_for :: "bool \<Rightarrow> cpal_device \<Rightarrow> bool" where
  "usable_for input d = (case (if input then cd_inputs d else cd_outputs d) of None \<Rightarrow> False | Some cs \<Rightarrow> cs \<noteq> [])"

definition device_info_of :: "cpal_host \<Rightarrow> cpal_device \<Rightarrow> device_info" where
  "device_info_of h d =
     (let default_in = Option.bind (ch_default_input h) cd_name; default_out = Option.bind (ch_default_output h) cd_name;
          nm = (case cd_name d of Some nm \<Rightarrow> nm | None \<Rightarrow> UNKNOWN)
      in \<lparr>di_name = nm, di_is_input = usable_for True d, di_is_output = usable_for False d,
          di_default_input = (default_in = Some nm), di_default_output = (default_out = Some nm)\<rparr>)"

definition list_devices :: "cpal_host \<Rightarrow> (device_error, device_info list) outcome" where
  "list_devices h = (case ch_devices h of None \<Rightarrow> Err Cpal | Some ds \<Rightarrow> Ok (map (device_info_of h) ds))"

fun find_matching :: "(cpal_device \<Rightarrow> bool) \<Rightarrow> cpal_device list \<Rightarrow> cpal_device option" where
  "find_matching p [] = None"
| "find_matching p (d # ds) = (if p d then Some d else find_matching p ds)"

definition find_device :: "(rust_string \<Rightarrow> rust_string) \<Rightarrow> cpal_host \<Rightarrow> rust_string option \<Rightarrow> bool \<Rightarrow> (device_error, cpal_device) outcome" where
  "find_device lower h pattern input =
     (case pattern of
        None \<Rightarrow>
          (case (if input then ch_default_input h else ch_default_output h) of
             Some d \<Rightarrow> Ok d
           | None \<Rightarrow> Err (NotFound input None))
      | Some pat \<Rightarrow>
          (case ch_devices h of
             None \<Rightarrow> Err Cpal
           | Some ds \<Rightarrow>
               (case find_matching (\<lambda>d. sublist (lower pat) (lower (case cd_name d of Some nm \<Rightarrow> nm | None \<Rightarrow> []))
                      \<and> usable_for input d) ds of
                  Some d \<Rightarrow> Ok d
                | None \<Rightarrow> Err (NotFound input (Some pat)))))"

section \<open>Negotiation\<close>

definition format_rank :: "sample_format \<Rightarrow> u8 option" where
  "format_rank f = (case f of F32 \<Rightarrow> Some 0 | I32 \<Rightarrow> Some 1 | I16 \<Rightarrow> Some 2 | U16 \<Rightarrow> Some 3 | F64 \<Rightarrow> Some 4 | U32 \<Rightarrow> Some 5
     | I8 \<Rightarrow> Some 6 | U8 \<Rightarrow> Some 7 | I64 \<Rightarrow> Some 8 | U64 \<Rightarrow> Some 9 | OtherFormat \<Rightarrow> None)"

type_synonym candidate = "u8 \<times> u16 \<times> sample_format \<times> buffer_support"

text \<open>\<open>(*r, *ch) <= (rank, cfg.channels())\<close>\<close>

definition no_better :: "candidate \<Rightarrow> u8 \<Rightarrow> u16 \<Rightarrow> bool" where
  "no_better best rank ch = (case best of (r, c, _, _) \<Rightarrow> r < rank \<or> r = rank \<and> c \<le> ch)"

fun pick :: "supported_config list \<Rightarrow> candidate option \<Rightarrow> sample_format list \<Rightarrow> candidate option \<times> sample_format list" where
  "pick [] best seen = (best, seen)"
| "pick (cfg # cfgs) best seen =
     (if SAMPLE_RATE < sc_min_rate cfg \<or> sc_max_rate cfg < SAMPLE_RATE then pick cfgs best seen
      else
        let seen = (if sc_format cfg \<in> set seen then seen else seen @ [sc_format cfg]) in
        (case format_rank (sc_format cfg) of
           None \<Rightarrow> pick cfgs best seen
         | Some rank \<Rightarrow>
             let cand = (rank, sc_channels cfg, sc_format cfg, sc_buffer cfg) in
             pick cfgs (case best of Some b \<Rightarrow> if no_better b rank (sc_channels cfg) then best else Some cand
                        | None \<Rightarrow> Some cand) seen))"

datatype buffer_size = Fixed u32 | DefaultBuffer

record negotiated =
  ng_device :: cpal_device
  ng_channels :: u16
  ng_rate :: u32
  ng_buffer :: buffer_size
  ng_format :: sample_format

text \<open>\<open>buffer_frames.clamp(min, max)\<close> panics when the range is empty.\<close>

definition u32_clamp :: "u32 \<Rightarrow> u32 \<Rightarrow> u32 \<Rightarrow> ('e, u32) outcome" where
  "u32_clamp x lo hi = (if hi < lo then Panic else Ok (if x < lo then lo else if hi < x then hi else x))"

definition negotiate :: "cpal_device \<Rightarrow> bool \<Rightarrow> u32 \<Rightarrow> (device_error, negotiated) outcome" where
  "negotiate d input buffer_frames =
     (let dev_name = (case cd_name d of Some nm \<Rightarrow> nm | None \<Rightarrow> UNKNOWN) in
      (case (if input then cd_inputs d else cd_outputs d) of
         None \<Rightarrow> Err (Unsupported dev_name input None)
       | Some cfgs \<Rightarrow>
           (case pick cfgs None [] of
              (None, seen) \<Rightarrow> Err (Unsupported dev_name input (Some seen))
            | (Some (_, channels, fmt, buffer), _) \<Rightarrow>
                obind (case buffer of BufferRange lo hi \<Rightarrow> obind (u32_clamp buffer_frames lo hi) (\<lambda>x. Ok (Fixed x))
                       | BufferUnknown \<Rightarrow> Ok DefaultBuffer) (\<lambda>size.
                Ok \<lparr>ng_device = d, ng_channels = channels, ng_rate = SAMPLE_RATE, ng_buffer = size, ng_format = fmt\<rparr>))))"

definition open_input :: "(rust_string \<Rightarrow> rust_string) \<Rightarrow> cpal_host \<Rightarrow> rust_string option \<Rightarrow> u32 \<Rightarrow> (device_error, negotiated) outcome" where
  "open_input lower h pattern buffer_frames = obind (find_device lower h pattern True) (\<lambda>d. negotiate d True buffer_frames)"

definition open_output :: "(rust_string \<Rightarrow> rust_string) \<Rightarrow> cpal_host \<Rightarrow> rust_string option \<Rightarrow> u32 \<Rightarrow> (device_error, negotiated) outcome" where
  "open_output lower h pattern buffer_frames = obind (find_device lower h pattern False) (\<lambda>d. negotiate d False buffer_frames)"

section \<open>The best format\<close>

definition covers :: "supported_config \<Rightarrow> bool" where
  "covers cfg \<longleftrightarrow> sc_min_rate cfg \<le> SAMPLE_RATE \<and> SAMPLE_RATE \<le> sc_max_rate cfg"

definition convertible :: "supported_config \<Rightarrow> bool" where
  "convertible cfg \<longleftrightarrow> covers cfg \<and> format_rank (sc_format cfg) \<noteq> None"

definition cost :: "supported_config \<Rightarrow> nat" where
  "cost cfg = unat (the (format_rank (sc_format cfg))) * 65536 + unat (sc_channels cfg)"

definition candidate_of :: "supported_config \<Rightarrow> candidate" where
  "candidate_of cfg = (the (format_rank (sc_format cfg)), sc_channels cfg, sc_format cfg, sc_buffer cfg)"

text \<open>The first of the cheapest convertible configurations.\<close>

fun cheapest :: "supported_config list \<Rightarrow> supported_config option" where
  "cheapest [] = None"
| "cheapest (cfg # cfgs) =
     (case cheapest cfgs of
        None \<Rightarrow> if convertible cfg then Some cfg else None
      | Some best \<Rightarrow> if convertible cfg \<and> cost cfg \<le> cost best then Some cfg else Some best)"

lemma u16_bound: "unat (x :: u16) < 65536"
  by (rule order_less_le_trans [OF unsigned_less]) simp

lemma no_better_cost:
  "\<lbrakk>format_rank (sc_format a) \<noteq> None; format_rank (sc_format b) = Some r\<rbrakk> \<Longrightarrow>
   no_better (candidate_of a) r (sc_channels b) \<longleftrightarrow> cost a \<le> cost b"
  using u16_bound [of "sc_channels a"] u16_bound [of "sc_channels b"]
  by (auto simp: no_better_def candidate_of_def cost_def word_less_nat_alt word_le_nat_alt word_unat_eq_iff)

definition better_of :: "supported_config option \<Rightarrow> supported_config option \<Rightarrow> supported_config option" where
  "better_of a b = (case (a, b) of (Some x, Some y) \<Rightarrow> if cost x \<le> cost y then a else b | (None, _) \<Rightarrow> b | _ \<Rightarrow> a)"

lemma cheapest_convertible: "cheapest cfgs = Some c \<Longrightarrow> convertible c"
  by (induction cfgs arbitrary: c) (auto split: option.splits if_splits)

lemma pick_cheapest:
  "\<lbrakk>\<And>b. best = Some b \<Longrightarrow> convertible b\<rbrakk> \<Longrightarrow>
   fst (pick cfgs (map_option candidate_of best) seen) = map_option candidate_of (better_of best (cheapest cfgs))"
proof (induction cfgs arbitrary: best seen)
  case Nil
  then show ?case by (simp add: better_of_def split: option.split)
next
  case (Cons cfg cfgs)
  show ?case
  proof (cases "convertible cfg")
    case False
    then have "fst (pick (cfg # cfgs) (map_option candidate_of best) seen)
        = map_option candidate_of (better_of best (cheapest cfgs))"
      using Cons by (auto simp: convertible_def covers_def not_le Let_def split: option.split)
    with False show ?thesis by (simp add: option.case_eq_if)
  next
    case True
    then obtain r where r: "format_rank (sc_format cfg) = Some r" "covers cfg" by (auto simp: convertible_def)
    have c: "(r, sc_channels cfg, sc_format cfg, sc_buffer cfg) = candidate_of cfg" by (simp add: candidate_of_def r)
    let ?best = "better_of best (Some cfg)"
    have step: "(case map_option candidate_of best of Some b \<Rightarrow> if no_better b r (sc_channels cfg) then map_option candidate_of best
        else Some (candidate_of cfg) | None \<Rightarrow> Some (candidate_of cfg)) = map_option candidate_of ?best"
      using Cons.prems no_better_cost [OF _ r(1)] by (auto simp: better_of_def convertible_def split: option.split)
    have "pick (cfg # cfgs) b seen = pick cfgs (case b of Some b' \<Rightarrow> if no_better b' r (sc_channels cfg) then b else Some (candidate_of cfg)
        | None \<Rightarrow> Some (candidate_of cfg)) (if sc_format cfg \<in> set seen then seen else seen @ [sc_format cfg])" for b
      using r by (simp add: c Let_def covers_def leD)
    from this [of "map_option candidate_of best"]
    have "fst (pick (cfg # cfgs) (map_option candidate_of best) seen) = map_option candidate_of (better_of ?best (cheapest cfgs))"
      unfolding step by (simp only:) (rule Cons.IH, use Cons.prems True in \<open>auto simp: better_of_def split: option.splits if_splits\<close>)
    also have "better_of ?best (cheapest cfgs) = better_of best (cheapest (cfg # cfgs))"
      using True by (auto simp: better_of_def split: option.split)
    finally show ?thesis .
  qed
qed

lemma pick_seen:
  "distinct seen \<Longrightarrow> distinct (snd (pick cfgs best seen))
     \<and> set (snd (pick cfgs best seen)) = set seen \<union> sc_format ` {c \<in> set cfgs. covers c}"
proof (induction cfgs arbitrary: best seen)
  case (Cons cfg cfgs)
  show ?case
  proof (cases "covers cfg")
    case False
    then have "pick (cfg # cfgs) best seen = pick cfgs best seen" by (auto simp: covers_def not_le)
    moreover have "{c \<in> set (cfg # cfgs). covers c} = {c \<in> set cfgs. covers c}" using False by auto
    ultimately show ?thesis using Cons by simp
  next
    case True
    let ?seen = "if sc_format cfg \<in> set seen then seen else seen @ [sc_format cfg]"
    obtain best' where step: "pick (cfg # cfgs) best seen = pick cfgs best' ?seen"
      using True by (cases "format_rank (sc_format cfg)") (auto simp: covers_def leD Let_def)
    have "{c \<in> set (cfg # cfgs). covers c} = insert cfg {c \<in> set cfgs. covers c}" using True by auto
    moreover have "distinct ?seen" using Cons.prems by simp
    ultimately show ?thesis unfolding step using Cons.IH [of ?seen best'] by auto
  qed
qed simp

lemma cheapest_None: "cheapest cfgs = None \<longleftrightarrow> (\<forall>c \<in> set cfgs. \<not> convertible c)"
  by (induction cfgs) (auto split: option.splits)

lemma cheapest_first:
  "cheapest cfgs = Some c \<Longrightarrow> \<exists>i < length cfgs. cfgs ! i = c
     \<and> (\<forall>j < length cfgs. convertible (cfgs ! j) \<longrightarrow> cost c < cost (cfgs ! j) \<or> cost c = cost (cfgs ! j) \<and> i \<le> j)"
proof (induction cfgs arbitrary: c)
  case (Cons cfg cfgs)
  show ?case
  proof (cases "c = cfg \<and> convertible cfg \<and> (\<forall>best. cheapest cfgs = Some best \<longrightarrow> cost cfg \<le> cost best)")
    case True
    have "cost c \<le> cost (cfgs ! j)" if "j < length cfgs" "convertible (cfgs ! j)" for j
    proof (cases "cheapest cfgs")
      case None
      with that show ?thesis by (auto simp: cheapest_None)
    next
      case (Some best)
      with Cons.IH [OF Some] that True show ?thesis by fastforce
    qed
    then have "cost c < cost ((cfg # cfgs) ! j) \<or> cost c = cost ((cfg # cfgs) ! j)"
      if "j < length (cfg # cfgs)" "convertible ((cfg # cfgs) ! j)" for j
      using True that by (cases j) (simp_all add: le_less)
    then show ?thesis using True by (intro exI [of _ 0]) auto
  next
    case False
    with Cons.prems have c: "cheapest cfgs = Some c" and worse: "convertible cfg \<longrightarrow> cost c < cost cfg"
      by (auto split: option.splits if_splits)
    from Cons.IH [OF c] obtain i where i: "i < length cfgs" "cfgs ! i = c"
      "\<forall>j < length cfgs. convertible (cfgs ! j) \<longrightarrow> cost c < cost (cfgs ! j) \<or> cost c = cost (cfgs ! j) \<and> i \<le> j" by blast
    show ?thesis
    proof (intro exI [of _ "Suc i"] conjI allI impI)
      fix j
      assume "j < length (cfg # cfgs)" "convertible ((cfg # cfgs) ! j)"
      with i(3) worse show "cost c < cost ((cfg # cfgs) ! j) \<or> cost c = cost ((cfg # cfgs) ! j) \<and> Suc i \<le> j"
        by (cases j) auto
    qed (use i in simp_all)
  qed
qed simp

text \<open>What the negotiation returns, by the configuration the scan settles on.\<close>

lemma negotiate_unsupported:
  assumes "(if input then cd_inputs d else cd_outputs d) = Some cfgs" and "cheapest cfgs = None"
  obtains nm fs where "negotiate d input bf = Err (Unsupported nm input (Some fs))" "distinct fs"
    "set fs = sc_format ` {c \<in> set cfgs. covers c}"
proof -
  have "fst (pick cfgs None []) = None" using pick_cheapest [of None cfgs "[]"] assms(2) by (simp add: better_of_def)
  then obtain fs where "pick cfgs None [] = (None, fs)" by (cases "pick cfgs None []") simp
  with assms(1) pick_seen [of "[]" cfgs None] that show ?thesis by (simp add: negotiate_def Let_def)
qed

lemma negotiate_cheapest:
  assumes "(if input then cd_inputs d else cd_outputs d) = Some cfgs" and "cheapest cfgs = Some c"
  shows "negotiate d input bf =
    (let g = \<lparr>ng_device = d, ng_channels = sc_channels c, ng_rate = 48000, ng_buffer = DefaultBuffer, ng_format = sc_format c\<rparr>
     in case sc_buffer c of BufferUnknown \<Rightarrow> Ok g
        | BufferRange lo hi \<Rightarrow> if hi < lo then Panic else Ok (g\<lparr>ng_buffer := Fixed (max lo (min bf hi))\<rparr>))"
proof -
  have "fst (pick cfgs None []) = Some (candidate_of c)"
    using pick_cheapest [of None cfgs "[]"] assms(2) by (simp add: better_of_def)
  then obtain fs where "pick cfgs None [] = (Some (candidate_of c), fs)" by (cases "pick cfgs None []") simp
  with assms(1) show ?thesis
    by (auto simp: negotiate_def candidate_of_def SAMPLE_RATE_def u32_clamp_def max_def min_def Let_def split: buffer_support.split)
qed

text \<open>C22: negotiation takes the best format the device has. It fails exactly when no configuration covers 48 kHz
  in a format that can be converted, and then names the formats that cover it, each once; otherwise the
  stream has the format and channel count of the first configuration that is cheapest, by format
  rank and then by channels, runs at 48 kHz, and its buffer is the one asked for, moved into the
  range of that configuration. It panics only when the device reports an empty range.\<close>

theorem negotiate_picks_best:
  assumes "(if input then cd_inputs d else cd_outputs d) = Some cfgs"
  shows "case negotiate d input buffer_frames of
      Panic \<Rightarrow> \<exists>c \<in> set cfgs. convertible c \<and> (\<exists>lo hi. sc_buffer c = BufferRange lo hi \<and> hi < lo)
    | Err e \<Rightarrow> (\<forall>c \<in> set cfgs. \<not> convertible c)
        \<and> (\<exists>nm fs. e = Unsupported nm input (Some fs) \<and> distinct fs \<and> set fs = sc_format ` {c \<in> set cfgs. covers c})
    | Ok g \<Rightarrow> ng_rate g = 48000 \<and> (\<exists>i < length cfgs. convertible (cfgs ! i) \<and> ng_channels g = sc_channels (cfgs ! i)
        \<and> ng_format g = sc_format (cfgs ! i)
        \<and> (\<forall>j < length cfgs. convertible (cfgs ! j) \<longrightarrow>
             cost (cfgs ! i) < cost (cfgs ! j) \<or> cost (cfgs ! i) = cost (cfgs ! j) \<and> i \<le> j)
        \<and> (case sc_buffer (cfgs ! i) of BufferUnknown \<Rightarrow> ng_buffer g = DefaultBuffer
           | BufferRange lo hi \<Rightarrow> lo \<le> hi \<and> ng_buffer g = Fixed (max lo (min buffer_frames hi))))"
proof (cases "cheapest cfgs")
  case None
  from negotiate_unsupported [OF assms None, of buffer_frames] obtain nm fs where
    "negotiate d input buffer_frames = Err (Unsupported nm input (Some fs))" "distinct fs"
    "set fs = sc_format ` {c \<in> set cfgs. covers c}" by blast
  with None show ?thesis by (simp add: cheapest_None)
next
  case (Some c)
  from cheapest_first [OF Some] cheapest_convertible [OF Some] obtain i where i: "i < length cfgs" "cfgs ! i = c" "convertible c"
    "\<forall>j < length cfgs. convertible (cfgs ! j) \<longrightarrow> cost c < cost (cfgs ! j) \<or> cost c = cost (cfgs ! j) \<and> i \<le> j" by blast
  note n = negotiate_cheapest [OF assms Some, of buffer_frames]
  show ?thesis
  proof (cases "negotiate d input buffer_frames = Panic")
    case True
    then have "\<exists>lo hi. sc_buffer c = BufferRange lo hi \<and> hi < lo"
      unfolding n by (auto simp: Let_def split: buffer_support.splits if_splits)
    then show ?thesis using True i by (auto intro!: bexI [of _ "cfgs ! i"])
  next
    case False
    with n obtain g where g: "negotiate d input buffer_frames = Ok g" "ng_rate g = 48000" "ng_channels g = sc_channels c"
      "ng_format g = sc_format c" "case sc_buffer c of BufferUnknown \<Rightarrow> ng_buffer g = DefaultBuffer
         | BufferRange lo hi \<Rightarrow> lo \<le> hi \<and> ng_buffer g = Fixed (max lo (min buffer_frames hi))"
      by (auto simp: Let_def split: buffer_support.splits if_splits)
    then show ?thesis unfolding g(1) outcome.case using i by (intro conjI exI [of _ i]) simp_all
  qed
qed

definition ex_card :: cpal_device where
  "ex_card = \<lparr>cd_name = Some [85], cd_inputs = None, cd_outputs = Some
     [\<lparr>sc_min_rate = 44100, sc_max_rate = 44100, sc_format = F32, sc_channels = 1, sc_buffer = BufferUnknown\<rparr>,
      \<lparr>sc_min_rate = 8000, sc_max_rate = 96000, sc_format = I16, sc_channels = 2, sc_buffer = BufferRange 64 512\<rparr>,
      \<lparr>sc_min_rate = 48000, sc_max_rate = 48000, sc_format = I32, sc_channels = 8, sc_buffer = BufferRange 480 4800\<rparr>]\<rparr>"

lemma negotiate_picks_best_witness:
  "negotiate ex_card False 128 = Ok \<lparr>ng_device = ex_card, ng_channels = 8, ng_rate = 48000, ng_buffer = Fixed 480, ng_format = I32\<rparr>
    \<and> (case negotiate ex_card False 128 of Ok g \<Rightarrow> ng_rate g = 48000 | _ \<Rightarrow> False)"
proof -
  have "negotiate ex_card False 128 = Ok \<lparr>ng_device = ex_card, ng_channels = 8, ng_rate = 48000, ng_buffer = Fixed 480, ng_format = I32\<rparr>"
    by (simp add: negotiate_def ex_card_def Let_def SAMPLE_RATE_def format_rank_def no_better_def u32_clamp_def)
  moreover have "(if False then cd_inputs ex_card else cd_outputs ex_card) = Some (the (cd_outputs ex_card))" by (simp add: ex_card_def)
  ultimately show ?thesis using negotiate_picks_best [of False ex_card "the (cd_outputs ex_card)" 128] by simp
qed

end
