(* ===== verification/Session_Lifecycle.thy ===== *)
theory Session_Lifecycle
  imports Session Duplex_Audio Device_Negotiation
begin

text \<open>
  How a session starts and ends (\<open>crates/jam-core/src/engine.rs\<close>: \<open>start_host\<close>, \<open>start_client\<close>, their headless
  variants, \<open>SessionHandle\<close>). A session is its three threads, the shutdown flag only the handle can set, and
  the channels between them. The receive thread owns the sender of the control channel: when it ends, the
  control thread reads what is left and then finds the channel disconnected.
\<close>

section \<open>The threads of a session\<close>

text \<open>Where the receive thread is: at the test of the flag, in \<open>recv_from\<close>, or gone.\<close>

datatype rx_at = RxTop | RxWait | RxGone

record 'c lifecycle =
  lc_shutdown :: bool
  lc_rx :: rx_at
  lc_tx :: bool
  lc_tx_state :: tx_state
  lc_ctrl :: "ctrl_event list"
  lc_addr :: "addr_update list"
  lc_ctl :: 'c

text \<open>The control thread is its loop (\<open>loop\<close>); \<open>others\<close> is what the remaining threads do to what it shares with them.\<close>

datatype 'f lc_event = RxTurn "ctrl_event option" | TxTurn | CtlTurn u64 "nat \<Rightarrow> u64" | OthersTurn 'f | StoreShutdown

type_synonym 'c ctl_loop = "recv \<Rightarrow> u64 \<Rightarrow> (nat \<Rightarrow> u64) \<Rightarrow> 'c \<Rightarrow> 'c \<times> ctl_out list"

text \<open>A turn of the receive thread is one step from the flag to \<open>recv_from\<close> or, with what it hands to the
  control thread, back; a turn of the transmit thread is the test of the flag and the pending updates, a
  panic there ends it. What they do with a datagram is not part of their turns; that it never panics is
  \<open>rx_thread_safe\<close> and \<open>tx_round_faithful\<close> of \<open>Net_Threads\<close>.\<close>

definition rx_turn :: "ctrl_event option \<Rightarrow> 'c lifecycle \<Rightarrow> 'c lifecycle" where
  "rx_turn got s =
     (case lc_rx s of
        RxTop \<Rightarrow> s\<lparr>lc_rx := (if lc_shutdown s then RxGone else RxWait)\<rparr>
      | RxWait \<Rightarrow> s\<lparr>lc_rx := RxTop, lc_ctrl := lc_ctrl s @ (case got of Some ev \<Rightarrow> [ev] | None \<Rightarrow> [])\<rparr>
      | RxGone \<Rightarrow> s)"

definition tx_turn :: "'c lifecycle \<Rightarrow> 'c lifecycle" where
  "tx_turn s =
     (if \<not> lc_tx s then s
      else if lc_shutdown s then s\<lparr>lc_tx := False\<rparr>
      else (case for_each tx_update (lc_addr s) (lc_tx_state s) of
          None \<Rightarrow> s\<lparr>lc_tx := False\<rparr>
        | Some t \<Rightarrow> s\<lparr>lc_tx_state := t, lc_addr := []\<rparr>))"

definition ctl_recv :: "'c lifecycle \<Rightarrow> recv" where
  "ctl_recv s =
     (case lc_ctrl s of
        ev # _ \<Rightarrow> RecvOk ev
      | [] \<Rightarrow> if lc_rx s = RxGone then RecvDisconnected else RecvTimeout)"

definition ctl_turn :: "'c ctl_loop \<Rightarrow> u64 \<Rightarrow> (nat \<Rightarrow> u64) \<Rightarrow> 'c lifecycle \<Rightarrow> 'c lifecycle \<times> ctl_out list" where
  "ctl_turn loop now us s =
     (case loop (ctl_recv s) now us (lc_ctl s) of
        (c, out) \<Rightarrow> (s\<lparr>lc_ctrl := tl (lc_ctrl s), lc_ctl := c, lc_addr := lc_addr s @ updates out\<rparr>, out))"

fun lc_step :: "'c ctl_loop \<Rightarrow> ('f \<Rightarrow> 'c \<Rightarrow> 'c) \<Rightarrow> 'f lc_event \<Rightarrow> 'c lifecycle \<Rightarrow> 'c lifecycle \<times> ctl_out list" where
  "lc_step loop others (RxTurn got) s = (rx_turn got s, [])"
| "lc_step loop others TxTurn s = (tx_turn s, [])"
| "lc_step loop others (CtlTurn now us) s = ctl_turn loop now us s"
| "lc_step loop others (OthersTurn f) s = (s\<lparr>lc_ctl := others f (lc_ctl s)\<rparr>, [])"
| "lc_step loop others StoreShutdown s = (s\<lparr>lc_shutdown := True\<rparr>, [])"

definition all_ended :: "('c \<Rightarrow> bool) \<Rightarrow> 'c lifecycle \<Rightarrow> bool" where
  "all_ended running s \<longleftrightarrow> lc_rx s = RxGone \<and> \<not> lc_tx s \<and> \<not> running (lc_ctl s)"

text \<open>The updates never kill the transmit thread.\<close>

lemma tx_turn_eq:
  "tx_turn s =
     (if \<not> lc_tx s then s
      else if lc_shutdown s then s\<lparr>lc_tx := False\<rparr>
      else s\<lparr>lc_tx_state := fold (\<lambda>u s. the (tx_update u s)) (lc_addr s) (lc_tx_state s), lc_addr := []\<rparr>)"
  by (simp add: tx_turn_def tx_updates_fold)

section \<open>The receive thread ends, and with it the backlog\<close>

fun rx_turns :: "'f lc_event list \<Rightarrow> nat" where
  "rx_turns [] = 0"
| "rx_turns (RxTurn got # es) = Suc (rx_turns es)"
| "rx_turns (_ # es) = rx_turns es"

fun ctl_turns :: "'f lc_event list \<Rightarrow> nat" where
  "ctl_turns [] = 0"
| "ctl_turns (CtlTurn now us # es) = Suc (ctl_turns es)"
| "ctl_turns (_ # es) = ctl_turns es"

fun rx_rank :: "rx_at \<Rightarrow> nat" where
  "rx_rank RxGone = 0"
| "rx_rank RxTop = 1"
| "rx_rank RxWait = 2"

lemma rx_rank_0 [simp]: "rx_rank r = 0 \<longleftrightarrow> r = RxGone"
  by (cases r) simp_all

lemma ctl_turn_fields [simp]:
  "lc_shutdown (fst (ctl_turn loop now us s)) = lc_shutdown s" "lc_rx (fst (ctl_turn loop now us s)) = lc_rx s"
  "lc_tx (fst (ctl_turn loop now us s)) = lc_tx s" "lc_ctrl (fst (ctl_turn loop now us s)) = tl (lc_ctrl s)"
  "lc_ctl (fst (ctl_turn loop now us s)) = fst (loop (ctl_recv s) now us (lc_ctl s))"
  "snd (ctl_turn loop now us s) = snd (loop (ctl_recv s) now us (lc_ctl s))"
  by (simp_all add: ctl_turn_def case_prod_unfold)

lemma shutdown_stays: "lc_shutdown s \<Longrightarrow> lc_shutdown (fst (lc_step loop others e s))"
  by (cases e; cases "lc_rx s") (auto simp: rx_turn_def tx_turn_eq)

lemma step_rank:
  "lc_shutdown s \<Longrightarrow> rx_rank (lc_rx (fst (lc_step loop others e s))) + rx_turns [e] \<le> rx_rank (lc_rx s)
     \<or> lc_rx (fst (lc_step loop others e s)) = RxGone"
  by (cases e; cases "lc_rx s") (auto simp: rx_turn_def tx_turn_eq)

lemma rx_ends:
  "\<lbrakk>lc_shutdown s; rx_rank (lc_rx s) \<le> rx_turns es\<rbrakk> \<Longrightarrow> lc_rx (fst (run (lc_step loop others) es s)) = RxGone"
proof (induction es arbitrary: s)
  case (Cons e es)
  let ?s = "fst (lc_step loop others e s)"
  have "rx_turns (e # es) = rx_turns [e] + rx_turns es" by (cases e) simp_all
  with step_rank [OF Cons.prems(1), of loop others e] Cons.prems(2)
  have "rx_rank (lc_rx ?s) \<le> rx_turns es" by auto
  with Cons.IH [OF shutdown_stays [OF Cons.prems(1)]] show ?case by (simp add: case_prod_unfold)
qed simp

lemma shutdown_run: "lc_shutdown s \<Longrightarrow> lc_shutdown (fst (run (lc_step loop others) es s))"
  by (induction es arbitrary: s) (auto simp: case_prod_unfold shutdown_stays)

definition backlog :: "'c lifecycle \<Rightarrow> nat" where
  "backlog s = length (lc_ctrl s) + (if lc_rx s = RxWait then 1 else 0)"

lemma backlog_step: "lc_shutdown s \<Longrightarrow> backlog (fst (lc_step loop others e s)) \<le> backlog s"
  by (cases e; cases "lc_rx s") (auto simp: rx_turn_def tx_turn_eq backlog_def split: option.split)

lemma backlog_run: "lc_shutdown s \<Longrightarrow> backlog (fst (run (lc_step loop others) es s)) \<le> backlog s"
proof (induction es arbitrary: s)
  case (Cons e es)
  from Cons.IH [OF shutdown_stays [OF Cons.prems], of loop others e] backlog_step [OF Cons.prems, of loop others e]
  show ?case by (simp add: case_prod_unfold)
qed simp

lemma tx_ends:
  "\<lbrakk>lc_shutdown s; TxTurn \<in> set es \<or> \<not> lc_tx s\<rbrakk> \<Longrightarrow> \<not> lc_tx (fst (run (lc_step loop others) es s))"
proof (induction es arbitrary: s)
  case (Cons e es)
  have "TxTurn \<in> set es \<or> \<not> lc_tx (fst (lc_step loop others e s))"
    using Cons.prems by (cases e; cases "lc_rx s") (auto simp: rx_turn_def tx_turn_eq)
  with Cons.IH [OF shutdown_stays [OF Cons.prems(1)]] show ?case by (simp add: case_prod_unfold)
qed simp

lemma ctrl_bound: "length (lc_ctrl (fst (run (lc_step loop others) es s))) \<le> length (lc_ctrl s) + rx_turns es"
proof (induction es arbitrary: s)
  case (Cons e es)
  have "length (lc_ctrl (fst (lc_step loop others e s))) + rx_turns es \<le> length (lc_ctrl s) + rx_turns (e # es)"
    by (cases e; cases "lc_rx s") (auto simp: rx_turn_def tx_turn_eq split: option.split)
  with Cons.IH [of "fst (lc_step loop others e s)"] show ?case by (simp add: case_prod_unfold)
qed simp

text \<open>Without the flag no thread but the control thread can end.\<close>

lemma no_shutdown_step:
  "\<lbrakk>\<not> lc_shutdown s; e \<noteq> StoreShutdown\<rbrakk> \<Longrightarrow> \<not> lc_shutdown (fst (lc_step loop others e s))
     \<and> (lc_rx (fst (lc_step loop others e s)) = RxGone \<longleftrightarrow> lc_rx s = RxGone) \<and> lc_tx (fst (lc_step loop others e s)) = lc_tx s"
  by (cases e; cases "lc_rx s") (auto simp: rx_turn_def tx_turn_eq)

section \<open>What every control loop promises\<close>

fun lc_ok :: "('f \<Rightarrow> bool) \<Rightarrow> 'f lc_event \<Rightarrow> bool" where
  "lc_ok other_ok (RxTurn (Some ev)) = recv_ok (RecvOk ev)"
| "lc_ok other_ok (OthersTurn f) = other_ok f"
| "lc_ok other_ok _ = True"

text \<open>The loop keeps its invariant and does not panic; it ends when the channel is disconnected and only then
  (\<open>alive\<close>), and when it ends it has said what \<open>farewell\<close> demands.\<close>

locale control_loop =
  fixes loop :: "recv \<Rightarrow> u64 \<Rightarrow> (nat \<Rightarrow> u64) \<Rightarrow> 'c \<Rightarrow> 'c \<times> ctl_out list"
    and others :: "'f \<Rightarrow> 'c \<Rightarrow> 'c"
    and other_ok :: "'f \<Rightarrow> bool"
    and running :: "'c \<Rightarrow> bool"
    and alive :: "'c \<Rightarrow> bool"
    and inv :: "'c \<Rightarrow> bool"
    and farewell :: "'c \<Rightarrow> ctl_out list \<Rightarrow> bool"
  assumes loop_inv: "\<lbrakk>inv c; recv_ok r\<rbrakk> \<Longrightarrow> inv (fst (loop r now us c)) \<and> CtlPanic \<notin> set (snd (loop r now us c))"
    and loop_ended: "\<not> running c \<Longrightarrow> loop r now us c = (c, [])"
    and loop_ends: "inv c \<Longrightarrow> \<not> running (fst (loop RecvDisconnected now us c))"
    and loop_goes_on: "\<lbrakk>inv c; alive c; recv_ok r; r \<noteq> RecvDisconnected\<rbrakk> \<Longrightarrow> alive (fst (loop r now us c))"
    and loop_farewell: "\<lbrakk>inv c; recv_ok r; running c; \<not> running (fst (loop r now us c))\<rbrakk>
      \<Longrightarrow> farewell (fst (loop r now us c)) (snd (loop r now us c))"
    and others_keep: "\<lbrakk>inv c; other_ok f\<rbrakk> \<Longrightarrow> inv (others f c) \<and> running (others f c) = running c \<and> alive (others f c) = alive c"
    and others_farewell: "\<lbrakk>farewell c out; other_ok f\<rbrakk> \<Longrightarrow> farewell (others f c) out"
    and farewell_more: "\<lbrakk>farewell c out; set out \<subseteq> set out'\<rbrakk> \<Longrightarrow> farewell c out'"
    and alive_running: "alive c \<Longrightarrow> running c"
begin

definition lc_inv :: "'c lifecycle \<Rightarrow> bool" where
  "lc_inv s \<longleftrightarrow> inv (lc_ctl s) \<and> (\<forall>ev \<in> set (lc_ctrl s). recv_ok (RecvOk ev))"

lemma recv_ok_ctl: "lc_inv s \<Longrightarrow> recv_ok (ctl_recv s)"
  by (cases "lc_ctrl s") (auto simp: lc_inv_def ctl_recv_def recv_ok_def)

lemma step_inv: "\<lbrakk>lc_inv s; lc_ok other_ok e\<rbrakk> \<Longrightarrow>
   lc_inv (fst (lc_step loop others e s)) \<and> CtlPanic \<notin> set (snd (lc_step loop others e s))"
proof (cases e)
  case (CtlTurn now us)
  assume inv: "lc_inv s"
  then have "inv (fst (loop (ctl_recv s) now us (lc_ctl s))) \<and> CtlPanic \<notin> set (snd (loop (ctl_recv s) now us (lc_ctl s)))"
    using loop_inv recv_ok_ctl by (simp add: lc_inv_def)
  then show ?thesis
    using inv by (cases "lc_ctrl s") (auto simp: CtlTurn ctl_turn_def lc_inv_def case_prod_unfold)
next
  case (RxTurn got)
  assume "lc_inv s" "lc_ok other_ok e"
  then show ?thesis by (cases "lc_rx s"; cases got) (auto simp: RxTurn rx_turn_def lc_inv_def)
qed (auto simp: lc_inv_def others_keep tx_turn_eq)

lemma run_lc_inv: "\<lbrakk>lc_inv s; \<forall>e \<in> set es. lc_ok other_ok e\<rbrakk> \<Longrightarrow>
   lc_inv (fst (run (lc_step loop others) es s)) \<and> CtlPanic \<notin> set (snd (run (lc_step loop others) es s))"
proof (induction es arbitrary: s)
  case (Cons e es)
  then show ?case using step_inv [of s e] Cons.IH [of "fst (lc_step loop others e s)"] by (auto simp: case_prod_unfold)
qed simp

text \<open>With the receive thread gone each turn of the control thread brings it closer to its end.\<close>

definition todo :: "'c lifecycle \<Rightarrow> nat" where
  "todo s = (if running (lc_ctl s) then Suc (length (lc_ctrl s)) else 0)"

lemma todo_step:
  assumes "lc_inv s" and "lc_ok other_ok e" and "lc_rx s = RxGone"
  shows "todo (fst (lc_step loop others e s)) \<le> todo s - ctl_turns [e] \<and> lc_rx (fst (lc_step loop others e s)) = RxGone"
proof (cases e)
  case (CtlTurn now us)
  show ?thesis
  proof (cases "running (lc_ctl s)")
    case True
    have "lc_ctrl s = [] \<Longrightarrow> \<not> running (fst (loop (ctl_recv s) now us (lc_ctl s)))"
      using loop_ends assms(1,3) by (simp add: ctl_recv_def lc_inv_def)
    with True assms(3) show ?thesis by (cases "lc_ctrl s") (auto simp: CtlTurn todo_def)
  next
    case False
    with assms(3) show ?thesis by (simp add: CtlTurn todo_def loop_ended)
  qed
next
  case (OthersTurn f)
  with assms others_keep [of "lc_ctl s" f] show ?thesis by (simp add: todo_def lc_inv_def)
qed (use assms in \<open>auto simp: todo_def rx_turn_def tx_turn_eq\<close>)

lemma ctl_ends:
  "\<lbrakk>lc_inv s; \<forall>e \<in> set es. lc_ok other_ok e; lc_rx s = RxGone; todo s \<le> ctl_turns es\<rbrakk> \<Longrightarrow>
   \<not> running (lc_ctl (fst (run (lc_step loop others) es s))) \<and> lc_rx (fst (run (lc_step loop others) es s)) = RxGone"
proof (induction es arbitrary: s)
  case Nil
  then show ?case by (simp add: todo_def split: if_splits)
next
  case (Cons e es)
  let ?s = "fst (lc_step loop others e s)"
  have "ctl_turns (e # es) = ctl_turns [e] + ctl_turns es" by (cases e) simp_all
  with todo_step [of s e] Cons.prems have "todo ?s \<le> ctl_turns es" "lc_rx ?s = RxGone" by auto
  with Cons.IH [of ?s] step_inv [of s e] Cons.prems show ?case by (simp add: case_prod_unfold)
qed

lemma run_farewell:
  "\<lbrakk>lc_inv s; \<forall>e \<in> set es. lc_ok other_ok e; running (lc_ctl s) \<or> farewell (lc_ctl s) pre;
    \<not> running (lc_ctl (fst (run (lc_step loop others) es s)))\<rbrakk> \<Longrightarrow>
   farewell (lc_ctl (fst (run (lc_step loop others) es s))) (pre @ snd (run (lc_step loop others) es s))"
proof (induction es arbitrary: s pre)
  case (Cons e es)
  let ?s = "fst (lc_step loop others e s)" and ?out = "snd (lc_step loop others e s)"
  have ok: "lc_inv ?s" using step_inv [of s e] Cons.prems by simp
  have said: "running (lc_ctl ?s) \<or> farewell (lc_ctl ?s) (pre @ ?out)"
  proof (cases e)
    case (CtlTurn now us)
    show ?thesis
    proof (cases "running (lc_ctl s)")
      case True
      then show ?thesis
        using loop_farewell [of "lc_ctl s" "ctl_recv s" now us] Cons.prems(1) recv_ok_ctl [OF Cons.prems(1)]
          farewell_more [of "lc_ctl ?s" ?out "pre @ ?out"] by (auto simp: CtlTurn lc_inv_def)
    next
      case False
      with Cons.prems(3) show ?thesis by (simp add: CtlTurn loop_ended)
    qed
  next
    case (OthersTurn f)
    with Cons.prems others_keep [of "lc_ctl s" f] others_farewell [of "lc_ctl s" pre f] show ?thesis
      by (auto simp: lc_inv_def)
  qed (use Cons.prems in \<open>auto simp: rx_turn_def tx_turn_eq split: rx_at.split\<close>)
  from Cons.IH [OF ok _ said] Cons.prems show ?case by (simp add: case_prod_unfold)
qed simp

text \<open>\<open>SessionHandle::shutdown\<close> joins the threads: given turns, each ends.\<close>

lemma session_ends:
  assumes "lc_inv s" and "\<forall>e \<in> set (es @ fs). lc_ok other_ok e" and "running (lc_ctl s)" and "lc_shutdown s"
    and "2 \<le> rx_turns es" and "length (lc_ctrl s) + 2 \<le> ctl_turns fs" and "TxTurn \<in> set (es @ fs)"
  shows "all_ended running (fst (run (lc_step loop others) (es @ fs) s))
    \<and> CtlPanic \<notin> set (snd (run (lc_step loop others) (es @ fs) s))
    \<and> farewell (lc_ctl (fst (run (lc_step loop others) (es @ fs) s))) (snd (run (lc_step loop others) (es @ fs) s))"
proof -
  let ?s = "fst (run (lc_step loop others) es s)" and ?e = "fst (run (lc_step loop others) (es @ fs) s)"
  have split: "?e = fst (run (lc_step loop others) fs ?s)" by (simp add: run_append case_prod_unfold)
  have gone: "lc_rx ?s = RxGone"
    using assms(4,5) by (intro rx_ends) (cases "lc_rx s"; simp)+
  have inv: "lc_inv ?s" using run_lc_inv [OF assms(1), of es] assms(2) by simp
  have "backlog ?s \<le> backlog s" by (rule backlog_run [OF assms(4)])
  then have "todo ?s \<le> ctl_turns fs" using assms(6) gone by (simp add: todo_def backlog_def split: if_splits)
  with ctl_ends [OF inv _ gone] assms(2) have "\<not> running (lc_ctl ?e)" "lc_rx ?e = RxGone" by (simp_all add: split)
  moreover have "\<not> lc_tx ?e" by (rule tx_ends [OF assms(4)]) (use assms(7) in simp)
  moreover have "CtlPanic \<notin> set (snd (run (lc_step loop others) (es @ fs) s))"
    using run_lc_inv [OF assms(1,2)] by simp
  moreover have "\<not> running (lc_ctl ?e) \<Longrightarrow> farewell (lc_ctl ?e) ([] @ snd (run (lc_step loop others) (es @ fs) s))"
    by (rule run_farewell [OF assms(1,2)]) (use assms(3) in auto)
  ultimately show ?thesis by (simp add: all_ended_def)
qed

text \<open>Nothing but the flag ends a session.\<close>

lemma session_lasts:
  assumes "lc_inv s" and "\<forall>e \<in> set es. lc_ok other_ok e" and "StoreShutdown \<notin> set es" and "\<not> lc_shutdown s"
    and "lc_rx s \<noteq> RxGone" and "alive (lc_ctl s)"
  shows "let s' = fst (run (lc_step loop others) es s)
    in \<not> lc_shutdown s' \<and> lc_rx s' \<noteq> RxGone \<and> lc_tx s' = lc_tx s \<and> alive (lc_ctl s')"
  using assms
proof (induction es arbitrary: s)
  case (Cons e es)
  let ?s = "fst (lc_step loop others e s)"
  have inv: "lc_inv ?s" using step_inv [of s e] Cons.prems by simp
  have "e \<noteq> StoreShutdown" using Cons.prems(3) by auto
  from no_shutdown_step [OF Cons.prems(4) this, of loop others] Cons.prems(5)
  have keep: "\<not> lc_shutdown ?s" "lc_rx ?s \<noteq> RxGone" "lc_tx ?s = lc_tx s" by simp_all
  have "alive (lc_ctl ?s)"
  proof (cases e)
    case (CtlTurn now us)
    have "ctl_recv s \<noteq> RecvDisconnected" using Cons.prems(5) by (cases "lc_ctrl s") (simp_all add: ctl_recv_def)
    then show ?thesis
      using loop_goes_on [of "lc_ctl s"] Cons.prems recv_ok_ctl [OF Cons.prems(1)] by (simp add: CtlTurn lc_inv_def)
  next
    case (OthersTurn f)
    with Cons.prems others_keep [of "lc_ctl s" f] show ?thesis by (simp add: lc_inv_def)
  qed (use Cons.prems in \<open>auto simp: rx_turn_def tx_turn_eq split: rx_at.split\<close>)
  with Cons.IH [of ?s] inv keep Cons.prems show ?case by (simp add: case_prod_unfold Let_def)
qed (simp add: Let_def)

lemma session_lifetime:
  assumes "lc_inv s" and "\<forall>e \<in> set (es0 @ es @ fs). lc_ok other_ok e" and "StoreShutdown \<notin> set es0" and "\<not> lc_shutdown s"
    and "lc_rx s \<noteq> RxGone" and "alive (lc_ctl s)" and "lc_ctrl s = []"
    and "2 \<le> rx_turns es" and "rx_turns es0 + 2 \<le> ctl_turns fs" and "TxTurn \<in> set (es @ fs)"
    and "run (lc_step loop others) es0 s = (s1, out1)"
    and "run (lc_step loop others) (StoreShutdown # es @ fs) s1 = (s2, out2)"
  shows "all_ended running s2 \<and> CtlPanic \<notin> set (out1 @ out2) \<and> farewell (lc_ctl s2) out2"
proof -
  from run_lc_inv [OF assms(1), of es0] assms(2,11) have inv: "lc_inv s1" "CtlPanic \<notin> set out1" by simp_all
  have "alive (lc_ctl s1)" using session_lasts [OF assms(1) _ assms(3-6)] assms(2,11) by (simp add: Let_def)
  then have on: "running (lc_ctl s1)" by (rule alive_running)
  have ctrl: "length (lc_ctrl s1) \<le> rx_turns es0"
    using ctrl_bound [of loop others es0 s] assms(7,11) by simp
  let ?s = "s1\<lparr>lc_shutdown := True\<rparr>"
  have "lc_inv ?s" using inv(1) by (simp add: lc_inv_def)
  from session_ends [OF this, of es fs] assms(2,8-10,12) on ctrl inv(2) show ?thesis
    by (simp add: case_prod_unfold)
qed

end

section \<open>The host's loop\<close>

definition host_loop :: "host_ctl ctl_loop" where
  "host_loop r now us s = hc_step (HcIter r now us) s"

definition host_others :: "(host_shared \<Rightarrow> host_shared) \<Rightarrow> host_ctl \<Rightarrow> host_ctl" where
  "host_others f s = s\<lparr>hc_shared := f (hc_shared s)\<rparr>"

text \<open>Nobody stores into \<open>HostShared::shutdown\<close>.\<close>

definition host_other_ok :: "(host_shared \<Rightarrow> host_shared) \<Rightarrow> bool" where
  "host_other_ok f \<longleftrightarrow> others_ok f \<and> (\<forall>sh. hs_shutdown (f sh) = hs_shutdown sh)"

definition host_status :: "host_ctl \<Rightarrow> bool \<times> bool" where
  "host_status s = (hc_running s, hs_shutdown (hc_shared s))"

definition is_bye :: "u8 list \<Rightarrow> bool" where
  "is_bye d \<longleftrightarrow> (\<exists>h. parse_datagram d = Ok (h, PControl Bye))"

definition clients_dismissed :: "host_ctl \<Rightarrow> ctl_out list \<Rightarrow> bool" where
  "clients_dismissed s out \<longleftrightarrow> (\<forall>(k, a) \<in> set (client_addrs (hc_hs s)). \<exists>d. Datagram a d \<in> set out \<and> is_bye d)"

lemma ctl_action_status: "ctl_action a s = Some (s', out) \<Longrightarrow> host_status s' = host_status s"
  by (cases a)
    (auto simp: host_status_def ctl_send_def ctl_joined_def ctl_left_def Let_def split: option.splits if_splits)

lemma ctl_run_status: "ctl_run as s = Some (s', out) \<Longrightarrow> host_status s' = host_status s"
  by (induction as arbitrary: s out) (auto simp: ctl_run_Cons simp del: ctl_run.simps(2) dest: ctl_action_status)

lemma ctl_drive_status: "ctl_drive e s = Some (s', out) \<Longrightarrow> host_status s' = host_status s"
  by (auto simp: ctl_drive_def case_prod_unfold host_status_def dest!: ctl_run_status)

lemma ctl_heard_status [simp]: "host_status (ctl_heard ev now s) = host_status s"
  by (simp add: ctl_heard_def host_status_def split: option.split)

lemma feed_all_status [simp]: "host_status (feed_all s) = host_status s"
proof -
  have "host_status (fold feed_from ks s) = host_status s" for ks
    by (induction ks arbitrary: s) (simp_all add: feed_from_def Let_def host_status_def)
  then show ?thesis by (simp add: feed_all_def)
qed

lemma ctl_pong_status: "ctl_pong ev t1 t2 t3 s = Some s' \<Longrightarrow> host_status s' = host_status s"
  by (auto simp: ctl_pong_def host_status_def store_client_eq_Some upd_client_def split: option.splits if_splits)

lemma ctl_packet_status: "ctl_packet ev now s = Some (s', out) \<Longrightarrow> host_status s' = host_status s"
  by (cases "ce_control ev") (auto simp: ctl_packet_def Let_def dest: ctl_drive_status ctl_pong_status split: if_splits)

lemma send_all_status: "ctl_send_all cs s = Some (s', out) \<Longrightarrow> host_status s' = host_status s"
  by (induction cs s arbitrary: s' out rule: ctl_send_all.induct) (fastforce simp: host_status_def split: option.splits)+

lemma iteration_status:
  assumes "ctl_iteration r now us s = Some (s', out)" and "\<not> hs_shutdown (hc_shared s)" and "r \<noteq> RecvDisconnected"
  shows "host_status s' = host_status s"
proof -
  from assms obtain s1 o1 s2 o2 s3 o3 s4 o4 where steps:
    "(case r of RecvOk ev \<Rightarrow> ctl_packet ev now s | _ \<Rightarrow> Some (s, [])) = Some (s1, o1)"
    "ctl_drive (ETick now) (feed_all s1) = Some (s2, o2)" "ctl_ping now us s2 = Some (s3, o3)"
    "ctl_keepalive now s3 = Some (s4, o4)" "s' = ctl_snapshot now s4"
    by (cases r) (auto simp: ctl_iteration_def then_do_Some)
  have "host_status s1 = host_status s" using steps(1) by (cases r) (auto dest: ctl_packet_status)
  moreover have "host_status s2 = host_status s1" using ctl_drive_status [OF steps(2)] by simp
  moreover have "host_status s3 = host_status s2"
    using steps(3) by (auto simp: ctl_ping_def host_status_def dest!: send_all_status split: if_splits)
  moreover have "host_status s4 = host_status s3"
    using steps(4) by (auto simp: ctl_keepalive_def host_status_def dest!: send_all_status split: if_splits)
  moreover have "host_status s' = host_status s4" by (simp add: steps(5) ctl_snapshot_def host_status_def)
  ultimately show ?thesis by simp
qed

lemma send_all_sends:
  "\<lbrakk>ctl_send_all cs s = Some (s', out); io_ok (hc_io s); (to, Bye) \<in> set cs; \<forall>(to, c) \<in> set cs. control_sendable c\<rbrakk>
   \<Longrightarrow> \<exists>d. Datagram to d \<in> set out \<and> is_bye d"
proof (induction cs arbitrary: s out)
  case (Cons tc cs)
  obtain to' c where tc: "tc = (to', c)" by fastforce
  from Cons.prems(4) tc have "control_sendable c" by simp
  from io_send_ok [OF Cons.prems(2) this, of "hs_session_id (hc_shared s)" HOST_SENDER_ID to']
  obtain io' d sq h where sent: "io_send c (hs_session_id (hc_shared s)) HOST_SENDER_ID to' (hc_io s) = Some (io', [Datagram to' d], sq)"
    "io_ok io'" "parse_datagram d = Ok (h, PControl (control_canon c))" by blast
  with Cons.prems(1) tc obtain o2 where o2: "ctl_send_all cs (s\<lparr>hc_io := io'\<rparr>) = Some (s', o2)" "out = Datagram to' d # o2"
    by auto
  from Cons.prems(3) tc consider "to' = to \<and> c = Bye" | "(to, Bye) \<in> set cs" by auto
  then show ?case
  proof cases
    case 1
    with sent(3) o2(2) show ?thesis by (auto simp: is_bye_def)
  next
    case 2
    with Cons.IH [OF o2(1)] sent(2) Cons.prems(4) o2(2) show ?thesis by auto
  qed
qed simp

lemma goodbye_dismisses:
  assumes "ctl_goodbye s = Some (s', out)" and "io_ok (hc_io s)"
  shows "clients_dismissed s' out"
proof -
  have "(a, Bye) \<in> set (to_clients (\<lambda>_. Bye) s)" if "(k, a) \<in> set (client_addrs (hc_hs s))" for k a
    using that by (force simp: to_clients_def image_iff in_set_conv_nth enumerate_eq_zip set_zip)
  then show ?thesis
    using send_all_sends [OF assms(1) [unfolded ctl_goodbye_def] assms(2)]
      to_clients_sendable [of "\<lambda>_. Bye" s] goodbye_hs [OF assms(1)]
    by (fastforce simp: clients_dismissed_def)
qed

definition host_alive :: "host_ctl \<Rightarrow> bool" where
  "host_alive s \<longleftrightarrow> hc_running s \<and> \<not> hs_shutdown (hc_shared s)"

lemma host_loop_some:
  assumes "ctl_inv code sid s" and "recv_ok r" and "hc_running s"
  obtains s' out where "ctl_iteration r now us s = Some (s', out)" "host_loop r now us s = (s', out)"
    "ctl_inv code sid s'" "CtlPanic \<notin> set out"
proof -
  from iteration_good [OF assms(1,2), of now us] obtain s' out where ok:
    "ctl_iteration r now us s = Some (s', out)" "ctl_inv code sid s'" "\<forall>a \<in> set out. ctl_out_ok sid a"
    by (auto simp: good_def)
  then have "CtlPanic \<notin> set out" by (auto simp: ctl_out_ok_def)
  with ok assms(3) that show thesis by (simp add: host_loop_def)
qed

lemma dismissed_stop [simp]: "clients_dismissed (s\<lparr>hc_running := x\<rparr>) out = clients_dismissed s out"
  by (simp add: clients_dismissed_def)

lemma dismissed_more: "\<lbrakk>clients_dismissed s out; set out \<subseteq> set out'\<rbrakk> \<Longrightarrow> clients_dismissed s out'"
  by (fastforce simp: clients_dismissed_def)

text \<open>When the loop is asked to stop, or finds the channel disconnected, it dismisses the clients and ends.\<close>

lemma host_stop:
  assumes "ctl_iteration r now us s = Some (s', out)" and "io_ok (hc_io s)" and "hs_shutdown (hc_shared s) \<or> r = RecvDisconnected"
  shows "\<not> hc_running s' \<and> clients_dismissed s' out"
proof (cases "hs_shutdown (hc_shared s)")
  case True
  with assms(1) obtain s1 o1 s2 o2 where bye: "ctl_goodbye s = Some (s1, o1)" "ctl_goodbye s1 = Some (s2, o2)"
    "s' = s2\<lparr>hc_running := False\<rparr>" "out = o1 @ o2"
    by (auto simp: ctl_iteration_def ctl_shutdown_def then_do_Some)
  from goodbye_dismisses [OF bye(1) assms(2)] goodbye_hs [OF bye(2)] have "clients_dismissed s2 o1"
    by (simp add: clients_dismissed_def)
  then have "clients_dismissed s2 out" by (rule dismissed_more) (simp add: bye(4))
  then show ?thesis by (simp add: bye(3))
next
  case False
  with assms(1,3) obtain s1 where bye: "ctl_goodbye s = Some (s1, out)" "s' = s1\<lparr>hc_running := False\<rparr>"
    by (auto simp: ctl_iteration_def then_do_Some)
  with goodbye_dismisses [OF bye(1) assms(2)] show ?thesis by simp
qed

interpretation host_session: control_loop host_loop host_others host_other_ok hc_running host_alive
  "ctl_inv code sid" clients_dismissed
proof
  fix c r now us
  assume inv: "ctl_inv code sid c" and r: "recv_ok r"
  show "ctl_inv code sid (fst (host_loop r now us c)) \<and> CtlPanic \<notin> set (snd (host_loop r now us c))"
  proof (cases "hc_running c")
    case True
    from host_loop_some [OF inv r True, of now us] show ?thesis by (metis fst_conv snd_conv)
  qed (simp add: host_loop_def inv)
next
  fix c r now us
  show "\<not> hc_running c \<Longrightarrow> host_loop r now us c = (c, [])" by (simp add: host_loop_def)
next
  fix c now us
  assume inv: "ctl_inv code sid c"
  show "\<not> hc_running (fst (host_loop RecvDisconnected now us c))"
  proof (cases "hc_running c")
    case True
    have "recv_ok RecvDisconnected" by (simp add: recv_ok_def)
    from host_loop_some [OF inv this True, of now us] host_stop [of RecvDisconnected now us c] inv
    show ?thesis by (metis ctl_inv_def fst_conv)
  qed (simp add: host_loop_def)
next
  fix c r now us
  assume inv: "ctl_inv code sid c" and alive: "host_alive c" and r: "recv_ok r" "r \<noteq> RecvDisconnected"
  from alive have "hc_running c" "\<not> hs_shutdown (hc_shared c)" by (simp_all add: host_alive_def)
  from host_loop_some [OF inv r(1) this(1), of now us] iteration_status [OF _ this(2) r(2), of now us] alive
  show "host_alive (fst (host_loop r now us c))" by (metis fst_conv host_alive_def host_status_def prod.inject)
next
  fix c r now us
  assume inv: "ctl_inv code sid c" and r: "recv_ok r" and on: "hc_running c"
    and off: "\<not> hc_running (fst (host_loop r now us c))"
  from host_loop_some [OF inv r on, of now us] obtain s' out where it:
    "ctl_iteration r now us c = Some (s', out)" "host_loop r now us c = (s', out)" by blast
  have "hs_shutdown (hc_shared c) \<or> r = RecvDisconnected"
    using iteration_status [OF it(1)] on off it(2) by (auto simp: host_status_def)
  with host_stop [OF it(1)] inv it(2) show "clients_dismissed (fst (host_loop r now us c)) (snd (host_loop r now us c))"
    by (simp add: ctl_inv_def)
next
  fix c f
  assume "ctl_inv code sid c" "host_other_ok f"
  then show "ctl_inv code sid (host_others f c) \<and> hc_running (host_others f c) = hc_running c
      \<and> host_alive (host_others f c) = host_alive c"
    using others_inv [of code sid c f] by (simp add: host_others_def host_other_ok_def host_alive_def)
next
  fix c out f
  assume "clients_dismissed c out" "host_other_ok f"
  then show "clients_dismissed (host_others f c) out" by (simp add: clients_dismissed_def host_others_def)
qed (auto simp: host_alive_def intro: dismissed_more)

section \<open>The client's loop\<close>

definition client_loop :: "client_cfg \<Rightarrow> client_ctl ctl_loop" where
  "client_loop cfg r now us s = cc_step cfg (CcIter r now us) s"

definition client_others :: "(client_shared \<Rightarrow> client_shared) \<Rightarrow> client_ctl \<Rightarrow> client_ctl" where
  "client_others f s = s\<lparr>cc_shared := f (cc_shared s)\<rparr>"

definition client_other_ok :: "(client_shared \<Rightarrow> client_shared) \<Rightarrow> bool" where
  "client_other_ok f \<longleftrightarrow> cc_ok (CcOthers f) \<and> (\<forall>sh. cs_shutdown (f sh) = cs_shutdown sh)"

definition client_status_of :: "client_ctl \<Rightarrow> bool \<times> bool" where
  "client_status_of s = (cc_running s, cs_shutdown (cc_shared s))"

definition host_told :: "client_cfg \<Rightarrow> client_ctl \<Rightarrow> ctl_out list \<Rightarrow> bool" where
  "host_told cfg s out \<longleftrightarrow> (joined (cc_shared s) \<longrightarrow> (\<exists>d. Datagram (cg_host cfg) d \<in> set out \<and> is_bye d))"

lemma cc_send_status: "cc_send cfg c s = Some (s', out) \<Longrightarrow> client_status_of s' = client_status_of s"
  by (auto simp: cc_send_def client_status_of_def split: option.splits)

lemma reset_jb_shutdown [simp]: "cs_shutdown (reset_jb sh) = cs_shutdown sh"
  by (simp add: reset_jb_def)

lemma cc_rejoin_status: "cc_rejoin cfg now s = Some (s', out) \<Longrightarrow> client_status_of s' = client_status_of s"
proof -
  have "cc_send_starts cfg as s = Some (s', out) \<Longrightarrow> client_status_of s' = client_status_of s" for as s s' out
  proof (induction as arbitrary: s out)
    case (Cons a as)
    then show ?case by (cases a) (auto simp: then_do_Some dest: cc_send_status)
  qed simp
  from this [of _ "s\<lparr>cc_cs := _\<rparr>"] show "cc_rejoin cfg now s = Some (s', out) \<Longrightarrow> client_status_of s' = client_status_of s"
    by (auto simp: cc_rejoin_def client_status_of_def split: prod.splits)
qed

lemma cc_action_status: "cc_action cfg now us a s = Some (s', out) \<Longrightarrow> client_status_of s' = client_status_of s"
  by (cases a)
    (auto simp: cc_start_audio_def cc_failed_def Let_def client_status_of_def
      dest: cc_send_status [unfolded client_status_of_def] cc_rejoin_status [unfolded client_status_of_def]
      split: join_failure.splits option.splits if_splits)

lemma cc_actions_status: "cc_actions cfg now us as s = Some (s', out) \<Longrightarrow> client_status_of s' = client_status_of s"
  by (induction as arbitrary: s out) (auto simp: then_do_Some dest: cc_action_status)

lemma cc_body_status:
  assumes "cc_body cfg now us as s = Some (s', out)"
  shows "client_status_of s' = client_status_of s"
proof -
  obtain cs bs where tick: "client_tick now (cc_cs s) = (cs, bs)" by fastforce
  from assms obtain s1 o1 s2 o2 s3 o3 s4 o4 where steps: "cc_actions cfg now (us 0) (as @ bs) (s\<lparr>cc_cs := cs\<rparr>) = Some (s1, o1)"
    "cc_liveness cfg now (us 1) s1 = Some (s2, o2)" "cc_ping cfg now (us 2) s2 = Some (s3, o3)"
    "cc_keepalive cfg now s3 = Some (s4, o4)" "s' = cc_snapshot now s4"
    by (auto simp: cc_body_def tick cc_timers_def then_do_Some)
  have "client_status_of s1 = client_status_of s" using cc_actions_status [OF steps(1)] by (simp add: client_status_of_def)
  moreover have "client_status_of s2 = client_status_of s1"
    using steps(2) by (auto simp: cc_liveness_def client_status_of_def
        dest!: cc_rejoin_status [unfolded client_status_of_def] split: if_splits)
  moreover have "client_status_of s3 = client_status_of s2"
    using steps(3) by (auto simp: cc_ping_def client_status_of_def
        dest!: cc_send_status [unfolded client_status_of_def] split: if_splits)
  moreover have "client_status_of s4 = client_status_of s3"
    using steps(4) by (auto simp: cc_keepalive_def client_status_of_def
        dest!: cc_send_status [unfolded client_status_of_def] split: if_splits)
  moreover have "client_status_of s' = client_status_of s4" by (simp add: steps(5) cc_snapshot_def client_status_of_def)
  ultimately show ?thesis by simp
qed

lemma cc_packet_status: "cc_packet cfg ev s = Some (s', out, as) \<Longrightarrow> client_status_of s' = client_status_of s"
  by (cases "ce_control ev")
    (auto simp: cc_packet_def cc_welcome_def cc_on_control_def client_status_of_def Let_def
      split: prod.splits option.splits if_splits)

lemma cc_iteration_status:
  assumes "cc_iteration cfg r now us s = Some (s', out)" and "\<not> cs_shutdown (cc_shared s)" and "r \<noteq> RecvDisconnected"
  shows "client_status_of s' = client_status_of s"
proof (cases r)
  case (RecvOk ev)
  with assms obtain s1 o1 as o2 where "cc_packet cfg ev s = Some (s1, o1, as)" "cc_body cfg now us as s1 = Some (s', o2)"
    by (auto simp: cc_iteration_def split: option.splits)
  then show ?thesis using cc_packet_status cc_body_status by metis
next
  case RecvTimeout
  with assms cc_body_status show ?thesis by (auto simp: cc_iteration_def)
qed (use assms in simp)

text \<open>A BYE is sent if the client is joined, and it ends.\<close>

lemma bye_tells:
  assumes "cc_bye cfg (Suc n) s = Some (s', out)" and "cc_inv cfg s"
  shows "\<not> cc_running s' \<and> host_told cfg s' out"
proof (cases "joined (cc_shared s)")
  case False
  with assms(1) show ?thesis by (auto simp: cc_bye_def then_do_Some host_told_def)
next
  case True
  let ?m = "\<lambda>k. ((\<lambda>m. then_do m (cc_send cfg Bye)) ^^ k) (Some (s, []))"
  have "\<exists>s2 o2. ?m k = Some (s2, o2) \<and> io_ok (cc_io s2) \<and> joined (cc_shared s2)
      \<and> (0 < k \<longrightarrow> (\<exists>d. Datagram (cg_host cfg) d \<in> set o2 \<and> is_bye d))" for k
  proof (induction k)
    case 0
    then show ?case using assms(2) True by (simp add: cc_inv_def)
  next
    case (Suc k)
    then obtain s2 o2 where s2: "?m k = Some (s2, o2)" "io_ok (cc_io s2)" "joined (cc_shared s2)" by blast
    from cc_send_some [OF s2(2), of Bye cfg] obtain io' d h where "cc_send cfg Bye s2 = Some (s2\<lparr>cc_io := io'\<rparr>, [Datagram (cg_host cfg) d])"
      "io_ok io'" "parse_datagram d = Ok (h, PControl (control_canon Bye))" by auto
    with s2 show ?case by (auto simp: then_do_def is_bye_def)
  qed
  from this [of "Suc n"] True assms(1) show ?thesis
    by (auto simp: cc_bye_def then_do_Some host_told_def)
qed

definition client_alive :: "client_ctl \<Rightarrow> bool" where
  "client_alive s \<longleftrightarrow> cc_running s \<and> \<not> cs_shutdown (cc_shared s)"

lemma client_loop_some:
  assumes "cc_begun cfg s" and "cc_running s"
  obtains s' out where "cc_iteration cfg r now us s = Some (s', out)" "client_loop cfg r now us s = (s', out)"
    "cc_begun cfg s'" "CtlPanic \<notin> set out"
proof -
  from cc_iteration_good [of cfg s r now us] assms(1) obtain s' out where ok: "cc_iteration cfg r now us s = Some (s', out)"
    "cc_inv cfg s'" "\<forall>a \<in> set out. cc_out_ok cfg a" by (auto simp: cgood_def cc_begun_def)
  then have "CtlPanic \<notin> set out" by (auto simp: cc_out_ok_def)
  with ok assms that show thesis by (simp add: client_loop_def cc_begun_def)
qed

lemma client_stop:
  assumes "cc_iteration cfg r now us s = Some (s', out)" and "cc_inv cfg s" and "cs_shutdown (cc_shared s) \<or> r = RecvDisconnected"
  shows "\<not> cc_running s' \<and> host_told cfg s' out"
  using assms(1,3) bye_tells [OF _ assms(2), of 0 s' out] bye_tells [OF _ assms(2), of 1 s' out]
  by (auto simp: cc_iteration_def numeral_2_eq_2 split: if_splits)

interpretation client_session: control_loop "client_loop cfg" client_others client_other_ok cc_running client_alive
  "cc_begun cfg" "host_told cfg"
proof
  fix c r now us
  assume inv: "cc_begun cfg c" and "recv_ok r"
  show "cc_begun cfg (fst (client_loop cfg r now us c)) \<and> CtlPanic \<notin> set (snd (client_loop cfg r now us c))"
  proof (cases "cc_running c")
    case True
    from client_loop_some [OF inv True, of r now us] show ?thesis by (metis fst_conv snd_conv)
  qed (simp add: client_loop_def inv)
next
  fix c r now us
  show "\<not> cc_running c \<Longrightarrow> client_loop cfg r now us c = (c, [])" by (simp add: client_loop_def)
next
  fix c now us
  assume inv: "cc_begun cfg c"
  show "\<not> cc_running (fst (client_loop cfg RecvDisconnected now us c))"
  proof (cases "cc_running c")
    case True
    from client_loop_some [OF inv True, of RecvDisconnected now us] client_stop [of cfg RecvDisconnected now us c] inv
    show ?thesis by (metis cc_begun_def fst_conv)
  qed (simp add: client_loop_def)
next
  fix c r now us
  assume inv: "cc_begun cfg c" and alive: "client_alive c" and "recv_ok r" and r: "r \<noteq> RecvDisconnected"
  from alive have "cc_running c" "\<not> cs_shutdown (cc_shared c)" by (simp_all add: client_alive_def)
  from client_loop_some [OF inv this(1), of r now us] cc_iteration_status [OF _ this(2) r, of cfg now us] alive
  show "client_alive (fst (client_loop cfg r now us c))"
    by (metis client_alive_def client_status_of_def fst_conv prod.inject)
next
  fix c r now us
  assume inv: "cc_begun cfg c" and "recv_ok r" and on: "cc_running c"
    and off: "\<not> cc_running (fst (client_loop cfg r now us c))"
  from client_loop_some [OF inv on, of r now us] obtain s' out where it:
    "cc_iteration cfg r now us c = Some (s', out)" "client_loop cfg r now us c = (s', out)" by blast
  have "cs_shutdown (cc_shared c) \<or> r = RecvDisconnected"
    using cc_iteration_status [OF it(1)] on off it(2) by (auto simp: client_status_of_def)
  with client_stop [OF it(1)] inv it(2) show "host_told cfg (fst (client_loop cfg r now us c)) (snd (client_loop cfg r now us c))"
    by (simp add: cc_begun_def)
next
  fix c f
  assume "cc_begun cfg c" "client_other_ok f"
  then show "cc_begun cfg (client_others f c) \<and> cc_running (client_others f c) = cc_running c
      \<and> client_alive (client_others f c) = client_alive c"
    by (simp add: client_others_def client_other_ok_def client_alive_def cc_begun_def cc_inv_def)
next
  fix c out f
  assume "host_told cfg c out" "client_other_ok f"
  then show "host_told cfg (client_others f c) out" by (simp add: host_told_def client_others_def client_other_ok_def)
qed (auto simp: client_alive_def host_told_def)

section \<open>Starting a session\<close>

datatype engine_error = DeviceError device_error | CodecError | StreamError | SocketError

record audio_config =
  ac_input_name :: "rust_string option"
  ac_output_name :: "rust_string option"
  ac_hw_buffer :: u32

record host_config =
  hf_port :: u16
  hf_room_code :: "u8 list"
  hf_name :: rust_string
  hf_params :: engine_params
  hf_audio :: audio_config

record client_config =
  cf_host_addr :: socket_addr
  cf_room_code :: "u8 list"
  cf_name :: rust_string
  cf_params :: engine_params
  cf_audio :: audio_config

definition DEFAULT_PORT :: u16 where "DEFAULT_PORT = 47820"
definition DEFAULT_HW_BUFFER :: u32 where "DEFAULT_HW_BUFFER = 128"

definition host_config_default :: host_config where
  "host_config_default =
     \<lparr>hf_port = DEFAULT_PORT, hf_room_code = [74, 65, 77, 74, 65, 77], hf_name = [104, 111, 115, 116],
      hf_params = engine_params_default,
      hf_audio = \<lparr>ac_input_name = None, ac_output_name = None, ac_hw_buffer = DEFAULT_HW_BUFFER\<rparr>\<rparr>"

definition session_id_from_entropy :: "u32 \<Rightarrow> u32 \<Rightarrow> u16" where
  "session_id_from_entropy nanos process =
     (let mixed = nanos XOR word_rotl 16 process XOR 0x5AA5 in max (ucast (mixed AND 0xFFFF)) 1)"

text \<open>What the system answers: of the sound card (\<open>cpal\<close> reports its devices, can build a stream, can start
  it), and of the network (the port can be bound, its address be read, the socket be cloned and a thread
  be spawned for each of the three), and what clock and process id are.\<close>

record os_audio =
  oa_host :: cpal_host
  oa_lower :: "rust_string \<Rightarrow> rust_string"
  oa_build :: "bool \<Rightarrow> bool"
  oa_play :: "bool \<Rightarrow> bool"

record os_net =
  on_bind :: bool
  on_local :: "socket_addr option"
  on_clone :: "nat \<Rightarrow> bool"
  on_spawn :: "nat \<Rightarrow> bool"
  on_nanos :: u32
  on_process :: u32
  on_clock :: "nat \<Rightarrow> u64"

fun map_err :: "('e \<Rightarrow> 'f) \<Rightarrow> ('e, 'a) outcome \<Rightarrow> ('f, 'a) outcome" where
  "map_err f Panic = Panic"
| "map_err f (Err e) = Err (f e)"
| "map_err f (Ok a) = Ok a"

text \<open>\<open>per_format!\<close>: a stream of the device's format; an unknown format is an error.\<close>

definition per_format :: "sample_format \<Rightarrow> bool \<Rightarrow> (engine_error, unit) outcome" where
  "per_format fmt built = (if fmt = OtherFormat \<or> \<not> built then Err StreamError else Ok ())"

record 'p audio_streams =
  as_input :: negotiated
  as_output :: negotiated
  as_callback :: "(real, 'p) out_state"

text \<open>\<open>new\<close> is what the closure of the output stream owns, \<open>None\<close> when libopus refuses.\<close>

definition start_audio :: "os_audio \<Rightarrow> audio_config \<Rightarrow> nat \<Rightarrow> 'p option \<Rightarrow> (engine_error, 'p audio_streams) outcome" where
  "start_audio w audio frame new =
     obind (map_err DeviceError (open_input (oa_lower w) (oa_host w) (ac_input_name audio) (ac_hw_buffer audio))) (\<lambda>inp.
     obind (map_err DeviceError (open_output (oa_lower w) (oa_host w) (ac_output_name audio) (ac_hw_buffer audio))) (\<lambda>out.
     obind (per_format (ng_format inp) (oa_build w True)) (\<lambda>_.
     obind (case new of None \<Rightarrow> Err CodecError | Some p \<Rightarrow> Ok p) (\<lambda>p.
     obind (per_format (ng_format out) (oa_build w False)) (\<lambda>_.
     if \<not> oa_play w True \<or> \<not> oa_play w False then Err StreamError
     else Ok \<lparr>as_input = inp, as_output = out, as_callback = out_new frame p\<rparr>)))))"

definition start_host_audio :: "('e, 'd) media_lib \<Rightarrow> (real, 'r) ring_lib \<Rightarrow> os_audio \<Rightarrow> engine_params \<Rightarrow> host_shared \<Rightarrow> 'q
    \<Rightarrow> audio_config \<Rightarrow> (engine_error, (('e, 'd) host_pipeline, host_shared, 'r, 'q) jam_audio audio_streams) outcome" where
  "start_host_audio lib R w params sh tx audio =
     start_audio w audio (ep_frame_samples params) (host_audio_new lib R params sh tx)"

definition start_client_audio :: "('e, 'd) media_lib \<Rightarrow> (real, 'r) ring_lib \<Rightarrow> os_audio \<Rightarrow> engine_params \<Rightarrow> client_shared \<Rightarrow> 'q
    \<Rightarrow> audio_config \<Rightarrow> (engine_error, (('e, 'd) client_pipeline, client_shared, 'r, 'q) jam_audio audio_streams) outcome" where
  "start_client_audio lib R w params sh tx audio =
     start_audio w audio (ep_frame_samples params) (client_audio_new lib R params sh tx)"

text \<open>The threads are spawned in order, each on its own clone of the socket: a failed clone is an error, a
  failed spawn a panic. The number of threads that run is returned as well.\<close>

fun spawn_threads :: "os_net \<Rightarrow> nat \<Rightarrow> nat \<Rightarrow> (engine_error, unit) outcome \<times> nat" where
  "spawn_threads w 0 k = (Ok (), k)"
| "spawn_threads w (Suc n) k =
     (if \<not> on_clone w k then (Err SocketError, k)
      else if \<not> on_spawn w k then (Panic, k)
      else spawn_threads w n (Suc k))"

text \<open>What runs when \<open>k\<close> threads have been spawned: receive, transmit, control, in this order.\<close>

definition running_threads :: "nat \<Rightarrow> addr_update list \<Rightarrow> ('c \<Rightarrow> 'c) \<Rightarrow> 'c \<Rightarrow> 'c lifecycle option" where
  "running_threads k todo stopped c =
     (if k = 0 then None
      else Some \<lparr>lc_shutdown = False, lc_rx = RxTop, lc_tx = (2 \<le> k), lc_tx_state = tx_init, lc_ctrl = [], lc_addr = todo,
                 lc_ctl = (if 3 \<le> k then c else stopped c)\<rparr>)"

definition bind_socket :: "os_net \<Rightarrow> (engine_error, socket_addr) outcome" where
  "bind_socket w =
     (if \<not> on_bind w then Err SocketError
      else case on_local w of None \<Rightarrow> Err SocketError | Some addr \<Rightarrow> Ok addr)"

text \<open>Each function returns its result and what is left running.\<close>

definition host_threads :: "os_net \<Rightarrow> host_config \<Rightarrow> (engine_error, socket_addr \<times> host_shared) outcome \<times> host_ctl lifecycle option" where
  "host_threads w cfg =
     (case bind_socket w of
        Ok addr \<Rightarrow>
          let sh = host_shared_new (session_id_from_entropy (on_nanos w) (on_process w));
              ctl = host_ctl_new (hf_room_code cfg) (hf_name cfg) (hf_params cfg) sh
          in (case spawn_threads w 3 0 of
                (r, k) \<Rightarrow> (obind r (\<lambda>_. Ok (addr, sh)), running_threads k [] (\<lambda>c. c\<lparr>hc_running := False\<rparr>) ctl))
      | Err e \<Rightarrow> (Err e, None)
      | Panic \<Rightarrow> (Panic, None))"

definition start_host :: "('e, 'd) media_lib \<Rightarrow> (real, 'r) ring_lib \<Rightarrow> (tx_item, 'q) ring_lib \<Rightarrow> os_audio \<Rightarrow> os_net \<Rightarrow> host_config
    \<Rightarrow> (engine_error, socket_addr \<times> (('e, 'd) host_pipeline, host_shared, 'r, 'q) jam_audio audio_streams) outcome
       \<times> host_ctl lifecycle option" where
  "start_host lib R Q a w cfg =
     (case host_threads w cfg of
        (r, left) \<Rightarrow>
          (obind r (\<lambda>(addr, sh).
           obind (start_host_audio lib R a (hf_params cfg) sh (rb_new Q 256) (hf_audio cfg)) (\<lambda>streams.
           Ok (addr, streams))), left))"

definition start_host_headless :: "('e, 'd) media_lib \<Rightarrow> (tx_item, 'q) ring_lib \<Rightarrow> os_net \<Rightarrow> host_config
    \<Rightarrow> (engine_error, socket_addr \<times> ('e, 'd) host_pipeline \<times> 'q \<times> host_shared) outcome \<times> host_ctl lifecycle option" where
  "start_host_headless lib Q w cfg =
     (case host_threads w cfg of
        (r, left) \<Rightarrow>
          (obind r (\<lambda>(addr, sh).
           case host_pipeline_new lib (hf_params cfg) of
             None \<Rightarrow> Err CodecError
           | Some hp \<Rightarrow> Ok (addr, hp, rb_new Q 256, sh)), left))"

definition client_cfg_of :: "client_config \<Rightarrow> client_cfg" where
  "client_cfg_of cfg =
     \<lparr>cg_room_code = cf_room_code cfg, cg_name = cf_name cfg, cg_params = cf_params cfg, cg_host = cf_host_addr cfg\<rparr>"

text \<open>The control thread of a client says HELLO before it enters its loop. The address of the host is sent to the
  transmit thread before any thread runs.\<close>

definition client_boot :: "client_cfg \<Rightarrow> u64 \<Rightarrow> u64 \<Rightarrow> client_shared \<Rightarrow> client_ctl \<times> ctl_out list" where
  "client_boot cfg now_a now0 sh =
     (case cc_begin cfg now_a now0 sh of
        Some r \<Rightarrow> r
      | None \<Rightarrow>
          (\<lparr>cc_cs = client_new (cg_room_code cfg) (cg_name cfg), cc_io = io_new, cc_roster = [], cc_last_roster = None,
            cc_last_ping = 0, cc_last_keepalive = 0, cc_last_snapshot = 0, cc_deadline = None, cc_status = None,
            cc_shared = sh, cc_running = False\<rparr>, [CtlPanic]))"

definition client_threads :: "os_net \<Rightarrow> client_config \<Rightarrow> (engine_error, socket_addr \<times> client_shared) outcome \<times> client_ctl lifecycle option" where
  "client_threads w cfg =
     (case bind_socket w of
        Ok addr \<Rightarrow>
          let sh = client_shared_default;
              ctl = fst (client_boot (client_cfg_of cfg) (on_clock w 0) (on_clock w 1) sh)
          in (case spawn_threads w 3 0 of
                (r, k) \<Rightarrow> (obind r (\<lambda>_. Ok (addr, sh)),
                  running_threads k [UpPeer (cf_host_addr cfg)] (\<lambda>c. c\<lparr>cc_running := False\<rparr>) ctl))
      | Err e \<Rightarrow> (Err e, None)
      | Panic \<Rightarrow> (Panic, None))"

definition start_client :: "('e, 'd) media_lib \<Rightarrow> (real, 'r) ring_lib \<Rightarrow> (tx_item, 'q) ring_lib \<Rightarrow> os_audio \<Rightarrow> os_net \<Rightarrow> client_config
    \<Rightarrow> (engine_error, socket_addr \<times> (('e, 'd) client_pipeline, client_shared, 'r, 'q) jam_audio audio_streams) outcome
       \<times> client_ctl lifecycle option" where
  "start_client lib R Q a w cfg =
     (case client_threads w cfg of
        (r, left) \<Rightarrow>
          (obind r (\<lambda>(addr, sh).
           obind (start_client_audio lib R a (cf_params cfg) sh (rb_new Q 256) (cf_audio cfg)) (\<lambda>streams.
           Ok (addr, streams))), left))"

definition start_client_headless :: "('e, 'd) media_lib \<Rightarrow> (tx_item, 'q) ring_lib \<Rightarrow> os_net \<Rightarrow> client_config
    \<Rightarrow> (engine_error, socket_addr \<times> ('e, 'd) client_pipeline \<times> 'q \<times> client_shared) outcome \<times> client_ctl lifecycle option" where
  "start_client_headless lib Q w cfg =
     (case client_threads w cfg of
        (r, left) \<Rightarrow>
          (obind r (\<lambda>(addr, sh).
           case client_pipeline_new lib (cf_params cfg) of
             None \<Rightarrow> Err CodecError
           | Some cp \<Rightarrow> Ok (addr, cp, rb_new Q 256, sh)), left))"

text \<open>\<open>SessionHandle::shutdown\<close>, then the turns the threads take until they are joined.\<close>

definition shutdown_session :: "'c ctl_loop \<Rightarrow> ('f \<Rightarrow> 'c \<Rightarrow> 'c) \<Rightarrow> 'f lc_event list \<Rightarrow> 'c lifecycle \<Rightarrow> 'c lifecycle \<times> ctl_out list" where
  "shutdown_session loop others es s = run (lc_step loop others) (StoreShutdown # es) s"

section \<open>What start and shutdown promise\<close>

lemma spawn_Ok: "spawn_threads w n k = (Ok (), m) \<Longrightarrow> m = k + n"
  by (induction w n k rule: spawn_threads.induct) (auto split: if_splits)

lemma spawn_all: "\<forall>j < n. on_clone w (k + j) \<and> on_spawn w (k + j) \<Longrightarrow> spawn_threads w n k = (Ok (), k + n)"
proof (induction n arbitrary: k)
  case (Suc n)
  have "on_clone w (Suc k + j) \<and> on_spawn w (Suc k + j)" if "j < n" for j
    using Suc.prems [rule_format, of "Suc j"] that by simp
  with Suc.IH [of "Suc k"] Suc.prems [rule_format, of 0] show ?case by simp
qed simp

definition fresh_session :: "'c \<Rightarrow> 'c lifecycle \<Rightarrow> bool" where
  "fresh_session c s \<longleftrightarrow> \<not> lc_shutdown s \<and> lc_rx s \<noteq> RxGone \<and> lc_tx s \<and> lc_ctrl s = [] \<and> lc_ctl s = c"

definition host_begins :: "os_net \<Rightarrow> host_config \<Rightarrow> host_ctl" where
  "host_begins w cfg = host_ctl_new (hf_room_code cfg) (hf_name cfg) (hf_params cfg)
     (host_shared_new (session_id_from_entropy (on_nanos w) (on_process w)))"

definition client_begins :: "os_net \<Rightarrow> client_config \<Rightarrow> client_ctl" where
  "client_begins w cfg = fst (client_boot (client_cfg_of cfg) (on_clock w 0) (on_clock w 1) client_shared_default)"

lemma running_three: "running_threads 3 todo st c = Some s \<Longrightarrow> fresh_session c s"
  by (auto simp: running_threads_def fresh_session_def)

lemma host_threads_Ok: "host_threads w cfg = (Ok x, Some s) \<Longrightarrow> fresh_session (host_begins w cfg) s"
  by (auto simp: host_threads_def Let_def host_begins_def outcome_simps dest!: spawn_Ok running_three
      split: outcome.splits prod.splits)

lemma start_host_Ok: "start_host lib R Q a w cfg = (Ok x, Some s) \<Longrightarrow> fresh_session (host_begins w cfg) s"
  by (auto simp: start_host_def outcome_simps dest!: host_threads_Ok split: prod.splits)

lemma client_threads_Ok: "client_threads w cfg = (Ok x, Some s) \<Longrightarrow> fresh_session (client_begins w cfg) s"
  by (auto simp: client_threads_def Let_def client_begins_def outcome_simps dest!: spawn_Ok running_three
      split: outcome.splits prod.splits)

lemma start_client_Ok: "start_client lib R Q a w cfg = (Ok x, Some s) \<Longrightarrow> fresh_session (client_begins w cfg) s"
  by (auto simp: start_client_def outcome_simps dest!: client_threads_Ok split: prod.splits)

lemma host_fresh_inv:
  assumes "fresh_session (host_begins w cfg) s" and "utf8_valid (hf_name cfg)"
  shows "host_session.lc_inv (hf_room_code cfg) (session_id_from_entropy (on_nanos w) (on_process w)) s \<and> host_alive (lc_ctl s)"
  using assms host_ctl_new_inv [OF assms(2)]
  by (simp add: host_session.lc_inv_def fresh_session_def host_begins_def host_alive_def host_ctl_new_def host_shared_new_def)

lemma client_begins_ok:
  assumes "cfg_ok (client_cfg_of cfg)"
  shows "cc_begun (client_cfg_of cfg) (client_begins w cfg) \<and> client_alive (client_begins w cfg)"
proof -
  let ?s = "\<lparr>cc_cs = client_new (cg_room_code (client_cfg_of cfg)) (cg_name (client_cfg_of cfg)), cc_io = io_new, cc_roster = [],
     cc_last_roster = None, cc_last_ping = 0, cc_last_keepalive = 0, cc_last_snapshot = 0,
     cc_deadline = Some (on_clock w 0 + REJOIN_WINDOW_MS), cc_status = None, cc_shared = client_shared_default, cc_running = True\<rparr>"
  have "io_ok (cc_io ?s)" by (simp add: io_new_ok)
  from cc_rejoin_some [OF assms this, of "on_clock w 1"] obtain s out where
    s: "cc_begin (client_cfg_of cfg) (on_clock w 0) (on_clock w 1) client_shared_default = Some (s, out)"
    unfolding cc_begin_def by blast
  have "client_status_of s = client_status_of ?s"
    using cc_rejoin_status s unfolding cc_begin_def by blast
  moreover have "cc_begun (client_cfg_of cfg) s"
    using begin_begun [OF assms _ s] by (simp add: client_shared_default_def)
  moreover have "client_begins w cfg = s" by (simp only: client_begins_def client_boot_def s option.case fst_conv)
  ultimately show ?thesis
    by (simp add: client_alive_def client_status_of_def) (simp add: client_shared_default_def)
qed

lemma client_fresh_inv:
  assumes "fresh_session (client_begins w cfg) s" and "cfg_ok (client_cfg_of cfg)"
  shows "client_session.lc_inv (client_cfg_of cfg) s \<and> client_alive (lc_ctl s)"
  using assms client_begins_ok [OF assms(2), of w]
  by (simp add: client_session.lc_inv_def fresh_session_def)

text \<open>For the examples: one sound card, a network where all goes well, and eight turns that end a session.\<close>

definition ex_duplex_card :: cpal_device where
  "ex_duplex_card = \<lparr>cd_name = Some [85],
     cd_inputs = Some [\<lparr>sc_min_rate = 48000, sc_max_rate = 48000, sc_format = F32, sc_channels = 1, sc_buffer = BufferUnknown\<rparr>],
     cd_outputs = Some [\<lparr>sc_min_rate = 48000, sc_max_rate = 48000, sc_format = I16, sc_channels = 2, sc_buffer = BufferUnknown\<rparr>]\<rparr>"

definition ex_audio :: "cpal_device option \<Rightarrow> os_audio" where
  "ex_audio dev = \<lparr>oa_host = \<lparr>ch_default_input = dev, ch_default_output = dev, ch_devices = None\<rparr>,
     oa_lower = (\<lambda>s. s), oa_build = (\<lambda>_. True), oa_play = (\<lambda>_. True)\<rparr>"

definition ex_net :: os_net where
  "ex_net = \<lparr>on_bind = True, on_local = Some (V4 0 47820), on_clone = (\<lambda>_. True), on_spawn = (\<lambda>_. True),
     on_nanos = 5, on_process = 7, on_clock = (\<lambda>_. 0)\<rparr>"

definition ex_host_cfg :: host_config where
  "ex_host_cfg = host_config_default\<lparr>hf_params := ex_params\<rparr>"

definition ex_client_cfg :: client_config where
  "ex_client_cfg = \<lparr>cf_host_addr = V4 10 47820, cf_room_code = [74, 65, 77, 74, 65, 77], cf_name = [65], cf_params = ex_params,
     cf_audio = hf_audio host_config_default\<rparr>"

definition ex_rx_turns :: "'f lc_event list" where "ex_rx_turns = [RxTurn None, RxTurn None]"

definition ex_ctl_turns :: "'f lc_event list" where
  "ex_ctl_turns = [TxTurn, CtlTurn 3 (\<lambda>_. 3), CtlTurn 3 (\<lambda>_. 3)]"

lemma ex_streams:
  assumes "new = Some p"
  shows "\<exists>st. start_audio (ex_audio (Some ex_duplex_card)) (hf_audio host_config_default) frame new = Ok st"
  using assms
  by (simp add: start_audio_def ex_audio_def open_input_def open_output_def find_device_def negotiate_def ex_duplex_card_def
      host_config_default_def Let_def SAMPLE_RATE_def format_rank_def per_format_def)

lemma ex_started:
  "\<exists>h s. start_host silent_lib list_ring list_ring (ex_audio (Some ex_duplex_card)) ex_net ex_host_cfg = (Ok h, Some s)"
  "\<exists>h s. start_client silent_lib list_ring list_ring (ex_audio (Some ex_duplex_card)) ex_net ex_client_cfg = (Ok h, Some s)"
proof -
  obtain hp cp where n: "host_pipeline_new silent_lib ex_params = Some hp" "client_pipeline_new silent_lib ex_params = Some cp"
    using silent_pipelines [where r = True and c = PcmS16 and e = False] unfolding ex_params_def by blast
  have net: "bind_socket ex_net = Ok (V4 0 47820)" "spawn_threads ex_net 3 0 = (Ok (), 3)"
    using spawn_all [of 3 ex_net 0] by (simp_all add: bind_socket_def ex_net_def)
  have h: "\<exists>st. start_host_audio silent_lib list_ring (ex_audio (Some ex_duplex_card)) ex_params sh tx (hf_audio host_config_default) = Ok st"
    for sh and tx :: "tx_item list \<times> nat"
    unfolding start_host_audio_def by (rule ex_streams) (simp add: host_audio_new_def n)
  have c: "\<exists>st. start_client_audio silent_lib list_ring (ex_audio (Some ex_duplex_card)) ex_params sh tx (hf_audio host_config_default) = Ok st"
    for sh and tx :: "tx_item list \<times> nat"
    unfolding start_client_audio_def by (rule ex_streams) (simp add: client_audio_new_def n)
  have cfg: "hf_params ex_host_cfg = ex_params" "hf_audio ex_host_cfg = hf_audio host_config_default"
    "cf_params ex_client_cfg = ex_params" "cf_audio ex_client_cfg = hf_audio host_config_default"
    by (simp_all add: ex_host_cfg_def ex_client_cfg_def host_config_default_def)
  from h [of "host_shared_new (session_id_from_entropy (on_nanos ex_net) (on_process ex_net))" "rb_new list_ring 256"]
  show "\<exists>h s. start_host silent_lib list_ring list_ring (ex_audio (Some ex_duplex_card)) ex_net ex_host_cfg = (Ok h, Some s)"
    by (auto simp: start_host_def host_threads_def net cfg Let_def running_threads_def)
  from c [of client_shared_default "rb_new list_ring 256"]
  show "\<exists>h s. start_client silent_lib list_ring list_ring (ex_audio (Some ex_duplex_card)) ex_net ex_client_cfg = (Ok h, Some s)"
    by (auto simp: start_client_def client_threads_def net cfg Let_def running_threads_def)
qed

lemma ex_names: "utf8_valid (hf_name ex_host_cfg)" "cfg_ok (client_cfg_of ex_client_cfg)"
  by (simp_all add: ex_host_cfg_def host_config_default_def ex_client_cfg_def client_cfg_of_def cfg_ok_def ROOM_CODE_LEN_def utf8_width_def)

text \<open>C18: a host session that was started ends when its handle asks for it. From the moment \<open>start_host\<close> returns, let
  the threads take any turns (\<open>es0\<close>), with any packets; then \<open>shutdown\<close> sets the flag. As soon as the receive thread
  has had two more turns, and after them the control thread as many as packets may wait for it, and
  the transmit thread one, all three have ended, so that the joins return. No thread has panicked, and every
  client that was still in the session has been sent a BYE.\<close>

theorem host_session_ends:
  assumes "start_host lib R Q a w cfg = (Ok handle, Some s)" and "utf8_valid (hf_name cfg)"
    and "\<forall>e \<in> set (es0 @ es @ fs). lc_ok host_other_ok e" and "StoreShutdown \<notin> set es0"
    and "run (lc_step host_loop host_others) es0 s = (s1, out1)"
    and "shutdown_session host_loop host_others (es @ fs) s1 = (s2, out2)"
    and "2 \<le> rx_turns es" and "rx_turns es0 + 2 \<le> ctl_turns fs" and "TxTurn \<in> set (es @ fs)"
  shows "all_ended hc_running s2 \<and> CtlPanic \<notin> set (out1 @ out2) \<and> clients_dismissed (lc_ctl s2) out2"
proof -
  from start_host_Ok [OF assms(1)] have fresh: "fresh_session (host_begins w cfg) s" .
  then have "\<not> lc_shutdown s" "lc_rx s \<noteq> RxGone" "lc_ctrl s = []" by (simp_all add: fresh_session_def)
  with host_session.session_lifetime host_fresh_inv [OF fresh assms(2)] assms(3-9)
  show ?thesis unfolding shutdown_session_def by blast
qed

lemma host_session_ends_witness:
  "\<exists>h s. start_host silent_lib list_ring list_ring (ex_audio (Some ex_duplex_card)) ex_net ex_host_cfg = (Ok h, Some s)
    \<and> all_ended hc_running (fst (shutdown_session host_loop host_others (ex_rx_turns @ ex_ctl_turns) s))"
proof -
  obtain h s where st: "start_host silent_lib list_ring list_ring (ex_audio (Some ex_duplex_card)) ex_net ex_host_cfg = (Ok h, Some s)"
    using ex_started(1) by blast
  obtain s2 out2 where fin: "shutdown_session host_loop host_others (ex_rx_turns @ ex_ctl_turns) s = (s2, out2)" by fastforce
  from host_session_ends [OF st ex_names(1), of "[]", OF _ _ _ fin]
  have "all_ended hc_running s2" by (simp add: ex_rx_turns_def ex_ctl_turns_def)
  with st fin show ?thesis by auto
qed

text \<open>The same for a client: its threads end, none has panicked, and if it was joined its host has been
  sent a BYE.\<close>

lemma client_session_ends:
  assumes "start_client lib R Q a w cfg = (Ok handle, Some s)" and "cfg_ok (client_cfg_of cfg)"
    and "\<forall>e \<in> set (es0 @ es @ fs). lc_ok client_other_ok e" and "StoreShutdown \<notin> set es0"
    and "run (lc_step (client_loop (client_cfg_of cfg)) client_others) es0 s = (s1, out1)"
    and "shutdown_session (client_loop (client_cfg_of cfg)) client_others (es @ fs) s1 = (s2, out2)"
    and "2 \<le> rx_turns es" and "rx_turns es0 + 2 \<le> ctl_turns fs" and "TxTurn \<in> set (es @ fs)"
  shows "all_ended cc_running s2 \<and> CtlPanic \<notin> set (out1 @ out2) \<and> host_told (client_cfg_of cfg) (lc_ctl s2) out2"
proof -
  from start_client_Ok [OF assms(1)] have fresh: "fresh_session (client_begins w cfg) s" .
  then have "\<not> lc_shutdown s" "lc_rx s \<noteq> RxGone" "lc_ctrl s = []" by (simp_all add: fresh_session_def)
  with client_session.session_lifetime client_fresh_inv [OF fresh assms(2)] assms(3-9)
  show ?thesis unfolding shutdown_session_def by blast
qed

text \<open>C29: a start that fails after its threads were spawned leaves them running for good. When the socket is there but
  the sound card is not (or its stream, or the codec), \<open>start_host\<close> returns the error and no handle; only the handle
  could set the flag, and without it the three threads never end, whatever packets arrive: the port stays bound and
  the control thread goes on serving clients. The same holds of \<open>start_client\<close>.\<close>

theorem failed_start_keeps_running:
  assumes "bind_socket w = Ok addr" and "\<forall>k < 3. on_clone w k \<and> on_spawn w k"
    and "utf8_valid (hf_name cfg)" and "cfg_ok (client_cfg_of ccfg)"
    and "\<And>sh. start_host_audio lib R a (hf_params cfg) sh (rb_new Q 256) (hf_audio cfg) = Err e"
    and "\<And>sh. start_client_audio lib R a (cf_params ccfg) sh (rb_new Q 256) (cf_audio ccfg) = Err ce"
    and "\<forall>e \<in> set es. lc_ok host_other_ok e" and "StoreShutdown \<notin> set es"
    and "\<forall>e \<in> set ces. lc_ok client_other_ok e" and "StoreShutdown \<notin> set ces"
  shows "\<exists>s cs. start_host lib R Q a w cfg = (Err e, Some s) \<and> start_client lib R Q a w ccfg = (Err ce, Some cs)
    \<and> (let s' = fst (run (lc_step host_loop host_others) es s)
        in lc_rx s' \<noteq> RxGone \<and> lc_tx s' \<and> hc_running (lc_ctl s'))
    \<and> (let cs' = fst (run (lc_step (client_loop (client_cfg_of ccfg)) client_others) ces cs)
        in lc_rx cs' \<noteq> RxGone \<and> lc_tx cs' \<and> cc_running (lc_ctl cs'))"
proof -
  have spawned: "spawn_threads w 3 0 = (Ok (), 3)" using spawn_all [of 3 w 0] assms(2) by simp
  obtain s where s: "start_host lib R Q a w cfg = (Err e, Some s)" "fresh_session (host_begins w cfg) s"
    using assms(1,5) spawned running_three [of "[]" _ "host_begins w cfg"]
    by (simp add: start_host_def host_threads_def host_begins_def running_threads_def Let_def)
  obtain cs where cs: "start_client lib R Q a w ccfg = (Err ce, Some cs)" "fresh_session (client_begins w ccfg) cs"
    using assms(1,6) spawned running_three [of "[UpPeer (cf_host_addr ccfg)]" _ "client_begins w ccfg"]
    by (simp add: start_client_def client_threads_def client_begins_def running_threads_def Let_def)
  from host_fresh_inv [OF s(2) assms(3)] client_fresh_inv [OF cs(2) assms(4)]
    host_session.session_lasts [OF _ assms(7,8)] client_session.session_lasts [OF _ assms(9,10)] s cs
  show ?thesis by (fastforce simp: Let_def fresh_session_def host_alive_def client_alive_def)
qed

lemma failed_start_keeps_running_witness:
  "\<exists>s cs. start_host silent_lib list_ring list_ring (ex_audio None) ex_net ex_host_cfg = (Err (DeviceError (NotFound True None)), Some s)
    \<and> start_client silent_lib list_ring list_ring (ex_audio None) ex_net ex_client_cfg = (Err (DeviceError (NotFound True None)), Some cs)
    \<and> lc_rx (fst (run (lc_step host_loop host_others) (ex_rx_turns @ ex_ctl_turns) s)) \<noteq> RxGone"
proof -
  have none: "start_host_audio silent_lib list_ring (ex_audio None) (hf_params ex_host_cfg) sh (rb_new list_ring 256) (hf_audio ex_host_cfg)
      = Err (DeviceError (NotFound True None))"
    "start_client_audio silent_lib list_ring (ex_audio None) (cf_params ex_client_cfg) csh (rb_new list_ring 256) (cf_audio ex_client_cfg)
      = Err (DeviceError (NotFound True None))" for sh csh
    by (simp_all add: start_host_audio_def start_client_audio_def start_audio_def ex_audio_def open_input_def find_device_def
        ex_host_cfg_def ex_client_cfg_def host_config_default_def)
  have net: "bind_socket ex_net = Ok (V4 0 47820)" "\<forall>k < 3. on_clone ex_net k \<and> on_spawn ex_net k"
    by (simp_all add: bind_socket_def ex_net_def)
  have ok: "\<forall>e \<in> set (ex_rx_turns @ ex_ctl_turns). lc_ok other_ok e" "StoreShutdown \<notin> set (ex_rx_turns @ ex_ctl_turns)" for other_ok
    by (simp_all add: ex_rx_turns_def ex_ctl_turns_def)
  from failed_start_keeps_running [OF net ex_names none ok ok] show ?thesis by (auto simp: Let_def)
qed

end
