(* ===== verification/Stun_Client.thy ===== *)
theory Stun_Client
  imports Net_Threads
begin

text \<open>
  The STUN client that finds the host's public address (\<open>crates/jam-app/src/stun.rs\<close>): the binding request, the
  wait for the answer, and the parser of its attributes. An \<open>Option\<close> is an outcome: \<open>Err ()\<close> is
  \<open>None\<close>, and an index out of range is \<open>Panic\<close>. Name resolution and the socket are what they return.
\<close>

section \<open>Parsing the answer\<close>

definition MAGIC_COOKIE :: u32 where "MAGIC_COOKIE = 0x2112A442"
definition BINDING_REQUEST :: u16 where "BINDING_REQUEST = 0x0001"
definition BINDING_RESPONSE :: u16 where "BINDING_RESPONSE = 0x0101"
definition ATTR_XOR_MAPPED_ADDRESS :: u16 where "ATTR_XOR_MAPPED_ADDRESS = 0x0020"
definition ATTR_MAPPED_ADDRESS :: u16 where "ATTR_MAPPED_ADDRESS = 0x0001"

text \<open>\<open>xs.get(i..j)\<close> and \<open>xs.get(i..)\<close>\<close>

definition get_range :: "nat \<Rightarrow> nat \<Rightarrow> 'a list \<Rightarrow> (unit, 'a list) outcome" where
  "get_range i j xs = (if i \<le> j \<and> j \<le> length xs then Ok (take (j - i) (drop i xs)) else Err ())"

definition get_from :: "nat \<Rightarrow> 'a list \<Rightarrow> (unit, 'a list) outcome" where
  "get_from i xs = (if i \<le> length xs then Ok (drop i xs) else Err ())"

text \<open>\<open>u16::from_be_bytes([xs[i], xs[i + 1]])\<close>\<close>

definition be_u16_at :: "nat \<Rightarrow> u8 list \<Rightarrow> (unit, u16) outcome" where
  "be_u16_at i xs = obind (idx xs i) (\<lambda>a. obind (idx xs (i + 1)) (\<lambda>b. Ok (from_be_bytes [a, b])))"

definition parse_address :: "u8 list \<Rightarrow> bool \<Rightarrow> (unit, socket_addr) outcome" where
  "parse_address val xored =
     (if length val < 8 then Err ()
      else obind (idx val 1) (\<lambda>family.
        if family \<noteq> 1 then Err ()
        else
          obind (be_u16_at 2 val) (\<lambda>port.
          obind (subslice val 4 8) (\<lambda>octets.
          let port = (if xored then port XOR ucast (drop_bit 16 MAGIC_COOKIE) else port);
              octets = (if xored then map2 (XOR) octets (be_bytes 4 MAGIC_COOKIE) else octets)
          in Ok (V4 (from_be_bytes octets) port)))))"

text \<open>\<open>len.div_ceil(4) * 4\<close>\<close>

definition aligned :: "nat \<Rightarrow> nat" where
  "aligned len = (len + 3) div 4 * 4"

function parse_attrs :: "u8 list \<Rightarrow> (unit, socket_addr) outcome" where
  "parse_attrs attrs =
     (if length attrs < 4 then Err ()
      else
        obind (be_u16_at 0 attrs) (\<lambda>attr_type.
        obind (be_u16_at 2 attrs) (\<lambda>l.
        obind (get_range 4 (4 + unat l) attrs) (\<lambda>val.
        if attr_type = ATTR_XOR_MAPPED_ADDRESS then parse_address val True
        else if attr_type = ATTR_MAPPED_ADDRESS then parse_address val False
        else obind (get_from (4 + aligned (unat l)) attrs) parse_attrs))))"
  by pat_completeness auto

termination
  by (relation "measure length") (auto simp: get_from_def split: if_splits)

declare parse_attrs.simps [simp del]

definition parse_binding_response :: "u8 list \<Rightarrow> (unit, socket_addr) outcome" where
  "parse_binding_response msg =
     obind (be_u16_at 2 msg) (\<lambda>attr_len.
     obind (get_range 20 (20 + unat attr_len) msg) parse_attrs)"

section \<open>Asking a server\<close>

text \<open>Three chunks of four bytes, each the start of \<open>(state >> 32).to_be_bytes()\<close>, which has eight. \<open>lcg\<close> is the
  generator of the transmit thread: the constants are the same.\<close>

fun txid_chunks :: "nat \<Rightarrow> u64 \<Rightarrow> u8 list" where
  "txid_chunks 0 state = []"
| "txid_chunks (Suc k) state = (let state = lcg state in take 4 (be_bytes 8 (drop_bit 32 state)) @ txid_chunks k state)"

definition transaction_id :: "u64 \<Rightarrow> u8 list" where
  "transaction_id entropy = txid_chunks 3 entropy"

definition binding_request :: "u8 list \<Rightarrow> u8 list" where
  "binding_request txid = be_bytes 2 BINDING_REQUEST @ [0, 0] @ be_bytes 4 MAGIC_COOKIE @ txid"

text \<open>Up to eight datagrams are read; \<open>None\<close> is an error or the end of the wait. The buffer has 256 bytes.\<close>

fun await_reply :: "nat \<Rightarrow> socket_addr \<Rightarrow> u8 list \<Rightarrow> (u8 list \<times> socket_addr) option list \<Rightarrow> (unit, socket_addr) outcome" where
  "await_reply 0 server txid rs = Err ()"
| "await_reply (Suc k) server txid [] = Err ()"
| "await_reply (Suc k) server txid (None # rs) = Err ()"
| "await_reply (Suc k) server txid (Some (bytes, from) # rs) =
     (let buf = take 256 bytes in
      if from \<noteq> server \<or> length buf < 20 then await_reply k server txid rs
      else
        obind (be_u16_at 0 buf) (\<lambda>msg_type.
        obind (subslice buf 8 20) (\<lambda>id.
        if msg_type \<noteq> BINDING_RESPONSE \<or> id \<noteq> txid then await_reply k server txid rs
        else parse_binding_response buf)))"

fun is_ipv4 :: "socket_addr \<Rightarrow> bool" where
  "is_ipv4 (V4 _ _) = True"
| "is_ipv4 _ = False"

text \<open>What the world does for one server: the addresses its name resolves to, whether the request could be sent,
  and what is received.\<close>

record stun_world =
  sw_resolved :: "socket_addr list option"
  sw_sent :: bool
  sw_received :: "(u8 list \<times> socket_addr) option list"

definition try_server :: "u8 list \<Rightarrow> stun_world \<Rightarrow> (unit, socket_addr) outcome" where
  "try_server txid w =
     (case sw_resolved w of
        None \<Rightarrow> Err ()
      | Some as \<Rightarrow>
          (case filter is_ipv4 as of
             [] \<Rightarrow> Err ()
           | server # _ \<Rightarrow> if sw_sent w then await_reply 8 server txid (sw_received w) else Err ()))"

text \<open>The first of the servers that answers. The read timeout of the socket, in milliseconds, is changed for the
  wait and put back; each of its three calls may fail.\<close>

fun find_server :: "(u64 \<times> stun_world) list \<Rightarrow> (unit, socket_addr) outcome" where
  "find_server [] = Err ()"
| "find_server ((entropy, w) # ws) =
     (case try_server (transaction_id entropy) w of
        Err _ \<Rightarrow> find_server ws
      | r \<Rightarrow> r)"

definition discover_public_addr ::
  "bool \<Rightarrow> bool \<Rightarrow> bool \<Rightarrow> nat option \<Rightarrow> (u64 \<times> stun_world) list
   \<Rightarrow> (unit, socket_addr) outcome \<times> nat option" where
  "discover_public_addr get_ok set_ok restore_ok timeout ws =
     (let original = (if get_ok then timeout else None)
      in if \<not> set_ok then (Err (), timeout)
         else let result = find_server ws
              in (result, if restore_ok then original else Some 1500))"

section \<open>What an answer says\<close>

text \<open>An attribute is its type, its value and the padding to four bytes; the address is sent under the cookie.\<close>

type_synonym stun_attr = "u16 \<times> u8 list \<times> u8 list"

definition attr_bytes :: "stun_attr \<Rightarrow> u8 list" where
  "attr_bytes a = (case a of (t, v, pad) \<Rightarrow> be_bytes 2 t @ be_bytes 2 (of_nat (length v) :: u16) @ v @ pad)"

definition other_attr :: "stun_attr \<Rightarrow> bool" where
  "other_attr a = (case a of (t, v, pad) \<Rightarrow>
     t \<noteq> ATTR_XOR_MAPPED_ADDRESS \<and> t \<noteq> ATTR_MAPPED_ADDRESS \<and> length v < 65536
     \<and> length pad = aligned (length v) - length v)"

definition xor_mapped_address :: "u32 \<Rightarrow> u16 \<Rightarrow> stun_attr" where
  "xor_mapped_address ip port =
     (ATTR_XOR_MAPPED_ADDRESS,
      [0, 1] @ be_bytes 2 (port XOR ucast (drop_bit 16 MAGIC_COOKIE)) @ be_bytes 4 (ip XOR MAGIC_COOKIE), [])"

definition binding_response :: "u8 list \<Rightarrow> stun_attr list \<Rightarrow> u8 list" where
  "binding_response txid as =
     be_bytes 2 BINDING_RESPONSE @ be_bytes 2 (of_nat (length (concat (map attr_bytes as))) :: u16)
     @ be_bytes 4 MAGIC_COOKIE @ txid @ concat (map attr_bytes as)"

section \<open>Lemmas\<close>

lemma be_u16_at_be_bytes:
  assumes "length us = i"
  shows "be_u16_at i (us @ be_bytes 2 w @ vs) = Ok w"
proof -
  obtain a b where ab: "be_bytes 2 w = [a, b]"
    using length_be_bytes [of 2 w] by (auto simp: length_Suc_conv numeral_eq_Suc simp del: be_bytes.simps length_be_bytes)
  then have "from_be_bytes [a, b] = w" using be_bytes_2_iff by simp
  with ab assms show ?thesis by (simp add: be_u16_at_def nth_append)
qed

lemma be_bytes_xor: "be_bytes n (a XOR b) = map2 (XOR) (be_bytes n a) (be_bytes n b)"
proof (induction n arbitrary: a b)
  case (Suc n)
  have "(ucast (a XOR b) :: u8) = ucast a XOR ucast b"
    by (rule bit_word_eqI) (auto simp: bit_simps)
  moreover have "drop_bit 8 (a XOR b) = drop_bit 8 a XOR drop_bit 8 b"
    by (rule bit_word_eqI) (auto simp: bit_simps)
  ultimately show ?case using Suc by simp
qed simp

lemma xor_back: "length bs = length cs \<Longrightarrow> map2 (XOR) (map2 (XOR) bs cs) cs = (bs :: u8 list)"
  by (induction bs cs rule: list_induct2) (auto simp: xor.assoc)

lemma be_bytes_xor_back: "map2 (XOR) (be_bytes n (a XOR b)) (be_bytes n b) = be_bytes n a"
  by (simp add: be_bytes_xor xor_back)

lemma parse_address_xored:
  "xor_mapped_address ip port = (t, v, pad) \<Longrightarrow> parse_address v True = Ok (V4 ip port)"
  unfolding xor_mapped_address_def parse_address_def
  using be_u16_at_be_bytes [of "[0, 1]" 2 "port XOR ucast (drop_bit 16 MAGIC_COOKIE)" "be_bytes 4 (ip XOR MAGIC_COOKIE)"]
  by (auto simp: be_bytes_xor_back from_be_bytes_be_bytes xor.assoc Let_def simp del: be_bytes.simps)

lemma aligned_ge: "n \<le> aligned n"
  by (simp add: aligned_def)

text \<open>One turn of the attribute loop on a well-formed attribute.\<close>

lemma parse_attrs_step:
  assumes "length v < 65536" and "length pad = aligned (length v) - length v"
  shows "parse_attrs (attr_bytes (t, v, pad) @ later) =
     (if t = ATTR_XOR_MAPPED_ADDRESS then parse_address v True
      else if t = ATTR_MAPPED_ADDRESS then parse_address v False
      else parse_attrs later)"
proof -
  define l where "l = (of_nat (length v) :: u16)"
  have l: "unat l = length v"
    using assms(1) by (simp add: l_def unsigned_of_nat take_bit_nat_eq_self)
  let ?m = "be_bytes 2 t @ be_bytes 2 l @ v @ pad @ later"
  have type: "be_u16_at 0 ?m = Ok t"
    using be_u16_at_be_bytes [of "[]" 0 t "be_bytes 2 l @ v @ pad @ later"] by simp
  have len: "be_u16_at 2 ?m = Ok l"
    using be_u16_at_be_bytes [of "be_bytes 2 t" 2 l "v @ pad @ later"] by simp
  have val: "get_range 4 (4 + unat l) ?m = Ok v"
    by (simp add: get_range_def l)
  have res: "get_from (4 + aligned (unat l)) ?m = Ok later"
    using assms(2) aligned_ge [of "length v"] by (simp add: get_from_def l)
  show ?thesis
    unfolding attr_bytes_def
    by (subst parse_attrs.simps) (simp add: l_def [symmetric] type len val res)
qed

lemma parse_attrs_address:
  assumes "list_all other_attr as"
  shows "parse_attrs (concat (map attr_bytes as) @ attr_bytes (xor_mapped_address ip port) @ later) = Ok (V4 ip port)"
  using assms
proof (induction as)
  case Nil
  obtain v where v: "xor_mapped_address ip port = (ATTR_XOR_MAPPED_ADDRESS, v, [])" "length v = 8"
    by (simp add: xor_mapped_address_def)
  then show ?case
    using parse_attrs_step [of v "[]" ATTR_XOR_MAPPED_ADDRESS later] parse_address_xored [OF v(1)]
    by (simp add: aligned_def)
next
  case (Cons a as)
  then show ?case
    by (cases a) (auto simp: other_attr_def parse_attrs_step)
qed

lemma parse_binding_response_ok:
  assumes "list_all other_attr as" and "length tid = 12"
    and "length (concat (map attr_bytes (as @ xor_mapped_address ip port # bs))) < 65536"
  shows "parse_binding_response (binding_response tid (as @ xor_mapped_address ip port # bs) @ junk) = Ok (V4 ip port)"
proof -
  define body where "body = concat (map attr_bytes (as @ xor_mapped_address ip port # bs))"
  define n where "n = (of_nat (length body) :: u16)"
  have "length body < 65536"
    using assms(3) by (simp only: body_def)
  then have n: "unat n = length body"
    by (simp add: n_def unsigned_of_nat take_bit_nat_eq_self)
  have body: "parse_attrs body = Ok (V4 ip port)"
    unfolding body_def using parse_attrs_address [OF assms(1), of ip port "concat (map attr_bytes bs)"] by simp
  have len: "be_u16_at 2 (be_bytes 2 BINDING_RESPONSE @ be_bytes 2 n @ be_bytes 4 MAGIC_COOKIE @ tid @ body @ junk) = Ok n"
    by (rule be_u16_at_be_bytes) simp
  show ?thesis
    unfolding parse_binding_response_def binding_response_def body_def [symmetric] n_def [symmetric]
    using assms(2) by (simp add: len get_range_def n body)
qed

text \<open>Nothing here panics.\<close>

lemma be_u16_at_in: "i + 1 < length xs \<Longrightarrow> \<exists>w. be_u16_at i xs = Ok w"
  by (simp add: be_u16_at_def)

lemma parse_address_total: "parse_address v x \<noteq> Panic"
  using be_u16_at_in [of 2 v] by (auto simp: parse_address_def Let_def)

lemma parse_attrs_total: "parse_attrs attrs \<noteq> Panic"
proof (induction attrs rule: parse_attrs.induct)
  case (1 attrs)
  show ?case
    using be_u16_at_in [of 0 attrs] be_u16_at_in [of 2 attrs] 1
    by (subst parse_attrs.simps)
      (auto simp: parse_address_total outcome_simps get_range_def get_from_def split: if_splits)
qed

lemma parse_binding_response_total: "4 \<le> length msg \<Longrightarrow> parse_binding_response msg \<noteq> Panic"
  using be_u16_at_in [of 2 msg]
  by (auto simp: parse_binding_response_def parse_attrs_total outcome_simps get_range_def split: if_splits)

section \<open>The wait\<close>

definition unrelated :: "socket_addr \<Rightarrow> u8 list \<Rightarrow> u8 list \<times> socket_addr \<Rightarrow> bool" where
  "unrelated server txid d = (case d of (bytes, src) \<Rightarrow>
     src \<noteq> server \<or> length bytes < 20 \<or> take 2 bytes \<noteq> be_bytes 2 BINDING_RESPONSE
     \<or> take 12 (drop 8 bytes) \<noteq> txid)"

lemma be_u16_at_0_iff:
  assumes "2 \<le> length xs" shows "be_u16_at 0 xs = Ok w \<longleftrightarrow> take 2 xs = be_bytes 2 w"
proof -
  from assms obtain a b ys where xs: "xs = a # b # ys" by (auto simp: numeral_eq_Suc Suc_le_length_iff)
  show ?thesis
    by (simp add: xs be_u16_at_def be_bytes_2_iff take_Cons' del: be_bytes.simps)
qed

lemma await_reply_step:
  "await_reply (Suc k) server txid (Some d # rs) =
     (if unrelated server txid d then await_reply k server txid rs
      else parse_binding_response (take 256 (fst d)))"
proof (cases d)
  case (Pair bytes src)
  show ?thesis
  proof (cases "src \<noteq> server \<or> length bytes < 20")
    case True
    then show ?thesis by (auto simp: Pair unrelated_def min_def)
  next
    case False
    define buf where "buf = take 256 bytes"
    from False have len: "20 \<le> length buf" by (simp add: buf_def)
    obtain w where w: "be_u16_at 0 buf = Ok w"
      using be_u16_at_in [of 0 buf] len by auto
    then have type: "w = BINDING_RESPONSE \<longleftrightarrow> take 2 bytes = be_bytes 2 BINDING_RESPONSE"
      using be_u16_at_0_iff [of buf BINDING_RESPONSE] len by (auto simp: buf_def min_def)
    have ident: "subslice buf 8 20 = Ok (take 12 (drop 8 bytes))"
      using len by (simp add: buf_def drop_take min_def)
    show ?thesis
      using False len w type ident
      by (simp add: Pair unrelated_def buf_def [symmetric] Let_def)
  qed
qed

definition reply_at ::
  "nat \<Rightarrow> socket_addr \<Rightarrow> u8 list \<Rightarrow> (u8 list \<times> socket_addr) option list \<Rightarrow> socket_addr \<Rightarrow> bool" where
  "reply_at k server txid rs a \<longleftrightarrow>
     (\<exists>i bytes. i < k \<and> i < length rs \<and> rs ! i = Some (bytes, server)
        \<and> \<not> unrelated server txid (bytes, server) \<and> parse_binding_response (take 256 bytes) = Ok a)"

lemma reply_at_Cons:
  "reply_at k server txid rs a \<Longrightarrow> reply_at (Suc k) server txid (r # rs) a"
  unfolding reply_at_def by (metis Suc_less_eq length_Cons nth_Cons_Suc)

lemma reply_at_here:
  "\<lbrakk>\<not> unrelated server txid d; parse_binding_response (take 256 (fst d)) = Ok a\<rbrakk>
   \<Longrightarrow> reply_at (Suc k) server txid (Some d # rs) a"
  unfolding reply_at_def by (rule exI [of _ 0]) (cases d; auto simp: unrelated_def)

lemma await_reply_result:
  "await_reply k server txid rs \<noteq> Panic
   \<and> (\<forall>a. await_reply k server txid rs = Ok a \<longrightarrow> reply_at k server txid rs a)"
proof (induction k arbitrary: rs)
  case (Suc k)
  consider "rs = [] \<or> hd rs = None" | d rest where "rs = Some d # rest" by (cases rs; cases "hd rs") auto
  then show ?case
  proof cases
    case (2 d rest)
    show ?thesis
    proof (cases "unrelated server txid d")
      case True
      then show ?thesis using Suc.IH [of rest] reply_at_Cons by (simp add: 2 await_reply_step del: await_reply.simps)
    next
      case False
      then have "20 \<le> length (fst d)" by (cases d) (auto simp: unrelated_def)
      then show ?thesis
        using False parse_binding_response_total [of "take 256 (fst d)"] reply_at_here
        by (simp add: 2 await_reply_step del: await_reply.simps)
    qed
  next
    case 1
    then show ?thesis by (cases rs) auto
  qed
qed simp

lemma await_reply_skip:
  "\<lbrakk>list_all (unrelated server txid) ds; length ds < k; \<not> unrelated server txid d\<rbrakk> \<Longrightarrow>
   await_reply k server txid (map Some ds @ Some d # rs) = parse_binding_response (take 256 (fst d))"
proof (induction ds arbitrary: k)
  case Nil
  then show ?case by (cases k) (simp_all add: await_reply_step del: await_reply.simps)
next
  case (Cons c ds)
  then show ?case by (cases k) (simp_all add: await_reply_step del: await_reply.simps)
qed

lemma binding_response_related:
  "length txid = 12 \<Longrightarrow> \<not> unrelated server txid (binding_response txid as, server)"
  by (simp add: unrelated_def binding_response_def del: be_bytes.simps)

lemma be_bytes_split: "be_bytes (m + n) w = be_bytes m (drop_bit (8 * n) w) @ be_bytes n w"
  by (induction n arbitrary: w) (simp_all add: drop_bit_drop_bit add.commute)

lemma high_bytes_zero: "take 4 (be_bytes 8 (drop_bit 32 (s :: u64))) = replicate 4 0"
proof -
  have "drop_bit 64 s = 0" by (rule bit_word_eqI) (auto simp: bit_simps dest: bit_imp_le_length)
  then show ?thesis
    using be_bytes_split [of 4 4 "drop_bit 32 s"] by (simp add: drop_bit_drop_bit numeral_eq_Suc)
qed

lemma length_txid_chunks: "length (txid_chunks k s) = 4 * k"
  by (induction k arbitrary: s) (simp_all add: Let_def)

lemma length_transaction_id: "length (transaction_id e) = 12"
  by (simp add: transaction_id_def length_txid_chunks)

section \<open>Properties\<close>

definition server_of :: "stun_world \<Rightarrow> socket_addr option" where
  "server_of w = Option.bind (sw_resolved w) (find is_ipv4)"

lemma try_server_eq:
  "try_server txid w =
     (case server_of w of
        None \<Rightarrow> Err ()
      | Some server \<Rightarrow> if sw_sent w then await_reply 8 server txid (sw_received w) else Err ())"
proof (cases "sw_resolved w")
  case (Some addrs)
  have "find is_ipv4 addrs = (case filter is_ipv4 addrs of [] \<Rightarrow> None | a # _ \<Rightarrow> Some a)"
    by (induction addrs) auto
  with Some show ?thesis by (auto simp: try_server_def server_of_def split: list.split)
qed (simp add: try_server_def server_of_def)

definition answered_by :: "u64 \<Rightarrow> stun_world \<Rightarrow> socket_addr \<Rightarrow> bool" where
  "answered_by e w a \<longleftrightarrow>
     (\<exists>server. server_of w = Some server \<and> reply_at 8 server (transaction_id e) (sw_received w) a)"

lemma try_server_result:
  "try_server (transaction_id e) w \<noteq> Panic
   \<and> (\<forall>a. try_server (transaction_id e) w = Ok a \<longrightarrow> answered_by e w a)"
  using await_reply_result [of 8 _ "transaction_id e" "sw_received w"]
  unfolding try_server_eq answered_by_def by (auto split: option.splits)

lemma find_server_result:
  "find_server ws \<noteq> Panic \<and> (\<forall>a. find_server ws = Ok a \<longrightarrow> (\<exists>(e, w)\<in>set ws. answered_by e w a))"
proof (induction ws)
  case (Cons p ws)
  obtain e w where p: "p = (e, w)" by (cases p)
  show ?case
    using Cons try_server_result [of e w]
    by (cases "try_server (transaction_id e) w") (auto simp: p)
qed simp

lemma find_server_skip:
  "\<forall>(e, w)\<in>set us. try_server (transaction_id e) w = Err () \<Longrightarrow> find_server (us @ ws) = find_server ws"
  by (induction us) auto

text \<open>C27: An address is found whenever a server answers: the servers asked before may fail, and up to seven
  other datagrams of the session or of strangers may arrive before the answer; the answer may hold
  any attributes before and after the address. The address found is the one the server put
  under the cookie, and the read timeout of the socket is what it was before.\<close>

theorem public_address_found:
  assumes "\<forall>(e, w)\<in>set us. try_server (transaction_id e) w = Err ()"
    and "server_of w = Some server" and "sw_sent w"
    and "sw_received w = map Some ds @ Some (response, server) # rs"
    and "list_all (unrelated server (transaction_id e)) ds" and "length ds < 8"
    and "response = binding_response (transaction_id e) (as @ xor_mapped_address ip port # bs)"
    and "list_all other_attr as" and "length response \<le> 256"
  shows "discover_public_addr True True True timeout (us @ (e, w) # ws) = (Ok (V4 ip port), timeout)"
proof -
  let ?as = "as @ xor_mapped_address ip port # bs"
  have short: "length (concat (map attr_bytes ?as)) < 65536"
    using assms(7,9) by (simp add: binding_response_def length_transaction_id)
  have "parse_binding_response response = Ok (V4 ip port)"
    using parse_binding_response_ok [OF assms(8) length_transaction_id short, where junk = "[]"] assms(7) by simp
  then have "await_reply 8 server (transaction_id e) (sw_received w) = Ok (V4 ip port)"
    using await_reply_skip [OF assms(5,6), of "(response, server)"] assms(4,7,9)
      binding_response_related [OF length_transaction_id] by simp
  then have "try_server (transaction_id e) w = Ok (V4 ip port)"
    by (simp add: try_server_eq assms(2,3))
  then show ?thesis
    by (simp add: discover_public_addr_def find_server_skip [OF assms(1)])
qed

theorem public_address_found_witness:
  "discover_public_addr True True True None
     ([(1, \<lparr>sw_resolved = None, sw_sent = True, sw_received = []\<rparr>)] @
      (5, \<lparr>sw_resolved = Some [V6 1 2 3 4, V4 0x01020304 3478], sw_sent = True,
           sw_received = map Some [([1, 2], V4 7 7)]
             @ Some (binding_response (transaction_id 5)
                 ([(0x8022, [1, 2, 3], [0])] @ xor_mapped_address 0xC0A80001 4800 # []), V4 0x01020304 3478) # []\<rparr>) # [])
   = (Ok (V4 0xC0A80001 4800), None)"
  by (rule public_address_found [where ds = "[([1, 2], V4 7 7)]" and rs = "[]" and bs = "[]"
      and as = "[(0x8022, [1, 2, 3], [0])]"])
    (simp_all add: try_server_eq server_of_def unrelated_def other_attr_def binding_response_def attr_bytes_def
      xor_mapped_address_def length_transaction_id aligned_def ATTR_XOR_MAPPED_ADDRESS_def ATTR_MAPPED_ADDRESS_def
      del: be_bytes.simps, simp add: length_transaction_id del: be_bytes.simps)

text \<open>C23: Nothing a server or a stranger sends makes the search panic, and an address it returns was read from a
  datagram of at most 256 bytes that came from the first IPv4 address of one of the servers, with the type of a binding
  response and the transaction id of the request.\<close>

theorem public_address_was_answered:
  "case fst (discover_public_addr get_ok set_ok restore_ok timeout ws) of
     Ok a \<Rightarrow> \<exists>(e, w)\<in>set ws. answered_by e w a
   | Err _ \<Rightarrow> True
   | Panic \<Rightarrow> False"
  using find_server_result [of ws] by (auto simp: discover_public_addr_def Let_def split: outcome.split)

text \<open>C28: The transaction id is twelve zero bytes at every call: each chunk is filled from the high half of a 64-bit
  value that was shifted right by 32.\<close>

theorem transaction_id_is_zero: "transaction_id entropy = replicate 12 0"
  by (simp add: transaction_id_def numeral_3_eq_3 high_bytes_zero Let_def) (simp add: numeral_eq_Suc)

end
