(* ===== verification/Ui_Snapshot.thy ===== *)
theory Ui_Snapshot
  imports Session
begin

text \<open>
  What the user is shown of a session: the snapshot of \<open>crates/jam-core/src/stats.rs\<close> and the two functions
  of \<open>control.rs\<close> that rebuild it, every half second, from the shared state and the control thread's
  tables. A status line is a constructor with the values the code formats into it; the room code is
  kept as its bytes.
\<close>

section \<open>Snapshots\<close>

datatype role = HostRole | ClientRole

record player_row =
  pr_id :: u16
  pr_name :: rust_string
  pr_active :: bool
  pr_rms_db :: real
  pr_peak_db :: real
  pr_loss :: real
  pr_jitter_ms :: real
  pr_buffer_ms :: real
  pr_rtt_ms :: real

definition player_row_default :: player_row where
  "player_row_default =
     \<lparr>pr_id = 0, pr_name = [], pr_active = False, pr_rms_db = 0, pr_peak_db = 0, pr_loss = 0, pr_jitter_ms = 0,
      pr_buffer_ms = 0, pr_rtt_ms = 0\<rparr>"

datatype status_line =
    Starting
  | Hosting "u8 list" nat
  | JoiningHost socket_addr
  | ConnectedTo socket_addr "u8 list"
  | Terminal client_status

record snapshot =
  sn_role :: role
  sn_connected :: bool
  sn_status :: status_line
  sn_room_code :: "u8 list"
  sn_players :: "player_row list"
  sn_local_rms_db :: real
  sn_local_peak_db :: real
  sn_capture_starved :: u64
  sn_xruns :: u64
  sn_est_latency_ms :: real

definition new_shared :: "role \<Rightarrow> status_line \<Rightarrow> snapshot" where
  "new_shared r st =
     \<lparr>sn_role = r, sn_connected = False, sn_status = st, sn_room_code = [], sn_players = [], sn_local_rms_db = 0,
      sn_local_peak_db = 0, sn_capture_starved = 0, sn_xruns = 0, sn_est_latency_ms = 0\<rparr>"

definition estimate_latency_ms :: "u32 \<Rightarrow> nat \<Rightarrow> u32 \<Rightarrow> real \<Rightarrow> real \<Rightarrow> real" where
  "estimate_latency_ms hw_buffer frame_len rate own_buffer_ms rtt_ms =
     (let per_sample_ms = 1000 / real (unat rate);
          hw = real (unat hw_buffer) * per_sample_ms;
          frame = real frame_len * per_sample_ms
      in hw + frame + rtt_ms + 2 * frame + own_buffer_ms + hw)"

section \<open>The host's snapshot\<close>

text \<open>Decimal digits, \<open>" (you)"\<close> and \<open>"player "\<close>\<close>

fun decimal :: "nat \<Rightarrow> rust_string" where
  "decimal n = (if n < 10 then [of_nat (48 + n)] else decimal (n div 10) @ [of_nat (48 + n mod 10)])"

declare decimal.simps [simp del]

definition YOU :: rust_string where "YOU = [32, 40, 121, 111, 117, 41]"
definition PLAYER :: rust_string where "PLAYER = [112, 108, 97, 121, 101, 114, 32]"

definition frame_ms :: "engine_params \<Rightarrow> real" where
  "frame_ms p = real (ep_frame_samples p) * 1000 / real (unat (ep_sample_rate p))"

definition stream_rtt_ms :: "stream_shared \<Rightarrow> real" where
  "stream_rtt_ms st = real (unat (rtt_us st)) / 1000"

definition stream_buffer_ms :: "engine_params \<Rightarrow> stream_shared \<Rightarrow> real" where
  "stream_buffer_ms p st = real_of_int (max (jb_depth (jb st)) 0) * frame_ms p"

definition host_row :: "host_shared \<Rightarrow> rust_string \<Rightarrow> player_row" where
  "host_row sh nm = player_row_default
     \<lparr>pr_id := HOST_SENDER_ID, pr_name := nm @ YOU, pr_active := True,
      pr_rms_db := rms_db (hs_local_level sh), pr_peak_db := peak_db (hs_local_level sh)\<rparr>"

definition slot_row :: "engine_params \<Rightarrow> nat \<Rightarrow> rust_string option \<Rightarrow> stream_shared \<Rightarrow> player_row" where
  "slot_row p slot nm st =
     \<lparr>pr_id = of_nat (slot + 1), pr_name = (case nm of Some n \<Rightarrow> n | None \<Rightarrow> PLAYER @ decimal (slot + 1)), pr_active = True,
      pr_rms_db = rms_db (level st), pr_peak_db = peak_db (level st), pr_loss = loss_fraction (jstats (jb st)),
      pr_jitter_ms = st_jitter_us_bits (jstats (jb st)) / 1000, pr_buffer_ms = stream_buffer_ms p st,
      pr_rtt_ms = stream_rtt_ms st\<rparr>"

text \<open>The loop over the slots, with the worst round trip and the worst buffer so far.\<close>

fun slot_rows :: "engine_params \<Rightarrow> host_shared \<Rightarrow> (nat \<times> rust_string option) list \<Rightarrow> real \<times> real \<times> player_row list
    \<Rightarrow> real \<times> real \<times> player_row list" where
  "slot_rows p sh [] acc = acc"
| "slot_rows p sh ((slot, nm) # ns) (worst_rtt, worst_buffer, rows) =
     (let st = clients sh ! slot in
      if \<not> active st then slot_rows p sh ns (worst_rtt, worst_buffer, rows)
      else slot_rows p sh ns (max worst_rtt (stream_rtt_ms st), max worst_buffer (stream_buffer_ms p st),
             rows @ [slot_row p slot nm st]))"

definition build_host_snapshot :: "host_shared \<Rightarrow> u8 list \<Rightarrow> rust_string \<Rightarrow> engine_params \<Rightarrow> u32 \<Rightarrow> rust_string option list
    \<Rightarrow> snapshot \<Rightarrow> snapshot" where
  "build_host_snapshot sh code nm p hw_buffer names snap =
     (case slot_rows p sh (enumerate 0 names) (0, 0, [host_row sh nm]) of
        (worst_rtt, worst_buffer, shown) \<Rightarrow>
          snap\<lparr>sn_role := HostRole, sn_connected := True, sn_room_code := code,
            sn_status := Hosting code (length shown),
            sn_local_rms_db := rms_db (hs_local_level sh), sn_local_peak_db := peak_db (hs_local_level sh),
            sn_capture_starved := hs_capture_starved sh,
            sn_est_latency_ms := estimate_latency_ms hw_buffer (ep_frame_samples p) (ep_sample_rate p) worst_buffer worst_rtt,
            sn_players := shown\<rparr>)"

section \<open>The client's snapshot\<close>

definition roster_row :: "client_cfg \<Rightarrow> client_shared \<Rightarrow> player_info \<Rightarrow> player_row" where
  "roster_row cfg sh pl =
     (let st = from_host sh; is_me = (pid pl = cs_sender_id sh);
          row = player_row_default\<lparr>pr_id := pid pl, pr_name := (if is_me then pname pl @ YOU else pname pl), pr_active := True\<rparr>;
          row = (if pid pl = HOST_SENDER_ID
                 then row\<lparr>pr_rms_db := rms_db (level st), pr_peak_db := peak_db (level st), pr_loss := loss_fraction (jstats (jb st)),
                          pr_jitter_ms := st_jitter_us_bits (jstats (jb st)) / 1000,
                          pr_buffer_ms := stream_buffer_ms (cg_params cfg) st, pr_rtt_ms := stream_rtt_ms st\<rparr>
                 else row)
      in if is_me then row\<lparr>pr_rms_db := rms_db (cs_local_level sh), pr_peak_db := peak_db (cs_local_level sh)\<rparr> else row)"

definition build_client_snapshot :: "client_shared \<Rightarrow> client_cfg \<Rightarrow> u32 \<Rightarrow> player_info list \<Rightarrow> client_status option
    \<Rightarrow> snapshot \<Rightarrow> snapshot" where
  "build_client_snapshot sh cfg hw_buffer known terminal snap =
     snap\<lparr>sn_role := ClientRole, sn_connected := joined sh, sn_room_code := cg_room_code cfg,
       sn_status := (case terminal of
           Some t \<Rightarrow> Terminal t
         | None \<Rightarrow> if joined sh then ConnectedTo (cg_host cfg) (cg_room_code cfg) else JoiningHost (cg_host cfg)),
       sn_local_rms_db := rms_db (cs_local_level sh), sn_local_peak_db := peak_db (cs_local_level sh),
       sn_capture_starved := cs_capture_starved sh,
       sn_est_latency_ms := estimate_latency_ms hw_buffer (ep_frame_samples (cg_params cfg)) (ep_sample_rate (cg_params cfg))
           (stream_buffer_ms (cg_params cfg) (from_host sh)) (stream_rtt_ms (from_host sh)),
       sn_players := map (roster_row cfg sh) known\<rparr>"

section \<open>The control threads publish\<close>

text \<open>The last step of an iteration, when half a second has passed; the other steps keep the time of the last one.\<close>

definition host_publishes :: "recv \<Rightarrow> u64 \<Rightarrow> host_ctl \<Rightarrow> bool" where
  "host_publishes r now_ms s \<longleftrightarrow> hc_running s \<and> \<not> hs_shutdown (hc_shared s) \<and> r \<noteq> RecvDisconnected
     \<and> SNAPSHOT_INTERVAL_MS \<le> saturating_sub now_ms (hc_last_snapshot s)"

fun host_view_step :: "u8 list \<Rightarrow> rust_string \<Rightarrow> engine_params \<Rightarrow> u32 \<Rightarrow> hc_event \<Rightarrow> host_ctl \<times> snapshot
    \<Rightarrow> (host_ctl \<times> snapshot) \<times> ctl_out list" where
  "host_view_step code nm p hw (HcIter r now_ms us) (s, snap) =
     (case hc_step (HcIter r now_ms us) s of
        (s', out) \<Rightarrow>
          ((s', if host_publishes r now_ms s then build_host_snapshot (hc_shared s') code nm p hw (hc_names s') snap else snap), out))"
| "host_view_step code nm p hw e (s, snap) = (case hc_step e s of (s', out) \<Rightarrow> ((s', snap), out))"

definition client_publishes :: "recv \<Rightarrow> u64 \<Rightarrow> client_ctl \<Rightarrow> bool" where
  "client_publishes r now_ms s \<longleftrightarrow> cc_running s \<and> \<not> cs_shutdown (cc_shared s) \<and> r \<noteq> RecvDisconnected
     \<and> SNAPSHOT_INTERVAL_MS \<le> saturating_sub now_ms (cc_last_snapshot s)"

fun client_view_step :: "client_cfg \<Rightarrow> u32 \<Rightarrow> cc_event \<Rightarrow> client_ctl \<times> snapshot \<Rightarrow> (client_ctl \<times> snapshot) \<times> ctl_out list" where
  "client_view_step cfg hw (CcIter r now_ms us) (s, snap) =
     (case cc_step cfg (CcIter r now_ms us) s of
        (s', out) \<Rightarrow>
          ((s', if client_publishes r now_ms s
                then build_client_snapshot (cc_shared s') cfg hw (cc_roster s') (cc_status s') snap else snap), out))"
| "client_view_step cfg hw e (s, snap) = (case cc_step cfg e s of (s', out) \<Rightarrow> ((s', snap), out))"

section \<open>The snapshot shows who is there\<close>

lemma slot_rows_shown:
  "snd (snd (slot_rows p sh ns (wr, wb, rows)))
     = rows @ map (\<lambda>(i, nm). slot_row p i nm (clients sh ! i)) (filter (\<lambda>(i, nm). active (clients sh ! i)) ns)"
  by (induction ns arbitrary: wr wb rows) (auto simp: Let_def)

lemma slot_rows_worst:
  "slot_rows p sh ns (wr, wb, rows) = (wr', wb', rows') \<Longrightarrow> wr \<le> wr' \<and> wb \<le> wb'
     \<and> (\<forall>(i, nm) \<in> set ns. active (clients sh ! i) \<longrightarrow>
          stream_rtt_ms (clients sh ! i) \<le> wr' \<and> stream_buffer_ms p (clients sh ! i) \<le> wb')"
proof (induction ns arbitrary: wr wb rows)
  case (Cons a ns)
  obtain i nm where a: "a = (i, nm)" by fastforce
  show ?case
  proof (cases "active (clients sh ! i)")
    case True
    with Cons.prems a Cons.IH [of "max wr (stream_rtt_ms (clients sh ! i))" "max wb (stream_buffer_ms p (clients sh ! i))"]
    show ?thesis by (fastforce simp: Let_def)
  next
    case False
    with Cons.prems a Cons.IH [of wr wb rows] show ?thesis by (auto simp: Let_def)
  qed
qed simp

lemma loss_fraction_bounds: "0 \<le> loss_fraction st \<and> loss_fraction st \<le> 1"
proof -
  define a b where "a = real (unat (st_played st))" and "b = real (unat (st_concealed st))"
  then have "0 \<le> a" "0 \<le> b" by (simp_all only: of_nat_0_le_iff)
  then show ?thesis unfolding loss_fraction_def Let_def a_def [symmetric] b_def [symmetric] by simp
qed

lemma estimate_mono:
  "\<lbrakk>b \<le> b'; r \<le> r'\<rbrakk> \<Longrightarrow> estimate_latency_ms hw n rate b r \<le> estimate_latency_ms hw n rate b' r'"
  by (simp add: estimate_latency_ms_def Let_def)

definition members :: "host_handshake \<Rightarrow> nat list" where
  "members h = filter (\<lambda>i. slots h ! i \<noteq> None) [0..<MAX_CLIENTS]"

lemma host_snapshot_rows:
  assumes "ctl_inv code sid s"
  shows "sn_players (build_host_snapshot (hc_shared s) code nm p hw (hc_names s) snap)
    = host_row (hc_shared s) nm # map (\<lambda>i. slot_row p i (hc_names s ! i) (clients (hc_shared s) ! i)) (members (hc_hs s))"
proof -
  let ?sh = "hc_shared s" and ?ns = "enumerate 0 (hc_names s)"
  have len: "length (hc_names s) = MAX_CLIENTS" using assms by (simp add: ctl_inv_def)
  have act: "active (clients ?sh ! i) \<longleftrightarrow> slots (hc_hs s) ! i \<noteq> None" if "i < MAX_CLIENTS" for i
    using assms that by (simp add: ctl_inv_def)
  have ns: "?ns = map (\<lambda>i. (i, hc_names s ! i)) [0..<MAX_CLIENTS]"
    by (simp add: list_eq_iff_nth_eq len nth_enumerate_eq)
  have "filter (\<lambda>(i, nm). active (clients ?sh ! i)) ?ns = map (\<lambda>i. (i, hc_names s ! i)) (members (hc_hs s))"
    unfolding ns members_def filter_map by (rule arg_cong [OF filter_cong]) (use act in auto)
  then show ?thesis
    using slot_rows_shown [of p ?sh ?ns 0 0 "[host_row ?sh nm]"]
    by (simp add: build_host_snapshot_def case_prod_unfold o_def)
qed

lemma view_state: "fst (fst (host_view_step code nm p hw e (s, snap))) = fst (hc_step e s)"
  by (cases e) (simp_all add: case_prod_unfold)

lemma view_run_state: "fst (fst (run (host_view_step code nm p hw) es (s, snap))) = fst (run hc_step es s)"
proof (induction es arbitrary: s snap)
  case (Cons e es)
  obtain s' snap' out where one: "host_view_step code nm p hw e (s, snap) = ((s', snap'), out)" by (metis surj_pair)
  then have "fst (hc_step e s) = s'" using view_state [of code nm p hw e s snap] by simp
  with Cons.IH [of s' snap'] one show ?case by (simp add: case_prod_unfold)
qed simp

lemma row_ids: "i < MAX_CLIENTS \<Longrightarrow> pr_id (slot_row p i nm st) = sender_id_of i"
  by (simp add: slot_row_def sender_id_of_def)

text \<open>C34: the host is shown the room as it is. After any history of packets, timeouts and changes by the other
  threads, an iteration of the control thread that publishes leaves a snapshot with a row for the host and one for
  each occupied slot, in the order of their ids and under the names the players gave; the status counts
  them; no loss is outside of 0 to 1, and the latency shown is at least that of every player.\<close>

theorem host_view_shows_room:
  assumes "utf8_valid nm" and "\<forall>e \<in> set es. hc_ok e" and "recv_ok r"
    and "run (host_view_step code nm p hw) es (host_ctl_new code nm p (host_shared_new sid), new_shared HostRole Starting)
      = ((s, snap), outs)"
    and "host_publishes r now s" and "host_view_step code nm p hw (HcIter r now us) (s, snap) = ((s', snap'), out)"
  shows "map pr_id (sn_players snap') = HOST_SENDER_ID # map sender_id_of (members (hc_hs s'))
    \<and> map (Some \<circ> pr_name) (sn_players snap') = Some (nm @ YOU) # map (\<lambda>i. hc_names s' ! i) (members (hc_hs s'))
    \<and> sn_status snap' = Hosting code (length (sn_players snap')) \<and> sn_connected snap'
    \<and> (\<forall>row \<in> set (sn_players snap'). 0 \<le> pr_loss row \<and> pr_loss row \<le> 1
        \<and> estimate_latency_ms hw (ep_frame_samples p) (ep_sample_rate p) (pr_buffer_ms row) (pr_rtt_ms row)
            \<le> sn_est_latency_ms snap')"
proof -
  have "s = fst (run hc_step es (host_ctl_new code nm p (host_shared_new sid)))"
    using view_run_state [of code nm p hw es] assms(4) by (metis fst_conv)
  then have "ctl_inv code sid s" using control.run_inv [OF assms(2) host_ctl_new_inv [OF assms(1)]] by simp
  with hc_step_good(1) [of "HcIter r now us" code sid s] assms(3)
  have step: "ctl_inv code sid (fst (hc_step (HcIter r now us) s))" by simp
  have snap': "snap' = build_host_snapshot (hc_shared s') code nm p hw (hc_names s') snap" "s' = fst (hc_step (HcIter r now us) s)"
    using assms(5,6) by (auto simp: case_prod_unfold simp del: hc_step.simps)
  note inv = step [folded snap'(2)]
  note rows = host_snapshot_rows [OF inv, of nm p hw snap, folded snap'(1)]
  have mem: "i < MAX_CLIENTS" "slots (hc_hs s') ! i \<noteq> None" if "i \<in> set (members (hc_hs s'))" for i
    using that by (auto simp: members_def)
  have named: "hc_names s' ! i \<noteq> None" "active (clients (hc_shared s') ! i)" if "i \<in> set (members (hc_hs s'))" for i
    using inv mem [OF that] by (simp_all add: ctl_inv_def)
  obtain wr wb shown where worst: "slot_rows p (hc_shared s') (enumerate 0 (hc_names s')) (0, 0, [host_row (hc_shared s') nm])
      = (wr, wb, shown)" by (rule prod_cases3)
  have est: "sn_est_latency_ms snap' = estimate_latency_ms hw (ep_frame_samples p) (ep_sample_rate p) wb wr"
    and status: "sn_status snap' = Hosting code (length (sn_players snap'))" "sn_connected snap'"
    unfolding snap'(1) by (simp_all add: build_host_snapshot_def worst)
  have len: "length (hc_names s') = MAX_CLIENTS" using inv by (simp add: ctl_inv_def)
  have bound: "0 \<le> wr" "0 \<le> wb" "stream_rtt_ms (clients (hc_shared s') ! i) \<le> wr"
    "stream_buffer_ms p (clients (hc_shared s') ! i) \<le> wb" if "i \<in> set (members (hc_hs s'))" for i
    using slot_rows_worst [OF worst] named(2) [OF that] mem(1) [OF that] len
    by (force simp: in_set_enumerate_eq)+
  have zero: "0 \<le> wr" "0 \<le> wb" using slot_rows_worst [OF worst] by simp_all
  have "map pr_id (sn_players snap') = HOST_SENDER_ID # map sender_id_of (members (hc_hs s'))"
    using mem(1) by (simp add: rows host_row_def row_ids)
  moreover have "map (Some \<circ> pr_name) (sn_players snap') = Some (nm @ YOU) # map (\<lambda>i. hc_names s' ! i) (members (hc_hs s'))"
    using named(1) by (force simp: rows host_row_def slot_row_def)
  moreover have "0 \<le> pr_loss row \<and> pr_loss row \<le> 1
      \<and> estimate_latency_ms hw (ep_frame_samples p) (ep_sample_rate p) (pr_buffer_ms row) (pr_rtt_ms row) \<le> sn_est_latency_ms snap'"
    if "row \<in> set (sn_players snap')" for row
    using that bound zero
    by (auto simp: rows est host_row_def slot_row_def player_row_default_def loss_fraction_bounds intro!: estimate_mono)
  ultimately show ?thesis using status by blast
qed

text \<open>For the example: a player knocks, and 600 ms later the host is shown the room.\<close>

definition ex_hello :: recv where
  "ex_hello = ex_ctl (V4 10 5000) (Hello 1 [1, 2, 3, 4, 5, 6] [65] 7 3) 0"

lemma host_view_shows_room_witness:
  "\<exists>s' snap' out. host_view_step [1, 2, 3, 4, 5, 6] [72] engine_params_default 128 (HcIter ex_hello 600 (\<lambda>_. 600000))
      (host_ctl_new [1, 2, 3, 4, 5, 6] [72] engine_params_default (host_shared_new 9), new_shared HostRole Starting) = ((s', snap'), out)
    \<and> map pr_id (sn_players snap') = HOST_SENDER_ID # map sender_id_of (members (hc_hs s'))"
proof -
  let ?s = "host_ctl_new [1, 2, 3, 4, 5, 6] [72] engine_params_default (host_shared_new 9)"
  obtain s' snap' out where one: "host_view_step [1, 2, 3, 4, 5, 6] [72] engine_params_default 128 (HcIter ex_hello 600 (\<lambda>_. 600000))
      (?s, new_shared HostRole Starting) = ((s', snap'), out)" by (metis surj_pair)
  have "utf8_valid [72]" by (simp add: utf8_width_def)
  moreover have "recv_ok ex_hello" by (simp add: recv_ok_def ex_hello_def ex_ctl_def ROOM_CODE_LEN_def utf8_width_def string_valid_def MAX_NAME_LEN_def)
  moreover have "host_publishes ex_hello 600 ?s"
    by (simp add: host_publishes_def ex_hello_def ex_ctl_def host_ctl_new_def host_shared_new_def SNAPSHOT_INTERVAL_MS_def saturating_sub_def)
  ultimately have "map pr_id (sn_players snap') = HOST_SENDER_ID # map sender_id_of (members (hc_hs s'))"
    using host_view_shows_room [of "[72]" "[]" ex_hello "[1, 2, 3, 4, 5, 6]" engine_params_default 128 9, OF _ _ _ _ _ one] by simp
  with one show ?thesis by (intro exI conjI)
qed

end
