(* ===== verification/Status_Ui.thy ===== *)
theory Status_Ui
  imports Ui_Snapshot
begin

text \<open>
  The display of a running session: the terminal (\<open>crates/jam-app/src/status_ui.rs\<close>), its keys and what it shows,
  and the controls of the window (\<open>gui.rs\<close>). A screen is kept as the values the code formats into it; drawing, the
  terminal modes and the layout of the window are left out.
\<close>

section \<open>Gains in decibels\<close>

definition clamp_db :: "real \<Rightarrow> real" where
  "clamp_db db = max (- 40) (min 12 db)"

definition db_of :: "real \<Rightarrow> real" where
  "db_of g = 20 * log 10 (max g (1 / 1000))"

definition set_db :: "real \<Rightarrow> real" where
  "set_db db = 10 powr (clamp_db db / 20)"

definition adjust_db :: "real \<Rightarrow> real \<Rightarrow> real" where
  "adjust_db current steps =
     (let db = 20 * log 10 (max current (1 / 1000)) + steps in 10 powr (clamp_db db / 20))"

section \<open>The screen\<close>

datatype bar_cell = RmsCell | PeakCell | EmptyCell

definition METER_WIDTH :: nat where "METER_WIDTH = 20"

text \<open>The fraction of the meter, from \<open>- 60\<close> dB to 0; the cast to \<open>usize\<close> truncates.\<close>

definition meter_fraction :: "real \<Rightarrow> real" where
  "meter_fraction db = max 0 (min 1 ((db + 60) / 60))"

definition meter_bar :: "real \<Rightarrow> real \<Rightarrow> bar_cell list" where
  "meter_bar rms peak =
     (let scale = (\<lambda>db. nat \<lfloor>meter_fraction db * real METER_WIDTH\<rfloor>);
          rms_w = scale rms;
          peak_w = max (scale peak) rms_w
      in map (\<lambda>i. if i < rms_w then RmsCell else if i < peak_w then PeakCell else EmptyCell) [0..<METER_WIDTH])"

text \<open>The characters of a string: a byte that begins one, and the bytes that continue it.\<close>

function chars :: "rust_string \<Rightarrow> rust_string list" where
  "chars [] = []"
| "chars (b # bs) = (b # takeWhile is_cont bs) # chars (dropWhile is_cont bs)"
  by pat_completeness auto
termination by (relation "measure length") (auto simp: le_imp_less_Suc length_dropWhile_le)

text \<open>A horizontal ellipsis\<close>

definition ELLIPSIS :: rust_string where "ELLIPSIS = [226, 128, 166]"

definition truncate_name :: "rust_string \<Rightarrow> nat \<Rightarrow> rust_string" where
  "truncate_name s n =
     (if length (chars s) \<le> n then s else concat (take (n - 1) (chars s)) @ ELLIPSIS)"

datatype solo_mark = Soloed | SilencedBySolo | NoSolo

record shown_row =
  sr_selected :: bool
  sr_id :: u16
  sr_name :: rust_string
  sr_bar :: "bar_cell list"
  sr_loss_percent :: real
  sr_jitter_ms :: real
  sr_buffer_ms :: real
  sr_rtt_ms :: real
  sr_gain_db :: "real option"
  sr_flags :: "(bool \<times> solo_mark) option"

record screen =
  sc_status :: status_line
  sc_est_latency_ms :: real
  sc_xruns :: u64
  sc_capture_gaps :: u64
  sc_rows :: "shown_row list"
  sc_keys_of :: role

definition list_get :: "'a list \<Rightarrow> nat \<Rightarrow> 'a option" where
  "list_get xs i = (if i < length xs then Some (xs ! i) else None)"

text \<open>\<open>get(i).copied().unwrap_or(false)\<close>\<close>

definition flag_at :: "bool list \<Rightarrow> nat \<Rightarrow> bool" where
  "flag_at fs i = (case list_get fs i of Some f \<Rightarrow> f | None \<Rightarrow> False)"

definition row_flags :: "bool \<Rightarrow> bool list \<Rightarrow> bool list \<Rightarrow> nat \<Rightarrow> (bool \<times> solo_mark) option" where
  "row_flags is_host muted_now soloed_now i =
     (if is_host
      then Some (flag_at muted_now i,
        if flag_at soloed_now i then Soloed else if list_ex (\<lambda>s. s) soloed_now then SilencedBySolo else NoSolo)
      else None)"

definition render_row :: "bool \<Rightarrow> nat \<Rightarrow> real list \<Rightarrow> bool list \<Rightarrow> bool list \<Rightarrow> player_row \<Rightarrow> shown_row" where
  "render_row is_host sel gains_now muted_now soloed_now p =
     (let i = unat (pr_id p) in
      \<lparr>sr_selected = (is_host \<and> i = sel), sr_id = pr_id p, sr_name = truncate_name (pr_name p) 12,
       sr_bar = meter_bar (pr_rms_db p) (pr_peak_db p), sr_loss_percent = pr_loss p * 100, sr_jitter_ms = pr_jitter_ms p,
       sr_buffer_ms = pr_buffer_ms p, sr_rtt_ms = pr_rtt_ms p,
       sr_gain_db = map_option (\<lambda>g. 20 * log 10 (max g (1 / 1000))) (list_get gains_now i),
       sr_flags = row_flags is_host muted_now soloed_now i\<rparr>)"

definition render :: "snapshot \<Rightarrow> nat \<Rightarrow> real list \<Rightarrow> bool list \<Rightarrow> bool list \<Rightarrow> u64 \<Rightarrow> screen" where
  "render snap sel gains_now muted_now soloed_now xruns =
     \<lparr>sc_status = sn_status snap, sc_est_latency_ms = sn_est_latency_ms snap, sc_xruns = xruns,
      sc_capture_gaps = sn_capture_starved snap,
      sc_rows = map (render_row (sn_role snap = HostRole) sel gains_now muted_now soloed_now) (sn_players snap),
      sc_keys_of = sn_role snap\<rparr>"

section \<open>Keys\<close>

datatype ui_shared = UiHost host_shared | UiClient client_shared

datatype key_code = KeyChar nat | OtherKey

record key_event =
  ke_code :: key_code
  ke_control :: bool

definition selectable :: "host_shared \<Rightarrow> nat \<Rightarrow> bool" where
  "selectable sh i \<longleftrightarrow> i = 0 \<or> (case list_get (clients sh) (i - 1) of Some st \<Rightarrow> active st | None \<Rightarrow> False)"

text \<open>\<open>None\<close> is an index out of the arrays. \<open>'+'\<close> is 43, \<open>'='\<close> 61, \<open>'-'\<close> 45, \<open>'m'\<close> 109, \<open>'s'\<close> 115, \<open>'['\<close> 91, \<open>']'\<close> 93.\<close>

definition host_key :: "nat \<Rightarrow> nat \<Rightarrow> host_shared \<Rightarrow> (nat \<times> host_shared) option" where
  "host_key c sel sh =
     (if 48 \<le> c \<and> c \<le> 52 then Some (if selectable sh (c - 48) then c - 48 else sel, sh)
      else if c = 43 \<or> c = 61 then
        Option.bind (list_get (gains sh) sel) (\<lambda>g. Some (sel, sh\<lparr>gains := (gains sh)[sel := adjust_db g 1]\<rparr>))
      else if c = 45 then
        Option.bind (list_get (gains sh) sel) (\<lambda>g. Some (sel, sh\<lparr>gains := (gains sh)[sel := adjust_db g (- 1)]\<rparr>))
      else if c = 109 then
        Option.bind (list_get (muted sh) sel) (\<lambda>f. Some (sel, sh\<lparr>muted := (muted sh)[sel := \<not> f]\<rparr>))
      else if c = 115 then
        Option.bind (list_get (soloed sh) sel) (\<lambda>f. Some (sel, sh\<lparr>soloed := (soloed sh)[sel := \<not> f]\<rparr>))
      else Some (sel, sh))"

definition client_key :: "nat \<Rightarrow> client_shared \<Rightarrow> client_shared" where
  "client_key c sh =
     (if c = 43 \<or> c = 61 then sh\<lparr>master_gain := adjust_db (master_gain sh) 1\<rparr>
      else if c = 45 then sh\<lparr>master_gain := adjust_db (master_gain sh) (- 1)\<rparr>
      else if c = 93 then sh\<lparr>cs_monitor_gain := adjust_db (cs_monitor_gain sh) 1\<rparr>
      else if c = 91 then sh\<lparr>cs_monitor_gain := adjust_db (cs_monitor_gain sh) (- 1)\<rparr>
      else sh)"

definition press_key :: "key_code \<Rightarrow> nat \<Rightarrow> ui_shared \<Rightarrow> (nat \<times> ui_shared) option" where
  "press_key k sel shared =
     (case (k, shared) of
        (KeyChar c, UiHost sh) \<Rightarrow> map_option (\<lambda>(sel, sh). (sel, UiHost sh)) (host_key c sel sh)
      | (KeyChar c, UiClient sh) \<Rightarrow> Some (sel, UiClient (client_key c sh))
      | (OtherKey, _) \<Rightarrow> Some (sel, shared))"

text \<open>\<open>q\<close>, or \<open>c\<close> with control\<close>

definition is_quit :: "key_event \<Rightarrow> bool" where
  "is_quit k \<longleftrightarrow> ke_code k = KeyChar 113 \<or> (ke_code k = KeyChar 99 \<and> ke_control k)"

section \<open>The display loop\<close>

text \<open>One turn: the key that came within 50 ms, then, when half a second has passed since the last time or a key came, the screen.
  \<open>now\<close> is the clock in milliseconds when the time is looked at, and \<open>snap\<close> the snapshot then.\<close>

record display =
  dp_shared :: ui_shared
  dp_selected :: nat
  dp_last_draw :: int

datatype 'd turn = Quit | Panicked | Continues 'd

definition draw :: "snapshot \<Rightarrow> u64 \<Rightarrow> display \<Rightarrow> display \<times> screen" where
  "draw snap xruns d =
     (let sel = (case dp_shared d of
                   UiHost sh \<Rightarrow> if dp_selected d \<noteq> 0 \<and> \<not> selectable sh (dp_selected d) then 0 else dp_selected d
                 | UiClient _ \<Rightarrow> dp_selected d)
      in (d\<lparr>dp_selected := sel\<rparr>,
          (case dp_shared d of
             UiHost sh \<Rightarrow> render snap sel (gains sh) (muted sh) (soloed sh) xruns
           | UiClient sh \<Rightarrow> render snap sel [master_gain sh] [] [] xruns)))"

definition ui_turn :: "key_event option \<Rightarrow> int \<Rightarrow> snapshot \<Rightarrow> u64 \<Rightarrow> display \<Rightarrow> display turn \<times> screen option" where
  "ui_turn key now snap xruns d =
     (case (case key of
              None \<Rightarrow> Continues d
            | Some k \<Rightarrow>
                if is_quit k then Quit
                else (case press_key (ke_code k) (dp_selected d) (dp_shared d) of
                    None \<Rightarrow> Panicked
                  | Some (sel, shared) \<Rightarrow>
                      Continues (d\<lparr>dp_shared := shared, dp_selected := sel, dp_last_draw := dp_last_draw d - 1000\<rparr>))) of
        Continues d \<Rightarrow>
          if 500 \<le> now - dp_last_draw d
          then (case draw snap xruns (d\<lparr>dp_last_draw := now\<rparr>) of (d, sc) \<Rightarrow> (Continues d, Some sc))
          else (Continues d, None)
      | Quit \<Rightarrow> (Quit, None)
      | Panicked \<Rightarrow> (Panicked, None))"

text \<open>Between the turns the control thread of a host changes which slots are active and clears the marks of a slot that
  is taken; no other thread writes what the keys of a client change.\<close>

datatype ui_event = UiTurn "key_event option" int snapshot u64 | Room "stream_shared list" | SlotTaken nat

fun ui_step :: "ui_event \<Rightarrow> display turn \<Rightarrow> display turn \<times> screen list" where
  "ui_step (UiTurn key now snap xruns) (Continues d) =
     (case ui_turn key now snap xruns d of (t, sc) \<Rightarrow> (t, case sc of Some sc \<Rightarrow> [sc] | None \<Rightarrow> []))"
| "ui_step (Room sts) (Continues d) =
     (Continues (d\<lparr>dp_shared := (case dp_shared d of UiHost sh \<Rightarrow> UiHost (sh\<lparr>clients := sts\<rparr>) | UiClient sh \<Rightarrow> UiClient sh)\<rparr>), [])"
| "ui_step (SlotTaken i) (Continues d) =
     (Continues (d\<lparr>dp_shared := (case dp_shared d of UiHost sh \<Rightarrow> UiHost (clear_mix i sh) | UiClient sh \<Rightarrow> UiClient sh)\<rparr>), [])"
| "ui_step e Quit = (Quit, [])"
| "ui_step e Panicked = (Panicked, [])"

definition ui_new :: "ui_shared \<Rightarrow> int \<Rightarrow> display turn" where
  "ui_new shared now = Continues \<lparr>dp_shared = shared, dp_selected = 0, dp_last_draw = now - 1000\<rparr>"

section \<open>The controls of the window\<close>

text \<open>A slider moved to a value, and a button pressed, in the row of a player or below the table.\<close>

datatype gui_control = RowGain "u16" real | RowMute "u16" | RowSolo "u16" | SelfMonitor real | Master real

definition toggle :: "bool list \<Rightarrow> nat \<Rightarrow> bool list" where
  "toggle fs i = (case list_get fs i of Some f \<Rightarrow> fs[i := \<not> f] | None \<Rightarrow> fs)"

definition gui_use :: "gui_control \<Rightarrow> ui_shared \<Rightarrow> ui_shared" where
  "gui_use ctl shared =
     (case shared of
        UiHost sh \<Rightarrow>
          UiHost (case ctl of
             RowGain pl db \<Rightarrow> sh\<lparr>gains := (gains sh)[unat pl := set_db db]\<rparr>
           | RowMute pl \<Rightarrow> sh\<lparr>muted := toggle (muted sh) (unat pl)\<rparr>
           | RowSolo pl \<Rightarrow> sh\<lparr>soloed := toggle (soloed sh) (unat pl)\<rparr>
           | SelfMonitor db \<Rightarrow> sh\<lparr>hs_monitor_gain := set_db db\<rparr>
           | Master _ \<Rightarrow> sh)
      | UiClient sh \<Rightarrow>
          UiClient (case ctl of
             Master db \<Rightarrow> sh\<lparr>master_gain := set_db db\<rparr>
           | SelfMonitor db \<Rightarrow> sh\<lparr>cs_monitor_gain := set_db db\<rparr>
           | _ \<Rightarrow> sh))"

text \<open>What the window shows: the rows with the part of the meter that is filled, the sliders and buttons of a host's rows, the
  sliders below, and whether a client is warned that it is not connected.\<close>

record gui_row =
  gr_name :: rust_string
  gr_filled :: real
  gr_rms_db :: real
  gr_peak_db :: real
  gr_loss_percent :: real
  gr_jitter_ms :: real
  gr_buffer_ms :: real
  gr_rtt_ms :: real
  gr_controls :: "(real option \<times> bool option \<times> bool option) option"

definition gui_row_of :: "ui_shared \<Rightarrow> player_row \<Rightarrow> gui_row" where
  "gui_row_of shared p =
     \<lparr>gr_name = pr_name p, gr_filled = meter_fraction (pr_rms_db p), gr_rms_db = pr_rms_db p, gr_peak_db = pr_peak_db p,
      gr_loss_percent = pr_loss p * 100, gr_jitter_ms = pr_jitter_ms p, gr_buffer_ms = pr_buffer_ms p, gr_rtt_ms = pr_rtt_ms p,
      gr_controls = (case shared of
          UiHost sh \<Rightarrow> let i = unat (pr_id p) in
            Some (map_option db_of (list_get (gains sh) i), list_get (muted sh) i, list_get (soloed sh) i)
        | UiClient _ \<Rightarrow> None)\<rparr>"

record gui_view =
  gv_status :: status_line
  gv_est_latency_ms :: real
  gv_xruns :: u64
  gv_capture_gaps :: u64
  gv_rows :: "gui_row list"
  gv_monitor_db :: real
  gv_master_db :: "real option"
  gv_warns :: bool

definition gui_update :: "snapshot \<Rightarrow> u64 \<Rightarrow> ui_shared \<Rightarrow> gui_view" where
  "gui_update snap xruns shared =
     \<lparr>gv_status = sn_status snap, gv_est_latency_ms = sn_est_latency_ms snap, gv_xruns = xruns,
      gv_capture_gaps = sn_capture_starved snap, gv_rows = map (gui_row_of shared) (sn_players snap),
      gv_monitor_db = db_of (case shared of UiHost sh \<Rightarrow> hs_monitor_gain sh | UiClient sh \<Rightarrow> cs_monitor_gain sh),
      gv_master_db = (case shared of UiHost _ \<Rightarrow> None | UiClient sh \<Rightarrow> Some (db_of (master_gain sh))),
      gv_warns = (sn_role snap = ClientRole \<and> \<not> sn_connected snap)\<rparr>"

section \<open>Gains stay between - 40 and 12 dB\<close>

definition gain_ok :: "real \<Rightarrow> bool" where
  "gain_ok g \<longleftrightarrow> 1 / 100 \<le> g \<and> g \<le> 10 powr (3 / 5)"

lemma clamp_db_bounds: "- 40 \<le> clamp_db db \<and> clamp_db db \<le> 12"
  by (simp add: clamp_db_def)

lemma clamp_db_id: "\<lbrakk>- 40 \<le> db; db \<le> 12\<rbrakk> \<Longrightarrow> clamp_db db = db"
  by (simp add: clamp_db_def)

lemma adjust_db_eq: "adjust_db g steps = set_db (db_of g + steps)"
  by (simp add: adjust_db_def set_db_def db_of_def Let_def)

lemma powr_minus_two: "(10 :: real) powr (- 2) = 1 / 100"
  by (simp add: powr_minus powr_numeral divide_simps)

lemma set_db_ok [simp]: "gain_ok (set_db db)"
proof -
  note powr_minus_two
  moreover have "(10 :: real) powr (- 2) \<le> 10 powr (clamp_db db / 20)"
    using clamp_db_bounds [of db] by (intro powr_mono) simp_all
  moreover have "(10 :: real) powr (clamp_db db / 20) \<le> 10 powr (3 / 5)"
    using clamp_db_bounds [of db] by (intro powr_mono) simp_all
  ultimately show ?thesis unfolding gain_ok_def set_db_def by linarith
qed

lemma adjust_db_ok [simp]: "gain_ok (adjust_db g steps)"
  by (simp add: adjust_db_eq)

lemma gain_one_ok [simp]: "gain_ok 1"
proof -
  have "set_db 0 = 1" by (simp add: set_db_def clamp_db_def)
  with set_db_ok [of 0] show ?thesis by simp
qed

text \<open>What is shown of a gain is what was set.\<close>

lemma db_of_set_db [simp]: "db_of (set_db db) = clamp_db db"
proof -
  have "1 / 1000 \<le> set_db db" using set_db_ok [of db] by (simp add: gain_ok_def)
  then have "max (set_db db) (1 / 1000) = set_db db" by (rule max_absorb1)
  then show ?thesis by (simp add: db_of_def set_db_def)
qed

lemma set_db_db_of: "gain_ok g \<Longrightarrow> set_db (db_of g) = g \<and> - 40 \<le> db_of g \<and> db_of g \<le> 12"
proof -
  assume g: "gain_ok g"
  then have pos: "0 < g" "max g (1 / 1000) = g" by (simp_all add: gain_ok_def)
  have "log 10 (1 / 100) = (- 2 :: real)"
    using log_powr_cancel [of 10 "- 2"] unfolding powr_minus_two by simp
  with g pos have "- 2 \<le> log 10 g" using log_le_cancel_iff [of 10 "1 / 100" g] by (simp add: gain_ok_def)
  moreover have "log 10 g \<le> log 10 (10 powr (3 / 5))"
    using g pos by (intro log_mono) (simp_all add: gain_ok_def)
  then have "log 10 g \<le> 3 / 5" by simp
  ultimately have db: "- 40 \<le> 20 * log 10 g" "20 * log 10 g \<le> 12" by simp_all
  then show ?thesis using pos by (simp add: db_of_def set_db_def clamp_db_id)
qed

text \<open>Pressing \<open>+\<close> and then \<open>-\<close> as often gives the gain back, unless the top was reached.\<close>

lemma set_db_cong: "clamp_db a = clamp_db b \<Longrightarrow> set_db a = set_db b"
  by (simp add: set_db_def)

lemma volume_up: "gain_ok g \<Longrightarrow> ((\<lambda>g. adjust_db g 1) ^^ k) g = set_db (db_of g + real k)"
proof (induction k)
  case (Suc k)
  have "clamp_db (clamp_db (db_of g + real k) + 1) = clamp_db (db_of g + real (Suc k))"
    using set_db_db_of [OF Suc.prems] by (simp add: clamp_db_def min_def max_def)
  from Suc set_db_cong [OF this] show ?case by (simp add: adjust_db_eq)
qed (simp add: set_db_db_of)

lemma volume_down: "gain_ok g \<Longrightarrow> ((\<lambda>g. adjust_db g (- 1)) ^^ k) g = set_db (db_of g - real k)"
proof (induction k)
  case (Suc k)
  have "clamp_db (clamp_db (db_of g - real k) - 1) = clamp_db (db_of g - real (Suc k))"
    using set_db_db_of [OF Suc.prems] by (simp add: clamp_db_def min_def max_def)
  from Suc set_db_cong [OF this] show ?case by (simp add: adjust_db_eq)
qed (simp add: set_db_db_of)

theorem volume_keys_undo:
  assumes "gain_ok g"
  shows "((\<lambda>g. adjust_db g (- 1)) ^^ k) (((\<lambda>g. adjust_db g 1) ^^ k) g) = set_db (min (db_of g) (12 - real k))"
proof -
  have "clamp_db (clamp_db (db_of g + real k) - real k) = clamp_db (min (db_of g) (12 - real k))"
    using set_db_db_of [OF assms] by (simp add: clamp_db_def min_def max_def)
  from set_db_cong [OF this] show ?thesis by (simp add: volume_up [OF assms] volume_down)
qed

section \<open>What fits the screen\<close>

lemma meter_bar_width [simp]: "length (meter_bar rms peak) = METER_WIDTH"
  by (simp add: meter_bar_def Let_def)

definition one_char :: "rust_string \<Rightarrow> bool" where
  "one_char c \<longleftrightarrow> (case c of [] \<Rightarrow> False | b # bs \<Rightarrow> \<not> is_cont b \<and> list_all is_cont bs)"

lemma conts [simp]: "list_all is_cont (takeWhile is_cont s)"
  by (auto simp: list_all_iff dest: set_takeWhileD)

lemma chars_tail: "chars s = c # cs \<Longrightarrow> list_all one_char cs"
proof (induction s arbitrary: c cs rule: chars.induct)
  case (2 b bs)
  show ?case
  proof (cases "dropWhile is_cont bs")
    case Nil
    with "2.prems" show ?thesis by simp
  next
    case (Cons d ds)
    then have "\<not> is_cont d" using hd_dropWhile [of is_cont bs] by simp
    moreover have "chars (d # ds) = (d # takeWhile is_cont ds) # chars (dropWhile is_cont ds)" by simp
    ultimately show ?thesis using "2.prems" "2.IH" Cons by (auto simp: one_char_def)
  qed
qed simp

lemma chars_of_char: "one_char c \<Longrightarrow> takeWhile is_cont (c @ s) = [] \<and> dropWhile is_cont (c @ s) = c @ s"
  by (cases c) (simp_all add: one_char_def)

lemma chars_append:
  assumes "list_all is_cont bs" and "takeWhile is_cont s = []" and "dropWhile is_cont s = s"
  shows "chars ((b # bs) @ s) = (b # bs) # chars s"
  using assms by (simp add: takeWhile_append2 dropWhile_append2 list_all_iff)

lemma chars_concat: "list_all one_char cs \<Longrightarrow> chars (concat cs) = cs"
proof (induction cs)
  case (Cons c cs)
  then obtain b bs where c: "c = b # bs" "list_all is_cont bs" by (cases c) (auto simp: one_char_def)
  have "takeWhile is_cont (concat cs) = [] \<and> dropWhile is_cont (concat cs) = concat cs"
    using Cons.prems chars_of_char by (cases cs) auto
  with Cons c show ?case using chars_append [of bs "concat cs" b] by simp
qed simp

lemma truncate_name_fits: "0 < n \<Longrightarrow> length (chars (truncate_name s n)) \<le> n"
proof (cases "length (chars s) \<le> n")
  case False
  assume "0 < n"
  from False obtain b bs where s: "s = b # bs" by (cases s) auto
  let ?first = "b # takeWhile is_cont bs" and ?cs = "chars (dropWhile is_cont bs)"
  have "one_char ELLIPSIS" by (simp add: one_char_def ELLIPSIS_def is_cont_def)
  moreover have "list_all one_char ?cs" using chars_tail [of s] by (simp add: s)
  ultimately have all: "list_all one_char (take m ?cs @ [ELLIPSIS])" for m
    by (auto simp: list_all_iff dest: in_set_takeD)
  show ?thesis
  proof (cases "n - 1")
    case 0
    with \<open>0 < n\<close> False chars_concat [of "[ELLIPSIS]"] \<open>one_char ELLIPSIS\<close> show ?thesis by (simp add: truncate_name_def)
  next
    case (Suc m)
    have "takeWhile is_cont (concat (take m ?cs @ [ELLIPSIS])) = []
        \<and> dropWhile is_cont (concat (take m ?cs @ [ELLIPSIS])) = concat (take m ?cs @ [ELLIPSIS])"
      using all [of m] chars_of_char by (cases "take m ?cs @ [ELLIPSIS]") auto
    then have "chars (?first @ concat (take m ?cs @ [ELLIPSIS])) = ?first # chars (concat (take m ?cs @ [ELLIPSIS]))"
      by (intro chars_append conts) simp_all
    then have "chars (?first @ concat (take m ?cs @ [ELLIPSIS])) = ?first # take m ?cs @ [ELLIPSIS]"
      by (simp only: chars_concat [OF all [of m]])
    moreover have "truncate_name s n = ?first @ concat (take m ?cs @ [ELLIPSIS])"
      using False Suc by (simp add: truncate_name_def s)
    ultimately show ?thesis using Suc by simp
  qed
qed (simp add: truncate_name_def)

section \<open>The keys\<close>

text \<open>A key changes only what belongs to the selected player, a gain by one step, and stays within the arrays.\<close>

definition gains_ok :: "host_shared \<Rightarrow> bool" where
  "gains_ok sh \<longleftrightarrow> (\<forall>g \<in> set (gains sh). gain_ok g)"

lemma host_key_ok:
  assumes "shared_ok sh" and "sel \<le> MAX_CLIENTS" and "gains_ok sh"
  obtains sel' sh' where "host_key c sel sh = Some (sel', sh')" "shared_ok sh'" "gains_ok sh'" "sel' \<le> MAX_CLIENTS"
proof -
  have len: "sel < length (gains sh)" "sel < length (muted sh)" "sel < length (soloed sh)"
    using assms(1,2) by (simp_all add: shared_ok_def)
  have set: "gains_ok (sh\<lparr>gains := (gains sh)[sel := adjust_db g d]\<rparr>)" for g d
    using assms(3) by (auto simp: gains_ok_def dest!: set_update_subset_insert [THEN subsetD])
  have "\<exists>sel' sh'. host_key c sel sh = Some (sel', sh') \<and> shared_ok sh' \<and> gains_ok sh' \<and> sel' \<le> MAX_CLIENTS"
    using assms len set by (auto simp: host_key_def list_get_def shared_ok_def gains_ok_def MAX_CLIENTS_def)
  with that show ?thesis by blast
qed

definition room_ok :: "ui_event \<Rightarrow> bool" where
  "room_ok e \<longleftrightarrow> (case e of Room sts \<Rightarrow> length sts = MAX_CLIENTS | _ \<Rightarrow> True)"

definition ui_ok :: "display turn \<Rightarrow> bool" where
  "ui_ok t \<longleftrightarrow> (case t of
      Panicked \<Rightarrow> False
    | Quit \<Rightarrow> True
    | Continues d \<Rightarrow> (case dp_shared d of
          UiHost sh \<Rightarrow> shared_ok sh \<and> gains_ok sh \<and> dp_selected d \<le> MAX_CLIENTS
        | UiClient sh \<Rightarrow> gain_ok (master_gain sh) \<and> gain_ok (cs_monitor_gain sh) \<and> dp_selected d \<le> MAX_CLIENTS))"

definition row_ok :: "shown_row \<Rightarrow> bool" where
  "row_ok r \<longleftrightarrow> length (chars (sr_name r)) \<le> 12 \<and> length (sr_bar r) = METER_WIDTH
     \<and> (case sr_gain_db r of Some db \<Rightarrow> - 40 \<le> db \<and> db \<le> 12 | None \<Rightarrow> True)"

definition screen_ok :: "screen \<Rightarrow> bool" where
  "screen_ok sc \<longleftrightarrow> (\<forall>r \<in> set (sc_rows sc). row_ok r)"

lemma render_ok: "\<forall>g \<in> set gs. gain_ok g \<Longrightarrow> screen_ok (render snap sel gs ms ss x)"
  using set_db_db_of truncate_name_fits [of 12]
  by (auto simp: screen_ok_def row_ok_def render_def render_row_def Let_def list_get_def db_of_def split: option.splits)

lemma press_key_ok:
  assumes "ui_ok (Continues d)"
  obtains sel shared where "press_key k (dp_selected d) (dp_shared d) = Some (sel, shared)"
    "\<forall>t. ui_ok (Continues (d\<lparr>dp_shared := shared, dp_selected := sel, dp_last_draw := t\<rparr>))"
proof (cases k)
  case (KeyChar c)
  show ?thesis
  proof (cases "dp_shared d")
    case (UiHost sh)
    with assms host_key_ok [of sh "dp_selected d" c] obtain sel' sh' where "host_key c (dp_selected d) sh = Some (sel', sh')"
      "shared_ok sh'" "gains_ok sh'" "sel' \<le> MAX_CLIENTS" by (auto simp: ui_ok_def)
    with that UiHost KeyChar show ?thesis by (simp add: press_key_def ui_ok_def)
  next
    case (UiClient sh)
    with assms that KeyChar show ?thesis by (simp add: press_key_def ui_ok_def client_key_def)
  qed
next
  case OtherKey
  with that assms show ?thesis by (cases "dp_shared d") (simp_all add: press_key_def ui_ok_def)
qed

lemma draw_ok: "ui_ok (Continues d) \<Longrightarrow> ui_ok (Continues (fst (draw snap x d))) \<and> screen_ok (snd (draw snap x d))"
  by (cases "dp_shared d") (auto simp: draw_def Let_def ui_ok_def gains_ok_def intro!: render_ok)

lemma ui_step_good:
  assumes "room_ok e" and "ui_ok t"
  shows "ui_ok (fst (ui_step e t)) \<and> (\<forall>sc \<in> set (snd (ui_step e t)). screen_ok sc)"
proof (cases t)
  case (Continues d)
  have last: "ui_ok (Continues (d\<lparr>dp_last_draw := u\<rparr>))" if "ui_ok (Continues d)" for d u
    using that by (cases "dp_shared d") (simp_all add: ui_ok_def)
  show ?thesis
  proof (cases e)
    case (UiTurn key now snap x)
    have drawn: "case (if 500 \<le> now - dp_last_draw d
          then (case draw snap x (d\<lparr>dp_last_draw := now\<rparr>) of (d, sc) \<Rightarrow> (Continues d, Some sc)) else (Continues d, None)) of
        (t, sc) \<Rightarrow> ui_ok t \<and> (case sc of Some sc \<Rightarrow> screen_ok sc | None \<Rightarrow> True)" if "ui_ok (Continues d)" for d
      using draw_ok [OF last [OF that], of snap x now] that by (auto simp: case_prod_unfold)
    have "case ui_turn key now snap x d of (t, sc) \<Rightarrow> ui_ok t \<and> (case sc of Some sc \<Rightarrow> screen_ok sc | None \<Rightarrow> True)"
    proof (cases key)
      case None
      with drawn [of d] assms(2) Continues show ?thesis by (simp add: ui_turn_def)
    next
      case (Some k)
      have "ui_ok (Continues d)" using assms(2) Continues by simp
      then obtain sel shared where "press_key (ke_code k) (dp_selected d) (dp_shared d) = Some (sel, shared)"
        "\<forall>t. ui_ok (Continues (d\<lparr>dp_shared := shared, dp_selected := sel, dp_last_draw := t\<rparr>))"
        by (rule press_key_ok)
      note pressed = this
      have "ui_ok (Quit :: display turn)" by (simp add: ui_ok_def)
      then show ?thesis
        using drawn [OF spec [OF pressed(2), of "dp_last_draw d - 1000"]] by (cases "is_quit k") (simp_all add: ui_turn_def Some pressed(1))
    qed
    with UiTurn Continues show ?thesis by (auto split: option.splits)
  qed (use assms Continues in \<open>auto simp: ui_ok_def room_ok_def shared_ok_def gains_ok_def clear_mix_def split: ui_shared.splits\<close>)
qed (use assms in \<open>simp_all add: ui_ok_def\<close>)

interpretation display: event_machine ui_step room_ok ui_ok screen_ok
  by unfold_locales (use ui_step_good in blast)+


text \<open>C24: the keys of a host's display are safe. Whatever keys are pressed, at any times, while players come and go, no
  index leaves its array; every gain stays between - 40 and 12 dB, and so does every gain shown; the selected player is the host
  or one of the four slots, and the name, the bar and the gain of each row shown fit their columns.\<close>

theorem display_keys_safe:
  assumes "\<forall>e \<in> set es. room_ok e" and "run ui_step es (ui_new (UiHost (host_shared_new sid)) now) = (t, screens)"
  shows "(case t of Panicked \<Rightarrow> False | Quit \<Rightarrow> True | Continues d \<Rightarrow> dp_selected d \<le> MAX_CLIENTS
        \<and> (case dp_shared d of UiHost sh \<Rightarrow> \<forall>g \<in> set (gains sh). - 40 \<le> db_of g \<and> db_of g \<le> 12 | UiClient _ \<Rightarrow> True))
    \<and> (\<forall>sc \<in> set screens. screen_ok sc)"
proof -
  have start: "ui_ok (ui_new (UiHost (host_shared_new sid)) now)"
    by (auto simp: ui_ok_def ui_new_def gains_ok_def host_shared_new_def shared_ok_def)
  have "ui_ok t" "\<forall>sc \<in> set screens. screen_ok sc"
    using display.run_inv [OF assms(1) start] display.run_out [OF assms(1) start] assms(2) by auto
  then show ?thesis using set_db_db_of
    by (auto simp: ui_ok_def gains_ok_def split: turn.splits ui_shared.splits)
qed

text \<open>For the example: player 2 arrives, is selected, turned up, and leaves; the mark falls back to the host.\<close>

definition ex_present :: "stream_shared list" where
  "ex_present = [stream_default, stream_default\<lparr>active := True\<rparr>, stream_default, stream_default]"

definition ex_typing :: "ui_event list" where
  "ex_typing =
     [Room ex_present, UiTurn (Some \<lparr>ke_code = KeyChar 50, ke_control = False\<rparr>) 10 (new_shared HostRole Starting) 0,
      UiTurn (Some \<lparr>ke_code = KeyChar 43, ke_control = False\<rparr>) 20 (new_shared HostRole Starting) 0,
      Room (replicate 4 stream_default), UiTurn None 600 (new_shared HostRole Starting) 0]"

lemma display_keys_safe_witness:
  "case fst (run ui_step ex_typing (ui_new (UiHost (host_shared_new 9)) 0)) of Continues d \<Rightarrow> dp_selected d \<le> MAX_CLIENTS | _ \<Rightarrow> False"
proof -
  have ok: "\<forall>e \<in> set ex_typing. room_ok e" by (simp add: ex_typing_def room_ok_def ex_present_def MAX_CLIENTS_def)
  obtain t screens where r: "run ui_step ex_typing (ui_new (UiHost (host_shared_new 9)) 0) = (t, screens)" by fastforce
  then obtain d where "t = Continues d"
    by (auto simp: ex_typing_def ui_new_def ui_turn_def is_quit_def press_key_def host_key_def selectable_def list_get_def ex_present_def
        draw_def host_shared_new_def MAX_CLIENTS_def Let_def stream_default_def)
  with display_keys_safe [OF ok r] r show ?thesis by simp
qed

section \<open>The marks\<close>

text \<open>C25: the marks of a row tell whether a player is heard. One who is not marked \<open>M\<close> nor with a dim \<open>s\<close> is in
  the mix. A dim \<open>s\<close> says that somebody's solo flag is set; the player is silenced only when that is
  the flag of a player who is there and not muted, and otherwise, against the mark, he is heard.\<close>

theorem marks_tell_who_is_heard:
  assumes "shared_ok sh" and "sn_role snap = HostRole"
    and "row \<in> set (sc_rows (render snap sel (gains sh) (muted sh) (soloed sh) xruns))" and "present sh (unat (sr_id row))"
  shows "case sr_flags row of
      None \<Rightarrow> False
    | Some (m, s) \<Rightarrow> (m \<longleftrightarrow> muted sh ! unat (sr_id row)) \<and> (s = Soloed \<longleftrightarrow> soloed sh ! unat (sr_id row))
        \<and> (\<not> m \<and> s \<noteq> SilencedBySolo \<longrightarrow> heard sh (unat (sr_id row)))
        \<and> (s = SilencedBySolo \<longrightarrow> (heard sh (unat (sr_id row)) \<longleftrightarrow> \<not> m \<and> \<not> any_solo sh))"
proof -
  let ?p = "unat (sr_id row)"
  have len: "length (muted sh) = Suc MAX_CLIENTS" "length (soloed sh) = Suc MAX_CLIENTS" using assms(1) by (simp_all add: shared_ok_def)
  have p: "?p \<le> MAX_CLIENTS" using assms(4) by (auto simp: present_def)
  then have flags: "sr_flags row = Some (muted sh ! ?p,
      if soloed sh ! ?p then Soloed else if list_ex (\<lambda>s. s) (soloed sh) then SilencedBySolo else NoSolo)"
    using assms(2,3) len by (auto simp: render_def render_row_def Let_def row_flags_def flag_at_def list_get_def)
  have "any_solo sh \<Longrightarrow> list_ex (\<lambda>s. s) (soloed sh)"
    unfolding any_solo_iff [OF assms(1)] list_ex_iff using len(2) by (metis le_imp_less_Suc nth_mem)
  then show ?thesis using in_mix_iff_heard [OF assms(1), of ?p] assms(4) by (auto simp: flags in_mix_def)
qed

text \<open>For the example: two players have their solo flag set, one muted and one not there; the host is marked as silenced and heard.\<close>

lemma marks_tell_who_is_heard_witness:
  "\<exists>row. sc_rows (render ((new_shared HostRole Starting)\<lparr>sn_players := [player_row_default]\<rparr>) 0 (gains ex_room) (muted ex_room) (soloed ex_room) 0) = [row]
     \<and> sr_flags row = Some (False, SilencedBySolo) \<and> heard ex_room 0"
proof -
  let ?snap = "(new_shared HostRole Starting)\<lparr>sn_players := [player_row_default]\<rparr>"
  let ?row = "render_row True 0 (gains ex_room) (muted ex_room) (soloed ex_room) player_row_default"
  have row: "sc_rows (render ?snap 0 (gains ex_room) (muted ex_room) (soloed ex_room) 0) = [?row]" "sr_id ?row = 0"
    "sn_role ?snap = HostRole" "sr_flags ?row = Some (False, SilencedBySolo)"
    by (simp_all add: render_def new_shared_def render_row_def Let_def player_row_default_def row_flags_def flag_at_def list_get_def ex_room_def)
  have room: "shared_ok ex_room" "present ex_room 0" "\<not> any_solo ex_room"
    by (simp_all add: shared_ok_def ex_room_def host_shared_new_def MAX_CLIENTS_def present_def any_solo_def solo_counts_def upt_rec stream_default_def)
  from marks_tell_who_is_heard [OF room(1) row(3), of ?row 0 0] row room(2,3) show ?thesis by simp
qed

section \<open>Keys and the player shown selected\<close>

lemma press_key_selected_only:
  assumes "press_key (KeyChar c) sel (UiHost sh) = Some (sel', UiHost sh')" and "p \<noteq> sel"
  shows "gains sh' ! p = gains sh ! p \<and> muted sh' ! p = muted sh ! p \<and> soloed sh' ! p = soloed sh ! p"
  using assms by (auto simp: press_key_def host_key_def bind_eq_Some_conv split: if_splits)

lemma turn_draws:
  assumes "ui_turn key now snap x d = (Continues d', Some sc)" and "dp_shared d' = UiHost sh"
  shows "sc = render snap (dp_selected d') (gains sh) (muted sh) (soloed sh) x \<and> selectable sh (dp_selected d')"
proof -
  obtain d0 where "draw snap x d0 = (d', sc)"
    using assms(1) by (auto simp: ui_turn_def split: turn.splits if_splits prod.splits)
  with assms(2) show ?thesis
    by (cases "dp_shared d0") (auto simp: draw_def Let_def selectable_def split: if_splits)
qed

lemma selectable_present: "\<lbrakk>shared_ok sh; selectable sh p\<rbrakk> \<Longrightarrow> present sh p"
  by (auto simp: selectable_def present_def list_get_def shared_ok_def split: if_splits)

text \<open>C26: a key reaches the player shown selected. A screen that was drawn marks one player, the host or somebody who was there
  when it was drawn, and the next key changes the gain and the marks of no other. But who was there may have left
  since: the key then lands on the empty slot, or on who has taken it.\<close>

theorem keys_reach_shown_player:
  assumes "\<forall>e \<in> set es. room_ok e" and "run ui_step es (ui_new (UiHost (host_shared_new sid)) now0) = (Continues d, screens)"
    and "ui_turn key now snap xruns d = (Continues d', Some sc)" and "dp_shared d' = UiHost sh" and "sn_role snap = HostRole"
    and "press_key (KeyChar c) (dp_selected d') (UiHost (sh\<lparr>clients := later\<rparr>)) = Some (sel', UiHost sh')"
  shows "present sh (dp_selected d')
    \<and> (\<forall>row \<in> set (sc_rows sc). sr_selected row \<longleftrightarrow> unat (sr_id row) = dp_selected d')
    \<and> (\<forall>p. p \<noteq> dp_selected d' \<longrightarrow> gains sh' ! p = gains sh ! p \<and> muted sh' ! p = muted sh ! p \<and> soloed sh' ! p = soloed sh ! p)"
proof -
  have "ui_ok (ui_new (UiHost (host_shared_new sid)) now0)"
    by (auto simp: ui_ok_def ui_new_def gains_ok_def host_shared_new_def shared_ok_def)
  with display.run_inv [OF assms(1) this] assms(2) have "ui_ok (Continues d)" by simp
  from display.step_inv [OF _ this, of "UiTurn key now snap xruns"] assms(3,4) have "shared_ok sh"
    by (simp add: room_ok_def ui_ok_def)
  note drawn = turn_draws [OF assms(3,4)]
  with selectable_present [OF \<open>shared_ok sh\<close>] have "present sh (dp_selected d')" by simp
  moreover have "\<forall>row \<in> set (sc_rows sc). sr_selected row \<longleftrightarrow> unat (sr_id row) = dp_selected d'"
    using drawn assms(5) by (auto simp: render_def render_row_def Let_def)
  ultimately show ?thesis using press_key_selected_only [OF assms(6)] by simp
qed

text \<open>For the example: player 2 is selected and leaves; \<open>m\<close>, pressed before the next screen, mutes the empty slot.\<close>

lemma keys_reach_shown_player_witness:
  "\<exists>d d' sc sh sh'. run ui_step [Room ex_present] (ui_new (UiHost (host_shared_new 9)) 0) = (Continues d, [])
     \<and> ui_turn (Some \<lparr>ke_code = KeyChar 50, ke_control = False\<rparr>) 10 (new_shared HostRole Starting) 0 d = (Continues d', Some sc)
     \<and> dp_shared d' = UiHost sh \<and> present sh (dp_selected d') \<and> \<not> present (sh\<lparr>clients := replicate 4 stream_default\<rparr>) (dp_selected d')
     \<and> press_key (KeyChar 109) (dp_selected d') (UiHost (sh\<lparr>clients := replicate 4 stream_default\<rparr>)) = Some (2, UiHost sh')
     \<and> muted sh' ! 2"
proof -
  let ?snap = "new_shared HostRole Starting" and ?sh = "(host_shared_new 9)\<lparr>clients := ex_present\<rparr>"
  let ?d = "\<lparr>dp_shared = UiHost ?sh, dp_selected = 0, dp_last_draw = - 1000\<rparr>"
  let ?d' = "\<lparr>dp_shared = UiHost ?sh, dp_selected = 2, dp_last_draw = 10\<rparr>"
  let ?left = "?sh\<lparr>clients := replicate 4 stream_default\<rparr>" and ?marks = "(replicate 5 False)[2 := True]"
  have ok: "\<forall>e \<in> set [Room ex_present]. room_ok e" by (simp add: room_ok_def ex_present_def MAX_CLIENTS_def)
  have r: "run ui_step [Room ex_present] (ui_new (UiHost (host_shared_new 9)) 0) = (Continues ?d, [])" by (simp add: ui_new_def)
  have t: "ui_turn (Some \<lparr>ke_code = KeyChar 50, ke_control = False\<rparr>) 10 ?snap 0 ?d
      = (Continues ?d', Some (render ?snap 2 (gains ?sh) (muted ?sh) (soloed ?sh) 0))"
    by (simp add: ui_turn_def is_quit_def press_key_def host_key_def selectable_def list_get_def ex_present_def draw_def)
  have k: "press_key (KeyChar 109) (dp_selected ?d') (UiHost ?left) = Some (2, UiHost (?left\<lparr>muted := ?marks\<rparr>))"
    by (simp add: press_key_def host_key_def list_get_def host_shared_new_def MAX_CLIENTS_def)
  have role: "sn_role ?snap = HostRole" by (simp add: new_shared_def)
  from keys_reach_shown_player [OF ok r t _ role k] have "present ?sh (dp_selected ?d')" by simp
  moreover have "\<not> present ?left (dp_selected ?d')" by (simp add: present_def stream_default_def)
  ultimately show ?thesis using r t k by (intro exI conjI) (assumption | simp)+
qed

text \<open>A slider of the window shows the value it was moved to, within its range, and keeps the gains in it.\<close>

lemma slider_shows_what_was_set:
  assumes "unat pl < length (gains sh)" and "gains_ok sh"
  shows "case gui_use (RowGain pl db) (UiHost sh) of
      UiClient _ \<Rightarrow> False
    | UiHost sh' \<Rightarrow> gains_ok sh' \<and> gr_controls (gui_row_of (UiHost sh') (player_row_default\<lparr>pr_id := pl\<rparr>))
        = Some (Some (clamp_db db), list_get (muted sh) (unat pl), list_get (soloed sh) (unat pl))"
  using assms by (auto simp: gui_use_def gui_row_of_def Let_def list_get_def gains_ok_def player_row_default_def
      dest!: set_update_subset_insert [THEN subsetD])

end
