(* ===== verification/App_Cli.thy ===== *)
theory App_Cli
  imports Session_Lifecycle Stun_Client Status_Ui
begin

text \<open>
  The commands of the program (\<open>crates/jam-app/src/cli.rs\<close>, \<open>main.rs\<close>): the arguments, what is made of them, and
  the commands \<open>host\<close>, \<open>join\<close> and \<open>ping\<close>. Splitting the command line into arguments is done by a library and starts from its
  result. Upper case (Unicode tables) and name resolution are parameters. What is printed is left out.
\<close>

section \<open>Arguments\<close>

record audio_args =
  aa_input :: "rust_string option"
  aa_output :: "rust_string option"
  aa_buffer :: u32
  aa_frame :: rust_string
  aa_bitrate :: u32
  aa_redundancy :: bool
  aa_monitor :: rust_string
  aa_jitter :: "int option"
  aa_no_drift :: bool
  aa_pcm :: bool
  aa_simulate_loss :: real


datatype cli_error =
    BadFrame rust_string
  | BadMonitor rust_string
  | BadBuffer
  | BadRoomCode
  | NotResolved
  | NoIpv4
  | StartFailed engine_error
  | UiFailed
  | PingFailed
  | NoReplies
  | NoDeviceList device_error

text \<open>\<open>"2.5"\<close>, \<open>"5"\<close>, \<open>"direct"\<close>, \<open>"mix"\<close>, \<open>"off"\<close>\<close>

definition frame_arg :: "rust_string \<Rightarrow> (cli_error, nat) outcome" where
  "frame_arg s =
     (if s = [50, 46, 53] then Ok 120
      else if s = [53] then Ok 240
      else Err (BadFrame s))"

definition monitor_arg :: "rust_string \<Rightarrow> (cli_error, monitor_mode) outcome" where
  "monitor_arg s =
     (if s = [100, 105, 114, 101, 99, 116] then Ok Direct
      else if s = [109, 105, 120] then Ok ThroughMix
      else if s = [111, 102, 102] then Ok MonitorOff
      else Err (BadMonitor s))"

text \<open>\<open>(self.bitrate * 1_000) as i32\<close> wraps twice.\<close>

definition args_params :: "audio_args \<Rightarrow> bool \<Rightarrow> (cli_error, engine_params) outcome" where
  "args_params a ech =
     obind (frame_arg (aa_frame a)) (\<lambda>frame.
     obind (monitor_arg (aa_monitor a)) (\<lambda>mon.
     if aa_buffer a \<notin> {32, 64, 128, 256, 512} then Err BadBuffer
     else Ok
       \<lparr>ep_sample_rate = SAMPLE_RATE, ep_frame_samples = frame, ep_codec = (if aa_pcm a then PcmF32 else Opus),
        bitrate_bps = sint (aa_bitrate a * 1000), redundancy = aa_redundancy a, monitor = mon,
        jitter_fixed = aa_jitter a, drift_correction = (\<not> aa_no_drift a), simulate_loss = aa_simulate_loss a / 100,
        echo = ech\<rparr>))"

section \<open>Room codes\<close>

definition is_ascii_alphanumeric :: "u8 \<Rightarrow> bool" where
  "is_ascii_alphanumeric b \<longleftrightarrow> (48 \<le> b \<and> b \<le> 57) \<or> (65 \<le> b \<and> b \<le> 90) \<or> (97 \<le> b \<and> b \<le> 122)"

text \<open>\<open>ABCDEFGHJKLMNPQRSTUVWXYZ23456789\<close>\<close>

definition ALPHABET :: "u8 list" where
  "ALPHABET = [65, 66, 67, 68, 69, 70, 71, 72, 74, 75, 76, 77, 78, 80, 81, 82, 83, 84, 85, 86, 87, 88, 89, 90,
     50, 51, 52, 53, 54, 55, 56, 57]"

fun random_code :: "nat \<Rightarrow> u64 \<Rightarrow> (cli_error, u8 list) outcome" where
  "random_code 0 state = Ok []"
| "random_code (Suc n) state =
     (let state = lcg state in
      obind (idx ALPHABET (unat (drop_bit 56 state) mod length ALPHABET)) (\<lambda>c.
      obind (random_code n state) (\<lambda>cs. Ok (c # cs))))"

definition room_code :: "(rust_string \<Rightarrow> rust_string) \<Rightarrow> u64 \<Rightarrow> u32 \<Rightarrow> rust_string option \<Rightarrow> (cli_error, u8 list) outcome" where
  "room_code upper nanos process input =
     (case input of
        Some s \<Rightarrow>
          let up = upper s in
          if length up \<noteq> ROOM_CODE_LEN \<or> \<not> list_all is_ascii_alphanumeric up then Err BadRoomCode else Ok up
      | None \<Rightarrow> random_code ROOM_CODE_LEN (nanos XOR push_bit 32 (ucast process)))"

section \<open>Addresses\<close>

definition resolve :: "(rust_string \<Rightarrow> socket_addr list option) \<Rightarrow> rust_string \<Rightarrow> (cli_error, socket_addr) outcome" where
  "resolve lookup host =
     (let with_port = (if 58 \<in> set host then host else host @ [58] @ decimal (unat DEFAULT_PORT)) in
      (case lookup with_port of
         None \<Rightarrow> Err NotResolved
       | Some addrs \<Rightarrow> (case find is_ipv4 addrs of None \<Rightarrow> Err NoIpv4 | Some a \<Rightarrow> Ok a)))"

section \<open>Hosting and joining\<close>

record host_args =
  ha_port :: u16
  ha_code :: "rust_string option"
  ha_name :: rust_string
  ha_echo :: bool
  ha_no_stun :: bool
  ha_gui :: bool
  ha_audio :: audio_args

record join_args =
  ja_host :: rust_string
  ja_code :: rust_string
  ja_name :: rust_string
  ja_gui :: bool
  ja_audio :: audio_args

text \<open>What the system answers to a command: the entropy of a new code, the search for the public address (a socket that
  can be bound, the servers), the sound card, the network; whether the program was built with the window, and whether that ends
  without an error.\<close>

record command_world =
  cw_upper :: "rust_string \<Rightarrow> rust_string"
  cw_nanos :: u64
  cw_process :: u32
  cw_lookup :: "rust_string \<Rightarrow> socket_addr list option"
  cw_stun :: "(u64 \<times> stun_world) list option"
  cw_audio :: os_audio
  cw_net :: os_net
  cw_gui_built :: bool
  cw_window :: bool

text \<open>What a command leaves of its session when it returns.\<close>

datatype 'c fate = NothingRuns | LeftRunning "'c lifecycle" | WasShutDown "'c lifecycle"

definition fate_of :: "bool \<Rightarrow> 'c lifecycle option \<Rightarrow> 'c fate" where
  "fate_of shut left = (case left of None \<Rightarrow> NothingRuns | Some s \<Rightarrow> if shut then WasShutDown s else LeftRunning s)"

definition audio_config_of :: "audio_args \<Rightarrow> audio_config" where
  "audio_config_of a = \<lparr>ac_input_name = aa_input a, ac_output_name = aa_output a, ac_hw_buffer = aa_buffer a\<rparr>"

text \<open>The display of the terminal always ends well.\<close>

definition run_session_ui :: "bool \<Rightarrow> bool \<Rightarrow> bool \<Rightarrow> bool" where
  "run_session_ui built window want_gui \<longleftrightarrow> (if want_gui then built \<and> window else True)"

definition run_session :: "bool \<Rightarrow> (engine_error, 'h) outcome \<times> 'c lifecycle option \<Rightarrow> (cli_error, unit) outcome \<times> 'c fate" where
  "run_session display session =
     (case session of
        (Ok _, left) \<Rightarrow> if display then (Ok (), fate_of True left) else (Err UiFailed, fate_of False left)
      | (Err e, left) \<Rightarrow> (Err (StartFailed e), fate_of False left)
      | (Panic, left) \<Rightarrow> (Panic, fate_of False left))"

definition public_address :: "bool \<Rightarrow> command_world \<Rightarrow> socket_addr option" where
  "public_address no_stun w =
     (if no_stun then None
      else (case cw_stun w of
          None \<Rightarrow> None
        | Some servers \<Rightarrow>
            (case fst (discover_public_addr True True True None servers) of Ok a \<Rightarrow> Some a | _ \<Rightarrow> None)))"

definition host_command :: "('e, 'd) media_lib \<Rightarrow> (real, 'r) ring_lib \<Rightarrow> (tx_item, 'q) ring_lib \<Rightarrow> command_world \<Rightarrow> host_args
    \<Rightarrow> ((cli_error, unit) outcome \<times> host_ctl fate) \<times> (u8 list \<times> socket_addr option) option" where
  "host_command lib R Q w args =
     (case obind (room_code (cw_upper w) (cw_nanos w) (cw_process w) (ha_code args)) (\<lambda>code.
           obind (args_params (ha_audio args) (ha_echo args)) (\<lambda>p. Ok (code, p))) of
        Ok (code, p) \<Rightarrow>
          let public = public_address (ha_no_stun args) w;
              cfg = \<lparr>hf_port = ha_port args, hf_room_code = code, hf_name = ha_name args, hf_params = p,
                     hf_audio = audio_config_of (ha_audio args)\<rparr>
          in (run_session (run_session_ui (cw_gui_built w) (cw_window w) (ha_gui args)) (start_host lib R Q (cw_audio w) (cw_net w) cfg), Some (code, public))
      | Err e \<Rightarrow> ((Err e, NothingRuns), None)
      | Panic \<Rightarrow> ((Panic, NothingRuns), None))"

definition join_command :: "('e, 'd) media_lib \<Rightarrow> (real, 'r) ring_lib \<Rightarrow> (tx_item, 'q) ring_lib \<Rightarrow> command_world \<Rightarrow> join_args
    \<Rightarrow> (cli_error, unit) outcome \<times> client_ctl fate" where
  "join_command lib R Q w args =
     (case obind (resolve (cw_lookup w) (ja_host args)) (\<lambda>addr.
           obind (room_code (cw_upper w) (cw_nanos w) (cw_process w) (Some (ja_code args))) (\<lambda>code.
           obind (args_params (ja_audio args) False) (\<lambda>p. Ok (addr, code, p)))) of
        Ok (addr, code, p) \<Rightarrow>
          let cfg = \<lparr>cf_host_addr = addr, cf_room_code = code, cf_name = ja_name args, cf_params = p,
                     cf_audio = audio_config_of (ja_audio args)\<rparr>
          in run_session (run_session_ui (cw_gui_built w) (cw_window w) (ja_gui args)) (start_client lib R Q (cw_audio w) (cw_net w) cfg)
      | Err e \<Rightarrow> (Err e, NothingRuns)
      | Panic \<Rightarrow> (Panic, NothingRuns))"

section \<open>Devices\<close>

text \<open>One line of the table of sound cards: \<open>yes*\<close>, \<open>yes\<close> or \<open>-\<close> for either direction. An empty table is printed as no devices.\<close>

datatype device_mark = YesDefault | Yes | Dash

definition device_mark :: "bool \<Rightarrow> bool \<Rightarrow> device_mark" where
  "device_mark b def = (case (b, def) of (True, True) \<Rightarrow> YesDefault | (True, False) \<Rightarrow> Yes | _ \<Rightarrow> Dash)"

definition devices_command :: "command_world \<Rightarrow> (cli_error, (rust_string \<times> device_mark \<times> device_mark) list) outcome" where
  "devices_command w =
     obind (map_err NoDeviceList (list_devices (oa_host (cw_audio w)))) (\<lambda>ds.
     Ok (map (\<lambda>d. (di_name d, device_mark (di_is_input d) (di_default_input d), device_mark (di_is_output d) (di_default_output d))) ds))"

section \<open>Ping\<close>

text \<open>One probe: the clock before it is sent, whether it could be sent, what is received within a second, the clock then.\<close>

record probe =
  pb_t1 :: u64
  pb_sent :: bool
  pb_got :: "(u8 list \<times> socket_addr) option"
  pb_t4 :: u64

definition ping_datagram :: "nat \<Rightarrow> u64 \<Rightarrow> u8 list option" where
  "ping_datagram i t1 =
     map_option (\<lambda>(out, n). take n out)
       (control_write (Ping t1) \<lparr>ptype = PT_Ping, session_id = 0, sender_id = UNJOINED_SENDER_ID, hseq = of_nat i\<rparr> (replicate 64 0))"

text \<open>The round trip in microseconds that a datagram is counted as; the buffer has 256 bytes.\<close>

definition ping_reply :: "socket_addr \<Rightarrow> (u8 list \<times> socket_addr) option \<Rightarrow> u64 \<Rightarrow> (cli_error, u64 option) outcome" where
  "ping_reply addr got t4 =
     (case got of
        None \<Rightarrow> Ok None
      | Some (bytes, src) \<Rightarrow>
          if src \<noteq> addr then Ok None
          else (case parse_datagram (take 256 bytes) of
              Ok (_, PControl (Pong t1 t2 t3)) \<Rightarrow> Ok (Some (saturating_sub (saturating_sub t4 t1) (saturating_sub t3 t2)))
            | Panic \<Rightarrow> Panic
            | _ \<Rightarrow> Ok None))"

fun ping_probes :: "socket_addr \<Rightarrow> nat \<Rightarrow> probe list \<Rightarrow> (cli_error, real list) outcome" where
  "ping_probes addr i [] = Ok []"
| "ping_probes addr i (p # ps) =
     (case ping_datagram i (pb_t1 p) of
        None \<Rightarrow> Panic
      | Some _ \<Rightarrow>
          if \<not> pb_sent p then Err PingFailed
          else
            obind (ping_reply addr (pb_got p) (pb_t4 p)) (\<lambda>r.
            obind (ping_probes addr (Suc i) ps) (\<lambda>rtts.
            Ok (case r of Some us \<Rightarrow> real (unat us) / 1000 # rtts | None \<Rightarrow> rtts))))"

record ping_report =
  rep_count :: nat
  rep_min :: real
  rep_avg :: real
  rep_max :: real

definition F64_MAX :: real where "F64_MAX = (2 - 1 / 2 ^ 52) * 2 ^ 1023"

definition ping_command :: "command_world \<Rightarrow> rust_string \<Rightarrow> bool \<Rightarrow> probe list \<Rightarrow> (cli_error, ping_report) outcome" where
  "ping_command w host bound probes =
     obind (resolve (cw_lookup w) host) (\<lambda>addr.
     if \<not> bound then Err PingFailed
     else
       obind (ping_probes addr 0 probes) (\<lambda>rtts.
       if rtts = [] then Err NoReplies
       else Ok \<lparr>rep_count = length rtts, rep_min = foldl min F64_MAX rtts, rep_avg = sum_list rtts / real (length rtts),
                rep_max = foldl max 0 rtts\<rparr>))"

section \<open>What the commands promise\<close>



text \<open>What \<open>str::to_uppercase\<close> does to ASCII, and that it leaves no lower-case ASCII letter.\<close>

definition ascii_upper :: "u8 \<Rightarrow> u8" where
  "ascii_upper b = (if 97 \<le> b \<and> b \<le> 122 then b - 32 else b)"

definition upper_ok :: "(rust_string \<Rightarrow> rust_string) \<Rightarrow> bool" where
  "upper_ok upper \<longleftrightarrow> (\<forall>s. (\<forall>b \<in> set s. b < 128) \<longrightarrow> upper s = map ascii_upper s)
     \<and> (\<forall>s. \<forall>b \<in> set (upper s). \<not> (97 \<le> b \<and> b \<le> 122))"

definition code_char :: "u8 \<Rightarrow> bool" where
  "code_char b \<longleftrightarrow> is_ascii_alphanumeric b \<and> \<not> (97 \<le> b \<and> b \<le> 122)"

lemma alphabet_code: "list_all code_char ALPHABET"
  by (simp add: ALPHABET_def code_char_def is_ascii_alphanumeric_def)

lemma random_code_ok: "\<exists>c. random_code n state = Ok c \<and> length c = n \<and> list_all code_char c"
proof (induction n arbitrary: state)
  case (Suc n)
  let ?s = "lcg state" and ?i = "unat (drop_bit 56 (lcg state)) mod length ALPHABET"
  obtain c where c: "random_code n ?s = Ok c" "length c = n" "list_all code_char c" using Suc by blast
  have "?i < length ALPHABET" by (simp add: ALPHABET_def)
  then have "code_char (ALPHABET ! ?i)" using alphabet_code by (simp only: list_all_length)
  with c \<open>?i < length ALPHABET\<close> show ?case by (auto simp: Let_def)
qed simp

lemma code_char_typed:
  assumes "map ascii_upper t = c" and "list_all code_char c"
  shows "\<forall>b \<in> set t. b < 128"
proof
  fix b
  assume "b \<in> set t"
  with assms have "code_char (ascii_upper b)" by (auto simp: list_all_iff)
  then show "b < 128"
    by (auto simp: code_char_def is_ascii_alphanumeric_def ascii_upper_def word_le_nat_alt word_less_nat_alt split: if_splits)
qed

lemma room_code_chars:
  assumes "upper_ok upper" and "room_code upper nanos process input = Ok c"
  shows "length c = ROOM_CODE_LEN \<and> list_all code_char c"
proof (cases input)
  case None
  with assms(2) random_code_ok [of ROOM_CODE_LEN "nanos XOR push_bit 32 (ucast process)"] show ?thesis
    by (auto simp: room_code_def)
next
  case (Some s)
  with assms show ?thesis
    by (auto simp: room_code_def Let_def upper_ok_def code_char_def list_all_iff split: if_splits)
qed

text \<open>The room code a host shows is the code its guests present. Whether it was given or made up, it has six
  letters A to Z or digits; typed in any mixture of upper and lower case, at any time and on any machine, it is
  accepted and is the same code.\<close>

theorem typed_code_is_hosts_code:
  assumes "upper_ok upper" and "upper_ok upper'" and "room_code upper nanos process input = Ok c" and "map ascii_upper typed = c"
  shows "length c = ROOM_CODE_LEN \<and> list_all code_char c \<and> room_code upper' nanos' process' (Some typed) = Ok c"
proof -
  note c = room_code_chars [OF assms(1,3)]
  with code_char_typed [OF assms(4)] assms(2,4) have "upper' typed = c" by (simp add: upper_ok_def)
  with c show ?thesis by (auto simp: room_code_def list_all_iff code_char_def)
qed

lemma ascii_upper_ok: "upper_ok (map ascii_upper)"
  by (auto simp: upper_ok_def ascii_upper_def word_le_nat_alt unat_sub split: if_splits)

lemma typed_code_is_hosts_code_witness:
  "\<exists>c. room_code (map ascii_upper) 77 5 (Some [98, 108, 85, 69, 115, 49]) = Ok c \<and> c = [66, 76, 85, 69, 83, 49]
     \<and> room_code (map ascii_upper) 99 6 (Some [66, 108, 117, 101, 115, 49]) = Ok c"
proof -
  have c: "room_code (map ascii_upper) 77 5 (Some [98, 108, 85, 69, 115, 49]) = Ok [66, 76, 85, 69, 83, 49]"
    by (simp add: room_code_def ascii_upper_def is_ascii_alphanumeric_def ROOM_CODE_LEN_def)
  have "map ascii_upper [66, 108, 117, 101, 115, 49] = [66, 76, 85, 69, 83, 49]" by (simp add: ascii_upper_def)
  from typed_code_is_hosts_code [OF ascii_upper_ok ascii_upper_ok c this] c show ?thesis by blast
qed

lemma ping_datagram_eq:
  "ping_datagram i t1 = Some (enc_header \<lparr>ptype = PT_Ping, session_id = 0, sender_id = UNJOINED_SENDER_ID, hseq = of_nat i\<rparr>
     @ enc_body (Ping t1))"
proof -
  have "length (enc_body (Ping t1)) = 8" by simp
  then show ?thesis by (simp add: ping_datagram_def control_write_eq copy_at_fits del: enc_body.simps)
qed

text \<open>What \<open>ping\<close> counts. When a host answers a probe, the answer is read back and counted as the time from the
  clock reading it carries to its arrival, less the time the host held it: for the probe at hand that is the
  time spent on the network. But the answer is not matched with the probe: one that arrives late, for a
  probe sent at \<open>t0\<close>, is counted for a later one with the wait in between.\<close>

theorem ping_counts_reply:
  assumes "ping_datagram i t0 = Some d" and "rx_datagram rate frame t2 t3 src d (RxHost sh, rs) = (rs', out)"
  shows "rs' = (RxHost sh, rs) \<and> (\<exists>reply. out = [Sent src reply]
    \<and> ping_reply addr (Some (reply, addr)) t4 = Ok (Some (saturating_sub (saturating_sub t4 t0) (saturating_sub t3 t2))))"
proof -
  let ?h = "\<lparr>ptype = PT_Ping, session_id = 0, sender_id = UNJOINED_SENDER_ID, hseq = of_nat i\<rparr>"
  have d: "d = enc_header ?h @ enc_body (Ping t0)"
    using assms(1) by (simp only: ping_datagram_eq option.inject)
  have "parse_datagram d = Ok (?h, PControl (Ping t0))" by (simp add: d parse_datagram_control)
  moreover have "take MAX_DATAGRAM d = d" by (simp add: d MAX_DATAGRAM_def enc_header_def)
  ultimately have "(rs', out) = ((RxHost sh, rs), rx_ping (RxHost sh) t2 t3 src ?h t0)"
    using assms(2) by (simp add: rx_datagram_def)
  with rx_ping_sends [of "RxHost sh" t2 t3 src ?h t0] show ?thesis by (auto simp: ping_reply_def)
qed

lemma ping_counts_reply_witness:
  "\<exists>d rs' out reply. ping_datagram 3 1000 = Some d
    \<and> rx_datagram 48000 120 50 60 (V4 9 9) d (RxHost (host_shared_new 7), rx_init) = (rs', out) \<and> out = [Sent (V4 9 9) reply]
    \<and> ping_reply (V4 1 1) (Some (reply, V4 1 1)) 3510 = Ok (Some 2500)"
proof -
  obtain d where d: "ping_datagram 3 1000 = Some d"
    using ping_datagram_eq by blast
  obtain rs' out where r: "rx_datagram 48000 120 50 60 (V4 9 9) d (RxHost (host_shared_new 7), rx_init) = (rs', out)" by fastforce
  from ping_counts_reply [OF d r, of "V4 1 1" 3510] d r show ?thesis by (auto simp: saturating_sub_def)
qed

end
