(* ===== verification/Latency_Measure.thy ===== *)
theory Latency_Measure
  imports App_Cli
begin

text \<open>
  The two latency measurements of \<open>crates/jam-app/src/measure.rs\<close>: clicks sent through a host that echoes them, timed in
  frames, and clicks played out of the sound card and timed when they come back through a cable; and the command that
  chooses between them.
\<close>

section \<open>Through the network\<close>

definition CLICK_INTERVAL_FRAMES :: nat where "CLICK_INTERVAL_FRAMES = 200"
definition CLICKS :: nat where "CLICKS = 8"

definition clicks_at :: "nat \<Rightarrow> bool" where
  "clicks_at i \<longleftrightarrow> i mod CLICK_INTERVAL_FRAMES = 10 \<and> i div CLICK_INTERVAL_FRAMES < CLICKS"

definition measure_input :: "nat \<Rightarrow> nat \<Rightarrow> real list" where
  "measure_input frame i =
     (if clicks_at i then map (\<lambda>k. if even k then 9 / 10 else - (9 / 10)) [0..<frame] else replicate frame 0)"

definition peak_of :: "real list \<Rightarrow> real" where
  "peak_of out = foldl (\<lambda>a x. max a \<bar>x\<bar>) 0 out"

text \<open>\<open>process\<close> is the pipeline: it takes a frame and gives one back, or panics.\<close>

fun measure_frames :: "(real list \<Rightarrow> 'p \<Rightarrow> ('p \<times> real list) option) \<Rightarrow> nat \<Rightarrow> real \<Rightarrow> nat \<Rightarrow> nat \<Rightarrow> 'p \<times> nat option \<times> real list
    \<Rightarrow> ('p \<times> nat option \<times> real list) option" where
  "measure_frames process frame frame_time 0 i s = Some s"
| "measure_frames process frame frame_time (Suc n) i (p, last_click, results) =
     (let last_click = (if clicks_at i then Some i else last_click) in
      Option.bind (process (measure_input frame i) p) (\<lambda>(p, out).
      measure_frames process frame frame_time n (Suc i)
        (case last_click of
           None \<Rightarrow> (p, None, results)
         | Some c \<Rightarrow>
             if peak_of out > 1 / 4 then (p, None, results @ [real (i - c) * frame_time]) else (p, Some c, results))))"

definition measure_clicks :: "(real list \<Rightarrow> 'p \<Rightarrow> ('p \<times> real list) option) \<Rightarrow> nat \<Rightarrow> 'p \<Rightarrow> real list option" where
  "measure_clicks process frame p =
     map_option (\<lambda>(_, _, results). results)
       (measure_frames process frame (real frame * 1000 / 48000) (CLICK_INTERVAL_FRAMES * (CLICKS + 1)) 0 (p, None, []))"

text \<open>One frame of the client's pipeline; what it emits goes to the transmit ring. \<open>others\<close> is what the other threads do to the
  shared state before it.\<close>

definition measure_process :: "('e, 'd) media_lib \<Rightarrow> (tx_item, 'q) ring_lib \<Rightarrow> (nat \<Rightarrow> client_shared \<Rightarrow> client_shared) \<Rightarrow> real list
    \<Rightarrow> nat \<times> ('e, 'd) client_pipeline \<times> client_shared \<times> 'q
    \<Rightarrow> ((nat \<times> ('e, 'd) client_pipeline \<times> client_shared \<times> 'q) \<times> real list) option" where
  "measure_process lib Q others input s =
     (case s of (k, cp, sh, q) \<Rightarrow>
        Option.bind (client_process_frame lib input cp (others k sh)) (\<lambda>(cp, sh, out, emitted).
        Option.bind (for_each (tx_enqueue Q) emitted q) (\<lambda>q.
        Some ((Suc k, cp, sh, q), out))))"

datatype measure_error = MeasureCli cli_error | MeasureStart engine_error | NotJoined | ChooseMode | StreamRefused

text \<open>\<open>joins\<close> is whether the handshake completes within six seconds. The session is shut down in either case.\<close>

definition net_measure :: "('e, 'd) media_lib \<Rightarrow> (tx_item, 'q) ring_lib \<Rightarrow> os_net \<Rightarrow> (nat \<Rightarrow> client_shared \<Rightarrow> client_shared) \<Rightarrow> bool
    \<Rightarrow> socket_addr \<Rightarrow> u8 list \<Rightarrow> engine_params \<Rightarrow> (measure_error, real list) outcome \<times> client_ctl fate" where
  "net_measure lib Q w others joins addr code params =
     (let p = params\<lparr>monitor := MonitorOff\<rparr>;
          cfg = \<lparr>cf_host_addr = addr, cf_room_code = code, cf_name = [109, 101, 97, 115, 117, 114, 101], cf_params = p,
                 cf_audio = \<lparr>ac_input_name = None, ac_output_name = None, ac_hw_buffer = 0\<rparr>\<rparr>
      in (case start_client_headless lib Q w cfg of
            (Ok (_, cp, q, sh), left) \<Rightarrow>
              if \<not> joins then (Err NotJoined, fate_of True left)
              else (case measure_clicks (measure_process lib Q others) (ep_frame_samples p) (0, cp, sh, q) of
                  None \<Rightarrow> (Panic, fate_of False left)
                | Some results \<Rightarrow> (Ok results, fate_of True left))
          | (Err e, left) \<Rightarrow> (Err (MeasureStart e), fate_of False left)
          | (Panic, left) \<Rightarrow> (Panic, fate_of False left)))"

text \<open>Minimum, median and maximum; \<open>None\<close> is printed as no clicks detected.\<close>

definition print_result :: "real list \<Rightarrow> (real \<times> real \<times> real) option" where
  "print_result samples =
     (if samples = [] then None
      else let sorted = sort samples
           in Some (sorted ! 0, sorted ! (length sorted div 2), sorted ! (length sorted - 1)))"

section \<open>Through a cable\<close>

record loopback =
  lb_click_time :: u64
  lb_armed :: bool
  lb_results :: "real list"
  lb_sample_count :: u64


text \<open>A click every 24000 samples: 32 samples of alternating sign.\<close>

definition click_sample :: "u64 \<Rightarrow> real option" where
  "click_sample pos = (if pos < 32 then Some (if even pos then 9 / 10 else - (9 / 10)) else None)"

text \<open>One block of the output stream: silence, then the clicks frame by frame. \<open>now i\<close> is the clock when frame \<open>i\<close> is
  written; a click that begins sets the time and arms the input.\<close>

fun click_frames :: "nat \<Rightarrow> (real \<Rightarrow> 't) \<Rightarrow> (nat \<Rightarrow> u64) \<Rightarrow> nat \<Rightarrow> 't list list \<Rightarrow> loopback \<Rightarrow> 't list list \<times> loopback" where
  "click_frames channels to_sample now i [] s = ([], s)"
| "click_frames channels to_sample now i (fr # frs) s =
     (let pos = (lb_sample_count s + of_nat i) mod 24000;
          fr' = (case click_sample pos of Some v \<Rightarrow> map (\<lambda>_. to_sample v) fr | None \<Rightarrow> fr);
          s' = (if pos = 0 then s\<lparr>lb_click_time := now i, lb_armed := True\<rparr> else s)
      in case click_frames channels to_sample now (Suc i) frs s' of (frs', s'') \<Rightarrow> (fr' # frs', s''))"

definition click_output :: "nat \<Rightarrow> (real \<Rightarrow> 't) \<Rightarrow> (nat \<Rightarrow> u64) \<Rightarrow> nat \<Rightarrow> loopback \<Rightarrow> ('t list \<times> loopback) option" where
  "click_output channels to_sample now len s =
     (if channels = 0 then None
      else
        let data = replicate len (to_sample 0) in
        (case click_frames channels to_sample now 0 (chunks_exact channels data) s of
           (frs, s) \<Rightarrow>
             Some (concat frs @ drop (len div channels * channels) data,
                   s\<lparr>lb_sample_count := lb_sample_count s + of_nat (len div channels)\<rparr>)))"

text \<open>One block of the input stream. \<open>now\<close> is the clock when the first loud frame is seen.\<close>

definition click_input :: "nat \<Rightarrow> ('t \<Rightarrow> real) \<Rightarrow> u64 \<Rightarrow> 't list \<Rightarrow> loopback \<Rightarrow> loopback option" where
  "click_input channels from_sample now data s =
     (if \<not> lb_armed s then Some s
      else if channels = 0 then None
      else if list_ex (\<lambda>fr. 3 / 10 < \<bar>from_sample (fr ! 0)\<bar>) (chunks_exact channels data)
      then
        let delta_ms = real (unat (saturating_sub now (lb_click_time s))) / 1000
        in Some (s\<lparr>lb_results := (if delta_ms < 400 then lb_results s @ [delta_ms] else lb_results s), lb_armed := False\<rparr>)
      else Some s)"

datatype 't lb_event = PlayBlock nat "nat \<Rightarrow> u64" | HearBlock "'t list" u64

fun loopback_run :: "nat \<Rightarrow> nat \<Rightarrow> (real \<Rightarrow> 't) \<Rightarrow> ('t \<Rightarrow> real) \<Rightarrow> 't lb_event list \<Rightarrow> loopback \<Rightarrow> loopback option" where
  "loopback_run co ci to_sample from_sample [] s = Some s"
| "loopback_run co ci to_sample from_sample (PlayBlock len now # es) s =
     Option.bind (click_output co to_sample now len s) (\<lambda>(_, s). loopback_run co ci to_sample from_sample es s)"
| "loopback_run co ci to_sample from_sample (HearBlock data now # es) s =
     Option.bind (click_input ci from_sample now data s) (\<lambda>s. loopback_run co ci to_sample from_sample es s)"

definition loopback_init :: loopback where
  "loopback_init = \<lparr>lb_click_time = 0, lb_armed = False, lb_results = [], lb_sample_count = 0\<rparr>"

text \<open>The streams are opened, built and started as for a session; then the callbacks run for four and a half seconds.\<close>

definition loopback_measure :: "os_audio \<Rightarrow> rust_string option \<Rightarrow> rust_string option \<Rightarrow> u32 \<Rightarrow> (real \<Rightarrow> 't) \<Rightarrow> ('t \<Rightarrow> real)
    \<Rightarrow> 't lb_event list \<Rightarrow> (measure_error, real list) outcome" where
  "loopback_measure w input_name output_name buffer to_sample from_sample es =
     obind (map_err (MeasureStart \<circ> DeviceError) (open_input (oa_lower w) (oa_host w) input_name buffer)) (\<lambda>inp.
     obind (map_err (MeasureStart \<circ> DeviceError) (open_output (oa_lower w) (oa_host w) output_name buffer)) (\<lambda>out.
     obind (map_err (\<lambda>_. StreamRefused) (per_format (ng_format out) (oa_build w False))) (\<lambda>_.
     obind (map_err (\<lambda>_. StreamRefused) (per_format (ng_format inp) (oa_build w True))) (\<lambda>_.
     if \<not> oa_play w True \<or> \<not> oa_play w False then Err StreamRefused
     else (case loopback_run (unat (ng_channels out)) (unat (ng_channels inp)) to_sample from_sample es loopback_init of
         None \<Rightarrow> Panic
       | Some s \<Rightarrow> Ok (lb_results s))))))"

section \<open>The command\<close>

record measure_args =
  ma_loopback :: bool
  ma_host :: "rust_string option"
  ma_code :: "rust_string option"
  ma_audio :: audio_args

definition run_measure :: "('e, 'd) media_lib \<Rightarrow> (tx_item, 'q) ring_lib \<Rightarrow> command_world \<Rightarrow> (nat \<Rightarrow> client_shared \<Rightarrow> client_shared) \<Rightarrow> bool
    \<Rightarrow> (real \<Rightarrow> 't) \<Rightarrow> ('t \<Rightarrow> real) \<Rightarrow> 't lb_event list \<Rightarrow> measure_args \<Rightarrow> (measure_error, (real \<times> real \<times> real) option) outcome" where
  "run_measure lib Q w others joins to_sample from_sample es args =
     (case ma_host args of
        Some host \<Rightarrow>
          obind (map_err MeasureCli (resolve (cw_lookup w) host)) (\<lambda>addr.
          obind (map_err MeasureCli (room_code (cw_upper w) (cw_nanos w) (cw_process w) (ma_code args))) (\<lambda>code.
          obind (map_err MeasureCli (args_params (ma_audio args) False)) (\<lambda>p.
          obind (fst (net_measure lib Q (cw_net w) others joins addr code p)) (\<lambda>samples.
          Ok (print_result samples)))))
      | None \<Rightarrow>
          if ma_loopback args then
            obind (loopback_measure (cw_audio w) (aa_input (ma_audio args)) (aa_output (ma_audio args)) (aa_buffer (ma_audio args))
                to_sample from_sample es) (\<lambda>samples. Ok (print_result samples))
          else Err ChooseMode)"

section \<open>What the network measurement reads\<close>

text \<open>The loop without the sound: which frames are loud decides what it counts.\<close>

fun track :: "(nat \<Rightarrow> bool) \<Rightarrow> nat \<Rightarrow> nat \<Rightarrow> nat option \<times> nat list \<Rightarrow> nat option \<times> nat list" where
  "track loud 0 i s = s"
| "track loud (Suc n) i (lc, rs) =
     track loud n (Suc i)
       (case (if clicks_at i then Some i else lc) of
          None \<Rightarrow> (None, rs)
        | Some c \<Rightarrow> if loud i then (None, rs @ [i - c]) else (Some c, rs))"

lemma measure_frames_track:
  assumes "\<And>j. j < i + n \<Longrightarrow> process (measure_input frame j) (st j) = Some (st (Suc j), out j)"
  shows "measure_frames process frame f n i (st i, lc, map (\<lambda>d. real d * f) rs)
    = (case track (\<lambda>j. peak_of (out j) > 1 / 4) n i (lc, rs) of (lc', rs') \<Rightarrow> Some (st (i + n), lc', map (\<lambda>d. real d * f) rs'))"
  using assms
proof (induction n arbitrary: i lc rs)
  case (Suc n)
  have step: "process (measure_input frame i) (st i) = Some (st (Suc i), out i)" using Suc.prems by simp
  have trace: "\<And>j. j < Suc i + n \<Longrightarrow> process (measure_input frame j) (st j) = Some (st (Suc j), out j)" using Suc.prems by simp
  show ?case
  proof (cases "if clicks_at i then Some i else lc")
    case None
    then show ?thesis using Suc.IH [OF trace, where lc = None and rs = rs] by (simp add: step Let_def split: if_splits)
  next
    case (Some c)
    then show ?thesis
      using Suc.IH [OF trace, where lc = None and rs = "rs @ [i - c]"] Suc.IH [OF trace, where lc = "Some c" and rs = rs] by (simp add: step Let_def)
  qed
qed simp

lemma track_append: "track loud (m + n) i s = track loud n (i + m) (track loud m i s)"
proof (induction m arbitrary: i s)
  case (Suc m)
  obtain lc rs where s: "s = (lc, rs)" by fastforce
  show ?case by (simp add: s Suc.IH del: split_paired_All)
qed simp

lemma track_quiet: "\<lbrakk>\<And>j. \<lbrakk>i \<le> j; j < i + n\<rbrakk> \<Longrightarrow> \<not> clicks_at j \<and> (\<not> loud j \<or> lc = None)\<rbrakk> \<Longrightarrow> track loud n i (lc, rs) = (lc, rs)"
proof (induction n arbitrary: i)
  case (Suc n)
  have "\<not> clicks_at i \<and> (\<not> loud i \<or> lc = None)" using Suc.prems [of i] by simp
  with Suc.IH [of "Suc i"] Suc.prems show ?case by (cases lc) auto
qed simp

definition window :: "nat \<Rightarrow> nat" where "window k = 200 * k + 10"

lemma clicks_in_window: "j < 200 \<Longrightarrow> clicks_at (window k + j) \<longleftrightarrow> j = 0 \<and> k < 8"
proof -
  assume j: "j < 200"
  have "(200 * k + (10 + j)) mod 200 = (10 + j) mod 200" by (rule mod_mult_self4)
  also have "\<dots> = (if j < 190 then 10 + j else j - 190)" using j by (simp add: mod_if [of "10 + j"])
  finally have "(200 * k + 10 + j) mod 200 = 10 \<longleftrightarrow> j = 0" using j by (simp add: add.assoc split: if_splits)
  moreover have "j = 0 \<Longrightarrow> (200 * k + 10 + j) div 200 = k" by simp
  ultimately show ?thesis by (auto simp: clicks_at_def CLICK_INTERVAL_FRAMES_def CLICKS_def window_def)
qed

lemma window_inj: "\<lbrakk>window k + j = window k' + j'; j < 200; j' < 200\<rbrakk> \<Longrightarrow> j = j'"
proof -
  assume eq: "window k + j = window k' + j'" and lt: "j < 200" "j' < 200"
  from eq have "200 * k + j = 200 * k' + j'" by (simp add: window_def)
  then have "(200 * k + j) mod 200 = (200 * k' + j') mod 200" by simp
  with lt show "j = j'" by (simp only: mod_mult_self4 mod_less)
qed

lemma clicks_at_iff: "clicks_at i \<longleftrightarrow> (\<exists>k < 8. i = 200 * k + 10)"
proof
  assume "clicks_at i"
  then have "i mod 200 = 10" "i div 200 < 8" by (simp_all add: clicks_at_def CLICK_INTERVAL_FRAMES_def CLICKS_def)
  moreover have "i = 200 * (i div 200) + i mod 200" by simp
  ultimately show "\<exists>k < 8. i = 200 * k + 10" by metis
next
  assume "\<exists>k < 8. i = 200 * k + 10"
  then show "clicks_at i" using clicks_in_window [of 0] by (auto simp: window_def)
qed

text \<open>A window of 200 frames from a click on: the echo \<open>e\<close> frames later is counted, whatever came before.\<close>

lemma track_window:
  assumes "k < 8" and "\<And>j. j < 200 \<Longrightarrow> loud (window k + j) \<longleftrightarrow> j = e" and "e < 200"
  shows "track loud 200 (window k) (lc, rs) = (None, rs @ [e])"
proof -
  have click: "clicks_at (window k)" using clicks_in_window [of 0 k] assms(1) by simp
  have quiet: "\<not> clicks_at j" if "window k < j" "j < window k + 200" for j
    using clicks_in_window [of "j - window k" k] that by simp
  have heard: "loud j \<longleftrightarrow> j = window k + e" if "window k \<le> j" "j < window k + 200" for j
    using assms(2) [of "j - window k"] that by auto
  show ?thesis
  proof (cases e)
    case 0
    have "track loud (1 + 199) (window k) (lc, rs) = track loud 199 (window k + 1) (None, rs @ [0])"
      unfolding track_append using click heard [of "window k"] 0 by simp
    also have "\<dots> = (None, rs @ [0])" by (rule track_quiet) (use quiet in auto)
    finally show ?thesis using 0 by simp
  next
    case (Suc m)
    have first: "track loud 1 (window k) (lc, rs) = (Some (window k), rs)"
      using click heard [of "window k"] Suc by simp
    have wait: "track loud m (window k + 1) (Some (window k), rs) = (Some (window k), rs)"
      by (rule track_quiet) (use quiet heard assms(3) Suc in auto)
    have hit: "track loud 1 (window k + 1 + m) (Some (window k), rs) = (None, rs @ [e])"
      using quiet [of "window k + e"] heard [of "window k + e"] assms(3) Suc by simp
    have rest: "track loud (199 - e) (window k + 1 + m + 1) (None, rs @ [e]) = (None, rs @ [e])"
      by (rule track_quiet) (use quiet assms(3) Suc in auto)
    have n: "1 + (m + (1 + (199 - e))) = 200" using assms(3) Suc by simp
    have "track loud (1 + (m + (1 + (199 - e)))) (window k) (lc, rs) = (None, rs @ [e])"
      by (simp only: track_append first wait hit rest)
    then show ?thesis by (simp only: n)
  qed
qed

lemma track_windows:
  assumes "a + m \<le> 8" and "\<And>k j. \<lbrakk>a \<le> k; k < 8; j < 200\<rbrakk> \<Longrightarrow> loud (window k + j) \<longleftrightarrow> j = e" and "e < 200" and "0 < m"
  shows "track loud (200 * m) (window a) (lc, rs) = (None, rs @ replicate m e)"
  using assms(1,4)
proof (induction m)
  case (Suc m)
  have next_window: "window a + 200 * m = window (a + m)" by (simp add: window_def)
  have one: "track loud 200 (window (a + m)) (lc', rs') = (None, rs' @ [e])" for lc' rs'
    by (rule track_window) (use Suc.prems assms(2,3) in auto)
  show ?case
  proof (cases "m = 0")
    case True
    then show ?thesis using one [of lc rs] by simp
  next
    case False
    then have "track loud (200 * m) (window a) (lc, rs) = (None, rs @ replicate m e)" using Suc by simp
    with track_append [of loud "200 * m" 200 "window a" "(lc, rs)"] one [of None "rs @ replicate m e"] show ?thesis
      by (simp add: next_window replicate_append_same add.commute)
  qed
qed simp

text \<open>A window without a loud frame leaves its click to be counted later.\<close>

lemma track_deaf_window:
  assumes "k < 8" and "\<And>j. j < 200 \<Longrightarrow> \<not> loud (window k + j)"
  shows "track loud 200 (window k) (lc, rs) = (Some (window k), rs)"
proof -
  have deaf: "\<not> loud i" if "window k \<le> i" "i < window k + 200" for i
    using assms(2) [of "i - window k"] that by simp
  have "track loud 1 (window k) (lc, rs) = (Some (window k), rs)"
    using clicks_in_window [of 0 k] deaf [of "window k"] assms(1) by simp
  moreover have "track loud 199 (window k + 1) (Some (window k), rs) = (Some (window k), rs)"
  proof (rule track_quiet)
    fix i
    assume "window k + 1 \<le> i" "i < window k + 1 + 199"
    then show "\<not> clicks_at i \<and> (\<not> loud i \<or> Some (window k) = None)"
      using deaf [of i] clicks_in_window [of "i - window k" k] by simp
  qed
  ultimately show ?thesis using track_append [of loud 1 199 "window k" "(lc, rs)"] by simp
qed

text \<open>Before the first click and after the last nothing is counted.\<close>

lemma track_frame:
  "\<lbrakk>track loud 1600 (window 0) (None, []) = (None, rs)\<rbrakk> \<Longrightarrow> track loud 1800 0 (None, []) = (None, rs)"
proof -
  assume windows: "track loud 1600 (window 0) (None, []) = (None, rs)"
  have before: "track loud 10 0 (None, []) = (None, [])"
    by (rule track_quiet) (auto simp: clicks_at_def CLICK_INTERVAL_FRAMES_def)
  have late: "\<not> clicks_at j" if "window 8 \<le> j" "j < window 8 + 190" for j
    using clicks_in_window [of "j - window 8" 8] that by simp
  have "track loud 190 (window 8) (None, rs) = (None, rs)"
    by (rule track_quiet) (use late in auto)
  moreover have "window 0 = 0 + 10" "window 0 + 1600 = window 8" by (simp_all add: window_def)
  ultimately show ?thesis
    using track_append [of loud 10 1790 0 "(None, [])"] track_append [of loud 1600 190 "window 0" "(None, [])"] before windows
    by (simp add: numeral_eq_Suc del: track.simps)
qed

lemma track_all:
  assumes "\<And>i. i < 1800 \<Longrightarrow> loud i \<longleftrightarrow> (\<exists>k < 8. i = window k + d)" and "d < 400"
  shows "snd (track loud 1800 0 (None, [])) = (if d < 200 then replicate 8 d else replicate 7 (d - 200))"
proof -
  have heard: "loud (window k + j) \<longleftrightarrow> window k + j \<in> (\<lambda>k. window k + d) ` {..<8}" if "k < 8" "j < 200" for k j
    using assms(1) [of "window k + j"] that by (auto simp: window_def image_iff)
  show ?thesis
  proof (cases "d < 200")
    case True
    have "loud (window k + j) \<longleftrightarrow> j = d" if "k < 8" "j < 200" for k j
      using heard [OF that] that True window_inj [of k j _ d] by blast
    from track_windows [of 0 8 loud d None "[]", OF _ this True] have "track loud 1600 (window 0) (None, []) = (None, replicate 8 d)"
      by simp
    with True show ?thesis by (simp only: track_frame snd_conv if_True)
  next
    case False
    have "\<not> loud (window 0 + j)" if "j < 200" for j
      using heard [of 0 j] that False by (auto simp: window_def)
    then have one: "track loud 200 (window 0) (None, []) = (Some (window 0), [])" by (intro track_deaf_window) simp_all
    have "loud (window k + j) \<longleftrightarrow> j = d - 200" if "1 \<le> k" "k < 8" "j < 200" for k j
    proof
      assume "loud (window k + j)"
      with heard that obtain k' where "window k + j = window k' + d" by blast
      moreover have "window k' + d = window (Suc k') + (d - 200)" using False by (simp add: window_def)
      ultimately show "j = d - 200" using window_inj [of k j "Suc k'" "d - 200"] that assms(2) by simp
    next
      assume "j = d - 200"
      with that False have "window k + j = window (k - 1) + d" "k - 1 < 8" by (simp_all add: window_def diff_mult_distrib2)
      with heard [OF that(2,3)] show "loud (window k + j)" by blast
    qed
    from track_windows [of 1 7 loud "d - 200" "Some (window 0)" "[]", OF _ this] assms(2)
    have "track loud 1400 (window 1) (Some (window 0), []) = (None, replicate 7 (d - 200))" by simp
    moreover have "window 0 + 200 = window 1" by (simp add: window_def)
    ultimately have "track loud 1600 (window 0) (None, []) = (None, replicate 7 (d - 200))"
      using one track_append [of loud 200 1400 "window 0" "(None, [])"] by simp
    with False show ?thesis by (simp only: track_frame snd_conv if_False)
  qed
qed

text \<open>C35: the network measurement reads the delay of the echo, as long as it is below the distance of two clicks. When the
  pipeline gives each click back \<open>d\<close> frames after it went in, and nothing else as loud, the eight results are
  each \<open>d\<close> frames. An echo that comes after the next click, though, is taken for that click's: with \<open>d\<close> from 200 to
  399 seven results are read, each 200 frames short.\<close>

theorem measure_reads_delay:
  assumes "\<And>i. i < 1800 \<Longrightarrow> process (measure_input frame i) (st i) = Some (st (Suc i), out i)"
    and "\<And>i. i < 1800 \<Longrightarrow> peak_of (out i) > 1 / 4 \<longleftrightarrow> (\<exists>k < 8. i = 200 * k + 10 + d)" and "d < 400"
  shows "measure_clicks process frame (st 0)
    = Some (if d < 200 then replicate 8 (real d * (real frame * 1000 / 48000))
            else replicate 7 (real (d - 200) * (real frame * 1000 / 48000)))"
proof -
  let ?loud = "\<lambda>j. peak_of (out j) > 1 / 4" and ?f = "real frame * 1000 / 48000"
  have "measure_frames process frame ?f 1800 0 (st 0, None, map (\<lambda>d. real d * ?f) [])
      = (case track ?loud 1800 0 (None, []) of (lc, rs) \<Rightarrow> Some (st (0 + 1800), lc, map (\<lambda>d. real d * ?f) rs))"
    by (rule measure_frames_track) (use assms(1) in simp)
  moreover have "snd (track ?loud 1800 0 (None, [])) = (if d < 200 then replicate 8 d else replicate 7 (d - 200))"
    by (rule track_all) (use assms(2,3) in \<open>simp_all add: window_def\<close>)
  ultimately show ?thesis
    by (simp add: measure_clicks_def CLICK_INTERVAL_FRAMES_def CLICKS_def case_prod_unfold del: measure_frames.simps track.simps)
qed

text \<open>For the example: a line that gives each input back three frames later.\<close>

lemma measure_reads_delay_witness:
  "measure_clicks (\<lambda>input n. Some (Suc n, if n < 3 then [0] else measure_input 1 (n - 3))) 1 0 = Some (replicate 8 (real 3 * (real 1 * 1000 / 48000)))"
proof -
  let ?out = "\<lambda>n :: nat. if n < 3 then [0] else measure_input 1 (n - 3)"
  have "peak_of (?out i) > 1 / 4 \<longleftrightarrow> 3 \<le> i \<and> clicks_at (i - 3)" for i
    by (simp add: measure_input_def peak_of_def)
  then have "peak_of (?out i) > 1 / 4 \<longleftrightarrow> (\<exists>k < 8. i = 200 * k + 10 + 3)" for i
    unfolding clicks_at_iff by auto
  from measure_reads_delay [where process = "\<lambda>input n. Some (Suc n, ?out n)" and st = "\<lambda>n. n" and out = ?out and d = 3 and frame = 1, OF _ this]
  show ?thesis by simp
qed

end
