(* ===== verification/Slot_Race.thy ===== *)
theory Slot_Race
  imports Jitter_Buffer
begin

text \<open>
  One slot of the jitter buffer as the two threads really use it (\<open>crates/jam-audio/src/jitter.rs\<close>):
  every atomic load and store of \<open>push\<close>, \<open>take\<close>, \<open>skip_next\<close> and \<open>reset\<close> on the slot is a step of its own, and
  the steps of the receive thread and of the audio callback interleave in any order, with the stores of a
  \<open>reset\<close> by the control thread anywhere between them. \<open>i\<close> is the
  index of the slot. Memory is sequentially consistent: the fences and orderings of the code, which
  enforce this order on the accesses of one thread, are not modelled further.
\<close>

section \<open>Steps\<close>

type_synonym packet = "u16 \<times> u32 \<times> u8 list"

text \<open>Where the writer is in \<open>push\<close>, after the tests on the read position; \<open>W_Byte p k\<close> is about to
  store byte \<open>k\<close>.\<close>

datatype writer_at = W_Idle | W_Dup packet | W_Claim packet | W_Seq packet | W_Ts packet | W_Len packet | W_Byte packet nat

text \<open>Where the reader is in \<open>take(expect, out)\<close>, with what it has loaded so far, or in \<open>skip_next\<close>.\<close>

datatype reader_at =
    R_Idle
  | R_Seq u16
  | R_Len u16
  | R_Ts u16 nat
  | R_Copy u16 nat u32 "u8 list"
  | R_Recheck u16 u32 "u8 list"
  | R_Free u16 u32 "u8 list"
  | S_Seq u16
  | S_Free

text \<open>The slot, the two threads, and for the statements: the packets whose writing has begun, newest
  first; those before the take that runs; whether during it the writing of a packet of its own number
  has begun; and the frames returned, each with that mark.\<close>

record race =
  r_slot :: jslot
  r_writer :: writer_at
  r_reader :: reader_at
  r_pushed :: "packet list"
  r_base :: "packet list"
  r_clash :: bool
  r_frames :: "(bool \<times> packet) list"

definition race_new :: race where
  "race_new = \<lparr>r_slot = jslot_new, r_writer = W_Idle, r_reader = R_Idle, r_pushed = [], r_base = [],
     r_clash = False, r_frames = []\<rparr>"

text \<open>The number a running take expects, until it has looked at the sequence number for the second time.\<close>

fun taking :: "reader_at \<Rightarrow> u16 option" where
  "taking (R_Seq e) = Some e"
| "taking (R_Len e) = Some e"
| "taking (R_Ts e _) = Some e"
| "taking (R_Copy e _ _ _) = Some e"
| "taking (R_Recheck e _ _) = Some e"
| "taking _ = None"

text \<open>\<open>push\<close>, from the load of the slot's state on.\<close>

inductive write_step :: "nat \<Rightarrow> race \<Rightarrow> race \<Rightarrow> bool" for i :: nat where
  load_state: "\<lbrakk>r_writer s = W_Idle; slot_index (fst p) = i; length (snd (snd p)) \<le> MAX_FRAME_BYTES\<rbrakk> \<Longrightarrow>
    write_step i s (s\<lparr>r_writer := (if js_state (r_slot s) = STATE_WRITTEN then W_Dup p else W_Claim p)\<rparr>)"
| load_seq: "r_writer s = W_Dup p \<Longrightarrow>
    write_step i s (s\<lparr>r_writer := (if js_seq (r_slot s) = fst p then W_Idle else W_Claim p)\<rparr>)"
| claim: "r_writer s = W_Claim p \<Longrightarrow>
    write_step i s (s\<lparr>r_slot := (r_slot s)\<lparr>js_state := STATE_WRITING\<rparr>, r_writer := W_Seq p, r_pushed := p # r_pushed s,
      r_clash := (r_clash s \<or> taking (r_reader s) = Some (fst p))\<rparr>)"
| store_seq: "r_writer s = W_Seq p \<Longrightarrow>
    write_step i s (s\<lparr>r_slot := (r_slot s)\<lparr>js_seq := fst p\<rparr>, r_writer := W_Ts p\<rparr>)"
| store_ts: "r_writer s = W_Ts p \<Longrightarrow>
    write_step i s (s\<lparr>r_slot := (r_slot s)\<lparr>js_timestamp := fst (snd p)\<rparr>, r_writer := W_Len p\<rparr>)"
| store_len: "r_writer s = W_Len p \<Longrightarrow>
    write_step i s (s\<lparr>r_slot := (r_slot s)\<lparr>js_len := of_nat (length (snd (snd p)))\<rparr>, r_writer := W_Byte p 0\<rparr>)"
| store_byte: "\<lbrakk>r_writer s = W_Byte p k; k < length (snd (snd p))\<rbrakk> \<Longrightarrow>
    write_step i s (s\<lparr>r_slot := (r_slot s)\<lparr>js_payload := (js_payload (r_slot s))[k := snd (snd p) ! k]\<rparr>,
      r_writer := W_Byte p (Suc k)\<rparr>)"
| publish: "\<lbrakk>r_writer s = W_Byte p k; k = length (snd (snd p))\<rbrakk> \<Longrightarrow>
    write_step i s (s\<lparr>r_slot := (r_slot s)\<lparr>js_state := STATE_WRITTEN\<rparr>, r_writer := W_Idle\<rparr>)"

text \<open>\<open>take\<close>; going back to \<open>R_Idle\<close> without a frame is \<open>Missing\<close>.\<close>

inductive take_step :: "nat \<Rightarrow> race \<Rightarrow> race \<Rightarrow> bool" for i :: nat where
  look_state: "\<lbrakk>r_reader s = R_Idle; slot_index e = i\<rbrakk> \<Longrightarrow>
    take_step i s (s\<lparr>r_reader := (if js_state (r_slot s) = STATE_WRITTEN then R_Seq e else R_Idle),
      r_base := r_pushed s, r_clash := False\<rparr>)"
| look_seq: "r_reader s = R_Seq e \<Longrightarrow>
    take_step i s (s\<lparr>r_reader := (if js_seq (r_slot s) = e then R_Len e else R_Idle)\<rparr>)"
| load_len: "r_reader s = R_Len e \<Longrightarrow> take_step i s (s\<lparr>r_reader := R_Ts e (unat (js_len (r_slot s)))\<rparr>)"
| load_ts: "r_reader s = R_Ts e n \<Longrightarrow>
    take_step i s (s\<lparr>r_reader := (if MAX_FRAME_BYTES < n then R_Idle else R_Copy e n (js_timestamp (r_slot s)) [])\<rparr>)"
| load_byte: "\<lbrakk>r_reader s = R_Copy e n ts bs; length bs < n\<rbrakk> \<Longrightarrow>
    take_step i s (s\<lparr>r_reader := R_Copy e n ts (bs @ [js_payload (r_slot s) ! length bs])\<rparr>)"
| recheck_state: "\<lbrakk>r_reader s = R_Copy e n ts bs; length bs = n\<rbrakk> \<Longrightarrow>
    take_step i s (s\<lparr>r_reader := (if js_state (r_slot s) = STATE_WRITTEN then R_Recheck e ts bs else R_Idle)\<rparr>)"
| recheck_seq: "r_reader s = R_Recheck e ts bs \<Longrightarrow>
    take_step i s (s\<lparr>r_reader := (if js_seq (r_slot s) = e then R_Free e ts bs else R_Idle)\<rparr>)"
| free: "r_reader s = R_Free e ts bs \<Longrightarrow>
    take_step i s (s\<lparr>r_slot := (r_slot s)\<lparr>js_state := STATE_EMPTY\<rparr>, r_reader := R_Idle,
      r_frames := (r_clash s, e, ts, bs) # r_frames s\<rparr>)"

text \<open>\<open>skip_next\<close>, and what \<open>reset\<close> does to the slot. The audio callback resets between two reads, the
  control thread at any time, also while a read or a write is under way.\<close>

inductive skip_step :: "nat \<Rightarrow> race \<Rightarrow> race \<Rightarrow> bool" for i :: nat where
  skip_state: "\<lbrakk>r_reader s = R_Idle; slot_index e = i\<rbrakk> \<Longrightarrow>
    skip_step i s (s\<lparr>r_reader := (if js_state (r_slot s) = STATE_WRITTEN then S_Seq e else R_Idle)\<rparr>)"
| skip_seq: "r_reader s = S_Seq e \<Longrightarrow>
    skip_step i s (s\<lparr>r_reader := (if js_seq (r_slot s) = e then S_Free else R_Idle)\<rparr>)"
| skip_free: "r_reader s = S_Free \<Longrightarrow>
    skip_step i s (s\<lparr>r_slot := (r_slot s)\<lparr>js_state := STATE_EMPTY\<rparr>, r_reader := R_Idle\<rparr>)"
| reset_slot: "skip_step i s (s\<lparr>r_slot := (r_slot s)\<lparr>js_state := STATE_EMPTY\<rparr>\<rparr>)"

inductive reaches :: "nat \<Rightarrow> race \<Rightarrow> bool" for i :: nat where
  start: "reaches i race_new"
| writer: "\<lbrakk>reaches i s; write_step i s s'\<rbrakk> \<Longrightarrow> reaches i s'"
| taker: "\<lbrakk>reaches i s; take_step i s s'\<rbrakk> \<Longrightarrow> reaches i s'"
| skipper: "\<lbrakk>reaches i s; skip_step i s s'\<rbrakk> \<Longrightarrow> reaches i s'"

section \<open>The writer's invariant\<close>

text \<open>The slot holds packet \<open>p\<close>, whatever its state.\<close>

definition holds :: "packet \<Rightarrow> jslot \<Rightarrow> bool" where
  "holds p sl \<longleftrightarrow> js_seq sl = fst p \<and> js_timestamp sl = fst (snd p) \<and> js_len sl = of_nat (length (snd (snd p)))
     \<and> take (length (snd (snd p))) (js_payload sl) = snd (snd p)"

text \<open>How far the packet at the head of \<open>ps\<close> is written. Only the writer makes the state \<open>WRITTEN\<close>.\<close>

fun progress :: "writer_at \<Rightarrow> packet list \<Rightarrow> jslot \<Rightarrow> bool" where
  "progress (W_Seq p) ps sl \<longleftrightarrow> js_state sl \<noteq> STATE_WRITTEN \<and> ps \<noteq> [] \<and> hd ps = p
     \<and> (tl ps \<noteq> [] \<longrightarrow> js_seq sl = fst (hd (tl ps)))"
| "progress (W_Ts p) ps sl \<longleftrightarrow> js_state sl \<noteq> STATE_WRITTEN \<and> ps \<noteq> [] \<and> hd ps = p \<and> js_seq sl = fst p"
| "progress (W_Len p) ps sl \<longleftrightarrow> js_state sl \<noteq> STATE_WRITTEN \<and> ps \<noteq> [] \<and> hd ps = p \<and> js_seq sl = fst p
     \<and> js_timestamp sl = fst (snd p)"
| "progress (W_Byte p k) ps sl \<longleftrightarrow> js_state sl \<noteq> STATE_WRITTEN \<and> ps \<noteq> [] \<and> hd ps = p \<and> js_seq sl = fst p
     \<and> js_timestamp sl = fst (snd p) \<and> js_len sl = of_nat (length (snd (snd p))) \<and> k \<le> length (snd (snd p))
     \<and> take k (js_payload sl) = take k (snd (snd p))"
| "progress _ ps sl \<longleftrightarrow> (if ps = [] then js_state sl \<noteq> STATE_WRITTEN else holds (hd ps) sl)"

fun offered :: "writer_at \<Rightarrow> packet list" where
  "offered (W_Dup p) = [p]"
| "offered (W_Claim p) = [p]"
| "offered _ = []"

definition write_ok :: "race \<Rightarrow> bool" where
  "write_ok s \<longleftrightarrow> length (js_payload (r_slot s)) = MAX_FRAME_BYTES
     \<and> (\<forall>p \<in> set (r_pushed s) \<union> set (offered (r_writer s)). length (snd (snd p)) \<le> MAX_FRAME_BYTES)
     \<and> progress (r_writer s) (r_pushed s) (r_slot s)"

lemma holds_state [simp]: "holds p (sl\<lparr>js_state := m\<rparr>) = holds p sl"
  by (simp add: holds_def)

lemma take_update_Suc: "\<lbrakk>k < length xs; k < length ys; take k xs = take k ys\<rbrakk> \<Longrightarrow> take (Suc k) (xs[k := ys ! k]) = take (Suc k) ys"
  by (simp add: take_Suc_conv_app_nth)

lemma progress_free: "progress w ps sl \<Longrightarrow> progress w ps (sl\<lparr>js_state := STATE_EMPTY\<rparr>)"
  by (cases w) auto

lemma write_ok_new: "write_ok race_new"
  by (simp add: write_ok_def race_new_def jslot_new_def)

lemma write_ok_write: "\<lbrakk>write_step i s s'; write_ok s\<rbrakk> \<Longrightarrow> write_ok s'"
proof (induction rule: write_step.induct)
  case (store_byte s p k)
  then have "length (snd (snd p)) \<le> MAX_FRAME_BYTES" by (auto simp: write_ok_def)
  with store_byte show ?case by (auto simp: write_ok_def take_update_Suc)
next
  case (publish s p k)
  then show ?case by (auto simp: write_ok_def holds_def)
next
  case (claim s p)
  then show ?case by (cases "r_pushed s") (auto simp: write_ok_def holds_def)
qed (auto simp: write_ok_def)

lemma write_ok_take: "\<lbrakk>take_step i s s'; write_ok s\<rbrakk> \<Longrightarrow> write_ok s'"
  by (induction rule: take_step.induct) (simp_all add: write_ok_def progress_free)

lemma write_ok_skip: "\<lbrakk>skip_step i s s'; write_ok s\<rbrakk> \<Longrightarrow> write_ok s'"
  by (induction rule: skip_step.induct) (simp_all add: write_ok_def progress_free)

section \<open>The reader's invariant\<close>

text \<open>While no packet numbered \<open>e\<close> is begun during the take of \<open>e\<close>: the packets begun since it started
  are \<open>news\<close>; until there is one, what has been read is what the slot held at the start.\<close>

fun reading :: "reader_at \<Rightarrow> packet list \<Rightarrow> packet list \<Rightarrow> jslot \<Rightarrow> bool" where
  "reading (R_Seq e) news base sl \<longleftrightarrow> base \<noteq> [] \<and> e \<notin> fst ` set news"
| "reading (R_Len e) news base sl \<longleftrightarrow> base \<noteq> [] \<and> e \<notin> fst ` set news \<and> fst (hd base) = e"
| "reading (R_Ts e n) news base sl \<longleftrightarrow> base \<noteq> [] \<and> e \<notin> fst ` set news \<and> fst (hd base) = e
     \<and> (news = [] \<longrightarrow> n = length (snd (snd (hd base))))"
| "reading (R_Copy e n ts bs) news base sl \<longleftrightarrow> base \<noteq> [] \<and> e \<notin> fst ` set news \<and> fst (hd base) = e \<and> length bs \<le> n
     \<and> n \<le> MAX_FRAME_BYTES
     \<and> (news = [] \<longrightarrow> n = length (snd (snd (hd base))) \<and> ts = fst (snd (hd base)) \<and> bs = take (length bs) (snd (snd (hd base))))"
| "reading (R_Recheck e ts bs) news base sl \<longleftrightarrow> e \<notin> fst ` set news
     \<and> ((e, ts, bs) \<in> set base \<or> js_seq sl \<noteq> e)"
| "reading (R_Free e ts bs) news base sl \<longleftrightarrow> (e, ts, bs) \<in> set (news @ base)"
| "reading _ news base sl \<longleftrightarrow> True"

fun idle :: "writer_at \<Rightarrow> bool" where
  "idle W_Idle = True"
| "idle (W_Dup _) = True"
| "idle (W_Claim _) = True"
| "idle _ = False"

definition read_ok :: "race \<Rightarrow> bool" where
  "read_ok s \<longleftrightarrow> (\<exists>news. r_pushed s = news @ r_base s
       \<and> (\<not> r_clash s \<longrightarrow> reading (r_reader s) news (r_base s) (r_slot s))
       \<and> (taking (r_reader s) \<noteq> None \<and> news = [] \<longrightarrow> idle (r_writer s)))
     \<and> (\<forall>p. (False, p) \<in> set (r_frames s) \<longrightarrow> p \<in> set (r_pushed s))"

lemma read_okE:
  assumes "read_ok s"
  obtains news where "r_pushed s = news @ r_base s" "\<not> r_clash s \<longrightarrow> reading (r_reader s) news (r_base s) (r_slot s)"
    "taking (r_reader s) \<noteq> None \<and> news = [] \<longrightarrow> idle (r_writer s)"
    "\<forall>p. (False, p) \<in> set (r_frames s) \<longrightarrow> p \<in> set (r_pushed s)"
  using assms unfolding read_ok_def by blast

lemma read_ok_new: "read_ok race_new"
  by (simp add: read_ok_def race_new_def)

text \<open>Of the slot, \<open>reading\<close> depends on the sequence number alone.\<close>

lemma reading_seq: "\<lbrakk>reading r news base sl; js_seq sl' = js_seq sl\<rbrakk> \<Longrightarrow> reading r news base sl'"
  by (cases r) auto

lemma read_ok_keep:
  assumes "read_ok s" and "js_seq sl = js_seq (r_slot s)" and "idle (r_writer s) \<longrightarrow> idle w"
  shows "read_ok (s\<lparr>r_slot := sl, r_writer := w\<rparr>)"
  using assms(1) by (rule read_okE) (use assms(2,3) reading_seq in \<open>auto simp: read_ok_def\<close>)

lemma read_ok_write: "\<lbrakk>write_step i s s'; write_ok s; read_ok s\<rbrakk> \<Longrightarrow> read_ok s'"
proof (induction rule: write_step.induct)
  case (claim s p)
  from claim(3) obtain news where n: "r_pushed s = news @ r_base s"
    "\<not> r_clash s \<longrightarrow> reading (r_reader s) news (r_base s) (r_slot s)"
    "\<forall>p. (False, p) \<in> set (r_frames s) \<longrightarrow> p \<in> set (r_pushed s)" by (rule read_okE)
  have "reading (r_reader s) (p # news) (r_base s) ((r_slot s)\<lparr>js_state := STATE_WRITING\<rparr>)"
    if "\<not> r_clash s" "taking (r_reader s) \<noteq> Some (fst p)"
    using n(2) that by (cases "r_reader s") auto
  with n show ?case unfolding read_ok_def by (intro conjI exI [of _ "p # news"]) auto
next
  case (store_seq s p)
  from store_seq(3) obtain news where n: "r_pushed s = news @ r_base s"
    "\<not> r_clash s \<longrightarrow> reading (r_reader s) news (r_base s) (r_slot s)"
    "taking (r_reader s) \<noteq> None \<and> news = [] \<longrightarrow> idle (r_writer s)"
    "\<forall>p. (False, p) \<in> set (r_frames s) \<longrightarrow> p \<in> set (r_pushed s)" by (rule read_okE)
  have p: "hd (r_pushed s) = p" "r_pushed s \<noteq> []" using store_seq(1,2) by (simp_all add: write_ok_def)
  have new: "news \<noteq> []" if "taking (r_reader s) \<noteq> None" using n(3) that store_seq(1) by auto
  then have "p \<in> set news" if "taking (r_reader s) \<noteq> None" using that p n(1) by (cases news) auto
  then have "reading (r_reader s) news (r_base s) ((r_slot s)\<lparr>js_seq := fst p\<rparr>)" if "\<not> r_clash s"
    using n(2) that by (cases "r_reader s") auto
  with n new show ?case unfolding read_ok_def by (intro conjI exI [of _ news]) auto
qed (use read_ok_keep in force)+

text \<open>A step that only moves the reader.\<close>

lemma read_ok_move:
  assumes "read_ok s" and "taking r \<noteq> None \<longrightarrow> taking (r_reader s) \<noteq> None"
    and "\<And>news. \<lbrakk>r_pushed s = news @ r_base s; \<not> r_clash s; reading (r_reader s) news (r_base s) (r_slot s);
        taking (r_reader s) \<noteq> None \<and> news = [] \<longrightarrow> idle (r_writer s)\<rbrakk> \<Longrightarrow> reading r news (r_base s) (r_slot s)"
  shows "read_ok (s\<lparr>r_reader := r\<rparr>)"
  using assms(1) by (rule read_okE) (use assms(2,3) in \<open>auto simp: read_ok_def\<close>)

lemma idle_holds: "\<lbrakk>write_ok s; idle (r_writer s); r_pushed s \<noteq> []\<rbrakk> \<Longrightarrow> holds (hd (r_pushed s)) (r_slot s)"
  by (cases "r_writer s") (auto simp: write_ok_def)

lemma written_idle: "\<lbrakk>write_ok s; js_state (r_slot s) = STATE_WRITTEN\<rbrakk> \<Longrightarrow> idle (r_writer s) \<and> r_pushed s \<noteq> []"
  by (cases "r_writer s") (auto simp: write_ok_def)

text \<open>The slot's number is that of the newest packet or, while that one is being written, of the one before.\<close>

lemma slot_number:
  "\<lbrakk>write_ok s; r_pushed s = news @ base; base \<noteq> []; news = [] \<longrightarrow> idle (r_writer s)\<rbrakk> \<Longrightarrow>
   js_seq (r_slot s) \<in> fst ` set news \<or> js_seq (r_slot s) = fst (hd base)"
  by (cases "r_writer s"; cases news; cases "tl news") (auto simp: write_ok_def holds_def)

lemma held_len: "\<lbrakk>write_ok s; holds p sl; p \<in> set (r_pushed s)\<rbrakk> \<Longrightarrow> unat (js_len sl) = length (snd (snd p))"
proof -
  assume "write_ok s" "holds p sl" "p \<in> set (r_pushed s)"
  then have "length (snd (snd p)) \<le> MAX_FRAME_BYTES" "js_len sl = of_nat (length (snd (snd p)))"
    by (auto simp: write_ok_def holds_def)
  then show ?thesis by (simp add: MAX_FRAME_BYTES_def unat_of_nat)
qed

text \<open>What a running take knows: the packets begun since it started, and what it has read.\<close>

definition knows :: "race \<Rightarrow> packet list \<Rightarrow> bool" where
  "knows s news \<longleftrightarrow> write_ok s \<and> r_pushed s = news @ r_base s \<and> reading (r_reader s) news (r_base s) (r_slot s)
     \<and> (taking (r_reader s) \<noteq> None \<and> news = [] \<longrightarrow> idle (r_writer s))"

lemma knows_held:
  "\<lbrakk>knows s []; taking (r_reader s) \<noteq> None; r_base s \<noteq> []\<rbrakk> \<Longrightarrow>
   holds (hd (r_base s)) (r_slot s) \<and> unat (js_len (r_slot s)) = length (snd (snd (hd (r_base s))))"
  using idle_holds [of s] held_len [of s "hd (r_base s)" "r_slot s"] by (simp add: knows_def)

lemma knows_seq:
  assumes "knows s news" and "r_reader s = R_Seq e"
  shows "reading (if js_seq (r_slot s) = e then R_Len e else R_Idle) news (r_base s) (r_slot s)"
proof -
  have "js_seq (r_slot s) \<in> fst ` set news \<or> js_seq (r_slot s) = fst (hd (r_base s))"
    using slot_number [of s news "r_base s"] assms by (simp add: knows_def)
  with assms show ?thesis by (auto simp: knows_def)
qed

lemma knows_byte:
  assumes "knows s news" and "r_reader s = R_Copy e n ts bs" and "length bs < n"
  shows "reading (R_Copy e n ts (bs @ [js_payload (r_slot s) ! length bs])) news (r_base s) (r_slot s)"
proof -
  let ?pl = "snd (snd (hd (r_base s)))"
  have "bs @ [js_payload (r_slot s) ! length bs] = take (Suc (length bs)) ?pl" if "news = []"
  proof -
    have h: "take (length ?pl) (js_payload (r_slot s)) = ?pl" "length bs < length ?pl" "bs = take (length bs) ?pl"
      using knows_held [of s] assms that by (auto simp: holds_def knows_def)
    then have "js_payload (r_slot s) ! length bs = ?pl ! length bs" by (metis nth_take)
    with h(2,3) show ?thesis by (simp add: take_Suc_conv_app_nth)
  qed
  with assms show ?thesis by (auto simp: min_absorb2 knows_def)
qed

lemma knows_state:
  assumes "knows s news" and "r_reader s = R_Copy e n ts bs" and "length bs = n"
  shows "reading (if js_state (r_slot s) = STATE_WRITTEN then R_Recheck e ts bs else R_Idle) news (r_base s) (r_slot s)"
proof (cases "js_state (r_slot s) = STATE_WRITTEN")
  case True
  have ok: "write_ok s" using assms(1) by (simp add: knows_def)
  have h: "holds (hd (r_pushed s)) (r_slot s)" using written_idle [OF ok True] idle_holds [OF ok] by blast
  show ?thesis
  proof (cases news)
    case Nil
    have "hd (r_base s) \<in> set (r_base s)" using assms by (simp add: knows_def)
    moreover have "hd (r_base s) = (e, ts, bs)" using assms Nil by (intro prod_eqI) (auto simp: knows_def)
    ultimately show ?thesis using True assms by (auto simp: knows_def)
  next
    case (Cons q qs)
    with True assms h show ?thesis by (auto simp: holds_def knows_def)
  qed
qed simp

text \<open>A step of a take that only moves the reader keeps the invariant when what it knows then is true.\<close>

lemma read_ok_step:
  assumes "read_ok s" and "write_ok s" and "taking (r_reader s) \<noteq> None"
    and "\<And>news. knows s news \<Longrightarrow> reading r news (r_base s) (r_slot s)"
  shows "read_ok (s\<lparr>r_reader := r\<rparr>)"
  using assms by (intro read_ok_move) (simp_all add: knows_def)

lemma read_ok_take: "\<lbrakk>take_step i s s'; write_ok s; read_ok s\<rbrakk> \<Longrightarrow> read_ok s'"
proof (induction rule: take_step.induct)
  case (look_state s e)
  then show ?case using written_idle [of s] by (auto simp: read_ok_def)
next
  case (look_seq s e)
  then show ?case by (intro read_ok_step knows_seq) simp_all
next
  case (load_len s e)
  then show ?case using knows_held [of s] by (intro read_ok_step) (auto simp: knows_def)
next
  case (load_ts s e n)
  then show ?case using knows_held [of s] by (intro read_ok_step) (auto simp: knows_def holds_def)
next
  case (load_byte s e n ts bs)
  then show ?case by (intro read_ok_step knows_byte) simp_all
next
  case (recheck_state s e n ts bs)
  then show ?case by (intro read_ok_step knows_state) simp_all
next
  case (recheck_seq s e ts bs)
  then show ?case by (intro read_ok_step) (auto simp: knows_def)
next
  case (free s e ts bs)
  from free(3) obtain news where n: "r_pushed s = news @ r_base s"
    "\<not> r_clash s \<longrightarrow> reading (r_reader s) news (r_base s) (r_slot s)"
    "\<forall>p. (False, p) \<in> set (r_frames s) \<longrightarrow> p \<in> set (r_pushed s)" by (rule read_okE)
  with free(1) show ?case unfolding read_ok_def by (intro conjI exI [of _ news]) auto
qed

lemma read_ok_skip: "\<lbrakk>skip_step i s s'; read_ok s\<rbrakk> \<Longrightarrow> read_ok s'"
proof (induction rule: skip_step.induct)
  case (skip_free s)
  then show ?case by (auto simp: read_ok_def)
next
  case (reset_slot s)
  then show ?case using read_ok_keep [of s "(r_slot s)\<lparr>js_state := STATE_EMPTY\<rparr>" "r_writer s"] by simp
qed (auto intro!: read_ok_move)

lemma reaches_ok: "reaches i s \<Longrightarrow> write_ok s \<and> read_ok s"
proof (induction rule: reaches.induct)
  case start
  show ?case using write_ok_new read_ok_new by blast
next
  case (writer s s')
  then show ?case using write_ok_write read_ok_write by blast
next
  case (taker s s')
  then show ?case using write_ok_take read_ok_take by blast
next
  case (skipper s s')
  then show ?case using write_ok_skip read_ok_skip by blast
qed

section \<open>One thread alone\<close>

lemma write_more: "\<lbrakk>write_step i a b; (write_step i)\<^sup>*\<^sup>* b c\<rbrakk> \<Longrightarrow> (write_step i)\<^sup>*\<^sup>* a c"
  and take_more: "\<lbrakk>take_step i a b; (take_step i)\<^sup>*\<^sup>* b c\<rbrakk> \<Longrightarrow> (take_step i)\<^sup>*\<^sup>* a c"
  by (rule converse_rtranclp_into_rtranclp, assumption+)+

lemma store_bytes:
  "\<lbrakk>r_writer s = W_Byte (sq, ts, pl) k; k \<le> length pl; length pl \<le> length (js_payload (r_slot s))\<rbrakk> \<Longrightarrow>
   (write_step i)\<^sup>*\<^sup>* s (s\<lparr>r_slot := (r_slot s)\<lparr>js_payload := take k (js_payload (r_slot s)) @ drop k pl
       @ drop (length pl) (js_payload (r_slot s))\<rparr>, r_writer := W_Byte (sq, ts, pl) (length pl)\<rparr>)"
proof (induction "length pl - k" arbitrary: k s)
  case 0
  then have "k = length pl" by simp
  then have "s\<lparr>r_slot := (r_slot s)\<lparr>js_payload := take k (js_payload (r_slot s)) @ drop k pl
       @ drop (length pl) (js_payload (r_slot s))\<rparr>, r_writer := W_Byte (sq, ts, pl) (length pl)\<rparr> = s"
    using 0 by (cases s) (auto intro!: race.equality jslot.equality)
  then show ?case by simp
next
  case (Suc m)
  then have k: "k < length pl" by simp
  let ?s = "s\<lparr>r_slot := (r_slot s)\<lparr>js_payload := (js_payload (r_slot s))[k := pl ! k]\<rparr>, r_writer := W_Byte (sq, ts, pl) (Suc k)\<rparr>"
  have one: "write_step i s ?s" using write_step.store_byte [of s "(sq, ts, pl)" k i] Suc.prems k by simp
  have "take (Suc k) ((js_payload (r_slot s))[k := pl ! k]) @ drop (Suc k) pl = take k (js_payload (r_slot s)) @ drop k pl"
    using k Suc.prems(3) by (simp add: take_Suc_conv_app_nth Cons_nth_drop_Suc [symmetric])
  then have eq: "take (Suc k) ((js_payload (r_slot s))[k := pl ! k]) @ drop (Suc k) pl
      @ drop (length pl) ((js_payload (r_slot s))[k := pl ! k])
      = take k (js_payload (r_slot s)) @ drop k pl @ drop (length pl) (js_payload (r_slot s))"
    using k by (metis append.assoc drop_update_cancel)
  have "m = length pl - Suc k" using Suc.hyps(2) by simp
  from Suc.hyps(1) [OF this, of ?s] Suc.prems(3) k
  have "(write_step i)\<^sup>*\<^sup>* ?s (?s\<lparr>r_slot := (r_slot ?s)\<lparr>js_payload := take (Suc k) (js_payload (r_slot ?s)) @ drop (Suc k) pl
       @ drop (length pl) (js_payload (r_slot ?s))\<rparr>, r_writer := W_Byte (sq, ts, pl) (length pl)\<rparr>)" by simp
  then have "(write_step i)\<^sup>*\<^sup>* ?s (s\<lparr>r_slot := (r_slot s)\<lparr>js_payload := take (Suc k) ((js_payload (r_slot s))[k := pl ! k])
       @ drop (Suc k) pl @ drop (length pl) ((js_payload (r_slot s))[k := pl ! k])\<rparr>, r_writer := W_Byte (sq, ts, pl) (length pl)\<rparr>)"
    by (simp del: drop_update_cancel)
  then show ?case unfolding eq by (rule write_more [OF one])
qed

lemma load_bytes:
  "\<lbrakk>r_reader s = R_Copy e n ts (take k (js_payload (r_slot s))); k \<le> n; n \<le> length (js_payload (r_slot s))\<rbrakk> \<Longrightarrow>
   (take_step i)\<^sup>*\<^sup>* s (s\<lparr>r_reader := R_Copy e n ts (take n (js_payload (r_slot s)))\<rparr>)"
proof (induction "n - k" arbitrary: k s)
  case 0
  then have "s\<lparr>r_reader := R_Copy e n ts (take n (js_payload (r_slot s)))\<rparr> = s" by (cases s) auto
  then show ?case by simp
next
  case (Suc m)
  then have k: "k < n" by simp
  let ?s = "s\<lparr>r_reader := R_Copy e n ts (take (Suc k) (js_payload (r_slot s)))\<rparr>"
  have one: "take_step i s ?s"
    using take_step.load_byte [of s e n ts "take k (js_payload (r_slot s))" i] Suc.prems k
    by (simp add: take_Suc_conv_app_nth min_absorb2)
  have "m = n - Suc k" using Suc.hyps(2) by simp
  from Suc.hyps(1) [OF this, of ?s] Suc.prems(3) k show ?case
    by (intro take_more [OF one]) simp
qed

lemma publish_step:
  assumes "k = length (snd (snd p))"
  shows "write_step i \<lparr>r_slot = \<lparr>js_state = m, js_seq = a, js_timestamp = b, js_len = c, js_payload = d\<rparr>, r_writer = W_Byte p k,
       r_reader = r, r_pushed = ps, r_base = base, r_clash = cl, r_frames = fr\<rparr>
     \<lparr>r_slot = \<lparr>js_state = STATE_WRITTEN, js_seq = a, js_timestamp = b, js_len = c, js_payload = d\<rparr>, r_writer = W_Idle,
       r_reader = r, r_pushed = ps, r_base = base, r_clash = cl, r_frames = fr\<rparr>"
  using write_step.publish [of "\<lparr>r_slot = \<lparr>js_state = m, js_seq = a, js_timestamp = b, js_len = c, js_payload = d\<rparr>,
    r_writer = W_Byte p k, r_reader = r, r_pushed = ps, r_base = base, r_clash = cl, r_frames = fr\<rparr>" p k i] assms
  by simp

lemma push_alone:
  assumes "r_writer s = W_Idle" and "slot_index sq = i" and "length pl \<le> MAX_FRAME_BYTES"
    and "length (js_payload (r_slot s)) = MAX_FRAME_BYTES"
    and "\<not> (js_state (r_slot s) = STATE_WRITTEN \<and> js_seq (r_slot s) = sq)"
  shows "(write_step i)\<^sup>*\<^sup>* s (s\<lparr>r_slot := store_slot sq ts pl (r_slot s), r_pushed := (sq, ts, pl) # r_pushed s,
    r_clash := (r_clash s \<or> taking (r_reader s) = Some sq)\<rparr>)"
proof -
  obtain st sq0 ts0 ln pay r ps base cl fr where s:
    "s = \<lparr>r_slot = \<lparr>js_state = st, js_seq = sq0, js_timestamp = ts0, js_len = ln, js_payload = pay\<rparr>, r_writer = W_Idle,
       r_reader = r, r_pushed = ps, r_base = base, r_clash = cl, r_frames = fr\<rparr>"
    using assms(1) by (cases s; cases "r_slot s") simp
  let ?p = "(sq, ts, pl)"
  let ?s = "\<lambda>w. s\<lparr>r_writer := w\<rparr>"
  let ?w = "\<lambda>q t l bs w. \<lparr>r_slot = \<lparr>js_state = STATE_WRITING, js_seq = q, js_timestamp = t, js_len = l, js_payload = bs\<rparr>, r_writer = w,
       r_reader = r, r_pushed = ?p # ps, r_base = base, r_clash = (cl \<or> taking r = Some sq), r_frames = fr\<rparr>"
  have len: "length pay = MAX_FRAME_BYTES" using assms(4) by (simp add: s)
  have 1: "(write_step i)\<^sup>*\<^sup>* s (?s (W_Claim ?p))"
  proof (cases "st = STATE_WRITTEN")
    case True
    have a: "write_step i s (?s (W_Dup ?p))"
      using write_step.load_state [of s ?p i] assms(2,3) True by (simp add: s)
    have "write_step i (?s (W_Dup ?p)) (?s (W_Claim ?p))"
      using write_step.load_seq [of "?s (W_Dup ?p)" ?p i] assms(5) True by (simp add: s)
    then show ?thesis by (rule write_more [OF a r_into_rtranclp])
  next
    case False
    then have "write_step i s (?s (W_Claim ?p))" using write_step.load_state [of s ?p i] assms(2,3) by (simp add: s)
    then show ?thesis by blast
  qed
  have 2: "write_step i (?s (W_Claim ?p)) (?w sq0 ts0 ln pay (W_Seq ?p))"
    using write_step.claim [of "?s (W_Claim ?p)" ?p i] by (simp add: s)
  have 3: "write_step i (?w sq0 ts0 ln pay (W_Seq ?p)) (?w sq ts0 ln pay (W_Ts ?p))"
    using write_step.store_seq [of "?w sq0 ts0 ln pay (W_Seq ?p)" ?p i] by simp
  have 4: "write_step i (?w sq ts0 ln pay (W_Ts ?p)) (?w sq ts ln pay (W_Len ?p))"
    using write_step.store_ts [of "?w sq ts0 ln pay (W_Ts ?p)" ?p i] by simp
  have 5: "write_step i (?w sq ts ln pay (W_Len ?p)) (?w sq ts (of_nat (length pl)) pay (W_Byte ?p 0))"
    using write_step.store_len [of "?w sq ts ln pay (W_Len ?p)" ?p i] by simp
  have 6: "(write_step i)\<^sup>*\<^sup>* (?w sq ts (of_nat (length pl)) pay (W_Byte ?p 0))
      (?w sq ts (of_nat (length pl)) (pl @ drop (length pl) pay) (W_Byte ?p (length pl)))"
    using store_bytes [of "?w sq ts (of_nat (length pl)) pay (W_Byte ?p 0)" sq ts pl 0 i] assms(3) len by simp
  have z: "store_slot sq ts pl (r_slot s) = \<lparr>js_state = STATE_WRITTEN, js_seq = sq, js_timestamp = ts, js_len = of_nat (length pl),
      js_payload = pl @ drop (length pl) pay\<rparr>"
    using assms(3) len by (simp add: s store_slot_def zip_store_def)
  have u: "s\<lparr>r_slot := x, r_pushed := ?p # r_pushed s, r_clash := (r_clash s \<or> taking (r_reader s) = Some sq)\<rparr>
      = \<lparr>r_slot = x, r_writer = W_Idle, r_reader = r, r_pushed = ?p # ps, r_base = base,
         r_clash = (cl \<or> taking r = Some sq), r_frames = fr\<rparr>" for x
    by (simp add: s)
  have 7: "write_step i (?w sq ts (of_nat (length pl)) (pl @ drop (length pl) pay) (W_Byte ?p (length pl)))
      (s\<lparr>r_slot := store_slot sq ts pl (r_slot s), r_pushed := ?p # r_pushed s,
         r_clash := (r_clash s \<or> taking (r_reader s) = Some sq)\<rparr>)"
    unfolding u z by (rule publish_step) simp
  note tail = write_more [OF 2 write_more [OF 3 write_more [OF 4 write_more [OF 5 rtranclp.rtrancl_into_rtrancl [OF 6 7]]]]]
  show ?thesis by (rule rtranclp_trans [OF 1 tail])
qed


definition frames_of :: "u16 \<Rightarrow> (jitter_buffer \<times> u8 list \<times> pop_outcome) option \<Rightarrow> (bool \<times> packet) list" where
  "frames_of e r = (case r of Some (_, out, Frame n ts) \<Rightarrow> [(False, e, ts, take n out)] | _ \<Rightarrow> [])"

lemma take_one: "take_step i a b \<Longrightarrow> (take_step i)\<^sup>*\<^sup>* a b"
  and take_end: "\<lbrakk>(take_step i)\<^sup>*\<^sup>* a b; take_step i b c\<rbrakk> \<Longrightarrow> (take_step i)\<^sup>*\<^sup>* a c"
  and take_run: "\<lbrakk>(take_step i)\<^sup>*\<^sup>* a b; (take_step i)\<^sup>*\<^sup>* b c\<rbrakk> \<Longrightarrow> (take_step i)\<^sup>*\<^sup>* a c"
  by auto

text \<open>A take that has seen state and number finds a frame.\<close>

lemma take_finds:
  assumes "r_reader s = R_Len e" and "js_state (r_slot s) = STATE_WRITTEN" and "js_seq (r_slot s) = e"
    and "length (js_payload (r_slot s)) = MAX_FRAME_BYTES" and "n = unat (js_len (r_slot s))" and "n \<le> MAX_FRAME_BYTES"
  shows "(take_step i)\<^sup>*\<^sup>* s (s\<lparr>r_slot := (r_slot s)\<lparr>js_state := STATE_EMPTY\<rparr>, r_reader := R_Idle,
    r_frames := (r_clash s, e, js_timestamp (r_slot s), take n (js_payload (r_slot s))) # r_frames s\<rparr>)"
proof -
  let ?q = "\<lambda>r. s\<lparr>r_reader := r\<rparr>" and ?ts = "js_timestamp (r_slot s)" and ?bs = "take n (js_payload (r_slot s))"
  have 2: "take_step i s (?q (R_Ts e n))" using take_step.load_len [of s e i] assms(1,5) by simp
  have 3: "take_step i (?q (R_Ts e n)) (?q (R_Copy e n ?ts []))"
    using take_step.load_ts [of "?q (R_Ts e n)" e n i] assms(6) by simp
  have 4: "(take_step i)\<^sup>*\<^sup>* (?q (R_Copy e n ?ts [])) (?q (R_Copy e n ?ts ?bs))"
    using load_bytes [of "?q (R_Copy e n ?ts [])" e n ?ts 0 i] assms(4,6) by simp
  have 5: "take_step i (?q (R_Copy e n ?ts ?bs)) (?q (R_Recheck e ?ts ?bs))"
    using take_step.recheck_state [of "?q (R_Copy e n ?ts ?bs)" e n ?ts ?bs i] assms(2,4,6) by simp
  have 6: "take_step i (?q (R_Recheck e ?ts ?bs)) (?q (R_Free e ?ts ?bs))"
    using take_step.recheck_seq [of "?q (R_Recheck e ?ts ?bs)" e ?ts ?bs i] assms(3) by simp
  have 7: "take_step i (?q (R_Free e ?ts ?bs)) (s\<lparr>r_slot := (r_slot s)\<lparr>js_state := STATE_EMPTY\<rparr>, r_reader := R_Idle,
      r_frames := (r_clash s, e, ?ts, ?bs) # r_frames s\<rparr>)"
    using take_step.free [of "?q (R_Free e ?ts ?bs)" e ?ts ?bs i] by simp
  show ?thesis
    by (rule take_more [OF 2 take_more [OF 3 take_run [OF 4 take_more [OF 5 take_more [OF 6 take_one [OF 7]]]]]])
qed

lemma take_alone:
  assumes "r_reader s = R_Idle" and "slot_index e = i" and "length (js_payload (r_slot s)) = MAX_FRAME_BYTES"
    and "i < length (jslots b)" and "jslots b ! i = r_slot s" and "MAX_FRAME_BYTES \<le> length out"
    and "jb_take e out b = Some (b', out', oc)"
  shows "(take_step i)\<^sup>*\<^sup>* s (s\<lparr>r_slot := jslots b' ! i, r_base := r_pushed s, r_clash := False,
    r_frames := frames_of e (jb_take e out b) @ r_frames s\<rparr>)"
proof -
  obtain sl w ps base cl fr where s: "s = \<lparr>r_slot = sl, r_writer = w, r_reader = R_Idle, r_pushed = ps, r_base = base,
      r_clash = cl, r_frames = fr\<rparr>" using assms(1) by (cases s) simp
  let ?q = "\<lambda>r. \<lparr>r_slot = sl, r_writer = w, r_reader = r, r_pushed = ps, r_base = ps, r_clash = False, r_frames = fr\<rparr>"
  let ?n = "unat (js_len sl)" and ?ts = "js_timestamp sl"
  have len: "length (js_payload sl) = MAX_FRAME_BYTES" using assms(3) by (simp add: s)
  have sl: "jslots b ! i = sl" using assms(5) by (simp add: s)
  have 0: "take_step i s (?q (if js_state sl = STATE_WRITTEN then R_Seq e else R_Idle))"
    using take_step.look_state [of s e i] assms(2) by (simp add: s cong: if_cong)
  have 1: "take_step i (?q (R_Seq e)) (?q (if js_seq sl = e then R_Len e else R_Idle))"
    using take_step.look_seq [of "?q (R_Seq e)" e i] by (simp cong: if_cong)
  have 2: "take_step i (?q (R_Len e)) (?q (R_Ts e ?n))"
    using take_step.load_len [of "?q (R_Len e)" e i] by simp
  have 3: "take_step i (?q (R_Ts e ?n)) (?q (if MAX_FRAME_BYTES < ?n then R_Idle else R_Copy e ?n ?ts []))"
    using take_step.load_ts [of "?q (R_Ts e ?n)" e ?n i] by (simp cong: if_cong)
  have missing: ?thesis if "js_state sl \<noteq> STATE_WRITTEN \<or> js_seq sl \<noteq> e \<or> MAX_FRAME_BYTES < ?n" and "(take_step i)\<^sup>*\<^sup>* s (?q R_Idle)"
  proof -
    have j: "jb_take e out b = Some (b, out, Missing)" using that(1) by (auto simp: jb_take_def Let_def sl assms(2))
    moreover have "b' = b" using assms(7) j by simp
    ultimately show ?thesis using that(2) by (simp add: s frames_of_def sl)
  qed
  show ?thesis
  proof (cases "js_state sl = STATE_WRITTEN")
    case False
    then show ?thesis using missing take_one [OF 0] by simp
  next
    case w1: True
    with 0 have 0: "take_step i s (?q (R_Seq e))" by simp
    show ?thesis
    proof (cases "js_seq sl = e")
      case False
      then show ?thesis using missing take_more [OF 0 take_one [OF 1]] by simp
    next
      case q1: True
      with 1 have 1: "take_step i (?q (R_Seq e)) (?q (R_Len e))" by simp
      note h = take_more [OF 0 take_more [OF 1 take_one [OF 2]]]
      show ?thesis
      proof (cases "MAX_FRAME_BYTES < ?n")
        case True
        then show ?thesis using missing take_end [OF h 3] by simp
      next
        case False
        let ?bs = "take ?n (js_payload sl)"
        let ?fin = "\<lparr>r_slot = sl\<lparr>js_state := STATE_EMPTY\<rparr>, r_writer = w, r_reader = R_Idle, r_pushed = ps, r_base = ps,
          r_clash = False, r_frames = (False, e, ?ts, ?bs) # fr\<rparr>"
        have "(take_step i)\<^sup>*\<^sup>* (?q (R_Len e)) ?fin"
          using take_finds [of "?q (R_Len e)" e ?n i] w1 q1 len False by simp
        then have run: "(take_step i)\<^sup>*\<^sup>* s ?fin" by (rule take_more [OF 0 take_more [OF 1]])
        have j: "jb_take e out b = Some (b\<lparr>jslots := (jslots b)[i := sl\<lparr>js_state := STATE_EMPTY\<rparr>]\<rparr>,
            zip_store (take ?n out) (js_payload sl) @ drop ?n out, Frame ?n ?ts)"
          using w1 q1 False sl assms(2,6) by (simp add: jb_take_def Let_def not_less)
        have "take ?n (zip_store (take ?n out) (js_payload sl) @ drop ?n out) = ?bs"
          using False len assms(6) by (simp add: zip_store_def)
        moreover have "b' = b\<lparr>jslots := (jslots b)[i := sl\<lparr>js_state := STATE_EMPTY\<rparr>]\<rparr>" using assms(7) j by simp
        ultimately show ?thesis using run assms(4) by (simp add: s j frames_of_def)
      qed
    qed
  qed
qed

section \<open>Torn frames\<close>

lemma reaches_write: "\<lbrakk>(write_step i)\<^sup>*\<^sup>* s s'; reaches i s\<rbrakk> \<Longrightarrow> reaches i s'"
  by (induction rule: rtranclp_induct) (auto intro: reaches.intros)

lemma reaches_take: "\<lbrakk>(take_step i)\<^sup>*\<^sup>* s s'; reaches i s\<rbrakk> \<Longrightarrow> reaches i s'"
  by (induction rule: rtranclp_induct) (auto intro: reaches.intros)

lemma ex_stored: "js_state (store_slot sq ts [x] jslot_new) = STATE_WRITTEN" "js_seq (store_slot sq ts [x] jslot_new) = sq"
  "js_timestamp (store_slot sq ts [x] jslot_new) = ts" "js_len (store_slot sq ts [x] jslot_new) = 1"
  "take (Suc 0) (js_payload (store_slot sq ts [x] jslot_new)) = [x]" "length (js_payload (store_slot sq ts [x] jslot_new)) = MAX_FRAME_BYTES"
  by (simp_all add: store_slot_def jslot_new_def zip_store_def MAX_FRAME_BYTES_def)

definition ex_race :: "u16 \<Rightarrow> race" where
  "ex_race sq = race_new\<lparr>r_slot := store_slot sq 7 [5] jslot_new, r_pushed := [(sq, 7, [5])]\<rparr>"

lemma ex_race_reached: "slot_index sq = 0 \<Longrightarrow> reaches 0 (ex_race sq)"
  using push_alone [of race_new sq 0 "[5]" 7]
  by (intro reaches_write [OF _ reaches.start])
    (simp add: ex_race_def race_new_def MAX_FRAME_BYTES_def jslot_new_def)

text \<open>C20: a torn frame is discarded. However the loads and stores of the two threads interleave, a frame
  that \<open>take\<close> returns is, byte for byte and with its timestamp, a packet that was pushed under the
  number it expects, if during this take the writing of a packet of that very number did not begin.
  A packet of any other number that overwrites the slot meanwhile is noticed by the second look.\<close>

theorem no_torn_frames:
  assumes "reaches i s" and "(clash, e, ts, bs) \<in> set (r_frames s)" and "\<not> clash"
  shows "(e, ts, bs) \<in> set (r_pushed s)"
  using reaches_ok [OF assms(1)] assms(2,3) by (auto simp: read_ok_def)

lemma no_torn_frames_witness:
  "\<exists>s. reaches 0 s \<and> (False, 0, 7, [5]) \<in> set (r_frames s) \<and> (0, 7, [5]) \<in> set (r_pushed s)"
proof -
  let ?b = "jb_new\<lparr>jslots := (jslots jb_new)[0 := store_slot 0 7 [5] jslot_new]\<rparr>"
  have i: "slot_index 0 = 0" by (simp add: slot_index_def)
  have b: "jslots ?b ! 0 = store_slot 0 7 [5] jslot_new" "0 < length (jslots ?b)" by (simp_all add: jb_new_def SLOTS_def)
  let ?out = "replicate MAX_FRAME_BYTES (0 :: u8)"
  have t: "jb_take 0 ?out ?b = Some (?b\<lparr>jslots := (jslots ?b)[0 := (store_slot 0 7 [5] jslot_new)\<lparr>js_state := STATE_EMPTY\<rparr>]\<rparr>,
      zip_store (take 1 ?out) (js_payload (store_slot 0 7 [5] jslot_new)) @ drop 1 ?out, Frame 1 7)"
    using b by (simp add: jb_take_def i Let_def ex_stored MAX_FRAME_BYTES_def del: jitter_buffer.simps)
  have "take 1 (zip_store (take 1 ?out) (js_payload (store_slot 0 7 [5] jslot_new)) @ drop 1 ?out) = [5]"
    by (simp add: zip_store_def ex_stored MAX_FRAME_BYTES_def)
  then have f: "frames_of 0 (jb_take 0 ?out ?b) = [(False, 0, 7, [5])]" by (simp only: t frames_of_def) simp
  have idle: "r_reader (ex_race 0) = R_Idle" and len: "length (js_payload (r_slot (ex_race 0))) = MAX_FRAME_BYTES"
    and sl: "jslots ?b ! 0 = r_slot (ex_race 0)" and out: "MAX_FRAME_BYTES \<le> length ?out"
    and fr: "r_frames (ex_race 0) = []" and pu: "r_pushed (ex_race 0) = [(0, 7, [5])]"
    using b by (simp_all add: ex_race_def race_new_def ex_stored)
  note run = reaches_take [OF take_alone [OF idle i len b(2) sl out t] ex_race_reached [OF i]]
  obtain s where s: "reaches 0 s" "(False, 0, 7, [5]) \<in> set (r_frames s)" using run f fr by force
  from no_torn_frames [OF s] s show ?thesis by blast
qed



text \<open>C30: the second look is not a generation check. The slot still holds a packet the reader never took, of
  number 64; the writer begins packet 0 between the reader's two loads of a take of packet 0, and ends
  before the second look. State and number then match, and \<open>take\<close> returns the bytes and timestamp
  of packet 64 as packet 0, which no packet pushed is.\<close>

theorem torn_frame_possible:
  "\<exists>s. reaches 0 s \<and> (True, 0, 7, [5]) \<in> set (r_frames s) \<and> r_pushed s = [(0, 8, [6]), (64, 7, [5])]"
proof -
  obtain pay where st: "store_slot 64 7 [5] jslot_new
      = \<lparr>js_state = STATE_WRITTEN, js_seq = 64, js_timestamp = 7, js_len = 1, js_payload = pay\<rparr>" and pay: "pay ! 0 = 5" "pay \<noteq> []"
    by (simp add: store_slot_def zip_store_def jslot_new_def MAX_FRAME_BYTES_def)
  let ?p = "(0, 8, [6]) :: packet" and ?old = "[(64, 7, [5])] :: packet list"
  let ?q = "\<lambda>m sq ts w r ps cl b. \<lparr>r_slot = \<lparr>js_state = m, js_seq = sq, js_timestamp = ts, js_len = 1, js_payload = b\<rparr>,
    r_writer = w, r_reader = r, r_pushed = ps, r_base = ?old, r_clash = cl, r_frames = []\<rparr>"
  let ?a = "\<lambda>w r. ?q STATE_WRITTEN 64 7 w r ?old False pay"
  let ?b = "\<lambda>w r. ?q STATE_WRITING 0 7 w r (?p # ?old) True pay"
  let ?c = "\<lambda>r. ?q STATE_WRITTEN 0 8 W_Idle r (?p # ?old) True (pay[0 := 6])"
  have i: "slot_index 64 = 0" "slot_index 0 = 0" by (simp_all add: slot_index_def SLOTS_def)
  have 0: "take_step 0 (ex_race 64) (?a W_Idle (R_Seq 0))"
    using take_step.look_state [of "ex_race 64" 0 0] by (simp add: ex_race_def race_new_def st i)
  have 1: "write_step 0 (?a W_Idle (R_Seq 0)) (?a (W_Dup ?p) (R_Seq 0))"
    using write_step.load_state [of "?a W_Idle (R_Seq 0)" ?p 0] by (simp add: i MAX_FRAME_BYTES_def)
  have 2: "write_step 0 (?a (W_Dup ?p) (R_Seq 0)) (?a (W_Claim ?p) (R_Seq 0))"
    using write_step.load_seq [of "?a (W_Dup ?p) (R_Seq 0)" ?p 0] by simp
  have 3: "write_step 0 (?a (W_Claim ?p) (R_Seq 0)) (?q STATE_WRITING 64 7 (W_Seq ?p) (R_Seq 0) (?p # ?old) True pay)"
    using write_step.claim [of "?a (W_Claim ?p) (R_Seq 0)" ?p 0] by simp
  have 4: "write_step 0 (?q STATE_WRITING 64 7 (W_Seq ?p) (R_Seq 0) (?p # ?old) True pay) (?b (W_Ts ?p) (R_Seq 0))"
    using write_step.store_seq [of "?q STATE_WRITING 64 7 (W_Seq ?p) (R_Seq 0) (?p # ?old) True pay" ?p 0] by simp
  have 5: "take_step 0 (?b (W_Ts ?p) (R_Seq 0)) (?b (W_Ts ?p) (R_Len 0))"
    using take_step.look_seq [of "?b (W_Ts ?p) (R_Seq 0)" 0 0] by simp
  have 6: "take_step 0 (?b (W_Ts ?p) (R_Len 0)) (?b (W_Ts ?p) (R_Ts 0 1))"
    using take_step.load_len [of "?b (W_Ts ?p) (R_Len 0)" 0 0] by simp
  have 7: "take_step 0 (?b (W_Ts ?p) (R_Ts 0 1)) (?b (W_Ts ?p) (R_Copy 0 1 7 []))"
    using take_step.load_ts [of "?b (W_Ts ?p) (R_Ts 0 1)" 0 1 0] by (simp add: MAX_FRAME_BYTES_def)
  have 8: "take_step 0 (?b (W_Ts ?p) (R_Copy 0 1 7 [])) (?b (W_Ts ?p) (R_Copy 0 1 7 [5]))"
    using take_step.load_byte [of "?b (W_Ts ?p) (R_Copy 0 1 7 [])" 0 1 7 "[]" 0] by (simp add: pay)
  have 9: "write_step 0 (?b (W_Ts ?p) (R_Copy 0 1 7 [5])) (?q STATE_WRITING 0 8 (W_Len ?p) (R_Copy 0 1 7 [5]) (?p # ?old) True pay)"
    using write_step.store_ts [of "?b (W_Ts ?p) (R_Copy 0 1 7 [5])" ?p 0] by simp
  have 10: "write_step 0 (?q STATE_WRITING 0 8 (W_Len ?p) (R_Copy 0 1 7 [5]) (?p # ?old) True pay)
      (?q STATE_WRITING 0 8 (W_Byte ?p 0) (R_Copy 0 1 7 [5]) (?p # ?old) True pay)"
    using write_step.store_len [of "?q STATE_WRITING 0 8 (W_Len ?p) (R_Copy 0 1 7 [5]) (?p # ?old) True pay" ?p 0] by simp
  have 11: "write_step 0 (?q STATE_WRITING 0 8 (W_Byte ?p 0) (R_Copy 0 1 7 [5]) (?p # ?old) True pay)
      (?q STATE_WRITING 0 8 (W_Byte ?p 1) (R_Copy 0 1 7 [5]) (?p # ?old) True (pay[0 := 6]))"
    using write_step.store_byte [of "?q STATE_WRITING 0 8 (W_Byte ?p 0) (R_Copy 0 1 7 [5]) (?p # ?old) True pay" ?p 0 0] by simp
  have 12: "write_step 0 (?q STATE_WRITING 0 8 (W_Byte ?p 1) (R_Copy 0 1 7 [5]) (?p # ?old) True (pay[0 := 6])) (?c (R_Copy 0 1 7 [5]))"
    using write_step.publish [of "?q STATE_WRITING 0 8 (W_Byte ?p 1) (R_Copy 0 1 7 [5]) (?p # ?old) True (pay[0 := 6])" ?p 1 0] by simp
  have 13: "take_step 0 (?c (R_Copy 0 1 7 [5])) (?c (R_Recheck 0 7 [5]))"
    using take_step.recheck_state [of "?c (R_Copy 0 1 7 [5])" 0 1 7 "[5]" 0] by simp
  have 14: "take_step 0 (?c (R_Recheck 0 7 [5])) (?c (R_Free 0 7 [5]))"
    using take_step.recheck_seq [of "?c (R_Recheck 0 7 [5])" 0 7 "[5]" 0] by simp
  have 15: "take_step 0 (?c (R_Free 0 7 [5])) (?c (R_Free 0 7 [5])
      \<lparr>r_slot := (r_slot (?c (R_Free 0 7 [5])))\<lparr>js_state := STATE_EMPTY\<rparr>, r_reader := R_Idle, r_frames := [(True, 0, 7, [5])]\<rparr>)"
    using take_step.free [of "?c (R_Free 0 7 [5])" 0 7 "[5]" 0] by simp
  note read1 = taker [OF taker [OF taker [OF taker [OF _ 5] 6] 7] 8]
  note written = writer [OF writer [OF writer [OF writer [OF _ 9] 10] 11] 12]
  note read2 = taker [OF taker [OF taker [OF _ 13] 14] 15]
  have "reaches 0 (ex_race 64)" using ex_race_reached [OF i(1)] .
  from read2 [OF written [OF read1 [OF writer [OF writer [OF writer [OF writer [OF taker [OF this 0] 1] 2] 3] 4]]]]
  show ?thesis by force
qed

section \<open>The steps and the operations\<close>

text \<open>The steps add up to the operations. When the other thread is not in the slot, the steps of
  \<open>push\<close> and those of \<open>take\<close> run to the end leave the slot as \<open>jb_push\<close> and \<open>jb_take\<close> of the
  sequential model do, and return the same frame.\<close>

theorem steps_refine_operations:
  assumes "r_writer s = W_Idle" and "r_reader s = R_Idle" and "length (js_payload (r_slot s)) = MAX_FRAME_BYTES"
    and "i < length (jslots b)" and "jslots b ! i = r_slot s"
    and "slot_index sq = i" and "jb_push sq ts pl b = (b1, Stored)"
    and "slot_index e = i" and "MAX_FRAME_BYTES \<le> length out" and "jb_take e out b = Some (b2, out2, oc)"
  shows "(write_step i)\<^sup>*\<^sup>* s (s\<lparr>r_slot := jslots b1 ! i, r_pushed := (sq, ts, pl) # r_pushed s\<rparr>)
    \<and> (take_step i)\<^sup>*\<^sup>* s (s\<lparr>r_slot := jslots b2 ! i, r_base := r_pushed s, r_clash := False,
         r_frames := frames_of e (jb_take e out b) @ r_frames s\<rparr>)"
proof
  have p: "length pl \<le> MAX_FRAME_BYTES" "\<not> (js_state (r_slot s) = STATE_WRITTEN \<and> js_seq (r_slot s) = sq)"
    "jslots b1 ! i = store_slot sq ts pl (r_slot s)"
    using assms(4-7) by (auto simp: jb_push_def Let_def split: if_splits)
  have "(s\<lparr>r_slot := x, r_pushed := y, r_clash := (r_clash s \<or> taking (r_reader s) = Some sq)\<rparr>) = s\<lparr>r_slot := x, r_pushed := y\<rparr>" for x y
    using assms(2) by (cases s) simp
  from push_alone [OF assms(1,6) p(1) assms(3) p(2), of ts, unfolded this]
  show "(write_step i)\<^sup>*\<^sup>* s (s\<lparr>r_slot := jslots b1 ! i, r_pushed := (sq, ts, pl) # r_pushed s\<rparr>)" unfolding p(3) .
  show "(take_step i)\<^sup>*\<^sup>* s (s\<lparr>r_slot := jslots b2 ! i, r_base := r_pushed s, r_clash := False,
         r_frames := frames_of e (jb_take e out b) @ r_frames s\<rparr>)"
    using assms(2,8,3,4,5,9,10) by (rule take_alone)
qed

lemma steps_refine_operations_witness:
  "(write_step 0)\<^sup>*\<^sup>* race_new (race_new\<lparr>r_slot := store_slot 0 7 [5] jslot_new, r_pushed := [(0, 7, [5])]\<rparr>)
    \<and> (take_step 0)\<^sup>*\<^sup>* race_new race_new"
proof -
  have i: "slot_index 0 = 0" by (simp add: slot_index_def)
  have s: "r_writer race_new = W_Idle" "r_reader race_new = R_Idle" "length (js_payload (r_slot race_new)) = MAX_FRAME_BYTES"
    "0 < length (jslots jb_new)" "jslots jb_new ! 0 = r_slot race_new"
    by (simp_all add: race_new_def jslot_new_def jb_new_def SLOTS_def)
  obtain b1 where b1: "jb_push 0 7 [5] jb_new = (b1, Stored)" "jslots b1 ! 0 = store_slot 0 7 [5] jslot_new"
    using s(4) by (simp add: jb_push_def Let_def i jb_new_def jslot_new_def SLOTS_def MAX_FRAME_BYTES_def)
  have t: "jb_take 0 (replicate MAX_FRAME_BYTES 0) jb_new = Some (jb_new, replicate MAX_FRAME_BYTES 0, Missing)"
    by (simp add: jb_take_def Let_def i jb_new_def jslot_new_def SLOTS_def)
  have "MAX_FRAME_BYTES \<le> length (replicate MAX_FRAME_BYTES (0 :: u8))" by simp
  from steps_refine_operations [OF s i b1(1) i this t] b1(2) show ?thesis
    by (simp add: t frames_of_def s(5)) (simp add: race_new_def)
qed

end
