(* ===== verification/Unit_Tests.thy ===== *)
theory Unit_Tests
  imports Host_Handshake Jitter_Buffer Sample_Fifo Playout_Policy
begin

text \<open>
  The unit tests of the repository, run on the model: those of \<open>jam-protocol/src/seq.rs\<close> and \<open>handshake.rs\<close>, of
  \<open>jam-audio/src/accum.rs\<close>, and those of \<open>jitter.rs\<close> that take few steps. A test is a truth value, with the
  assertions of the test as its conjuncts; an index the test uses is a pattern that fails. They show that the
  definitions give what the authors of the code expect of it.
\<close>

section \<open>Sequence numbers\<close>

definition test_ordering_basic :: bool where
  "test_ordering_basic \<longleftrightarrow> newer_than 1 0 \<and> \<not> newer_than 0 1 \<and> \<not> newer_than 5 5"

definition test_ordering_across_wraparound :: bool where
  "test_ordering_across_wraparound \<longleftrightarrow> newer_than 0 0xFFFF \<and> newer_than 5 (0xFFFF - 5) \<and> \<not> newer_than 0xFFFF 0"

definition test_diff_signs :: bool where
  "test_diff_signs \<longleftrightarrow> diff 10 7 = 3 \<and> diff 7 10 = - 3 \<and> diff 2 0xFFFF = 3 \<and> diff 0xFFFF 2 = - 3"

definition test_generator_wraps :: bool where
  "test_generator_wraps \<longleftrightarrow>
     (case seq_next (SeqGen 0xFFFF) of (a, g) \<Rightarrow> case seq_next g of (b, g) \<Rightarrow> a = 0xFFFF \<and> b = 0 \<and> seq_peek g = 1)"

lemma seq_tests: test_ordering_basic test_ordering_across_wraparound test_diff_signs test_generator_wraps
  by code_simp+

section \<open>The handshake of a client\<close>

text \<open>\<open>"ABC123"\<close>, \<open>"al"\<close>, \<open>"bo"\<close>, \<open>"cy"\<close>, \<open>"late"\<close>, \<open>"host"\<close>, \<open>"x"\<close>\<close>

definition ABC123 :: "u8 list" where "ABC123 = [65, 66, 67, 49, 50, 51]"

definition test_welcome :: control where
  "test_welcome = Welcome 2 42 48000 120 Opus []"

definition test_client_full_join :: bool where
  "test_client_full_join \<longleftrightarrow>
     (case client_start 0 (client_new ABC123 [97, 108]) of (c, a0) \<Rightarrow>
      case client_tick CONTROL_RETRY_MS c of (c, a1) \<Rightarrow>
      case client_tick (CONTROL_RETRY_MS + 10) c of (c, a2) \<Rightarrow>
      case client_on_control test_welcome c of (c, a3) \<Rightarrow>
      case client_on_control test_welcome c of (c', a4) \<Rightarrow>
        (case a0 of CSend (Hello _ _ _ _ _) # _ \<Rightarrow> True | _ \<Rightarrow> False)
        \<and> length a1 = 1 \<and> length a2 = 0
        \<and> (case a3 of StartAudio sid ses _ # _ \<Rightarrow> sid = 2 \<and> ses = 42 | _ \<Rightarrow> False)
        \<and> (case phase c of Joined _ _ _ \<Rightarrow> True | _ \<Rightarrow> False)
        \<and> a4 = [])"

definition test_client_gives_up_after_max_tries :: bool where
  "test_client_gives_up_after_max_tries \<longleftrightarrow>
     (case client_start 0 (client_new ABC123 [97, 108]) of (c, _) \<Rightarrow>
      CFailed Timeout \<in> set (snd (run client_step
        (map (\<lambda>i. CTick (of_nat (i + 1) * CONTROL_RETRY_MS)) [0..<unat (CONTROL_MAX_TRIES + 1)]) c)))"

definition test_client_denied :: bool where
  "test_client_denied \<longleftrightarrow>
     (case client_start 0 (client_new ABC123 [97, 108]) of (c, _) \<Rightarrow>
      case client_on_control (Deny BadRoomCode) c of (c, a) \<Rightarrow>
        (case a of CFailed f # _ \<Rightarrow> f = Denied BadRoomCode | _ \<Rightarrow> False))"

lemma client_tests: test_client_full_join test_client_gives_up_after_max_tries test_client_denied
  by code_simp+

section \<open>The handshake of a host\<close>

definition test_addr :: "u32 \<Rightarrow> socket_addr" where
  "test_addr n = V4 (0x0A000000 + n) 5000"

definition test_hello :: "rust_string \<Rightarrow> control" where
  "test_hello nm = Hello PROTOCOL_VERSION ABC123 nm 1 1"

definition test_host :: host_handshake where
  "test_host = host_new ABC123 42 default_params [104, 111, 115, 116]"

definition test_deny :: "deny_reason \<Rightarrow> host_action list \<Rightarrow> bool" where
  "test_deny r as \<longleftrightarrow> (case as of HSend _ (Deny r') # _ \<Rightarrow> r' = r | _ \<Rightarrow> False)"

text \<open>Whether an action is a WELCOME that is sent, or tells of a player who joined.\<close>

fun is_welcome :: "host_action \<Rightarrow> bool" where
  "is_welcome (HSend _ (Welcome _ _ _ _ _ _)) = True"
| "is_welcome _ = False"

fun is_joined :: "host_action \<Rightarrow> bool" where
  "is_joined (ClientJoined _ _) = True"
| "is_joined _ = False"

fun joined_as :: "u16 \<Rightarrow> host_action \<Rightarrow> bool" where
  "joined_as sid (ClientJoined s _) \<longleftrightarrow> s = sid"
| "joined_as sid _ \<longleftrightarrow> False"

fun roster_to :: "socket_addr \<Rightarrow> host_action \<Rightarrow> player_info list option" where
  "roster_to a (HSend to (Roster ps)) = (if to = a then Some ps else None)"
| "roster_to a _ = None"

text \<open>Players \<open>1\<close> to \<open>n\<close> say HELLO; \<open>ok\<close> is whether each has joined under his number.\<close>

fun test_fill :: "nat \<Rightarrow> host_handshake \<times> bool" where
  "test_fill 0 = (test_host, True)"
| "test_fill (Suc n) =
     (case test_fill n of (h, ok) \<Rightarrow>
      case on_hello (test_addr (of_nat (Suc n))) (test_hello [112, 48 + of_nat (Suc n)]) 0 h of (h, a) \<Rightarrow>
        (h, ok \<and> list_ex (joined_as (of_nat (Suc n))) a))"

definition test_host_assigns_slots_and_denies_when_full :: bool where
  "test_host_assigns_slots_and_denies_when_full \<longleftrightarrow>
     (case test_fill MAX_CLIENTS of (h, ok) \<Rightarrow>
        ok \<and> test_deny RoomFull (snd (on_hello (test_addr 9) (test_hello [108, 97, 116, 101]) 0 h)))"

text \<open>\<open>"WRONG!"\<close>\<close>

definition test_host_rejects_bad_code_and_version :: bool where
  "test_host_rejects_bad_code_and_version \<longleftrightarrow>
     (case on_hello (test_addr 1) (Hello PROTOCOL_VERSION [87, 82, 79, 78, 71, 33] [120] 1 1) 0 test_host of (h, a1) \<Rightarrow>
      case on_hello (test_addr 1) (Hello (PROTOCOL_VERSION + 1) ABC123 [120] 1 1) 0 h of (h, a2) \<Rightarrow>
        test_deny BadRoomCode a1 \<and> test_deny VersionMismatch a2)"

definition test_duplicate_hello_is_idempotent :: bool where
  "test_duplicate_hello_is_idempotent \<longleftrightarrow>
     (case on_hello (test_addr 1) (test_hello [97, 108]) 0 test_host of (h, _) \<Rightarrow>
      case on_hello (test_addr 1) (test_hello [97, 108]) 50 h of (h, a) \<Rightarrow>
        length (filter is_joined a) = 0
        \<and> (case a of HSend _ (Welcome sid _ _ _ _ _) # _ \<Rightarrow> sid = 1 | _ \<Rightarrow> False))"

definition test_welcome_retransmits_then_gives_up :: bool where
  "test_welcome_retransmits_then_gives_up \<longleftrightarrow>
     (case on_hello (test_addr 1) (test_hello [97, 108]) 0 test_host of (h, _) \<Rightarrow>
      let as = snd (run host_step (map (\<lambda>i. ETick (of_nat (i + 1) * CONTROL_RETRY_MS)) [0..<unat (CONTROL_MAX_TRIES + 2)]) h)
      in length (filter is_welcome as) = unat (CONTROL_MAX_TRIES - 1)
         \<and> list_ex (\<lambda>a. case a of ClientLeft _ r \<Rightarrow> r = WelcomeUnacked | _ \<Rightarrow> False) as)"

definition test_ack_activates_pending_client :: bool where
  "test_ack_activates_pending_client \<longleftrightarrow>
     (case on_hello (test_addr 1) (test_hello [97, 108]) 0 test_host of (h, _) \<Rightarrow>
      case on_ack (test_addr 1) 7 10 (welcome_sent (test_addr 1) 7 h) of (h, _) \<Rightarrow>
        list_all (\<lambda>a. \<not> is_welcome a) (snd (host_tick (CONTROL_RETRY_MS + 20) h)))"

definition test_audio_implicitly_acks_welcome :: bool where
  "test_audio_implicitly_acks_welcome \<longleftrightarrow>
     (case on_hello (test_addr 1) (test_hello [97, 108]) 0 test_host of (h, _) \<Rightarrow>
        list_all (\<lambda>a. \<not> is_welcome a) (snd (host_tick (CONTROL_RETRY_MS + 20) (mark_heard 1 10 h))))"

definition test_silent_client_times_out_and_roster_updates :: bool where
  "test_silent_client_times_out_and_roster_updates \<longleftrightarrow>
     (case on_hello (test_addr 1) (test_hello [97, 108]) 0 test_host of (h, _) \<Rightarrow>
      case on_hello (test_addr 2) (test_hello [98, 111]) 0 h of (h, _) \<Rightarrow>
      let as = snd (host_tick (PEER_TIMEOUT_MS + 1000) (mark_heard 2 6000 (mark_heard 1 0 h)))
      in list_ex (\<lambda>a. case a of ClientLeft sid r \<Rightarrow> sid = 1 \<and> r = LeaveTimeout | _ \<Rightarrow> False) as
         \<and> (case List.map_filter (roster_to (test_addr 2)) as of
              [] \<Rightarrow> False
            | ps # _ \<Rightarrow> list_all (\<lambda>p. pid p \<noteq> 1) ps \<and> list_ex (\<lambda>p. pid p = 2) ps))"

definition test_bye_frees_slot_for_reuse :: bool where
  "test_bye_frees_slot_for_reuse \<longleftrightarrow>
     (case on_hello (test_addr 1) (test_hello [97, 108]) 0 test_host of (h, _) \<Rightarrow>
      case on_bye (test_addr 1) h of (h, _) \<Rightarrow>
        list_ex (joined_as 1) (snd (on_hello (test_addr 3) (test_hello [99, 121]) 100 h)))"

definition test_roster_includes_host_and_clients :: bool where
  "test_roster_includes_host_and_clients \<longleftrightarrow>
     (case on_hello (test_addr 1) (test_hello [97, 108]) 0 test_host of (h, _) \<Rightarrow>
        (case host_roster h of
           p # q # _ \<Rightarrow> pid p = HOST_SENDER_ID \<and> pname p = [104, 111, 115, 116] \<and> pid q = 1 \<and> pname q = [97, 108]
         | _ \<Rightarrow> False))"

lemma host_tests:
  test_host_assigns_slots_and_denies_when_full test_host_rejects_bad_code_and_version test_duplicate_hello_is_idempotent
  test_welcome_retransmits_then_gives_up test_ack_activates_pending_client test_audio_implicitly_acks_welcome
  test_silent_client_times_out_and_roster_updates test_bye_frees_slot_for_reuse test_roster_includes_host_and_clients
  by code_simp+

section \<open>The sample FIFO\<close>

fun test_rounds :: "int list \<Rightarrow> int sample_fifo \<Rightarrow> bool" where
  "test_rounds [] f = True"
| "test_rounds (k # ks) f =
     (let block = map (\<lambda>i. 6 * k + i) [0..5] in
      case fifo_push block f of
        Some (f, dropped) \<Rightarrow> dropped = 0
          \<and> (case fifo_pop 6 f of Some (f, Some out) \<Rightarrow> out = block \<and> test_rounds ks f | _ \<Rightarrow> False)
      | None \<Rightarrow> False)"

definition test_push_pop_across_wrap :: bool where
  "test_push_pop_across_wrap \<longleftrightarrow> test_rounds [0..9] (fifo_new 16)"

definition test_pop_fails_when_underfilled :: bool where
  "test_pop_fails_when_underfilled \<longleftrightarrow>
     (case fifo_push [1, 2 :: int] (fifo_new 8) of
        Some (f, _) \<Rightarrow> (case fifo_pop 4 f of Some (f, None) \<Rightarrow> sf_len f = 2 | _ \<Rightarrow> False)
      | None \<Rightarrow> False)"

definition test_overflow_drops_oldest :: bool where
  "test_overflow_drops_oldest \<longleftrightarrow>
     (case Option.bind (fifo_push [1, 2, 3, 4 :: int] (fifo_new 4)) (\<lambda>(f, _). fifo_push [5, 6] f) of
        Some (f, dropped) \<Rightarrow> dropped = 2 \<and> (case fifo_pop 4 f of Some (_, Some out) \<Rightarrow> out = [3, 4, 5, 6] | _ \<Rightarrow> False)
      | None \<Rightarrow> False)"

definition test_giant_push_keeps_newest :: bool where
  "test_giant_push_keeps_newest \<longleftrightarrow>
     (case Option.bind (fifo_push [0, 0 :: int] (fifo_new 4)) (\<lambda>(f, _). fifo_push [0..9] f) of
        Some (f, dropped) \<Rightarrow> dropped = 8 \<and> (case fifo_pop 4 f of Some (_, Some out) \<Rightarrow> out = [6, 7, 8, 9] | _ \<Rightarrow> False)
      | None \<Rightarrow> False)"

lemma fifo_tests: test_push_pop_across_wrap test_pop_fails_when_underfilled test_overflow_drops_oldest test_giant_push_keeps_newest
  by code_simp+

section \<open>The jitter buffer\<close>

text \<open>The 64 slots of 1024 bytes are too large to compute with. The abstract buffer, which the ring refines, is not: a test is
  run there, and holds of the ring by the refinement.\<close>

lemma jb_test_sim:
  assumes "allowed in_window stream_step es None"
  shows "snd (run jb_step (map (map_jb_event word_of_int) es) jb_new) = snd (run stream_step es None)"
  using jitter.run_sim [OF jb_new_rel assms] by simp

definition test_payload :: "u8 \<Rightarrow> u8 list" where "test_payload tag = replicate 40 tag"

text \<open>The packet of a test with number \<open>p\<close>, and the first byte of a frame that was read.\<close>

definition test_push :: "nat \<Rightarrow> 's::comm_semiring_1 \<Rightarrow> 's jb_event" where
  "test_push i start = EvPush (start + of_nat i) (of_nat i * 120) (test_payload (of_nat i))"

fun first_byte :: "jb_output \<Rightarrow> u8 option" where
  "first_byte (OPopped (Some (b # _, _))) = Some b"
| "first_byte _ = None"

definition test_in_order_stream_plays_back :: bool where
  "test_in_order_stream_plays_back \<longleftrightarrow>
     snd (run jb_step (map (\<lambda>i. test_push i 0) [0..<10] @ [EvDepth] @ replicate 10 EvPop @ [EvDepth]) jb_new)
       = replicate 10 (OPushed Stored) @ [ODepth 10]
         @ map (\<lambda>i. OPopped (Some (test_payload (of_nat i), of_nat i * 120))) [0..<10] @ [ODepth 0]"

definition test_reordered_packets_play_in_order :: bool where
  "test_reordered_packets_play_in_order \<longleftrightarrow>
     map first_byte (drop 3 (snd (run jb_step [test_push 0 0, test_push 2 0, test_push 1 0, EvPop, EvPop, EvPop] jb_new)))
       = [Some 0, Some 1, Some 2]"

definition test_duplicate_detected :: bool where
  "test_duplicate_detected \<longleftrightarrow>
     snd (run jb_step [test_push 5 0, test_push 5 0] jb_new) ! 1 = OPushed Duplicate"

definition test_seq_wraparound_is_seamless :: bool where
  "test_seq_wraparound_is_seamless \<longleftrightarrow>
     map first_byte (drop 8 (snd (run jb_step (map (\<lambda>i. test_push i (0xFFFF - 3)) [0..<8] @ replicate 8 EvPop) jb_new)))
       = map (\<lambda>i. Some (of_nat i)) [0..<8]"

definition test_skip_next_drops_stored_frame :: bool where
  "test_skip_next_drops_stored_frame \<longleftrightarrow>
     (case drop 2 (snd (run jb_step [test_push 0 0, test_push 1 0, EvSkip, EvPop] jb_new)) of
        [OSkipped had, r] \<Rightarrow> had \<and> first_byte r = Some 1
      | _ \<Rightarrow> False)"

lemma jb_by_stream:
  assumes "map (map_jb_event word_of_int) es = es'" and "allowed in_window stream_step es None" and "snd (run stream_step es None) = out"
  shows "snd (run jb_step es' jb_new) = out"
  using jb_test_sim [OF assms(2)] assms by simp

lemma jitter_test_in_order: test_in_order_stream_plays_back
  unfolding test_in_order_stream_plays_back_def
  by (rule jb_by_stream [where es = "map (\<lambda>i. test_push i 0) [0..<10] @ [EvDepth] @ replicate 10 EvPop @ [EvDepth]"]) code_simp+

lemma jitter_test_reordered: test_reordered_packets_play_in_order
proof -
  have "snd (run jb_step [test_push 0 0, test_push 2 0, test_push 1 0, EvPop, EvPop, EvPop] jb_new)
      = [OPushed Stored, OPushed Stored, OPushed Stored, OPopped (Some (test_payload 0, 0)),
         OPopped (Some (test_payload 1, 120)), OPopped (Some (test_payload 2, 240))]"
    by (rule jb_by_stream [where es = "[test_push 0 0, test_push 2 0, test_push 1 0, EvPop, EvPop, EvPop]"]) code_simp+
  then show ?thesis by (simp add: test_reordered_packets_play_in_order_def test_payload_def numeral_eq_Suc)
qed

lemma jitter_test_duplicate: test_duplicate_detected
proof -
  have "snd (run jb_step [test_push 5 0, test_push 5 0] jb_new) = [OPushed Stored, OPushed Duplicate]"
    by (rule jb_by_stream [where es = "[test_push 5 0, test_push 5 0]"]) code_simp+
  then show ?thesis by (simp add: test_duplicate_detected_def)
qed

lemma jitter_test_wraparound: test_seq_wraparound_is_seamless
proof -
  have "snd (run jb_step (map (\<lambda>i. test_push i (0xFFFF - 3)) [0..<8] @ replicate 8 EvPop) jb_new)
      = replicate 8 (OPushed Stored) @ map (\<lambda>i. OPopped (Some (test_payload (of_nat i), of_nat i * 120))) [0..<8]"
    by (rule jb_by_stream [where es = "map (\<lambda>i. test_push i (0xFFFF - 3)) [0..<8] @ replicate 8 EvPop"]) code_simp+
  then show ?thesis by (simp add: test_seq_wraparound_is_seamless_def test_payload_def numeral_eq_Suc)
qed

lemma jitter_test_skip: test_skip_next_drops_stored_frame
proof -
  have "snd (run jb_step [test_push 0 0, test_push 1 0, EvSkip, EvPop] jb_new)
      = [OPushed Stored, OPushed Stored, OSkipped True, OPopped (Some (test_payload 1, 120))]"
    by (rule jb_by_stream [where es = "[test_push 0 0, test_push 1 0, EvSkip, EvPop]"]) code_simp+
  then show ?thesis by (simp add: test_skip_next_drops_stored_frame_def test_payload_def numeral_eq_Suc)
qed

text \<open>The two tests that read counters: a frame that never came is concealed, a packet that comes too late is counted.\<close>

definition test_lost_packet_reports_missing_then_recovers :: bool where
  "test_lost_packet_reports_missing_then_recovers \<longleftrightarrow>
     (case run jb_step [test_push 0 0, test_push 2 0, EvPop, EvPop, EvPop] jb_new of
        (b, [_, _, OPopped r1, OPopped r2, OPopped r3]) \<Rightarrow>
          r1 \<noteq> None \<and> r2 = None \<and> r3 \<noteq> None \<and> st_concealed (jstats b) = 1
      | _ \<Rightarrow> False)"

definition test_late_packet_counted_and_rejected :: bool where
  "test_late_packet_counted_and_rejected \<longleftrightarrow>
     (case run jb_step [test_push 0 0, test_push 1 0, EvPop, EvPop, test_push 0 0] jb_new of
        (b, [_, _, _, _, OPushed r]) \<Rightarrow> r = Late \<and> st_late (jstats b) = 1
      | _ \<Rightarrow> False)"

definition test_reset_reprimes :: bool where
  "test_reset_reprimes \<longleftrightarrow>
     (case run jb_step [EvPush 100 0 (test_payload 1), EvPop, EvReset] jb_new of (b, _) \<Rightarrow>
        \<not> started b
        \<and> (case snd (run jb_step [EvPush 40000 0 (test_payload 9), EvPop] b) of
             [OPushed r, OPopped p] \<Rightarrow> r = Stored \<and> p \<noteq> None
           | _ \<Rightarrow> False))"

lemmas jb_ops = jb_new_def jb_push_def Let_def pop_frame_def jb_pop_next_def jb_take_def jb_reset_def slot_index_def SLOTS_def
  jslot_new_def store_slot_def zip_store_def stats_default_def MAX_FRAME_BYTES_def test_payload_def newer_than_def

lemma jitter_test_lost: test_lost_packet_reports_missing_then_recovers
  by (simp add: test_lost_packet_reports_missing_then_recovers_def test_push_def jb_ops)

lemma jitter_test_late: test_late_packet_counted_and_rejected
  by (simp add: test_late_packet_counted_and_rejected_def test_push_def jb_ops)

lemma jitter_test_reset: test_reset_reprimes
  by (simp add: test_reset_reprimes_def jb_ops)

section \<open>The playout policy\<close>

definition test_controller_primes_at_target_depth :: bool where
  "test_controller_primes_at_target_depth \<longleftrightarrow>
     (case pre_pop 0 False (controller_new 120 48000) of (c, p0) \<Rightarrow>
      case pre_pop 1 True c of (c, p1) \<Rightarrow>
      case pre_pop 2 True c of (c, p2) \<Rightarrow> \<not> p0 \<and> \<not> p1 \<and> p2 \<and> primed c)"

definition test_controller_requests_shrink_when_deep :: bool where
  "test_controller_requests_shrink_when_deep \<longleftrightarrow>
     (case pre_pop 2 True (controller_new 120 48000) of (c, _) \<Rightarrow>
      case take_adjustment (observe_depth (i32_add (pc_target c) 2) c) of (c, a1) \<Rightarrow>
      case take_adjustment c of (c, a2) \<Rightarrow> a1 = DropOne \<and> a2 = NoAdjust)"

lemma controller_tests: test_controller_primes_at_target_depth test_controller_requests_shrink_when_deep
  by (simp_all add: test_controller_primes_at_target_depth_def test_controller_requests_shrink_when_deep_def controller_new_def Let_def
      pre_pop_def take_adjustment_def observe_depth_def i32_add_def)

end
