(* ===== verification/Audio_Tests.thy ===== *)
theory Audio_Tests
  imports Unit_Tests Mixer_Meter Resampler Audio_Codec
begin

text \<open>
  More of the repository's unit tests on the model, those that take many steps or compute with reals: of
  \<open>jam-audio/src/mixer.rs\<close>, \<open>meter.rs\<close>, \<open>resample.rs\<close>, the PCM codec in \<open>codec.rs\<close> and the playout policy in \<open>jitter.rs\<close>. A loop of a
  test is a recursion or an iterate. These are proved, not run: the lemmas say what the loop computes.
\<close>

section \<open>The mixer\<close>

text \<open>The loop of the test: the frames until the gain has settled, at most \<open>k\<close>.\<close>

fun frames_to_settle :: "nat \<Rightarrow> smoothed_gain \<Rightarrow> nat" where
  "frames_to_settle k g =
     (case sg_next 1 g of (g, y) \<Rightarrow>
        if \<bar>y - 1\<bar> > 1 / 1000 then (case k of 0 \<Rightarrow> 0 | Suc k \<Rightarrow> Suc (frames_to_settle k g)) else 0)"

definition test_smoothed_gain_converges_in_about_10ms :: bool where
  "test_smoothed_gain_converges_in_about_10ms \<longleftrightarrow>
     (let frames = frames_to_settle 100 (smoothed_gain_new 0 120 48000) in 2 < frames \<and> frames < 40)"

definition test_mix_and_unmix_cancel :: bool where
  "test_mix_and_unmix_cancel \<longleftrightarrow>
     (let src = replicate 8 (1 / 2); dst = replicate 8 0;
          dst = mix_scaled dst src (8 / 10);
          dst = unmix_scaled dst src (8 / 10)
      in list_all (\<lambda>x. \<bar>x\<bar> < 1 / 10000000) dst)"

definition test_soft_clip_is_transparent_when_quiet_and_bounded_when_loud :: bool where
  "test_soft_clip_is_transparent_when_quiet_and_bounded_when_loud \<longleftrightarrow>
     \<bar>soft_clip (1 / 10) - 997 / 10000\<bar> < 1 / 1000 \<and> soft_clip 2 = 2 / 3 \<and> soft_clip (- 2) = - 2 / 3
     \<and> \<bar>soft_clip 1 - 2 / 3\<bar> < 1 / 1000000
     \<and> sorted (- 2 # map (\<lambda>i. soft_clip (real_of_int i / 10)) [- 20..20])"

lemma frames_to_settle_le:
  "\<bar>sg_current (gain_after (Suc m) 1 g) - 1\<bar> \<le> 1 / 1000 \<Longrightarrow> frames_to_settle k g \<le> m"
proof (induction m arbitrary: k g)
  case 0
  then show ?case by (simp add: sg_next_def Let_def)
next
  case (Suc m)
  have "gain_after (Suc (Suc m)) 1 g = gain_after (Suc m) 1 (fst (sg_next 1 g))"
    by (simp only: gain_after_def funpow_Suc_right [of "Suc m"] comp_apply)
  with Suc show ?case by (cases k) (simp_all add: case_prod_unfold del: gain_after_simps)
qed

lemma frames_to_settle_more:
  assumes "\<bar>sg_current (fst (sg_next 1 g)) - 1\<bar> > 1 / 1000"
  shows "frames_to_settle (Suc k) g = Suc (frames_to_settle k (fst (sg_next 1 g)))"
proof -
  have "snd (sg_next 1 g) = sg_current (fst (sg_next 1 g))" by (simp add: sg_next_def Let_def)
  with assms show ?thesis by (simp add: case_prod_unfold)
qed

text \<open>A step keeps three quarters of the distance, away from the point where it snaps.\<close>

lemma sg_next_slow:
  assumes "sg_alpha g \<le> 1 / 4" and "1 / 1000 \<le> \<bar>sg_current g - 1\<bar>"
  shows "3 / 4 * \<bar>sg_current g - 1\<bar> \<le> \<bar>sg_current (fst (sg_next 1 g)) - 1\<bar>"
proof -
  let ?u = "sg_current g + (1 - sg_current g) * sg_alpha g"
  have "?u - 1 = (1 - sg_alpha g) * (sg_current g - 1)" by (simp add: algebra_simps)
  then have "\<bar>?u - 1\<bar> = (1 - sg_alpha g) * \<bar>sg_current g - 1\<bar>" using assms(1) by (simp add: abs_mult)
  moreover have "3 / 4 * \<bar>sg_current g - 1\<bar> \<le> (1 - sg_alpha g) * \<bar>sg_current g - 1\<bar>"
    using assms(1) by (intro mult_right_mono) simp_all
  ultimately have "3 / 4 * \<bar>sg_current g - 1\<bar> \<le> \<bar>?u - 1\<bar>" by simp
  moreover have "1 / 10000 \<le> 3 / 4 * \<bar>sg_current g - 1\<bar>" using assms(2) by simp
  then have "\<not> \<bar>?u - 1\<bar> < 1 / 10000" using calculation unfolding not_less by (rule order_trans)
  ultimately show ?thesis by (simp add: sg_next_def Let_def)
qed

lemma mixer_test_gain: test_smoothed_gain_converges_in_about_10ms
proof -
  let ?g = "smoothed_gain_new 0 120 48000"
  have g: "sg_alpha ?g = 1 - exp (- 1 / 4)" "sg_current ?g = 0" by (simp_all add: smoothed_gain_new_def Let_def)
  have small: "sg_alpha ?g \<le> 1 / 4" using exp_ge_add_one_self [of "- 1 / 4"] by (simp add: g)
  have "(2 :: real) ^ 10 \<le> exp 1 ^ 10" using exp_ge_add_one_self [of 1] by (intro power_mono) simp_all
  then have "1000 < exp (10 :: real)" by (simp flip: exp_of_nat_mult)
  then have "exp (- 1 / 4 :: real) ^ 40 \<le> 1 / 1000" by (simp add: exp_minus field_simps flip: exp_of_nat_mult)
  then have "\<bar>sg_current (gain_after (Suc 39) 1 ?g) - 1\<bar> \<le> 1 / 1000"
    using gain_after_error [of ?g 40 1] g by simp
  then have up: "frames_to_settle 100 ?g \<le> 39" by (rule frames_to_settle_le)
  let ?f = "\<lambda>g. fst (sg_next 1 g)"
  have 1: "3 / 4 \<le> \<bar>sg_current (?f ?g) - 1\<bar>" using sg_next_slow [of ?g] small by (simp add: g(2))
  have 2: "9 / 16 \<le> \<bar>sg_current (?f (?f ?g)) - 1\<bar>" using sg_next_slow [of "?f ?g"] small 1 by simp
  have 3: "27 / 64 \<le> \<bar>sg_current (?f (?f (?f ?g))) - 1\<bar>" using sg_next_slow [of "?f (?f ?g)"] small 2 by simp
  have "1 / 1000 < \<bar>sg_current (?f ?g) - 1\<bar>" "1 / 1000 < \<bar>sg_current (?f (?f ?g)) - 1\<bar>"
    "1 / 1000 < \<bar>sg_current (?f (?f (?f ?g))) - 1\<bar>" using 1 2 3 by linarith+
  then have "frames_to_settle (Suc (Suc (Suc 97))) ?g = Suc (Suc (Suc (frames_to_settle 97 (?f (?f (?f ?g))))))"
    by (simp only: frames_to_settle_more)
  with up show ?thesis by (simp add: test_smoothed_gain_converges_in_about_10ms_def Let_def del: frames_to_settle.simps)
qed

lemma mixer_tests: test_mix_and_unmix_cancel test_soft_clip_is_transparent_when_quiet_and_bounded_when_loud
proof -
  show test_mix_and_unmix_cancel by (simp add: test_mix_and_unmix_cancel_def Let_def mix_inverse list_all_iff)
  have s: "sorted (map (\<lambda>i. soft_clip (real_of_int i / 10)) [- 20..20])"
    by (rule sorted_map_mono) (auto simp: mono_on_def intro!: soft_clip_mono)
  have low: "- 2 \<le> soft_clip x" for x using soft_clip_range [of x] by linarith
  have "sorted (- 2 # map (\<lambda>i. soft_clip (real_of_int i / 10)) [- 20..20])"
    unfolding sorted_simps(2) set_map using s low by blast
  moreover have "\<bar>soft_clip (1 / 10) - 997 / 10000\<bar> < 1 / 1000 \<and> soft_clip 2 = 2 / 3 \<and> soft_clip (- 2) = - 2 / 3
     \<and> \<bar>soft_clip 1 - 2 / 3\<bar> < 1 / 1000000" by (simp add: soft_clip_def)
  ultimately show test_soft_clip_is_transparent_when_quiet_and_bounded_when_loud
    unfolding test_soft_clip_is_transparent_when_quiet_and_bounded_when_loud_def by blast
qed

section \<open>The meter\<close>

definition test_peak_decays_after_transient :: bool where
  "test_peak_decays_after_transient \<longleftrightarrow>
     (let m = meter_update (replicate 120 (9 / 10)) meter_new;
          m = (meter_update (replicate 120 0) ^^ 800) m
      in lv_peak (meter_publish m level_default) < 5 / 100)"

definition test_db_conversion :: bool where
  "test_db_conversion \<longleftrightarrow> linear_to_db 0 = - 120 \<and> \<bar>linear_to_db 1\<bar> < 1 / 10000 \<and> \<bar>linear_to_db (1 / 2) + 602 / 100\<bar> < 1 / 10"

lemma scan_silence: "0 \<le> p \<Longrightarrow> meter_scan (replicate n 0) p q = (p, q)"
  by (induction n) simp_all

lemma scan_constant: "0 \<le> x \<Longrightarrow> fst (meter_scan (replicate n x) p q) = (if 0 < n then max x p else p)"
  by (induction n arbitrary: p q) (auto simp: Let_def)

lemma silence_decays:
  "0 \<le> m_peak m \<Longrightarrow> m_peak ((meter_update (replicate n 0) ^^ k) m) = m_peak m * (995 / 1000) ^ k"
proof (induction k)
  case (Suc k)
  then show ?case by (simp add: meter_update_def scan_silence Let_def)
qed simp

lemma meter_test_peak: test_peak_decays_after_transient
proof -
  have "(995 / 1000 :: real) ^ 100 \<le> 61 / 100" by (simp add: power_divide)
  then have "((995 / 1000 :: real) ^ 100) ^ 8 \<le> (61 / 100) ^ 8" by (rule power_mono) simp
  also have "\<dots> < 2 / 100" by (simp add: power_divide)
  finally have "9 / 10 * (995 / 1000 :: real) ^ 800 < 5 / 100" by (simp flip: power_mult)
  moreover have hit: "m_peak (meter_update (replicate 120 (9 / 10)) meter_new) = 9 / 10"
    by (simp add: meter_update_def scan_constant meter_new_def Let_def case_prod_unfold)
  have "m_peak ((meter_update (replicate 120 0) ^^ 800) (meter_update (replicate 120 (9 / 10)) meter_new)) = 9 / 10 * (995 / 1000) ^ 800"
    by (subst silence_decays) (simp only: hit, simp, simp only: hit)
  ultimately show ?thesis by (simp add: test_peak_decays_after_transient_def Let_def meter_publish_def)
qed

lemma log_2_bounds: "3 / 10 < log 10 (2 :: real)" "log 10 (2 :: real) < 7 / 23"
proof -
  have "log 10 (1000 :: real) < log 10 (2 ^ 10)" by (subst log_less_cancel_iff) simp_all
  moreover have "log 10 (1000 :: real) = 3" using log_pow_cancel [of "10 :: real" 3] by simp
  ultimately show "3 / 10 < log 10 (2 :: real)" using log_nat_power [of 2 10 10] by simp
  have "log 10 (2 ^ 23 :: real) < log 10 (10 ^ 7)" by (subst log_less_cancel_iff) simp_all
  moreover have "log 10 (2 ^ 23 :: real) = 23 * log 10 2" using log_nat_power [of 2 10 23] by simp
  moreover have "log 10 (10 ^ 7 :: real) = 7" using log_pow_cancel [of "10 :: real" 7] by simp
  ultimately show "log 10 (2 :: real) < 7 / 23" by linarith
qed

lemma meter_test_db: test_db_conversion
proof -
  have "linear_to_db (1 / 2) = - (20 * log 10 2)" by (simp add: linear_to_db_def log_divide)
  then have "\<bar>linear_to_db (1 / 2) + 602 / 100\<bar> < 1 / 10" using log_2_bounds by linarith
  then show ?thesis by (simp add: test_db_conversion_def linear_to_db_def)
qed

section \<open>The playout policy over many frames\<close>

definition post_pops :: "nat \<Rightarrow> bool \<Rightarrow> real \<Rightarrow> playout_controller \<Rightarrow> playout_controller" where
  "post_pops n hit j c = ((\<lambda>c. fst (post_pop hit j c)) ^^ n) c"

definition test_controller_requests_growth_when_shallow :: bool where
  "test_controller_requests_growth_when_shallow \<longleftrightarrow>
     (case pre_pop 2 True (controller_new 120 48000) of (c, _) \<Rightarrow>
        let c = post_pops 1000 True 20000 c
        in 3 < pc_target c \<and> snd (take_adjustment (observe_depth 1 c)) = InsertOne)"

text \<open>The loop of the test: the reset is seen within \<open>k\<close> misses, and the loop stops there.\<close>

fun outage_loop :: "nat \<Rightarrow> playout_controller \<Rightarrow> playout_controller \<times> bool" where
  "outage_loop 0 c = (c, False)"
| "outage_loop (Suc k) c = (case post_pop False 0 c of (c, r) \<Rightarrow> if r then (c, True) else outage_loop k c)"

definition test_controller_resets_after_prolonged_outage :: bool where
  "test_controller_resets_after_prolonged_outage \<longleftrightarrow>
     (case pre_pop 2 True (controller_new 120 48000) of (c, _) \<Rightarrow>
      case outage_loop 300 c of (c, reset) \<Rightarrow> reset \<and> \<not> primed c)"

definition test_controller_target_tracks_jitter :: bool where
  "test_controller_target_tracks_jitter \<longleftrightarrow>
     (case pre_pop 2 True (controller_new 120 48000) of (c, _) \<Rightarrow>
        let c = post_pops 1000 True 0 c; c' = post_pops 1000 True 5000 c
        in pc_target c = 2 \<and> pc_target c' = 8)"

text \<open>The controller of the tests: it evaluates its target every 800 frames and resets after 200 misses.\<close>

definition tuned :: "nat \<Rightarrow> int \<Rightarrow> playout_controller \<Rightarrow> bool" where
  "tuned m t c \<longleftrightarrow> frame_us c = 2500 \<and> min_frames c = 2 \<and> max_frames c = 20 \<and> pc_k c = 3 \<and> pc_target c = t
     \<and> eval_interval_frames c = 800 \<and> frames_since_eval c = of_nat m \<and> primed c \<and> pc_pending c = NoAdjust \<and> deadband c = 1
     \<and> consecutive_misses c = 0 \<and> reset_after_misses c = 200"

definition target_for :: "real \<Rightarrow> int" where
  "target_for j = i32_clamp (i32_add 2 (ceil_i32 (3 * j / 2500))) 2 20"

lemma tuned_start: "tuned 0 2 (fst (pre_pop 2 True (controller_new 120 48000)))"
  by (simp add: tuned_def pre_pop_def controller_new_def Let_def f_to_u32_def)

lemma tuned_post_pop:
  assumes "tuned m t c" and "m < 800"
  shows "if m = 799 then tuned 0 (target_for j) (fst (post_pop True j c)) else tuned (Suc m) t (fst (post_pop True j c))"
proof -
  have "(of_nat m :: u32) + 1 = of_nat (Suc m)" by simp
  moreover have "(800 \<le> (of_nat (Suc m) :: u32)) \<longleftrightarrow> m = 799"
  proof -
    have "unat (of_nat (Suc m) :: u32) = Suc m" using assms(2) by (subst unsigned_of_nat) (simp add: take_bit_nat_eq_self)
    then show ?thesis using assms(2) by (auto simp: word_le_nat_alt simp del: of_nat_Suc)
  qed
  ultimately show ?thesis using assms(1)
    by (auto simp: post_pop_def tuned_def target_for_def Let_def simp del: of_nat_Suc)
qed

lemma tuned_post_pops:
  assumes "tuned m t c" and "m < 800"
  shows "tuned ((m + n) mod 800) (if m + n < 800 then t else target_for j) (post_pops n True j c)"
proof (induction n)
  case 0
  with assms show ?case by (simp add: post_pops_def)
next
  case (Suc n)
  have "post_pops (Suc n) True j c = fst (post_pop True j (post_pops n True j c))" by (simp add: post_pops_def)
  with tuned_post_pop [OF Suc, of j] show ?case by (auto simp: mod_Suc split: if_splits)
qed

lemma target_for_values: "target_for 0 = 2" "target_for 5000 = 8" "target_for 20000 = 20"
  by (simp_all add: target_for_def ceil_i32_def i32_exact i32_clamp_def)

lemma jitter_test_growth: test_controller_requests_growth_when_shallow
proof -
  have "tuned 200 20 (post_pops 1000 True 20000 (fst (pre_pop 2 True (controller_new 120 48000))))"
    using tuned_post_pops [OF tuned_start, of 1000 20000] by (simp add: target_for_values)
  then show ?thesis
    by (simp add: test_controller_requests_growth_when_shallow_def case_prod_unfold Let_def tuned_def
        take_adjustment_def observe_depth_def i32_exact)
qed

lemma jitter_test_tracks: test_controller_target_tracks_jitter
proof -
  let ?c = "fst (pre_pop 2 True (controller_new 120 48000))"
  have 1: "tuned 200 2 (post_pops 1000 True 0 ?c)"
    using tuned_post_pops [OF tuned_start, of 1000 0] by (simp add: target_for_values)
  have "tuned 400 8 (post_pops 1000 True 5000 (post_pops 1000 True 0 ?c))"
    using tuned_post_pops [OF 1, of 1000 5000] by (simp add: target_for_values)
  with 1 show ?thesis by (simp add: test_controller_target_tracks_jitter_def case_prod_unfold Let_def tuned_def)
qed

lemma outage_loop_resets:
  assumes "unat (consecutive_misses c) + Suc k = unat (reset_after_misses c)"
  shows "snd (outage_loop (Suc k + i) c) \<and> \<not> primed (fst (outage_loop (Suc k + i) c))"
  using assms
proof (induction k arbitrary: c)
  case 0
  with post_pop_resets [of c 0] show ?case by (simp add: case_prod_unfold)
next
  case (Suc k)
  then have "unat (consecutive_misses c) + 1 < unat (reset_after_misses c)" by simp
  note step = post_pop_counts [OF this, of 0]
  have "snd (outage_loop (Suc k + i) (fst (post_pop False 0 c))) \<and> \<not> primed (fst (outage_loop (Suc k + i) (fst (post_pop False 0 c))))"
    by (rule Suc.IH) (use Suc.prems step in simp)
  with step(1) show ?case by (simp add: case_prod_unfold)
qed

lemma jitter_test_outage: test_controller_resets_after_prolonged_outage
  using outage_loop_resets [of "fst (pre_pop 2 True (controller_new 120 48000))" 199 100] tuned_start
  by (simp add: test_controller_resets_after_prolonged_outage_def case_prod_unfold tuned_def del: outage_loop.simps)

section \<open>Arrival jitter\<close>

text \<open>The two loops of the test: packets on time, then every other one a millisecond late.\<close>

definition on_time :: "nat \<Rightarrow> arrival_jitter \<Rightarrow> arrival_jitter" where
  "on_time i a = fst (on_arrival (of_nat i * 2500) (of_nat i * 2500) a)"

definition wobbly :: "nat \<Rightarrow> arrival_jitter \<Rightarrow> arrival_jitter" where
  "wobbly i a = fst (on_arrival (of_nat i * 2500 + (if i mod 2 = 0 then 1000 else 0)) (of_nat i * 2500) a)"

definition test_arrival_jitter_converges :: bool where
  "test_arrival_jitter_converges \<longleftrightarrow>
     (let a = fold on_time [0..<100] arrival_new; b = fold wobbly [100..<300] a
      in j_us a < 1 \<and> 900 < j_us b \<and> j_us b \<le> 1000)"

lemma all_on_time: "0 < n \<Longrightarrow> j_us (fold on_time [0..<n] arrival_new) = 0
    \<and> (\<exists>p. aj_prev (fold on_time [0..<n] arrival_new) = Some p \<and> transit (fst p) (snd p) = 0)"
proof (induction n)
  case (Suc n)
  then show ?case by (cases n) (auto simp: on_time_def on_arrival_def arrival_new_def transit_def Let_def)
qed simp

lemma wobbly_step:
  assumes "aj_prev a = Some p" and "transit (fst p) (snd p) = (if i mod 2 = 0 then 0 else 1000)"
  shows "j_us (wobbly i a) = j_us a + (1000 - j_us a) / 16
    \<and> (\<exists>p. aj_prev (wobbly i a) = Some p \<and> transit (fst p) (snd p) = (if Suc i mod 2 = 0 then 0 else 1000))"
  using assms by (auto simp: wobbly_def on_arrival_def transit_def Let_def case_prod_unfold) presburger+

lemma all_wobbly:
  assumes "aj_prev a = Some p" and "transit (fst p) (snd p) = 0" and "j_us a = 0"
  shows "j_us (fold wobbly [100..<100 + n] a) = 1000 * (1 - (15 / 16) ^ n)
    \<and> (\<exists>p. aj_prev (fold wobbly [100..<100 + n] a) = Some p \<and> transit (fst p) (snd p) = (if (100 + n) mod 2 = 0 then 0 else 1000))"
proof (induction n)
  case (Suc n)
  then obtain p where "aj_prev (fold wobbly [100..<100 + n] a) = Some p"
    "transit (fst p) (snd p) = (if (100 + n) mod 2 = 0 then 0 else 1000)" by blast
  note step = wobbly_step [OF this]
  have unf: "fold wobbly [100..<100 + Suc n] a = wobbly (100 + n) (fold wobbly [100..<100 + n] a)"
    by (simp only: add_Suc_right upt_Suc le_add1 if_True fold_append fold.simps comp_apply id_apply)
  have "j_us (wobbly (100 + n) (fold wobbly [100..<100 + n] a)) = 1000 * (1 - (15 / 16) ^ Suc n)"
    unfolding step [THEN conjunct1] Suc [THEN conjunct1] by (simp add: field_simps)
  with step show ?case unfolding unf unfolding add_Suc_right by blast
qed (use assms in simp)

lemma jitter_test_arrival: test_arrival_jitter_converges
proof -
  let ?a = "fold on_time [0..<100] arrival_new"
  obtain p where a: "j_us ?a = 0" "aj_prev ?a = Some p" "transit (fst p) (snd p) = 0" using all_on_time [of 100] by auto
  have "(15 / 16 :: real) ^ 200 = ((15 / 16) ^ 50) ^ 4" by (simp flip: power_mult)
  also have "\<dots> \<le> (1 / 10) ^ 4" by (rule power_mono) (simp_all add: power_divide)
  finally have "(15 / 16 :: real) ^ 200 < 1 / 10" by (simp add: power_divide)
  moreover have "j_us (fold wobbly [100..<300] ?a) = 1000 * (1 - (15 / 16) ^ 200)"
    using all_wobbly [OF a(2,3,1), of 200] by simp
  ultimately show ?thesis using a(1) by (simp add: test_arrival_jitter_converges_def Let_def)
qed

section \<open>The resampler and the drift controller\<close>

definition test_unity_ratio_passes_signal_through :: bool where
  "test_unity_ratio_passes_signal_through \<longleftrightarrow>
     (let input = map (\<lambda>i. sin (real i * (5 / 100))) [0..<4800]
      in case rs_process input 5000 resampler_new of
           Some (_, out) \<Rightarrow>
             \<bar>int (length out) - int (length input)\<bar> \<le> 3
             \<and> (\<forall>i \<in> {10..<length out - 10}. \<bar>out ! i - input ! (i + 1)\<bar> < 1 / 1000)
         | None \<Rightarrow> False)"

definition test_ratio_changes_output_count :: bool where
  "test_ratio_changes_output_count \<longleftrightarrow>
     (let input = replicate 10000 0 in
      (case rs_process input 11000 (set_ratio (101 / 100) resampler_new) of
         Some (_, out) \<Rightarrow> \<bar>real (length out) - 10000 * (101 / 100)\<bar> < 20 | None \<Rightarrow> False)
      \<and> (case rs_process input 11000 (set_ratio (99 / 100) resampler_new) of
         Some (_, out) \<Rightarrow> \<bar>real (length out) - 10000 * (99 / 100)\<bar> < 20 | None \<Rightarrow> False))"

definition test_drift_controller_is_slew_limited :: bool where
  "test_drift_controller_is_slew_limited \<longleftrightarrow>
     (case drift_update 1000 drift_new of (_, r1) \<Rightarrow> \<bar>r1 - 1\<bar> \<le> 6 / 10000000)"

text \<open>At ratio one, from phase zero, every input after the first three gives one output, the sample two
  before it, whatever the signal.\<close>

lemma unity_loop:
  "\<lbrakk>rs_h s = (h0, h1, h2, h3); rs_phase s = 0; rs_primed s = 3; length out + length xs \<le> cap\<rbrakk> \<Longrightarrow>
   \<exists>s'. process_loop 1 cap xs s out = Some (s', out @ take (length xs) (h2 # h3 # xs))"
proof (induction xs arbitrary: s out h0 h1 h2 h3)
  case (Cons x xs)
  let ?s = "s\<lparr>rs_h := (h1, h2, h3, x), rs_phase := 0\<rparr>"
  have "emit_loop 1 cap (h1, h2, h3, x) 0 out = Some (1, out @ [h2])"
    using Cons.prems(4) by (simp add: emit_loop.simps [of 1 cap] interpolate_def)
  then have "process_loop 1 cap (x # xs) s out = process_loop 1 cap xs ?s (out @ [h2])"
    using Cons.prems by (simp add: Let_def)
  moreover have "\<exists>s'. process_loop 1 cap xs ?s (out @ [h2]) = Some (s', (out @ [h2]) @ take (length xs) (h3 # x # xs))"
    by (rule Cons.IH) (use Cons.prems in simp_all)
  ultimately show ?case by simp
qed simp

lemma unity_passes:
  assumes "length xs + 3 \<le> cap"
  shows "\<exists>s'. rs_process (a # b # c # xs) cap resampler_new = Some (s', take (length xs) (b # c # xs))"
proof -
  let ?s = "\<lparr>rs_h = (0, a, b, c), rs_phase = 0, rs_ratio = 1, rs_primed = 3\<rparr>"
  have "rs_process (a # b # c # xs) cap resampler_new = process_loop 1 cap xs ?s []"
    by (simp add: rs_process_def resampler_new_def Let_def numeral_3_eq_3)
  moreover obtain s' where "process_loop 1 cap xs ?s [] = Some (s', [] @ take (length xs) (b # c # xs))"
    using unity_loop [of ?s 0 a b c "[]" xs cap] assms by auto
  ultimately show ?thesis by simp
qed

lemma resample_test_unity: test_unity_ratio_passes_signal_through
proof -
  define xs where "xs = map (\<lambda>i. sin (real i * (5 / 100))) [0..<4800]"
  have len: "length xs = Suc (Suc (Suc 4797))" by (simp add: xs_def)
  then obtain a b c ys where ys: "xs = a # b # c # ys" "length ys = 4797"
    unfolding length_Suc_conv by blast
  from unity_passes [of ys 5000 a b c] ys(2) obtain s' out where
    r: "rs_process xs 5000 resampler_new = Some (s', out)" and out: "out = take 4797 (b # c # ys)" by (auto simp: ys(1))
  have "out ! i = xs ! (i + 1)" if "i < 4797" for i unfolding out nth_take [OF that] ys(1) by simp
  moreover have "length out = 4797" using ys(2) by (simp add: out)
  ultimately show ?thesis using len unfolding test_unity_ratio_passes_signal_through_def Let_def xs_def [symmetric] r by simp
qed

lemma counts_at_ratio:
  assumes "98 / 100 \<le> r" and "r \<le> 102 / 100" and "3 \<le> length xs" and "real (length xs) * r + 102 / 98 \<le> real cap"
  shows "\<exists>s' out. rs_process xs cap (set_ratio r resampler_new) = Some (s', out)
    \<and> \<bar>real (length out) - real (length xs) * r\<bar> < 5"
proof -
  let ?s = "set_ratio r resampler_new"
  have s: "rs_ratio ?s = r" "rs_phase ?s = 0" "rs_primed ?s = 0"
    using assms(1,2) by (simp_all add: set_ratio_def resampler_new_def f_clamp_def)
  from rs_process_returns [of ?s xs cap] assms(4) s obtain s' out where
    p: "rs_process xs cap ?s = Some (s', out)" "rs_ok s'" "real (length out) = (rs_phase s' + real (length xs - 3)) * r" by auto
  have "real (length xs - 3) = real (length xs) - 3" using assms(3) by simp
  then have d: "real (length out) - real (length xs) * r = (rs_phase s' - 3) * r" using p(3) by (simp add: algebra_simps)
  have "\<bar>rs_phase s' - 3\<bar> \<le> 3" using p(2) by (simp add: rs_ok_def)
  then have "\<bar>rs_phase s' - 3\<bar> * r \<le> 3 * (102 / 100)" using assms(1,2) by (intro mult_mono) simp_all
  then have "\<bar>real (length out) - real (length xs) * r\<bar> < 5" using assms(1) by (simp add: d abs_mult)
  with p(1) show ?thesis by blast
qed

lemma resample_test_count: test_ratio_changes_output_count
  using counts_at_ratio [of "101 / 100" "replicate 10000 0" 11000] counts_at_ratio [of "99 / 100" "replicate 10000 0" 11000]
  by (auto simp: test_ratio_changes_output_count_def Let_def)

lemma resample_test_slew: test_drift_controller_is_slew_limited
  by (simp add: test_drift_controller_is_slew_limited_def drift_update_def drift_new_def f_clamp_def Let_def)

section \<open>The PCM codec\<close>

definition test_tone :: "nat \<Rightarrow> real list" where
  "test_tone n = map (\<lambda>i. sin (2 * pi * 440 * real i / 48000) * (1 / 2)) [0..<n]"

text \<open>A frame of the tone through an encoder and a decoder: the bytes and the samples that come back.\<close>

definition test_there_and_back :: "('e, 'd) media_lib \<Rightarrow> codec \<Rightarrow> (u8 list \<Rightarrow> real list \<Rightarrow> bool) \<Rightarrow> bool" where
  "test_there_and_back lib c ok \<longleftrightarrow>
     (case (encoder_new lib c 48000 0, decoder_new lib c 48000) of
        (Some en, Some de) \<Rightarrow>
          (case encode lib (test_tone 120) 1024 en of
             (_, Ok bs) \<Rightarrow>
               (case decode lib (Some bs) (replicate 120 0) de of (_, pcm_out, Ok _) \<Rightarrow> ok bs pcm_out | _ \<Rightarrow> False)
           | _ \<Rightarrow> False)
      | _ \<Rightarrow> False)"

definition test_pcm_s16_roundtrip :: "('e, 'd) media_lib \<Rightarrow> bool" where
  "test_pcm_s16_roundtrip lib \<longleftrightarrow> test_there_and_back lib PcmS16 (\<lambda>bs pcm_out.
     length bs = 120 * 2 \<and> list_all (\<lambda>(a, b). \<bar>a - b\<bar> < 1 / 1000) (zip (test_tone 120) pcm_out))"

definition test_pcm_f32_roundtrip_is_bit_exact :: "('e, 'd) media_lib \<Rightarrow> bool" where
  "test_pcm_f32_roundtrip_is_bit_exact lib \<longleftrightarrow> test_there_and_back lib PcmF32 (\<lambda>_ pcm_out. test_tone 120 = pcm_out)"

definition test_pcm_rejects_bad_length :: "('e, 'd) media_lib \<Rightarrow> bool" where
  "test_pcm_rejects_bad_length lib \<longleftrightarrow>
     (case decoder_new lib PcmS16 48000 of
        Some de \<Rightarrow> (case decode lib (Some (replicate 7 0)) (replicate 120 0) de of (_, _, Err _) \<Rightarrow> True | _ \<Rightarrow> False)
      | None \<Rightarrow> False)"

lemma tone_in_range: "x \<in> set (test_tone n) \<Longrightarrow> clamp1 x = x"
proof -
  assume "x \<in> set (test_tone n)"
  then obtain y where y: "x = sin y * (1 / 2)" by (auto simp: test_tone_def)
  have "\<bar>sin y\<bar> \<le> 1" by simp
  then have "- 1 \<le> x" "x \<le> 1" unfolding y by linarith+
  then show ?thesis by (simp add: clamp1_def)
qed

lemma length_tone [simp]: "length (test_tone n) = n"
  by (simp add: test_tone_def)

lemma codec_test_s16: "test_pcm_s16_roundtrip lib"
proof -
  let ?en = "\<lparr>en_codec = PcmS16, en_opus = None\<rparr>" and ?de = "\<lparr>de_codec = PcmS16, de_opus = None\<rparr>"
  from pcm_roundtrip [of ?en PcmS16 ?de 2 "replicate 120 0" "test_tone 120" 1024 lib] obtain bs pcm_out where
    r: "encode lib (test_tone 120) 1024 ?en = (?en, Ok bs)" "length bs = 240"
      "decode lib (Some bs) (replicate 120 0) ?de = (?de, pcm_out, Ok ())" "length pcm_out = 120"
      "\<forall>i < 120. \<bar>pcm_out ! i - clamp1 (test_tone 120 ! i)\<bar> < 1 / 32767" by auto
  have "\<bar>test_tone 120 ! i - pcm_out ! i\<bar> < 1 / 1000" if "i < 120" for i
  proof -
    have "test_tone 120 ! i \<in> set (test_tone 120)" using that by simp
    from tone_in_range [OF this] r(5) that have "\<bar>pcm_out ! i - test_tone 120 ! i\<bar> < 1 / 32767" by auto
    then show ?thesis by linarith
  qed
  then have "list_all (\<lambda>(a, b). \<bar>a - b\<bar> < 1 / 1000) (zip (test_tone 120) pcm_out)"
    by (auto simp: list_all_iff in_set_zip)
  with r show ?thesis
    by (simp add: test_pcm_s16_roundtrip_def test_there_and_back_def encoder_new_def decoder_new_def)
qed

lemma codec_test_f32:
  assumes "\<And>x. x \<in> set (test_tone 120) \<Longrightarrow> ml_of_bits lib (ml_bits lib x) = x"
  shows "test_pcm_f32_roundtrip_is_bit_exact lib"
proof -
  let ?en = "\<lparr>en_codec = PcmF32, en_opus = None\<rparr>" and ?de = "\<lparr>de_codec = PcmF32, de_opus = None\<rparr>"
  from pcm_roundtrip [of ?en PcmF32 ?de 4 "replicate 120 0" "test_tone 120" 1024 lib] obtain bs pcm_out where
    r: "encode lib (test_tone 120) 1024 ?en = (?en, Ok bs)"
      "decode lib (Some bs) (replicate 120 0) ?de = (?de, pcm_out, Ok ())" "length pcm_out = 120"
      "\<forall>i < 120. pcm_out ! i = ml_of_bits lib (ml_bits lib (test_tone 120 ! i))" by auto
  have "test_tone 120 = pcm_out" by (rule nth_equalityI) (use r(3,4) assms in simp_all)
  with r show ?thesis
    by (simp add: test_pcm_f32_roundtrip_is_bit_exact_def test_there_and_back_def encoder_new_def decoder_new_def)
qed

lemma codec_test_bad_length: "test_pcm_rejects_bad_length lib"
  by (simp add: test_pcm_rejects_bad_length_def decoder_new_def decode_def decode_pcm_def)

end
