(* ===== verification/Spec2Isabelle.thy ===== *)
theory Spec2Isabelle
  imports Latency_Measure Slot_Race Audio_Tests
begin

text \<open>
  \<^bold>\<open>What the program is.\<close> \<open>jam\<close> lets up to five musicians play together over UDP: one process hosts,
  up to four join with a room code. Each process has a receive thread, a transmit thread, a
  control thread and the audio callback of the sound card; they share atomics and lock-free buffers.
  A client's callback encodes its captured frame into a datagram; the host's receive thread checks the
  sender's address and puts the frame into the jitter buffer of the sender's slot; the host's callback
  decodes one frame per slot, mixes, and sends every client the mix without its own signal. The
  control threads run the handshake (HELLO, WELCOME, ACK, keepalives, PING, BYE) and tell the other
  threads which address owns which slot.

  \<^bold>\<open>Which theory models which file\<close> (paths under \<open>src/crates/\<close>). \<open>Jam_Prelude\<close>: outcomes, slices and
  byte order, event machines and their contracts. \<open>Seq_Arith\<close>: \<open>jam-protocol/src/seq.rs\<close>. \<open>Wire_Types\<close>,
  \<open>Wire_Cursor\<close>, \<open>Wire_Packet\<close>: \<open>jam-protocol/src/lib.rs\<close> and \<open>packet.rs\<close>, all types, readers, writers and
  parsers. \<open>Client_Handshake\<close>, \<open>Host_Handshake\<close>: the two machines of \<open>jam-protocol/src/handshake.rs\<close>.
  \<open>Jitter_Buffer\<close>, \<open>Slot_Race\<close>, \<open>Playout_Policy\<close>: \<open>jam-audio/src/jitter.rs\<close>, the operations one after another,
  one slot with the accesses of both threads interleaved, and the playout policy. \<open>Sample_Fifo\<close>: \<open>accum.rs\<close>. \<open>Mixer_Meter\<close>:
  \<open>mixer.rs\<close> and \<open>meter.rs\<close>. \<open>Resampler\<close>: \<open>resample.rs\<close>. \<open>Audio_Codec\<close>: \<open>codec.rs\<close>. \<open>Shared_State\<close>:
  \<open>jam-core/src/lib.rs\<close>. \<open>Net_Threads\<close>: \<open>net.rs\<close>. \<open>Host_Control\<close>, \<open>Client_Control\<close>: the two loops of
  \<open>control.rs\<close>. \<open>Stream_Playout\<close>: \<open>playout.rs\<close>. \<open>Pipeline\<close>: \<open>pipeline.rs\<close>. \<open>Engine_Audio\<close>, \<open>Duplex_Audio\<close>: the
  callbacks of \<open>engine.rs\<close>. \<open>Device_Negotiation\<close>: \<open>device.rs\<close>, the choice of a sound card and its format.
  \<open>Session_Lifecycle\<close>: the rest of \<open>engine.rs\<close>, how a session starts and ends. \<open>Ui_Snapshot\<close>: \<open>stats.rs\<close> and
  the snapshots of \<open>control.rs\<close>. \<open>Stun_Client\<close>: \<open>jam-app/src/stun.rs\<close>. \<open>App_Cli\<close>: \<open>cli.rs\<close> and \<open>main.rs\<close>.
  \<open>Latency_Measure\<close>: \<open>measure.rs\<close>. \<open>Status_Ui\<close>: \<open>status_ui.rs\<close> and \<open>gui.rs\<close>. \<open>Unit_Tests\<close> and
  \<open>Audio_Tests\<close>: the repository's own tests of sequence numbers, handshake, FIFO, jitter buffer, playout policy, mixer, meter,
  resampler and PCM codec, which hold of the model. \<open>Session\<close> and this theory: how the threads work together.

  \<^bold>\<open>How the model corresponds to the code.\<close> Definitions keep the code's names where HOL has not taken
  them (\<open>jb_push\<close> is \<open>JitterBuffer::push\<close>, \<open>ctl_iteration\<close> is one turn of the loop of
  \<open>spawn_host_control\<close>). A struct is a record, an enum a datatype, a fixed-width integer a word,
  \<open>usize\<close> a \<open>nat\<close>; a panic is \<open>None\<close> or \<open>Panic\<close>, an error \<open>Err\<close>. An array that a received or shared number
  indexes is read and written with \<open>array_get\<close> and \<open>array_set\<close>, the streams of the host with \<open>client_at\<close> and \<open>store_client\<close>:
  out of range they are the panic (\<open>NetPanic\<close> or \<open>CtlPanic\<close> among a thread's outputs). The build modelled is the release
  profile: \<open>debug_assert\<close> is left out, additions wrap. A thread is an event machine: a handler takes an
  event (a datagram, a timeout, a clock reading, a captured frame) and the state and returns the new state
  and what it sent. Shared atomics are fields of the state the handlers pass on; what the other
  threads do in between is an event of the machine.

  \<^bold>\<open>What the lemmas show.\<close> Wire format: the parser never panics and accepts exactly the encodings, and
  reads back what the writers write. Handshake: the host's slots and addresses stay a bijection, its
  actions report every change of a slot, retries and timeouts end as they should. Jitter buffer:
  it refines a map from unbounded packet numbers to frames; with interleaved accesses a frame that is
  read was pushed, but for the one case \<open>torn_frame_possible\<close> shows; the control thread may reset the slot at any
  point. Threads: no panic over any run, from the start of the thread on and by no index, only
  well-formed datagrams, address tables that agree with the handshake. Audio: every loop of the
  callback ends, each frame has its length and range, and each listener hears the players he should; over
  any number of blocks at one ratio the resampler gains or loses fewer than 1.05 samples; the
  best format of a sound card is picked. A session that was started ends when asked to; one that failed to
  start leaves its threads running (\<open>failed_start_keeps_running\<close>). STUN: an answer is found among other datagrams, and only an answer is taken.
  Commands: accepted arguments fit the engine, a room code survives being typed, a measurement reads the delay.
  Display: keys stay within the arrays and the gains in range, and what the marks of a player tell.
  This theory: only members of the room are heard, a join completes, and what a client plays is
  what the host reads.

  \<^bold>\<open>Bounds.\<close> The refinement of the jitter buffer holds while packets are within 32767 of the read
  position and of the newest packet (half the 16-bit ring). Frames have 5 to 240 samples (the command
  line allows 120 and 240). The loops with no structural bound (\<open>emit_loop\<close>, \<open>fill_staging\<close>, \<open>drain\<close>) are
  partial functions into option; that they return is proved. Two Opus packets of at most 1015 bytes
  and their headers fill a datagram exactly; beyond that, with redundancy on, the writer would panic, so
  the properties of the pipelines assume it (\<open>packets_small\<close>).

  \<^bold>\<open>Assumptions on code that is not under\<close> \<open>src/\<close>. libopus and the bits of an \<open>f32\<close> are the parameter
  \<open>lib\<close> with the contract \<open>media_ok\<close>: an encoder writes no more than its buffer has room for, a decoder
  does not change the length of its buffer.

  \<^bold>\<open>Not modelled.\<close> Floating point is exact real arithmetic: no rounding, infinities or NaN. Each
  handler runs alone; only for a slot of the jitter buffer are the accesses of two threads
  interleaved (\<open>Slot_Race\<close>), over sequentially consistent memory: weaker orders, which the code's
  fences rule out, are not modelled. Sockets, channels, threads and clocks are their messages and
  readings. Of the crate \<open>jam-app\<close> the parsing of the command line, the text that values are formatted into,
  and the layout of the window are left out. Of the unit tests those are left out that need the level of a sampled
  sine, the Opus codec or the 400 000 frames of the drift simulation, and those of \<open>playout.rs\<close> and \<open>pipeline.rs\<close>, whose
  subject the lemmas on every stream and every frame cover.
\<close>

section \<open>From the room code to the audio\<close>

text \<open>For the examples: a client at \<open>V4 10 5000\<close> joins a fresh host, and sends a KEEPALIVE.\<close>

definition fresh_host :: "hc_event list \<Rightarrow> host_ctl \<times> ctl_out list" where
  "fresh_host es = host_ctl_after [1, 2, 3, 4, 5, 6] [72] engine_params_default 9 es"

definition ex_knock :: "hc_event list" where
  "ex_knock = [HcIter (ex_ctl (V4 10 5000) (Hello 1 [1, 2, 3, 4, 5, 6] [65] 7 3) 0) 5 (\<lambda>_. 5000)]"

definition ex_keepalive :: "u8 list" where
  "ex_keepalive = [0xA5, 0x16, 0, 9, 0, 1, 0, 5]"

lemma fresh_host_free:
  "\<not> hs_shutdown (hc_shared (fst (fresh_host [])))" "sender_for_addr (hc_hs (fst (fresh_host []))) a = None"
  "position (\<lambda>e. e = None) (slots (hc_hs (fst (fresh_host [])))) = Some 0"
  by (simp_all add: fresh_host_def host_ctl_after_def host_ctl_new_def host_new_def host_shared_new_def
      sender_for_addr_def MAX_CLIENTS_def occupied_by_def eval_nat_numeral)

lemma knock_answered: "map_option sl_addr (slots (hc_hs (fst (fresh_host ex_knock))) ! 0) = Some (V4 10 5000)"
proof -
  have inv: "ctl_inv [1, 2, 3, 4, 5, 6] 9 (fst (fresh_host []))"
    unfolding fresh_host_def by (rule after_inv) (simp_all add: utf8_width_def)
  obtain ev where ev: "ex_knock = [HcIter (RecvOk ev) 5 (\<lambda>_. 5000)]" "ce_from ev = V4 10 5000"
    "ce_control ev = Hello PROTOCOL_VERSION [1, 2, 3, 4, 5, 6] [65] 7 3"
    by (simp add: ex_knock_def ex_ctl_def PROTOCOL_VERSION_def)
  have "control_valid (ce_control ev)"
    by (simp add: ev(3) ROOM_CODE_LEN_def string_valid_def utf8_width_def MAX_NAME_LEN_def)
  from hello_admitted [OF inv fresh_host_free(1,2,3) ev(3) this, of 5 "\<lambda>_. 5000"]
  obtain s' out where "ctl_iteration (RecvOk ev) 5 (\<lambda>_. 5000) (fst (fresh_host [])) = Some (s', out)"
    "awaits (ce_from ev) 5 0 s'" by blast
  moreover have "hc_running (fst (fresh_host []))" by (simp add: fresh_host_def host_ctl_after_def host_ctl_new_def)
  ultimately show ?thesis
    by (auto simp: fresh_host_def host_ctl_after_def ev(1,2) awaits_def fresh_slot_def)
qed

lemma knock_ok: "\<forall>e \<in> set ex_knock. hc_ok e"
  by (simp add: ex_knock_def ex_ctl_def recv_ok_def ROOM_CODE_LEN_def string_valid_def utf8_width_def MAX_NAME_LEN_def)

text \<open>C1: only members of the room are heard. Let the control thread of a fresh host handle any events,
  and let the receive thread hold the addresses it was told; applying these updates does not panic. A datagram
  can then change a client's stream only when it comes from the address of that slot's present occupant, and that
  address has sent a HELLO with the room code.\<close>

theorem only_members_are_heard:
  assumes "utf8_valid nm" and "\<forall>e \<in> set es. hc_ok e" and "host_ctl_after code nm ep sid es = (s, outs)"
    and "rx_addrs rx = rx_addrs (the (for_each rx_update (updates outs) rx_init))" and "i < MAX_CLIENTS"
    and "rx_datagram rate frame now_us t3 src bytes (RxHost sh, rx) = ((RxHost sh', rx'), out)"
    and "clients sh' ! i \<noteq> clients sh ! i"
  shows "for_each rx_update (updates outs) rx_init \<noteq> None
    \<and> map_option sl_addr (slots (hc_hs s) ! i) = Some src \<and> src \<in> knocked code es"
proof -
  from after_tables(1) [OF assms(1-3)] obtain told where told: "for_each rx_update (updates outs) rx_init = Some told"
    "rx_addrs told = addr_table (hc_hs s)" by auto
  with assms(4) have "rx_addrs rx = addr_table (hc_hs s)" by simp
  moreover have "rx_addrs rx ! i = Some src"
    using host_rx_change [OF assms(6), of i] assms(7) by (auto simp: slot_change_def)
  ultimately have t: "addr_table (hc_hs s) ! i = Some src" by simp
  have len: "length (slots (hc_hs s)) = MAX_CLIENTS"
    using after_inv [OF assms(1,2), of code sid ep] assms(3) by (auto simp: ctl_inv_def intro: host_len)
  then have "i < length (addr_table (hc_hs s))" using assms(5) by (simp add: addr_table_def)
  from nth_mem [OF this] have "Some src \<in> set (addr_table (hc_hs (fst (host_ctl_after code nm ep sid es))))"
    using t assms(3) by simp
  from after_admitted [OF assms(1,2) this] t len assms(5) told(1) show ?thesis by (simp add: addr_table_def)
qed

lemma only_members_are_heard_witness:
  "\<exists>sh' rx' out. rx_datagram 48000 120 3 4 (V4 10 5000) ex_keepalive (RxHost (host_shared_new 9),
       the (for_each rx_update (updates (snd (fresh_host ex_knock))) rx_init)) = ((RxHost sh', rx'), out)
     \<and> clients sh' ! 0 \<noteq> clients (host_shared_new 9) ! 0
     \<and> V4 10 5000 \<in> knocked [1, 2, 3, 4, 5, 6] ex_knock"
proof -
  let ?rx = "the (for_each rx_update (updates (snd (fresh_host ex_knock))) rx_init)"
  have run: "host_ctl_after [1, 2, 3, 4, 5, 6] [72] engine_params_default 9 ex_knock
      = (fst (fresh_host ex_knock), snd (fresh_host ex_knock))" by (simp add: fresh_host_def)
  have nm: "utf8_valid [72]" by (simp add: utf8_width_def)
  have "ctl_inv [1, 2, 3, 4, 5, 6] 9 (fst (fresh_host ex_knock))"
    unfolding fresh_host_def using nm knock_ok by (rule after_inv)
  then have "rx_addrs ?rx ! 0 = Some (V4 10 5000)"
    using after_tables(1) [OF nm knock_ok run] knock_answered
    by (auto simp: addr_table_def ctl_inv_def host_len MAX_CLIENTS_def)
  moreover have "parse_datagram (take MAX_DATAGRAM ex_keepalive)
      = Ok (\<lparr>ptype = PT_Keepalive, session_id = 9, sender_id = 1, hseq = 5\<rparr>, PControl Keepalive)" by code_simp
  ultimately have r: "rx_datagram 48000 120 3 4 (V4 10 5000) ex_keepalive (RxHost (host_shared_new 9), ?rx)
      = ((RxHost (upd_client 0 (\<lambda>st. st\<lparr>last_rx_us := 3\<rparr>) (host_shared_new 9)), ?rx),
         snd (rx_datagram 48000 120 3 4 (V4 10 5000) ex_keepalive (RxHost (host_shared_new 9), ?rx)))"
    by (simp add: rx_datagram_def rx_control_eq MAX_CLIENTS_def)
  have ne: "clients (upd_client 0 (\<lambda>st. st\<lparr>last_rx_us := 3\<rparr>) (host_shared_new 9)) ! 0 \<noteq> clients (host_shared_new 9) ! 0"
    by (simp add: upd_client_def host_shared_new_def MAX_CLIENTS_def stream_default_def)
  have "0 < MAX_CLIENTS" by (simp add: MAX_CLIENTS_def)
  from only_members_are_heard [OF nm knock_ok run refl this r ne] r ne show ?thesis by blast
qed

text \<open>C8: a join completes. A host that has been through any events has slot \<open>k\<close> as its first free one,
  and a client at an unknown address starts with the host's room code. Then the HELLO, WELCOME and ACK
  that the two control threads write pass the other side's receive thread, and after them
  the client's audio path is open under the id of slot \<open>k\<close> and the host's session id, and the
  host holds the slot active for the client's address.\<close>

theorem join_completes:
  assumes host: "utf8_valid nm" "\<forall>e \<in> set es. hc_ok e" "host_ctl_after code nm ep sid es = (s, outs)"
      "\<not> hs_shutdown (hc_shared s)" "sender_for_addr (hc_hs s) a = None"
      "position (\<lambda>e. e = None) (slots (hc_hs s)) = Some k"
    and client: "cfg_ok cfg" "cg_room_code cfg = code" "cc_begin cfg now_a now0 csh = Some (c, sent)"
      "\<not> joined csh" "\<not> cs_shutdown csh" "unat (saturating_sub (us 1) (us 0)) \<le> 5000000"
  shows "\<exists>d0 ev1 s1 d1 o1 ev2 c1 d2 o2 ev3 s2 o3 v. sent = [Datagram (cg_host cfg) d0]
    \<and> snd (rx_datagram rate frame u1 w1 a d0 (RxHost hsh1, hrx1)) = [ToControl ev1]
    \<and> ctl_iteration (RecvOk ev1) t1 rd1 s = Some (s1, Datagram a d1 # o1)
    \<and> snd (rx_datagram rate frame u2 w2 (cg_host cfg) d1 (RxClient csh2 (cg_host cfg), crx)) = [ToControl ev2]
    \<and> cc_iteration cfg (RecvOk ev2) t2 us c = Some (c1, Datagram (cg_host cfg) d2 # o2)
    \<and> joined (cc_shared c1) \<and> cs_sender_id (cc_shared c1) = sender_id_of k \<and> cs_session_id (cc_shared c1) = sid
    \<and> snd (rx_datagram rate frame u3 w3 a d2 (RxHost hsh3, hrx3)) = [ToControl ev3]
    \<and> ctl_iteration (RecvOk ev3) t3 rd3 s1 = Some (s2, o3)
    \<and> slots (hc_hs s2) ! k = Some v \<and> sl_addr v = a \<and> sl_state v = Active"
proof -
  have inv: "ctl_inv code sid s" using after_inv [OF host(1,2), of code sid ep] host(3) by simp
  have sid: "h_session_id (hc_hs s) = sid" using after_session [of code nm ep sid es] host(3) by simp
  from begins [OF client(1,3,4)] client(5) obtain d0 h0 where c: "sent = [Datagram (cg_host cfg) d0]" "length d0 \<le> 195"
    "parse_datagram d0 = Ok (h0, PControl (control_canon (cfg_hello cfg)))" "cc_inv cfg c"
    "\<not> cs_shutdown (cc_shared c)" "phase (cc_cs c) = Joining now0 1" by auto
  let ?hello = "control_canon (cfg_hello cfg)"
  let ?ev1 = "\<lparr>ce_from = a, ce_header = h0, ce_control = ?hello, ce_rx_us = u1\<rparr>"
  have hello: "?hello = Hello PROTOCOL_VERSION code (string_canon (cg_name cfg)) 7 3" "control_valid ?hello"
    using control_canon_valid [of "cfg_hello cfg"] hello_sendable [OF client(1)] client(2) by (auto simp: cfg_hello_def)
  have f1: "snd (rx_datagram rate frame u1 w1 a d0 (RxHost hsh1, hrx1)) = [ToControl ?ev1]"
    using c(2,3) by (rule host_forwards) (simp add: hello(1))
  have "sender_for_addr (hc_hs s) (ce_from ?ev1) = None" using host(5) by simp
  from hello_admitted [OF inv host(4) this host(6), where now = t1 and us = rd1] hello
  obtain s1 d1 o1 ros sr fs cd sq1 where w: "ctl_iteration (RecvOk ?ev1) t1 rd1 s = Some (s1, Datagram a d1 # o1)"
    "length d1 \<le> 195" "parse_datagram d1 = Ok (\<lparr>ptype = PT_Welcome, session_id = sid, sender_id = HOST_SENDER_ID, hseq = sq1\<rparr>,
      PControl (Welcome (sender_id_of k) sid sr fs cd ros))"
    "awaits a t1 k s1" "k < MAX_CLIENTS" "ctl_inv code sid s1" "\<not> hs_shutdown (hc_shared s1)" unfolding sid ctrl_event.select_convs by blast
  let ?ev2 = "\<lparr>ce_from = cg_host cfg, ce_header = \<lparr>ptype = PT_Welcome, session_id = sid, sender_id = HOST_SENDER_ID, hseq = sq1\<rparr>,
    ce_control = Welcome (sender_id_of k) sid sr fs cd ros, ce_rx_us = u2\<rparr>"
  have f2: "snd (rx_datagram rate frame u2 w2 (cg_host cfg) d1 (RxClient csh2 (cg_host cfg), crx)) = [ToControl ?ev2]"
    using w(2,3) by (rule client_forwards) simp
  from welcome_joins [where us = us and now = t2, OF client(1) c(4,5,6), of ?ev2, OF _ client(6)]
  obtain c1 d2 o2 sq2 where j: "cc_iteration cfg (RecvOk ?ev2) t2 us c = Some (c1, Datagram (cg_host cfg) d2 # o2)"
    "length d2 \<le> 195" "parse_datagram d2 = Ok (\<lparr>ptype = PT_Ack, session_id = sid, sender_id = cs_sender_id (cc_shared c), hseq = sq2\<rparr>,
      PControl (Ack sq1 (ptype_code PT_Welcome)))"
    "joined (cc_shared c1)" "cs_sender_id (cc_shared c1) = sender_id_of k" "cs_session_id (cc_shared c1) = sid"
    unfolding ctrl_event.select_convs header.select_convs by blast
  let ?ev3 = "\<lparr>ce_from = a, ce_header = \<lparr>ptype = PT_Ack, session_id = sid, sender_id = cs_sender_id (cc_shared c), hseq = sq2\<rparr>,
    ce_control = Ack sq1 (ptype_code PT_Welcome), ce_rx_us = u3\<rparr>"
  have f3: "snd (rx_datagram rate frame u3 w3 a d2 (RxHost hsh3, hrx3)) = [ToControl ?ev3]"
    using j(2,3) by (rule host_forwards) simp
  have "awaits (ce_from ?ev3) t1 k s1" using w(4) by simp
  from ack_activates [OF w(6,7) this w(5), where now = t3 and us = rd3] obtain s2 o3 v where "ctl_iteration (RecvOk ?ev3) t3 rd3 s1 = Some (s2, o3)"
    "slots (hc_hs s2) ! k = Some v" "sl_addr v = a" "sl_state v = Active"
    unfolding ctrl_event.select_convs by blast
  note active_now = this
  show ?thesis using c(1) f1 w(1) f2 j(1,4,5,6) f3 active_now by (intro exI conjI) assumption+
qed

lemma join_completes_witness:
  "\<exists>c d0 ev1 s1 d1 o1 ev2 c1 d2 o2. cc_begin ex_cfg 0 0 client_shared_default = Some (c, [Datagram (V4 10 7000) d0])
     \<and> ctl_iteration (RecvOk ev1) 5 (\<lambda>_. 5000) (fst (fresh_host [])) = Some (s1, Datagram (V4 10 5000) d1 # o1)
     \<and> cc_iteration ex_cfg (RecvOk ev2) 20 (\<lambda>_. 20000) c = Some (c1, Datagram (V4 10 7000) d2 # o2)
     \<and> joined (cc_shared c1) \<and> cs_sender_id (cc_shared c1) = 1 \<and> cs_session_id (cc_shared c1) = 9"
proof -
  obtain c sent where c: "cc_begin ex_cfg 0 0 client_shared_default = Some (c, sent)" using ex_begin by blast
  have nm: "utf8_valid [72]" and ok: "\<forall>e \<in> set []. hc_ok e" by (simp_all add: utf8_width_def)
  have run: "host_ctl_after [1, 2, 3, 4, 5, 6] [72] engine_params_default 9 [] = (fst (fresh_host []), snd (fresh_host []))"
    by (simp add: fresh_host_def)
  have cl: "cg_room_code ex_cfg = [1, 2, 3, 4, 5, 6]" "\<not> joined client_shared_default"
    "\<not> cs_shutdown client_shared_default" "unat (saturating_sub (20000 :: u64) 20000) \<le> 5000000"
    by (simp_all add: ex_cfg_def client_shared_default_def saturating_sub_def)
  have host: "cg_host ex_cfg = V4 10 7000" "sender_id_of 0 = 1" by (simp_all add: ex_cfg_def sender_id_of_def)
  from join_completes [where us = "\<lambda>_. 20000" and ?t1.0 = 5 and ?rd1.0 = "\<lambda>_. 5000" and ?t2.0 = 20 and a = "V4 10 5000"
      and rate = 48000 and frame = 120 and ?u1.0 = 1 and ?w1.0 = 2 and ?hsh1.0 = "host_shared_new 9" and ?hrx1.0 = rx_init
      and ?u2.0 = 3 and ?w2.0 = 4 and ?csh2.0 = client_shared_default and crx = rx_init and ?u3.0 = 5 and ?w3.0 = 6
      and ?hsh3.0 = "host_shared_new 9" and ?hrx3.0 = rx_init and ?t3.0 = 30 and ?rd3.0 = "\<lambda>_. 30000",
      OF nm ok run fresh_host_free ex_cfg_ok cl(1) c cl(2,3,4), unfolded host]
  obtain d0 ev1 s1 d1 o1 ev2 c1 d2 o2 where "sent = [Datagram (V4 10 7000) d0]"
    "ctl_iteration (RecvOk ev1) 5 (\<lambda>_. 5000) (fst (fresh_host [])) = Some (s1, Datagram (V4 10 5000) d1 # o1)"
    "cc_iteration ex_cfg (RecvOk ev2) 20 (\<lambda>_. 20000) c = Some (c1, Datagram (V4 10 7000) d2 # o2)"
    "joined (cc_shared c1)" "cs_sender_id (cc_shared c1) = 1" "cs_session_id (cc_shared c1) = 9" by blast
  with c show ?thesis by (intro exI conjI) simp_all
qed

section \<open>From the microphone to the mix\<close>

text \<open>A frame that was due when it arrived is what is read next.\<close>

lemma due_heard:
  assumes "jb (s :: stream_shared) = fst (run jb_step (map (map_jb_event word_of_int) es) jb_new)"
    and "allowed in_window stream_step es None" and "fst (run stream_step es None) = Some st"
    and "s_frames st (s_next st) = None" and "\<bar>s_newest st - s_next st\<bar> \<le> 32000" and "hseq h = word_of_int (s_next st)"
    and "length (payload a) \<le> MAX_FRAME_BYTES"
  shows "snd (run jb_step [EvPop] (jb (stream_audio rate n now_us h a j s))) = [OPopped (Some (payload a, timestamp a))]"
proof -
  have "jb_rel (publish_jitter_us j (jb s)) (Some st)"
    using jitter.run_sim [OF jb_new_rel assms(2)] assms(1,3) by simp
  from due_pops [OF this assms(4,5,6,7), of n] show ?thesis by (simp add: stream_audio_def Let_def)
qed

text \<open>C5: what a client plays reaches the host. A client that is joined under the id of slot \<open>i\<close> and in the
  host's session sends a frame: its transmit thread sends the datagram, unchanged, to the host; the
  host's receive thread, which holds the client's address for slot \<open>i\<close>, puts it into that slot's
  jitter buffer and no other; and when it is the packet that is due, the next read of the buffer
  gives exactly the bytes the encoder made of the frame, with the client's sample clock. The history
  of the buffer is any admissible one.\<close>

theorem client_audio_reaches_host:
  assumes lib: "media_ok lib" "packets_small lib"
    and client: "cp_ok n cp" "jb_wf (jb (from_host csh))" "length x = n" "joined csh"
      "client_process_frame lib x cp csh = Some (cp', csh', out, [(d, bytes)])" "tx_peer tx = Some host"
    and ids: "i < MAX_CLIENTS" "cs_session_id csh = hs_session_id hsh" "cs_sender_id csh = sender_id_of i"
    and host: "shared_ok hsh" "rx_addrs rx ! i = Some src"
      "jb (clients hsh ! i) = fst (run jb_step (map (map_jb_event word_of_int) es) jb_new)"
      "rx_datagram rate n now_us t3 src bytes (RxHost hsh, rx) = ((RxHost hsh', rx'), o')"
    and due: "allowed in_window stream_step es None" "fst (run stream_step es None) = Some st"
      "s_frames st (s_next st) = None" "\<bar>s_newest st - s_next st\<bar> \<le> 32000" "fst (seq_next (cp_seq cp)) = word_of_int (s_next st)"
  shows "\<exists>item pl. tx_item_new d bytes = Some item \<and> tx_send_item 0 item tx = (tx, [Sent host bytes])
    \<and> snd (encode lib x MAX_FRAME_BYTES (cp_encoder cp)) = Ok pl
    \<and> snd (run jb_step [EvPop] (jb (clients hsh' ! i))) = [OPopped (Some (pl, cp_clock cp))]
    \<and> (\<forall>j. j \<noteq> i \<longrightarrow> clients hsh' ! j = clients hsh ! j)"
proof -
  from client_frame_spec [OF lib client(1,2,3)] client(4,5)
  have cl: "client_packet lib csh x cp = [(d, bytes)]" by (auto split: if_splits)
  from client_packet_ok [OF lib(2) client(1,3), of d bytes csh] cl
  have dst: "d = DEST_PEER" and len: "length bytes \<le> MAX_DATAGRAM" and "audio_from (\<lambda>h. True) bytes"
    by (simp_all add: audio_from_def)
  then obtain h a where parse: "parse_datagram bytes = Ok (h, PAudio a)"
    by (auto simp: audio_from_def split: outcome.splits payload.splits)
  note pk = client_packet_parse [OF lib(2) client(1,3) cl parse]
  have h: "session_id h = cs_session_id csh" "sender_id h = cs_sender_id csh" "hseq h = fst (seq_next (cp_seq cp))"
    using pk by (metis header.select_convs(2), metis header.select_convs(3), metis header.select_convs(4))
  have a: "snd (encode lib x MAX_FRAME_BYTES (cp_encoder cp)) = Ok (payload a)" "timestamp a = cp_clock cp"
    using pk by (blast, metis audio_packet.select_convs(1))
  from tx_item_new_ok [OF len, of d] obtain item where item: "tx_item_new d bytes = Some item" "tx_fits item" "tx_dest item = d"
    "take (unat (tx_len item)) (tx_buf item) = bytes" by blast
  then have tx: "tx_send_item 0 item tx = (tx, [Sent host bytes])"
    using client(6) dst by (simp add: tx_send_item_def Let_def tx_resolve_def tx_fits_def)
  have pd: "parse_datagram (take MAX_DATAGRAM bytes) = Ok (h, PAudio a)" using len parse by simp
  then have r: "rx_host_audio rate n now_us src h a hsh rx = Some (hsh', rx')"
    using host(4) by (auto simp: rx_datagram_def rx_host_audio_eq case_prod_unfold)
  have "session_id h = hs_session_id hsh" "sender_id h = sender_id_of i" using h(1,2) ids(2,3) by simp_all
  from host_audio_accepted [OF ids(1) host(1,2) this r] obtain j where
    "clients hsh' ! i = stream_audio rate n now_us h a j (clients hsh ! i)" by blast
  moreover have "length (payload a) \<le> MAX_FRAME_BYTES"
    using encode_small [OF lib(2), of x MAX_FRAME_BYTES "cp_encoder cp"] a(1) client(1,3)
    by (metis cp_ok_def MAX_PAYLOAD_le le_trans prod.collapse)
  ultimately have "snd (run jb_step [EvPop] (jb (clients hsh' ! i))) = [OPopped (Some (payload a, cp_clock cp))]"
    using due_heard [OF host(3) due(1-4), of h a rate n now_us j] h(3) due(5) a(2) by simp
  moreover have "clients hsh' ! k = clients hsh ! k" if "k \<noteq> i" for k
    using r that h(2) ids(1,3) slot_of_id [OF ids(1)]
    by (auto simp: rx_host_audio_eq Let_def case_prod_unfold upd_client_other split: if_splits)
  ultimately show ?thesis using item(1) tx a(1) by blast
qed

definition ex_member :: client_shared where
  "ex_member = client_shared_default\<lparr>joined := True, cs_sender_id := 1, cs_session_id := 9\<rparr>"

definition ex_history :: "int jb_event list" where
  "ex_history = [EvPush (- 1) 0 [1], EvPop]"

definition ex_listening :: host_shared where
  "ex_listening = upd_client 0 (\<lambda>st. st\<lparr>active := True, jb := fst (run jb_step (map (map_jb_event word_of_int) ex_history) jb_new)\<rparr>)
     (host_shared_new 9)"

lemma client_audio_reaches_host_witness:
  "\<exists>cp cp' csh' out bytes hsh' rx' o' item pl. client_pipeline_new silent_lib ex_params = Some cp
     \<and> client_process_frame silent_lib (replicate 120 (1 / 2)) cp ex_member = Some (cp', csh', out, [(DEST_PEER, bytes)])
     \<and> tx_item_new DEST_PEER bytes = Some item
     \<and> rx_datagram 48000 120 3 4 (V4 10 5000) bytes (RxHost ex_listening, the (rx_update (UpClient 0 (Some (V4 10 5000))) rx_init))
         = ((RxHost hsh', rx'), o')
     \<and> snd (encode silent_lib (replicate 120 (1 / 2)) MAX_FRAME_BYTES (cp_encoder cp)) = Ok pl
     \<and> snd (run jb_step [EvPop] (jb (clients hsh' ! 0))) = [OPopped (Some (pl, 0))]"
proof -
  let ?x = "replicate 120 (1 / 2) :: real list" and ?rx = "the (rx_update (UpClient 0 (Some (V4 10 5000))) rx_init)"
  obtain cp where n: "client_pipeline_new silent_lib ex_params = Some cp"
    using silent_pipelines [where r = True and c = PcmS16 and e = False] unfolding ex_params_def by blast
  have "audio_setup silent_lib ex_params" unfolding ex_params_def by (rule silent_setup)
  then have lib: "media_ok silent_lib" "packets_small silent_lib" by (simp_all add: audio_setup_def)
  have cp: "cp_ok 120 cp" "cp_params cp = ex_params" "cp_clock cp = 0" "cp_seq cp = seq_new"
    using client_new_ok [OF n] n by (auto simp: MAX_FRAME_SAMPLES_def client_pipeline_new_def Let_def split: option.splits)
  have b: "jb_wf (jb (from_host ex_member))" using jb_new_rel
    by (simp add: jb_rel_def ex_member_def client_shared_default_def stream_default_def)
  have "en_codec (cp_encoder cp) = PcmS16" using cp(1,2) by (simp add: cp_ok_def)
  then obtain d bytes where "client_packet silent_lib ex_member ?x cp = [(d, bytes)]" and d: "d = DEST_PEER"
    by (simp add: client_packet_def encode_def MAX_FRAME_BYTES_def del: map_replicate)
  then obtain cp' csh' out where f: "client_process_frame silent_lib ?x cp ex_member = Some (cp', csh', out, [(DEST_PEER, bytes)])"
    using client_frame_spec [OF lib cp(1) b, of ?x] by (auto simp: ex_member_def)
  have ids: "0 < MAX_CLIENTS" "cs_session_id ex_member = hs_session_id ex_listening" "cs_sender_id ex_member = sender_id_of 0"
    "joined ex_member" "length ?x = 120" "tx_peer (the (tx_update (UpPeer (V4 10 7000)) tx_init)) = Some (V4 10 7000)"
    by (simp_all add: MAX_CLIENTS_def ex_member_def ex_listening_def upd_client_def host_shared_new_def sender_id_of_def tx_update_eq)
  have host: "shared_ok ex_listening" "rx_addrs ?rx ! 0 = Some (V4 10 5000)"
    "jb (clients ex_listening ! 0) = fst (run jb_step (map (map_jb_event word_of_int) ex_history) jb_new)"
    by (simp add: ex_listening_def,
        simp_all add: ex_listening_def upd_client_same host_shared_new_def MAX_CLIENTS_def rx_update_eq rx_init_def)
  let ?st = "\<lparr>s_next = 0, s_newest = - 1, s_frames = (put_frame (- 1) ([1], 0) (\<lambda>_. None))(- 1 := None)\<rparr>"
  have due: "allowed in_window stream_step ex_history None" "fst (run stream_step ex_history None) = Some ?st"
    "s_frames ?st (s_next ?st) = None" "\<bar>s_newest ?st - s_next ?st\<bar> \<le> 32000" "fst (seq_next (cp_seq cp)) = word_of_int (s_next ?st)"
    using cp(4) by (simp_all add: ex_history_def MAX_FRAME_BYTES_def put_frame_def seq_new_def)
  obtain role rx' o' where rx: "rx_datagram 48000 120 3 4 (V4 10 5000) bytes (RxHost ex_listening, ?rx) = ((role, rx'), o')"
    by (metis surj_pair)
  from host_rx_change [OF rx] obtain hsh' where role: "role = RxHost hsh'" by blast
  note r = client_audio_reaches_host [OF lib cp(1) b ids(5,4) f ids(6,1,2,3) host rx [unfolded role] due]
  from r [unfolded cp(3)] obtain item pl where "tx_item_new DEST_PEER bytes = Some item"
    "snd (encode silent_lib ?x MAX_FRAME_BYTES (cp_encoder cp)) = Ok pl"
    "snd (run jb_step [EvPop] (jb (clients hsh' ! 0))) = [OPopped (Some (pl, 0))]" by blast
  then show ?thesis using n f rx [unfolded role] by blast
qed

section \<open>From the mix to the headphones\<close>

text \<open>What the host emits for a slot is that slot's packet.\<close>

lemma slot_packet_emitted:
  assumes "(of_nat i, bytes) \<in> set (concat (map (\<lambda>c. if on c then slot_packet lib sid (out c) c hp else []) [0..<MAX_CLIENTS]))"
    and "i < MAX_CLIENTS"
  shows "\<exists>pl. on i \<and> snd (encode lib (out i) MAX_FRAME_BYTES (hp_encoders hp ! i)) = Ok pl
    \<and> bytes = packet_bytes sid HOST_SENDER_ID (fst (seq_next (hp_seqs hp ! i))) (hp_clock hp) (ep_codec (hp_params hp)) pl
        (if redundancy (hp_params hp) then prev_get (hp_prev hp ! i) else None)"
proof -
  from assms(1) obtain c where c: "c < MAX_CLIENTS" "on c" "(of_nat i, bytes) \<in> set (slot_packet lib sid (out c) c hp)"
    by (auto split: if_splits)
  have "fst (of_nat i, bytes) \<in> set (map fst (slot_packet lib sid (out c) c hp))" using c(3) by (metis image_eqI list.set_map)
  with slot_packet_dest [of lib sid "out c" c hp] have "(of_nat i :: u8) = of_nat c" by auto
  with of_nat_slot [OF assms(2) c(1)] have "c = i" by simp
  with c show ?thesis by (cases "snd (encode lib (out c) MAX_FRAME_BYTES (hp_encoders hp ! c))") (simp_all add: slot_packet_def)
qed

text \<open>C6: what the host mixes for a client reaches that client. The datagram the host emits for slot \<open>i\<close> goes,
  unchanged, to the address its transmit thread holds for the slot, and the slot is active. The client, when it is joined to
  that session and hears it from its host, puts it into its jitter buffer; when it is the packet that is due, the next
  read gives exactly the bytes the slot's encoder made of the clipped mix of everybody else in the room, with the host's sample clock.
  The history of the buffer is any admissible one.\<close>

theorem mix_reaches_client:
  assumes lib: "media_ok lib" "packets_small lib"
    and host: "hp_ok n hp" "streams_ok sh" "length x = n" "i < MAX_CLIENTS"
      "host_process_frame lib x hp sh = Some (hp', sh', out, em)" "(of_nat i, bytes) \<in> set em"
    and tx: "length (tx_clients tx) = MAX_CLIENTS" "tx_clients tx ! i = Some addr"
    and client: "joined csh" "cs_session_id csh = hs_session_id sh"
      "jb (from_host csh) = fst (run jb_step (map (map_jb_event word_of_int) es) jb_new)"
      "rx_datagram rate n now_us t3 hst bytes (RxClient csh hst, rx) = ((RxClient csh' hst, rx'), o')"
    and due: "allowed in_window stream_step es None" "fst (run stream_step es None) = Some st"
      "s_frames st (s_next st) = None" "\<bar>s_newest st - s_next st\<bar> \<le> 32000" "fst (seq_next (hp_seqs hp ! i)) = word_of_int (s_next st)"
  shows "active (clients sh ! i) \<and> (\<exists>item pl. tx_item_new (of_nat i) bytes = Some item \<and> tx_send_item 0 item tx = (tx, [Sent addr bytes])
    \<and> snd (encode lib (soft_clip_buf (if echo (hp_params hp) then hp_decoded hp' ! i
          else mix_of n (\<lambda>p. player_gain sh p hp) (player_frame x hp') (room sh - {i + 1}))) MAX_FRAME_BYTES (hp_encoders hp ! i)) = Ok pl
    \<and> snd (run jb_step [EvPop] (jb (from_host csh'))) = [OPopped (Some (pl, hp_clock hp))])"
proof -
  let ?mix = "\<lambda>c. soft_clip_buf (if echo (hp_params hp) then hp_decoded hp' ! c
      else mix_of n (\<lambda>p. player_gain sh p hp) (player_frame x hp') (room sh - {c + 1}))"
  from host_frame_spec [OF lib host(1,2,3)] host(5) have frame: "hp_ok n hp'"
    "em = concat (map (\<lambda>c. if active (clients sh ! c) then slot_packet lib (hs_session_id sh) (?mix c) c hp else []) [0..<MAX_CLIENTS])"
    by auto
  from slot_packet_emitted [OF host(6) [unfolded frame(2)] host(4)] obtain pl where on: "active (clients sh ! i)"
    and pl: "snd (encode lib (?mix i) MAX_FRAME_BYTES (hp_encoders hp ! i)) = Ok pl"
    and bytes: "bytes = packet_bytes (hs_session_id sh) HOST_SENDER_ID (fst (seq_next (hp_seqs hp ! i))) (hp_clock hp)
      (ep_codec (hp_params hp)) pl (if redundancy (hp_params hp) then prev_get (hp_prev hp ! i) else None)" by blast
  let ?red = "if redundancy (hp_params hp) then prev_get (hp_prev hp ! i) else None"
  let ?h = "\<lparr>ptype = PT_Audio, session_id = hs_session_id sh, sender_id = HOST_SENDER_ID, hseq = fst (seq_next (hp_seqs hp ! i))\<rparr>"
  let ?a = "\<lparr>timestamp = hp_clock hp, acodec = ep_codec (hp_params hp), payload = pl, redundant = ?red\<rparr>"
  have lens: "length (hp_decoded hp' ! i) = n" "n \<le> MAX_FRAME_SAMPLES"
    using frame(1) host(4) list_all_at [of _ "hp_decoded hp'" i] by (fastforce simp: hp_ok_def)+
  have "prev_ok (hp_prev hp ! i)" using host(1,4) list_all_at [of prev_ok "hp_prev hp" i] by (simp add: hp_ok_def)
  then have red: "small ?red" using prev_get_small by simp
  obtain e where "encode lib (?mix i) MAX_FRAME_BYTES (hp_encoders hp ! i) = (e, Ok pl)" using pl by (metis prod.collapse)
  note encoded = this
  have "length pl \<le> MAX_PAYLOAD" by (rule encode_small [OF lib(2) _ encoded]) (use lens in \<open>simp add: soft_clip_buf_def\<close>)
  note small = this red
  have len: "length bytes \<le> MAX_DATAGRAM" unfolding bytes by (rule length_packet_bytes [OF small])
  have parse: "parse_datagram bytes = Ok (?h, PAudio ?a)" unfolding bytes by (rule parse_packet_bytes [OF small])
  from tx_item_new_ok [OF len, of "of_nat i"] obtain item where item: "tx_item_new (of_nat i) bytes = Some item"
    "tx_fits item" "tx_dest item = of_nat i" "take (unat (tx_len item)) (tx_buf item) = bytes" by blast
  have "unat (of_nat i :: u8) = i" using host(4) by (simp add: unat_of_nat MAX_CLIENTS_def)
  moreover from this have "(of_nat i :: u8) \<noteq> DEST_PEER" using host(4) by (auto simp: DEST_PEER_def MAX_CLIENTS_def)
  ultimately have sent: "tx_send_item 0 item tx = (tx, [Sent addr bytes])"
    using item tx host(4) by (simp add: tx_send_item_def Let_def tx_resolve_def tx_fits_def)
  obtain j where "from_host csh' = stream_audio rate n now_us ?h ?a j (from_host csh)"
    using client(1,2,4) parse len by (auto simp: rx_datagram_def rx_client_audio_eq case_prod_unfold)
  then have "snd (run jb_step [EvPop] (jb (from_host csh'))) = [OPopped (Some (payload ?a, timestamp ?a))]"
    using due_heard [OF client(3) due(1-4), of ?h ?a rate n now_us j] due(5) small(1) MAX_PAYLOAD_le by simp
  with on pl item(1) sent show ?thesis by auto
qed

text \<open>For the example: the host hears slots 0 and 2; what it sends to slot 2 is read there.\<close>

lemma mix_reaches_client_witness:
  "\<exists>hp hp' sh' out em bytes csh' rx' o' item pl. host_pipeline_new silent_lib ex_params = Some hp
     \<and> host_process_frame silent_lib (replicate 120 (1 / 2)) hp ex_jam = Some (hp', sh', out, em) \<and> (of_nat 2, bytes) \<in> set em
     \<and> tx_item_new (of_nat 2) bytes = Some item
     \<and> tx_send_item 0 item (the (tx_update (UpClient 2 (Some (V4 10 5000))) tx_init))
         = (the (tx_update (UpClient 2 (Some (V4 10 5000))) tx_init), [Sent (V4 10 5000) bytes])
     \<and> rx_datagram 48000 120 3 4 (V4 10 7000) bytes (RxClient (client_shared_default\<lparr>joined := True, cs_session_id := 7,
           from_host := stream_default\<lparr>jb := fst (run jb_step (map (map_jb_event word_of_int) [EvPush (- 1) 0 [1], EvPop]) jb_new)\<rparr>\<rparr>) (V4 10 7000), rx_init)
         = ((RxClient csh' (V4 10 7000), rx'), o')
     \<and> snd (run jb_step [EvPop] (jb (from_host csh'))) = [OPopped (Some (pl, 0))]"
proof -
  let ?x = "replicate 120 (1 / 2) :: real list" and ?tx = "the (tx_update (UpClient 2 (Some (V4 10 5000))) tx_init)"
  let ?es = "[EvPush (- 1) 0 [1], EvPop] :: int jb_event list"
  let ?csh = "client_shared_default\<lparr>joined := True, cs_session_id := 7,
      from_host := stream_default\<lparr>jb := fst (run jb_step (map (map_jb_event word_of_int) ?es) jb_new)\<rparr>\<rparr>"
  obtain hp where n: "host_pipeline_new silent_lib ex_params = Some hp"
    using silent_pipelines [where r = True and c = PcmS16 and e = False] unfolding ex_params_def by blast
  have "audio_setup silent_lib ex_params" unfolding ex_params_def by (rule silent_setup)
  then have lib: "media_ok silent_lib" "packets_small silent_lib" by (simp_all add: audio_setup_def)
  note en = ex_host_encoders [OF n]
  have hp: "hp_ok 120 hp" "streams_ok ex_jam" "length ?x = 120" "2 < MAX_CLIENTS" using en ex_jam_ok by (simp_all add: MAX_CLIENTS_def)
  from host_frame_spec [OF lib hp(1-3)] obtain hp' sh' out em where
    f: "host_process_frame silent_lib ?x hp ex_jam = Some (hp', sh', out, em)" and
    em: "em = concat (map (\<lambda>c. if active (clients ex_jam ! c) then slot_packet silent_lib (hs_session_id ex_jam)
        (soft_clip_buf (if echo (hp_params hp) then hp_decoded hp' ! c
           else mix_of 120 (\<lambda>p. player_gain ex_jam p hp) (player_frame ?x hp') (Pipeline.room ex_jam - {c + 1}))) c hp else [])
        [0..<MAX_CLIENTS])" by blast
  have "active (clients ex_jam ! 2)" by (simp add: ex_jam_def upd_client_def host_shared_new_def stream_default_def MAX_CLIENTS_def)
  moreover have "\<exists>b. slot_packet silent_lib s (soft_clip_buf (mix_of 120 g f S)) 2 hp = [(of_nat 2, b)]" for s g f S
    using en hp(4) by (simp add: slot_packet_def encode_def soft_clip_buf_def MAX_FRAME_BYTES_def)
  moreover have "echo (hp_params hp) = False" using en by simp
  ultimately obtain bytes where sent: "(if active (clients ex_jam ! 2) then slot_packet silent_lib (hs_session_id ex_jam)
        (soft_clip_buf (if echo (hp_params hp) then hp_decoded hp' ! 2
           else mix_of 120 (\<lambda>p. player_gain ex_jam p hp) (player_frame ?x hp') (Pipeline.room ex_jam - {2 + 1}))) 2 hp else [])
      = [(of_nat 2, bytes)]" by presburger
  have "2 \<in> set [0..<MAX_CLIENTS]" using hp(4) by simp
  then have bytes: "(of_nat 2, bytes) \<in> set em" unfolding em set_concat set_map
    by (intro UnionI [OF imageI [OF imageI]]) (assumption, simp only: sent, simp)
  have tx: "length (tx_clients ?tx) = MAX_CLIENTS" "tx_clients ?tx ! 2 = Some (V4 10 5000)"
    by (simp_all add: tx_update_eq tx_init_def MAX_CLIENTS_def)
  have client: "joined ?csh" "cs_session_id ?csh = hs_session_id ex_jam"
    "jb (from_host ?csh) = fst (run jb_step (map (map_jb_event word_of_int) ?es) jb_new)" using ex_jam_ok by simp_all
  let ?st = "\<lparr>s_next = 0, s_newest = - 1, s_frames = (put_frame (- 1) ([1], 0) (\<lambda>_. None))(- 1 := None)\<rparr>"
  have start: "hp_seqs hp ! 2 = seq_new" "hp_clock hp = 0"
    using n by (auto simp: host_pipeline_new_def Let_def MAX_CLIENTS_def split: option.splits)
  have due: "allowed in_window stream_step ?es None" "fst (run stream_step ?es None) = Some ?st"
    "s_frames ?st (s_next ?st) = None" "\<bar>s_newest ?st - s_next ?st\<bar> \<le> 32000" "fst (seq_next (hp_seqs hp ! 2)) = word_of_int (s_next ?st)"
    using start by (simp_all add: MAX_FRAME_BYTES_def put_frame_def seq_new_def)
  obtain csh' rx' o' where rx: "rx_datagram 48000 120 3 4 (V4 10 7000) bytes (RxClient ?csh (V4 10 7000), rx_init)
      = ((RxClient csh' (V4 10 7000), rx'), o')"
    by (cases rule: rx_datagram_cases [of 48000 120 3 4 "V4 10 7000" bytes "RxClient ?csh (V4 10 7000)" rx_init])
      (auto simp: rx_control_eq rx_client_audio_eq case_prod_unfold)
  from mix_reaches_client [OF lib hp f bytes tx client rx due, unfolded start(2)] n f bytes rx show ?thesis by blast
qed

end
